(* ===== verification/Prelude.thy ===== *)
theory Prelude
  imports Complex_Main "HOL-Library.Char_ord" "HOL-Library.List_Lexorder"
    "HOL-Library.Sublist" "HOL-Library.Multiset" "HOL-Library.Word"
begin

text \<open>
  Shared vocabulary of the development: Go strings as byte lists, the functions of Go's
  \<^verbatim>\<open>strings\<close>, \<^verbatim>\<open>strconv\<close>, \<^verbatim>\<open>bytes\<close> and \<^verbatim>\<open>unicode/utf8\<close> packages that the sources call, and
  the generic lemmas on them that the component theories share.

  A Go string is a sequence of bytes; a HOL \<^typ>\<open>char\<close> is a byte, so \<^typ>\<open>string\<close> models it
  exactly and \<^term>\<open>length\<close> is Go's \<^verbatim>\<open>len\<close>. \<^verbatim>\<open>strings.Compare\<close> and the operators on strings are the
  bytewise lexicographic order, which is the order of HOL-Library's \<open>List_Lexorder\<close>.
\<close>

named_theorems go_string \<open>rewriting with the models of the strings package\<close>
named_theorems placeholders \<open>how many value placeholders a rendered SQL fragment holds\<close>
named_theorems lexing \<open>how far the lexer reads into a rendered SQL fragment\<close>

type_synonym bytes = "string"

section \<open>Byte classes\<close>

definition is_lower :: "char \<Rightarrow> bool" where
  "is_lower c \<longleftrightarrow> CHR ''a'' \<le> c \<and> c \<le> CHR ''z''"

definition is_upper :: "char \<Rightarrow> bool" where
  "is_upper c \<longleftrightarrow> CHR ''A'' \<le> c \<and> c \<le> CHR ''Z''"

definition is_digit :: "char \<Rightarrow> bool" where
  "is_digit c \<longleftrightarrow> CHR ''0'' \<le> c \<and> c \<le> CHR ''9''"

definition is_alnum :: "char \<Rightarrow> bool" where
  "is_alnum c \<longleftrightarrow> is_lower c \<or> is_upper c \<or> is_digit c"

abbreviation byte :: "char \<Rightarrow> nat" where
  "byte c \<equiv> of_char c"

text \<open>\<^verbatim>\<open>utf8.RuneSelf\<close>: bytes below it are one-byte characters.\<close>

abbreviation rune_self :: nat where
  "rune_self \<equiv> 128"

definition is_ascii :: "char \<Rightarrow> bool" where
  "is_ascii c \<longleftrightarrow> byte c < rune_self"

text \<open>The ASCII case folding inside \<^verbatim>\<open>strings.ToLower\<close>, \<^verbatim>\<open>ToUpper\<close> and \<^verbatim>\<open>EqualFold\<close>.\<close>

definition lower_byte :: "char \<Rightarrow> char" where
  "lower_byte c = (if is_upper c then char_of (byte c + 32 :: nat) else c)"

definition upper_byte :: "char \<Rightarrow> char" where
  "upper_byte c = (if is_lower c then char_of (byte c - 32 :: nat) else c)"

lemma is_digit_byte: "is_digit c \<longleftrightarrow> 48 \<le> byte c \<and> byte c \<le> (57::nat)"
  by (simp add: is_digit_def less_eq_char_def)

lemma is_lower_byte: "is_lower c \<longleftrightarrow> 97 \<le> byte c \<and> byte c \<le> (122::nat)"
  by (simp add: is_lower_def less_eq_char_def)

lemma is_upper_byte: "is_upper c \<longleftrightarrow> 65 \<le> byte c \<and> byte c \<le> (90::nat)"
  by (simp add: is_upper_def less_eq_char_def)

lemmas byte_class = is_digit_byte is_lower_byte is_upper_byte

lemma char_eq_byte: "c = d \<longleftrightarrow> byte c = (byte d :: nat)"
  by simp

section \<open>The strings package\<close>

text \<open>\<^verbatim>\<open>strings.ToLower\<close> folds an all-ASCII string byte by byte and maps any other string
  rune by rune through the Unicode tables; those tables are the argument \<open>uni\<close>.\<close>

definition to_lower :: "(string \<Rightarrow> string) \<Rightarrow> string \<Rightarrow> string" where
  "to_lower uni s = (if list_all is_ascii s then map lower_byte s else uni s)"

text \<open>\<^verbatim>\<open>strings.ToUpper\<close> and \<^verbatim>\<open>strings.EqualFold\<close>, on strings of ASCII bytes, which is all the
  sources apply them to where the result is used (barewords).\<close>

definition to_upper :: "string \<Rightarrow> string" where
  "to_upper s = map upper_byte s"

definition equal_fold :: "string \<Rightarrow> string \<Rightarrow> bool" where
  "equal_fold s t \<longleftrightarrow> map lower_byte s = map lower_byte t"

text \<open>\<^verbatim>\<open>strings.Cut\<close> at a one-byte separator: what precedes it, what follows it, found.\<close>

fun cut_byte :: "char \<Rightarrow> string \<Rightarrow> string \<times> string \<times> bool" where
  "cut_byte c [] = ([], [], False)"
| "cut_byte c (x # xs) =
     (if x = c then ([], xs, True)
      else (case cut_byte c xs of (a, b, f) \<Rightarrow> (x # a, b, f)))"

text \<open>\<^verbatim>\<open>strings.CutPrefix\<close> and \<^verbatim>\<open>strings.TrimPrefix\<close>.\<close>

definition cut_prefix :: "string \<Rightarrow> string \<Rightarrow> string option" where
  "cut_prefix p s = (if prefix p s then Some (drop (length p) s) else None)"

definition trim_prefix :: "string \<Rightarrow> string \<Rightarrow> string" where
  "trim_prefix p s = (case cut_prefix p s of None \<Rightarrow> s | Some r \<Rightarrow> r)"

definition trim_suffix :: "string \<Rightarrow> string \<Rightarrow> string" where
  "trim_suffix p s = (if suffix p s then take (length s - length p) s else s)"

text \<open>\<^verbatim>\<open>strings.Index\<close>: the offset of the first occurrence.\<close>

fun str_index :: "string \<Rightarrow> string \<Rightarrow> nat option" where
  "str_index sub [] = (if sub = [] then Some 0 else None)"
| "str_index sub (x # xs) =
     (if prefix sub (x # xs) then Some 0 else map_option Suc (str_index sub xs))"

text \<open>\<^verbatim>\<open>strings.Split\<close> at a one-byte separator and \<^verbatim>\<open>strings.Join\<close>.\<close>

fun split_at :: "char \<Rightarrow> string \<Rightarrow> string list" where
  "split_at c [] = [[]]"
| "split_at c (x # xs) =
     (if x = c then [] # split_at c xs
      else (case split_at c xs of [] \<Rightarrow> [[x]] | p # ps \<Rightarrow> (x # p) # ps))"

fun join :: "string \<Rightarrow> string list \<Rightarrow> string" where
  "join sep [] = []"
| "join sep [x] = x"
| "join sep (x # y # ys) = x @ sep @ join sep (y # ys)"

text \<open>\<^verbatim>\<open>strings.Repeat\<close>.\<close>

definition repeat_str :: "string \<Rightarrow> nat \<Rightarrow> string" where
  "repeat_str s n = concat (replicate n s)"

text \<open>\<^verbatim>\<open>strconv.Itoa\<close> / \<^verbatim>\<open>FormatUint(_, 10)\<close>.\<close>

definition digit_char :: "nat \<Rightarrow> char" where
  "digit_char d = char_of (48 + d)"

fun itoa :: "nat \<Rightarrow> string" where
  "itoa n = (if n < 10 then [digit_char n] else itoa (n div 10) @ [digit_char (n mod 10)])"

declare itoa.simps [simp del]

definition itoa_int :: "int \<Rightarrow> string" where
  "itoa_int i = (if i < 0 then ''-'' @ itoa (nat (- i)) else itoa (nat i))"

text \<open>The number a run of digits spells.\<close>

definition digit_val :: "char \<Rightarrow> nat" where
  "digit_val c = byte c - 48"

definition digits_val :: "string \<Rightarrow> nat" where
  "digits_val s = foldl (\<lambda>n c. 10 * n + digit_val c) 0 s"

text \<open>\<^verbatim>\<open>strings.Compare\<close>.\<close>

definition str_compare :: "string \<Rightarrow> string \<Rightarrow> int" where
  "str_compare a b = (if a < b then - 1 else if a = b then 0 else 1)"

section \<open>Lemmas on the strings package\<close>

lemma digit_val_char [simp]: "d < 10 \<Longrightarrow> digit_val (digit_char d) = d"
  by (simp add: digit_val_def digit_char_def)

lemma is_digit_digit_char [simp]: "d < 10 \<Longrightarrow> is_digit (digit_char d)"
  by (simp add: is_digit_byte digit_char_def)

lemma digit_char_val [simp]: "is_digit c \<Longrightarrow> digit_char (digit_val c) = c"
  by (simp add: is_digit_byte digit_char_def digit_val_def)

lemma digit_val_less: "is_digit c \<Longrightarrow> digit_val c < 10"
  unfolding is_digit_byte digit_val_def by arith

lemma digits_val_Nil [simp]: "digits_val [] = 0"
  by (simp add: digits_val_def)

lemma digits_val_snoc [simp]: "digits_val (s @ [c]) = 10 * digits_val s + digit_val c"
  by (simp add: digits_val_def)

lemma digits_val_append: "digits_val (s @ t) = digits_val s * 10 ^ length t + digits_val t"
proof (induction t rule: rev_induct)
  case Nil
  then show ?case by simp
next
  case (snoc c t)
  then show ?case
    by (simp add: append_assoc [symmetric] algebra_simps del: append_assoc)
qed

lemma digits_val_Cons: "digits_val (c # t) = digit_val c * 10 ^ length t + digits_val t"
  using digits_val_append [of "[c]" t] by (simp add: digits_val_def)

lemma digits_val_bound: "list_all is_digit s \<Longrightarrow> digits_val s < 10 ^ length s"
proof (induction s rule: rev_induct)
  case Nil
  then show ?case by simp
next
  case (snoc c s)
  then have "digits_val s < 10 ^ length s" and "digit_val c < 10"
    by (auto simp: digit_val_less)
  then show ?case by simp
qed

lemma digits_val_itoa [simp]: "digits_val (itoa n) = n"
proof (induction n rule: itoa.induct)
  case (1 n)
  then show ?case
    by (cases "n < 10") (auto simp: itoa.simps [of n] digits_val_Cons)
qed

lemma itoa_digits [simp]: "list_all is_digit (itoa n)"
proof (induction n rule: itoa.induct)
  case (1 n)
  then show ?case by (cases "n < 10") (auto simp: itoa.simps [of n])
qed

lemma itoa_not_Nil [simp]: "itoa n \<noteq> []"
  by (subst itoa.simps) simp

lemma itoa_inject [simp]: "itoa m = itoa n \<longleftrightarrow> m = n"
  by (metis digits_val_itoa)

lemma itoa_digit_set: "c \<in> set (itoa n) \<Longrightarrow> is_digit c"
  using itoa_digits [of n] by (simp add: list_all_iff)

lemma cut_no_sep: "c \<notin> set s \<Longrightarrow> cut_byte c s = (s, [], False)"
  by (induction s) auto

lemma cut_append: "c \<notin> set a \<Longrightarrow> cut_byte c (a @ c # b) = (a, b, True)"
  by (induction a) auto

lemma cut_cases:
  obtains (found) a b where "s = a @ c # b" "c \<notin> set a" "cut_byte c s = (a, b, True)"
  | (absent) "c \<notin> set s" "cut_byte c s = (s, [], False)"
proof (cases "c \<in> set s")
  case True
  then obtain a b where "s = a @ c # b" "c \<notin> set a" using split_list_first by metis
  then show ?thesis using found cut_append by blast
next
  case False
  then show ?thesis using absent cut_no_sep by blast
qed

lemma append_first_sep:
  fixes c :: char
  shows "c \<notin> set a \<Longrightarrow> c \<notin> set a' \<Longrightarrow> a @ c # b = a' @ c # b' \<longleftrightarrow> a = a' \<and> b = b'"
proof (induction a arbitrary: a')
  case Nil
  then show ?case by (cases a') auto
next
  case (Cons x a)
  then show ?case by (cases a') auto
qed

lemma cut_found: "cut_byte c s = (a, b, True) \<longleftrightarrow> s = a @ c # b \<and> c \<notin> set a"
  by (rule cut_cases [of s c]) (auto simp: append_first_sep)

lemma cut_not_found: "cut_byte c s = (a, b, False) \<longleftrightarrow> a = s \<and> b = [] \<and> c \<notin> set s"
  by (rule cut_cases [of s c]) auto

lemma split_at_not_Nil [simp]: "split_at c s \<noteq> []"
  by (induction s) (auto split: list.splits)

lemma split_at_no_sep: "c \<notin> set s \<Longrightarrow> split_at c s = [s]"
  by (induction s) auto

lemma split_at_append: "c \<notin> set a \<Longrightarrow> split_at c (a @ c # b) = a # split_at c b"
  by (induction a) auto

lemma split_at_join:
  "xs \<noteq> [] \<Longrightarrow> \<forall>x \<in> set xs. c \<notin> set x \<Longrightarrow> split_at c (join [c] xs) = xs"
  by (induction "[c]" xs rule: join.induct) (auto simp: split_at_append split_at_no_sep)

lemma join_split_at: "join [c] (split_at c s) = s"
proof (induction s)
  case Nil
  then show ?case by simp
next
  case (Cons x s)
  obtain p ps where "split_at c s = p # ps" by (cases "split_at c s") auto
  with Cons show ?case by (cases ps) auto
qed

lemma set_join: "c \<in> set (join sep xs) \<Longrightarrow> c \<in> set sep \<or> (\<exists>x \<in> set xs. c \<in> set x)"
  by (induction sep xs rule: join.induct) auto

lemma cut_prefix_Some [simp]: "cut_prefix p s = Some r \<longleftrightarrow> s = p @ r"
  by (auto simp: cut_prefix_def prefix_def)

lemma cut_prefix_append [simp]: "cut_prefix p (p @ r) = Some r"
  by simp

lemma trim_prefix_append [simp]: "trim_prefix p (p @ r) = r"
  by (simp add: trim_prefix_def)

lemma str_compare_eq_0 [simp]: "str_compare a b = 0 \<longleftrightarrow> a = b"
  by (simp add: str_compare_def)

section \<open>UTF-8\<close>

text \<open>\<^verbatim>\<open>utf8.DecodeRuneInString\<close>: the first rune and its width; \<^verbatim>\<open>RuneError\<close> (U+FFFD) with width 1 for
  an invalid encoding and width 0 for the empty string. \<open>utf8_first\<close> is the table of leading
  bytes: the width they announce and the range of the byte after them.\<close>

abbreviation rune_error :: nat where
  "rune_error \<equiv> 0xFFFD"

definition utf8_first :: "nat \<Rightarrow> (nat \<times> nat \<times> nat) option" where
  "utf8_first b =
     (if 0xC2 \<le> b \<and> b \<le> 0xDF then Some (2, 0x80, 0xBF)
      else if b = 0xE0 then Some (3, 0xA0, 0xBF)
      else if b = 0xED then Some (3, 0x80, 0x9F)
      else if 0xE1 \<le> b \<and> b \<le> 0xEF then Some (3, 0x80, 0xBF)
      else if b = 0xF0 then Some (4, 0x90, 0xBF)
      else if 0xF1 \<le> b \<and> b \<le> 0xF3 then Some (4, 0x80, 0xBF)
      else if b = 0xF4 then Some (4, 0x80, 0x8F)
      else None)"

definition utf8_cont :: "nat \<Rightarrow> bool" where
  "utf8_cont b \<longleftrightarrow> 0x80 \<le> b \<and> b \<le> 0xBF"

fun decode_rune :: "string \<Rightarrow> nat \<times> nat" where
  "decode_rune [] = (rune_error, 0)"
| "decode_rune (c # cs) =
     (if byte c < rune_self then (byte c, 1)
      else case (utf8_first (byte c), map byte cs) of
        (Some (sz, lo, hi), b1 # bs) \<Rightarrow>
          (if length cs + 1 < sz \<or> b1 < lo \<or> hi < b1 then (rune_error, 1)
           else if sz = 2 then ((byte c mod 32) * 64 + b1 mod 64, 2)
           else case bs of
             b2 # bs' \<Rightarrow>
               (if \<not> utf8_cont b2 then (rune_error, 1)
                else if sz = 3 then ((byte c mod 16) * 4096 + (b1 mod 64) * 64 + b2 mod 64, 3)
                else case bs' of
                  b3 # _ \<Rightarrow>
                    (if \<not> utf8_cont b3 then (rune_error, 1)
                     else ((byte c mod 8) * 262144 + (b1 mod 64) * 4096 + (b2 mod 64) * 64
                            + b3 mod 64, 4))
                | [] \<Rightarrow> (rune_error, 1))
           | [] \<Rightarrow> (rune_error, 1))
      | _ \<Rightarrow> (rune_error, 1))"

lemma decode_rune_width: "s \<noteq> [] \<Longrightarrow> 0 < snd (decode_rune s) \<and> snd (decode_rune s) \<le> length s"
  by (cases s rule: decode_rune.cases) (auto simp: Let_def map_eq_Cons_conv split: option.splits list.splits)

section \<open>Counting bytes\<close>

text \<open>The positional binder counts the bytes \<open>?\<close> of a query text.\<close>

abbreviation qmarks :: "string \<Rightarrow> nat" where
  "qmarks s \<equiv> count_list s (CHR ''?'')"

lemma count_list_append_str [placeholders]: "qmarks (s @ t) = qmarks s + qmarks t"
  by (induction s) auto

lemma qmarks_join [placeholders]:
  "qmarks sep = 0 \<Longrightarrow> qmarks (join sep xs) = sum_list (map qmarks xs)"
  by (induction sep xs rule: join.induct) (simp_all add: placeholders)

lemma qmarks_trim_suffix [placeholders]: "qmarks p = 0 \<Longrightarrow> qmarks (trim_suffix p s) = qmarks s"
  by (auto simp: trim_suffix_def suffix_def placeholders)

lemma qmarks_repeat [placeholders]: "qmarks (repeat_str s n) = n * qmarks s"
  by (induction n) (auto simp: repeat_str_def placeholders)

lemma qmarks_digits: "list_all is_digit s \<Longrightarrow> qmarks s = 0"
  by (induction s) (auto simp: is_digit_def)

lemma qmarks_itoa [placeholders]: "qmarks (itoa n) = 0"
  by (rule qmarks_digits) simp

section \<open>Unicode white space\<close>

text \<open>\<^verbatim>\<open>strings.TrimSpace\<close> removes white space runes at both ends: the ASCII ones and those of the
  Unicode property White_Space, by their UTF-8 encodings.\<close>

definition space_runes :: "string list" where
  "space_runes =
     [[CHR 0x09], [CHR 0x0A], [CHR 0x0B], [CHR 0x0C], [CHR 0x0D], [CHR 0x20],
      [CHR 0xC2, CHR 0x85], [CHR 0xC2, CHR 0xA0], [CHR 0xE1, CHR 0x9A, CHR 0x80],
      [CHR 0xE2, CHR 0x80, CHR 0x80], [CHR 0xE2, CHR 0x80, CHR 0x81], [CHR 0xE2, CHR 0x80, CHR 0x82],
      [CHR 0xE2, CHR 0x80, CHR 0x83], [CHR 0xE2, CHR 0x80, CHR 0x84], [CHR 0xE2, CHR 0x80, CHR 0x85],
      [CHR 0xE2, CHR 0x80, CHR 0x86], [CHR 0xE2, CHR 0x80, CHR 0x87], [CHR 0xE2, CHR 0x80, CHR 0x88],
      [CHR 0xE2, CHR 0x80, CHR 0x89], [CHR 0xE2, CHR 0x80, CHR 0x8A], [CHR 0xE2, CHR 0x80, CHR 0xA8],
      [CHR 0xE2, CHR 0x80, CHR 0xA9], [CHR 0xE2, CHR 0x80, CHR 0xAF], [CHR 0xE2, CHR 0x81, CHR 0x9F],
      [CHR 0xE3, CHR 0x80, CHR 0x80]]"

lemma space_rune_length:
  assumes "List.find P space_runes = Some e"
  shows "P e" and "0 < length e"
proof -
  have "list_all (\<lambda>e. 0 < length e) space_runes" by (simp add: space_runes_def)
  with assms show "P e" "0 < length e" by (auto simp: find_Some_iff list_all_length)
qed

function trim_left_space :: "string \<Rightarrow> string" where
  "trim_left_space s =
     (case List.find (\<lambda>e. prefix e s) space_runes of
        Some e \<Rightarrow> trim_left_space (drop (length e) s)
      | None \<Rightarrow> s)"
  by pat_completeness auto
termination
proof (relation "measure length", goal_cases)
  case (2 s e)
  then have "prefix e s" "0 < length e" by (auto dest: space_rune_length)
  then show ?case by (cases s) auto
qed simp

function trim_right_space :: "string \<Rightarrow> string" where
  "trim_right_space s =
     (case List.find (\<lambda>e. suffix e s) space_runes of
        Some e \<Rightarrow> trim_right_space (take (length s - length e) s)
      | None \<Rightarrow> s)"
  by pat_completeness auto
termination
proof (relation "measure length", goal_cases)
  case (2 s e)
  then have "suffix e s" "0 < length e" by (auto dest: space_rune_length)
  then show ?case by (cases s) auto
qed simp

declare trim_left_space.simps [simp del] trim_right_space.simps [simp del]

definition trim_space :: "string \<Rightarrow> string" where
  "trim_space s = trim_right_space (trim_left_space s)"

section \<open>Machine integers\<close>

text \<open>The value an integer expression has in an \<^verbatim>\<open>int64\<close>: two's complement wrap-around.\<close>

definition wrap64 :: "int \<Rightarrow> int" where
  "wrap64 x = (x + 2 ^ 63) mod 2 ^ 64 - 2 ^ 63"

lemma wrap64_id: "- (2 ^ 63) \<le> x \<Longrightarrow> x < 2 ^ 63 \<Longrightarrow> wrap64 x = x"
  by (simp add: wrap64_def)

lemma wrap64_range: "- (2 ^ 63) \<le> wrap64 x \<and> wrap64 x < 2 ^ 63"
  using pos_mod_bound [of "2 ^ 64" "x + 2 ^ 63"] pos_mod_sign [of "2 ^ 64" "x + 2 ^ 63"]
  by (simp add: wrap64_def)

section \<open>Big-endian numbers\<close>

text \<open>\<^verbatim>\<open>binary.BigEndian\<close>: \<open>n\<close> bytes of a number, and back.\<close>

fun put_be :: "nat \<Rightarrow> nat \<Rightarrow> bytes" where
  "put_be 0 w = []"
| "put_be (Suc n) w = char_of (w div 256 ^ n mod 256) # put_be n w"

definition get_be :: "bytes \<Rightarrow> nat" where
  "get_be b = foldl (\<lambda>n c. 256 * n + byte c) 0 b"

lemma length_put_be [simp]: "length (put_be n w) = n"
  by (induction n) auto

lemma get_be_Cons: "get_be (c # b) = byte c * 256 ^ length b + get_be b"
proof -
  have "foldl (\<lambda>n c. 256 * n + byte c) a b = a * 256 ^ length b + foldl (\<lambda>n c. 256 * n + byte c) 0 b" for a
  proof (induction b arbitrary: a)
    case (Cons x b)
    show ?case unfolding foldl_Cons by (subst Cons, subst (2) Cons) (simp add: algebra_simps)
  qed simp
  from this [of "byte c"] show ?thesis by (simp add: get_be_def)
qed

lemma get_put_be: "get_be (put_be n w) = w mod 256 ^ n"
proof (induction n)
  case 0
  then show ?case by (simp add: get_be_def)
next
  case (Suc n)
  then show ?case using mod_mult2_eq [of w "256 ^ n" 256] by (simp add: get_be_Cons mult.commute)
qed

end
