(* ===== verification/Chsql.thy ===== *)
theory Chsql
  imports Prelude
begin

text \<open>
  The ClickHouse SQL helpers of \<^verbatim>\<open>pkg/chsql\<close>: identifier quoting (\<^verbatim>\<open>chsql.go\<close>) and the reading of SQL
  text as ClickHouse's lexer reads it (\<^verbatim>\<open>scan.go\<close>), which the write classifier \<open>IsMutation\<close> and the
  span finder \<open>Opaque\<close> are built on.

  The scanners keep the source's interface, a text and an index into it. A loop of the source that
  advances an index over the text is a structural recursion over the bytes that are left; it returns
  how many bytes it read, and the scanner adds that to the index.
\<close>

section \<open>Quoting (\<^verbatim>\<open>chsql.go\<close>)\<close>

abbreviation backslash :: char where "backslash \<equiv> CHR 0x5C"
abbreviation backtick :: char where "backtick \<equiv> CHR 0x60"
abbreviation squote :: char where "squote \<equiv> CHR 0x27"
abbreviation dquote :: char where "dquote \<equiv> CHR 0x22"

text \<open>\<^verbatim>\<open>identEscaper\<close>: one left-to-right pass, so no replacement re-reads another's output.\<close>

definition ident_escape :: "char \<Rightarrow> string" where
  "ident_escape c =
     (if c = backslash then [backslash, backslash]
      else if c = backtick then [backslash, backtick]
      else [c])"

definition QuoteIdent :: "string \<Rightarrow> string" where
  "QuoteIdent name = [backtick] @ concat (map ident_escape name) @ [backtick]"

definition BindUnsafe :: "string \<Rightarrow> bool" where
  "BindUnsafe name \<longleftrightarrow> CHR ''?'' \<in> set name"

section \<open>Words and numbers (\<^verbatim>\<open>scan.go\<close>)\<close>

definition mutationVerbs :: "string set" where
  "mutationVerbs =
     {''INSERT'', ''UPDATE'', ''DELETE'', ''TRUNCATE'', ''DROP'', ''ALTER'', ''CREATE'', ''RENAME'',
      ''EXCHANGE'', ''OPTIMIZE'', ''REPLACE'', ''GRANT'', ''REVOKE'', ''ATTACH'', ''DETACH'',
      ''KILL'', ''SET'', ''USE'', ''SYSTEM''}"

definition isDigit :: "char \<Rightarrow> bool" where
  "isDigit c \<longleftrightarrow> CHR ''0'' \<le> c \<and> c \<le> CHR ''9''"

definition isWordByte :: "char \<Rightarrow> bool" where
  "isWordByte c \<longleftrightarrow> (CHR ''A'' \<le> c \<and> c \<le> CHR ''Z'') \<or> (CHR ''a'' \<le> c \<and> c \<le> CHR ''z'') \<or>
     isDigit c \<or> c = CHR ''_''"

definition SkipWord :: "string \<Rightarrow> nat \<Rightarrow> nat" where
  "SkipWord s i = i + length (takeWhile (\<lambda>c. isWordByte c \<or> c = CHR ''$'') (drop i s))"

text \<open>\<open>prev\<close> is the byte before the ones left: a \<open>_\<close> counts only between two digits.\<close>

fun digits_len :: "char option \<Rightarrow> string \<Rightarrow> nat" where
  "digits_len prev [] = 0"
| "digits_len prev (c # cs) =
     (if isDigit c \<or>
         c = CHR ''_'' \<and> (case prev of Some d \<Rightarrow> isDigit d | None \<Rightarrow> False) \<and>
           (case cs of d # _ \<Rightarrow> isDigit d | [] \<Rightarrow> False)
      then Suc (digits_len (Some c) cs) else 0)"

definition skipDigits :: "string \<Rightarrow> nat \<Rightarrow> nat" where
  "skipDigits s i = i + digits_len (if 0 < i then Some (s ! (i - 1)) else None) (drop i s)"

definition skipDotNumber :: "string \<Rightarrow> nat \<Rightarrow> nat" where
  "skipDotNumber s i =
     (let i = skipDigits s (i + 1) in
      if i < length s \<and> (s ! i = CHR ''e'' \<or> s ! i = CHR ''E'')
      then (let i = i + 1;
                i = (if i < length s \<and> (s ! i = CHR ''+'' \<or> s ! i = CHR ''-'') then i + 1 else i)
            in skipDigits s i)
      else i)"

section \<open>Quoted tokens and heredocs\<close>

text \<open>The bytes a token quoted by \<open>q\<close> runs over after its opening quote.\<close>

fun quoted_len :: "char \<Rightarrow> string \<Rightarrow> nat" where
  "quoted_len q [] = 0"
| "quoted_len q [c] = 1"
| "quoted_len q (c # d # cs) =
     (if c = backslash then Suc (Suc (quoted_len q cs))
      else if c = q then (if d = q then Suc (Suc (quoted_len q cs)) else 1)
      else Suc (quoted_len q (d # cs)))"

definition skipQuoted :: "string \<Rightarrow> nat \<Rightarrow> nat" where
  "skipQuoted s i = i + 1 + quoted_len (s ! i) (drop (i + 1) s)"

definition skipHeredoc :: "string \<Rightarrow> nat \<Rightarrow> nat" where
  "skipHeredoc s i =
     (let j = i + 1 + length (takeWhile isWordByte (drop (i + 1) s)) in
      if length s \<le> j \<or> s ! j \<noteq> CHR ''$'' then i
      else (let tag = take (j + 1 - i) (drop i s) in
            case str_index tag (drop (j + 1) s) of
              Some k \<Rightarrow> j + 1 + k + length tag
            | None \<Rightarrow> i))"

definition curly_closer :: "string \<Rightarrow> string option" where
  "curly_closer s =
     (if prefix [CHR 0xE2, CHR 0x80, CHR 0x98] s then Some [CHR 0xE2, CHR 0x80, CHR 0x99]
      else if prefix [CHR 0xE2, CHR 0x80, CHR 0x9C] s then Some [CHR 0xE2, CHR 0x80, CHR 0x9D]
      else None)"

definition skipCurlyQuoted :: "string \<Rightarrow> nat \<Rightarrow> nat" where
  "skipCurlyQuoted s i =
     (case curly_closer (drop i s) of
        None \<Rightarrow> i
      | Some closer \<Rightarrow>
          (let start = i + length closer in
           case str_index closer (drop start s) of
             Some k \<Rightarrow> start + k + length closer
           | None \<Rightarrow> length s))"

section \<open>Whitespace and comments\<close>

definition sqlSpaceLen :: "string \<Rightarrow> nat \<Rightarrow> nat" where
  "sqlSpaceLen s i =
     (if byte (s ! i) \<in> {0x20, 0x09, 0x0A, 0x0B, 0x0C, 0x0D :: nat} then 1
      else if byte (s ! i) < rune_self then 0
      else case decode_rune (drop i s) of (r, n) \<Rightarrow>
        (if r = 0x85 \<or> r = 0xA0 \<or> r = 0x180E \<or> (0x2000 \<le> r \<and> r \<le> 0x200D) \<or>
            r = 0x2028 \<or> r = 0x2029 \<or> r = 0x202F \<or> r = 0x205F \<or> r = 0x2060 \<or>
            r = 0x3000 \<or> r = 0xFEFF
         then n else 0))"

text \<open>The bytes left of a block comment, from depth \<open>depth\<close>: ClickHouse nests them, and an unclosed
  one runs to the end.\<close>

fun block_len :: "int \<Rightarrow> string \<Rightarrow> nat" where
  "block_len depth (a # b # cs) =
     (if a = CHR ''/'' \<and> b = CHR ''*'' then Suc (Suc (block_len (depth + 1) cs))
      else if a = CHR ''*'' \<and> b = CHR ''/'' then
        (if depth - 1 = 0 then 2 else Suc (Suc (block_len (depth - 1) cs)))
      else Suc (block_len depth (b # cs)))"
| "block_len depth cs = length cs"

definition line_len :: "string \<Rightarrow> nat" where
  "line_len s = (case str_index [CHR 0x0A] s of Some j \<Rightarrow> j + 1 | None \<Rightarrow> length s)"

definition skipComment :: "string \<Rightarrow> nat \<Rightarrow> nat" where
  "skipComment s i =
     (if prefix ''--'' (drop i s) \<or> prefix ''//'' (drop i s) \<or> s ! i = CHR ''#''
      then i + line_len (drop i s)
      else if prefix ''/*'' (drop i s) then i + block_len 0 (drop i s)
      else i)"

lemma skipComment_ge: "i \<le> skipComment s i"
  by (simp add: skipComment_def)

lemma line_len_pos: "s \<noteq> [] \<Longrightarrow> 0 < line_len s"
  by (auto simp: line_len_def split: option.splits)

lemma block_len_pos: "s \<noteq> [] \<Longrightarrow> 0 < block_len d s"
  by (cases s rule: list.exhaust [case_product list.exhaust [of "tl s"]]) (auto split: if_splits)

function skipSpaceAndComments :: "string \<Rightarrow> nat \<Rightarrow> nat" where
  "skipSpaceAndComments s i =
     (if i < length s then
        (let n = sqlSpaceLen s i in
         if 0 < n then skipSpaceAndComments s (i + n)
         else (let j = skipComment s i in
               if j = i then i else skipSpaceAndComments s j))
      else i)"
  by pat_completeness auto
termination
  using skipComment_ge
  by (relation "measure (\<lambda>(s, i). length s - i)") (auto simp: le_neq_implies_less diff_less_mono2)

declare skipSpaceAndComments.simps [simp del]

definition StripLeadingComments :: "string \<Rightarrow> string" where
  "StripLeadingComments sql = drop (skipSpaceAndComments sql 0) sql"

section \<open>The write classifier\<close>

definition skipName :: "string \<Rightarrow> nat \<Rightarrow> nat" where
  "skipName s i =
     (if length s \<le> i then i
      else if s ! i \<in> {squote, dquote, backtick} then skipQuoted s i
      else if s ! i = CHR 0xE2 then skipCurlyQuoted s i
      else if s ! i = CHR ''$'' \<and> skipHeredoc s i > i then skipHeredoc s i
      else SkipWord s i)"

text \<open>A slice \<^verbatim>\<open>s[i:j]\<close>.\<close>

definition slice :: "string \<Rightarrow> nat \<Rightarrow> nat \<Rightarrow> string" where
  "slice s i j = take (j - i) (drop i s)"

definition SkipExecuteAs :: "string \<Rightarrow> string \<times> bool" where
  "SkipExecuteAs s =
     (let i = SkipWord s 0 in
      if \<not> equal_fold (slice s 0 i) ''EXECUTE'' then (s, False)
      else (let i = skipSpaceAndComments s i; j = SkipWord s i in
            if \<not> equal_fold (slice s i j) ''AS'' then (s, False)
            else (let i = skipSpaceAndComments s (skipName s (skipSpaceAndComments s j));
                      i = (if i < length s \<and> s ! i = CHR ''@''
                           then skipSpaceAndComments s (skipName s (skipSpaceAndComments s (i + 1)))
                           else i)
                  in (drop i s, True))))"

text \<open>What starts at index \<open>i\<close>, in the order the two scanning loops test it.\<close>

definition opens_comment :: "string \<Rightarrow> nat \<Rightarrow> bool" where
  "opens_comment s i \<longleftrightarrow>
     s ! i = CHR ''-'' \<and> i + 1 < length s \<and> s ! (i + 1) = CHR ''-'' \<or>
     s ! i = CHR ''#'' \<or>
     s ! i = CHR ''/'' \<and> i + 1 < length s \<and> s ! (i + 1) \<in> {CHR ''*'', CHR ''/''}"

definition opens_dot_number :: "string \<Rightarrow> nat \<Rightarrow> bool" where
  "opens_dot_number s i \<longleftrightarrow> s ! i = CHR ''.'' \<and> i + 1 < length s \<and> isDigit (s ! (i + 1))"

lemma SkipWord_ge: "i \<le> SkipWord s i"
  by (simp add: SkipWord_def)

lemma SkipWord_gt: "i < length s \<Longrightarrow> isWordByte (s ! i) \<Longrightarrow> i < SkipWord s i"
  by (simp add: SkipWord_def Cons_nth_drop_Suc [symmetric])

lemma SkipWord_Suc_gt: "i < SkipWord s (Suc i)"
  using SkipWord_ge [of "Suc i" s] by simp

lemma skipDigits_ge: "i \<le> skipDigits s i"
  by (simp add: skipDigits_def)

lemma skipDotNumber_gt: "i < skipDotNumber s i"
  using skipDigits_ge [of "i + 1" s] skipDigits_ge [of "skipDigits s (i + 1) + 1" s]
    skipDigits_ge [of "skipDigits s (i + 1) + 1 + 1" s]
  by (simp add: skipDotNumber_def Let_def)

lemma skipQuoted_gt: "i < skipQuoted s i"
  by (simp add: skipQuoted_def)

lemma opens_comment_drop:
  "i < length s \<Longrightarrow> opens_comment s i \<Longrightarrow> i < skipComment s i"
  by (cases "drop i s" rule: list.exhaust [case_product list.exhaust [of "tl (drop i s)"]])
    (auto simp: opens_comment_def skipComment_def line_len_pos block_len_pos
       Cons_nth_drop_Suc [symmetric])

lemmas scan_advances = SkipWord_gt SkipWord_Suc_gt skipDotNumber_gt skipQuoted_gt opens_comment_drop

function insert_into_from :: "string \<Rightarrow> nat \<Rightarrow> nat \<Rightarrow> bool" where
  "insert_into_from s i depth =
     (if i < length s then
        (let c = s ! i in
         if c = CHR ''('' then insert_into_from s (i + 1) (depth + 1)
         else if c = CHR '')'' then insert_into_from s (i + 1) (if depth > 0 then depth - 1 else depth)
         else if c = squote \<or> c = dquote \<or> c = backtick then insert_into_from s (skipQuoted s i) depth
         else if c = CHR 0xE2 then
           insert_into_from s (if skipCurlyQuoted s i > i then skipCurlyQuoted s i else i + 1) depth
         else if c = CHR ''$'' then
           insert_into_from s (if skipHeredoc s i > i then skipHeredoc s i else SkipWord s (i + 1)) depth
         else if opens_dot_number s i then insert_into_from s (skipDotNumber s i) depth
         else if isWordByte c then
           (let start = i; i = SkipWord s i;
                next = skipSpaceAndComments s i in
            if depth = 0 \<and> equal_fold (slice s start i) ''INSERT'' \<and>
               equal_fold (slice s next (SkipWord s next)) ''INTO''
            then True
            else insert_into_from s i depth)
         else if opens_comment s i then insert_into_from s (skipComment s i) depth
         else insert_into_from s (i + 1) depth)
      else False)"
  by pat_completeness auto
termination
proof (relation "measure (\<lambda>(s, i, d). length s - i)", goal_cases)
  case 1
  then show ?case by simp
qed (auto simp: scan_advances intro!: diff_less_mono2)

declare insert_into_from.simps [simp del]

definition hasTopLevelInsertInto :: "string \<Rightarrow> bool" where
  "hasTopLevelInsertInto s = insert_into_from s 0 0"

definition IsMutation :: "string \<Rightarrow> bool" where
  "IsMutation sql =
     (let s = StripLeadingComments sql; (rest, ok) = SkipExecuteAs s in
      if ok \<and> (rest = [] \<or> hd rest = CHR '';'') then True
      else (let s = (if ok then rest else s); end = SkipWord s 0 in
            if end = 0 then False
            else (let first = to_upper (take end s) in
                  if first \<noteq> ''WITH'' then first \<in> mutationVerbs
                  else hasTopLevelInsertInto (drop end s))))"

section \<open>Opaque spans\<close>

record Span =
  Start :: nat
  End :: nat
  Comment :: bool

function opaque_from :: "string \<Rightarrow> nat \<Rightarrow> Span list" where
  "opaque_from sql i =
     (if i < length sql then
        (let c = sql ! i in
         if c = squote \<or> c = dquote \<or> c = backtick then
           (let j = skipQuoted sql i in
            \<lparr>Start = i, End = j, Comment = False\<rparr> # opaque_from sql j)
         else if c = CHR 0xE2 then
           (let j = skipCurlyQuoted sql i in
            if j > i then \<lparr>Start = i, End = j, Comment = False\<rparr> # opaque_from sql j
            else opaque_from sql (i + 1))
         else if c = CHR ''$'' then
           (let j = skipHeredoc sql i in
            if j > i then \<lparr>Start = i, End = j, Comment = False\<rparr> # opaque_from sql j
            else opaque_from sql (SkipWord sql (i + 1)))
         else if opens_comment sql i then
           (let j = skipComment sql i in
            \<lparr>Start = i, End = j, Comment = True\<rparr> # opaque_from sql j)
         else if opens_dot_number sql i then opaque_from sql (skipDotNumber sql i)
         else if isWordByte c then opaque_from sql (SkipWord sql i)
         else opaque_from sql (i + 1))
      else [])"
  by pat_completeness auto
termination
proof (relation "measure (\<lambda>(s, i). length s - i)", goal_cases)
  case 1
  then show ?case by simp
qed (auto simp: scan_advances intro!: diff_less_mono2)

declare opaque_from.simps [simp del]

definition Opaque :: "string \<Rightarrow> Span list" where
  "Opaque sql = opaque_from sql 0"

section \<open>Scanners stay inside the text\<close>

lemma str_index_bound: "str_index sub s = Some k \<Longrightarrow> k + length sub \<le> length s"
  by (induction s arbitrary: k) (auto split: if_splits dest!: prefix_length_le)

lemma str_index_byte: "c \<notin> set a \<Longrightarrow> str_index [c] (a @ c # b) = Some (length a)"
  by (induction a) auto

lemma quoted_len_bound: "quoted_len q s \<le> length s"
  by (induction q s rule: quoted_len.induct) auto

lemma skipQuoted_bound: "i < length s \<Longrightarrow> skipQuoted s i \<le> length s"
  using quoted_len_bound [of "s ! i" "drop (i + 1) s"] by (simp add: skipQuoted_def)

lemma takeWhile_bound: "i \<le> length s \<Longrightarrow> i + length (takeWhile P (drop i s)) \<le> length s"
  using length_takeWhile_le [of P "drop i s"] by simp

lemma skipHeredoc_bound: "i < length s \<Longrightarrow> skipHeredoc s i \<le> length s"
  by (auto simp: skipHeredoc_def Let_def split: option.splits dest!: str_index_bound)

lemma skipCurlyQuoted_bound: "i < length s \<Longrightarrow> skipCurlyQuoted s i \<le> length s"
  by (auto simp: skipCurlyQuoted_def Let_def split: option.splits dest!: str_index_bound)

lemma line_len_bound: "line_len s \<le> length s"
  by (auto simp: line_len_def split: option.splits dest: str_index_bound)

lemma block_len_bound: "block_len d s \<le> length s"
  by (induction d s rule: block_len.induct) auto

lemma skipComment_bound: "i < length s \<Longrightarrow> skipComment s i \<le> length s"
  using line_len_bound [of "drop i s"] block_len_bound [of 0 "drop i s"]
  by (auto simp: skipComment_def)

lemmas scan_bounds = skipQuoted_bound skipHeredoc_bound skipCurlyQuoted_bound skipComment_bound

section \<open>Quoted renderers\<close>

text \<open>
  The interface of a function that writes a value between two quote bytes: what it writes for one
  byte of the value is stepped over whole by the lexer's \<open>quoted_len\<close>, so no byte of the value can
  close the token, and it can be read back. \<open>QuoteIdent\<close> implements it with backticks here, the
  literal binder of the pipes with single quotes.
\<close>

locale quoted_renderer =
  fixes q :: char
    and esc :: "char \<Rightarrow> string"
    and render :: "string \<Rightarrow> string"
  assumes not_backslash: "q \<noteq> backslash"
    and esc_step: "quoted_len q (esc c @ t) = length (esc c) + quoted_len q t"
    and esc_prefix_free: "esc c @ t = esc d @ t' \<Longrightarrow> c = d"
    and render_eq: "render s = [q] @ concat (map esc s) @ [q]"
begin

lemma body_step: "quoted_len q (concat (map esc s) @ t) = length (concat (map esc s)) + quoted_len q t"
  by (induction s) (simp_all add: esc_step)

lemma close_step: "rest = [] \<or> hd rest \<noteq> q \<Longrightarrow> quoted_len q (q # rest) = 1"
  using not_backslash by (cases rest) auto

lemma one_token:
  assumes "rest = [] \<or> hd rest \<noteq> q"
  shows "skipQuoted (pre @ render s @ rest) (length pre) = length pre + length (render s)"
  using assms by (simp add: skipQuoted_def render_eq body_step close_step nth_append)

lemma esc_not_Nil: "esc c \<noteq> []"
proof
  assume "esc c = []"
  then have "esc c @ esc d = esc d @ []" for d by simp
  then have "c = d" for d using esc_prefix_free by blast
  then have "CHR ''a'' = CHR ''b''" by metis
  then show False by simp
qed

lemma body_inject: "concat (map esc s) = concat (map esc t) \<Longrightarrow> s = t"
proof (induction s arbitrary: t)
  case Nil
  then show ?case by (cases t) (auto simp: esc_not_Nil)
next
  case (Cons c s)
  then obtain d t' where t: "t = d # t'" by (cases t) (auto simp: esc_not_Nil)
  with Cons.prems have "c = d" using esc_prefix_free by auto
  with Cons t show ?case by auto
qed

lemma render_prefix_free:
  assumes "render s @ r = render t @ r'" "r = [] \<or> hd r \<noteq> q" "r' = [] \<or> hd r' \<noteq> q"
  shows "s = t \<and> r = r'"
proof -
  have "length (render s) = length (render t)"
    using one_token [OF assms(2), of "[]" s] one_token [OF assms(3), of "[]" t] assms(1) by simp
  with assms(1) have "render s = render t" "r = r'" by auto
  then show ?thesis using body_inject by (auto simp: render_eq)
qed

end

lemma quoted_len_plain:
  "c \<noteq> backslash \<Longrightarrow> c \<noteq> q \<Longrightarrow> quoted_len q (c # t) = Suc (quoted_len q t)"
  by (cases t) auto

lemma quoted_len_escaped: "quoted_len q (backslash # c # t) = Suc (Suc (quoted_len q t))"
  by simp

interpretation ident: quoted_renderer backtick ident_escape QuoteIdent
  by unfold_locales
    (auto simp: ident_escape_def QuoteIdent_def quoted_len_plain quoted_len_escaped split: if_splits)

section \<open>Properties\<close>

text \<open>C2. Wherever a quoted identifier stands in a statement, ClickHouse's lexer reads it as one
  token: the token that opens at its first byte ends at its last one, whatever bytes the name
  holds (backticks, backslashes, quotes, newlines). Two names are never written alike, so a quoted
  name also reads back as one name only.\<close>

theorem QuoteIdent_one_token:
  assumes "rest = [] \<or> hd rest \<noteq> backtick"
  shows "skipQuoted (pre @ QuoteIdent name @ rest) (length pre) = length pre + length (QuoteIdent name) \<and>
    (QuoteIdent name @ rest = QuoteIdent name' @ rest' \<longrightarrow> rest' = [] \<or> hd rest' \<noteq> backtick \<longrightarrow>
      name' = name \<and> rest' = rest)"
  using ident.one_token [OF assms] ident.render_prefix_free [OF _ assms] by metis

theorem QuoteIdent_one_token_witness:
  "skipQuoted (''SELECT '' @ QuoteIdent [CHR ''a'', backtick, backslash] @ '' FROM t'') (length ''SELECT '') =
     length ''SELECT '' + 7 \<and>
   QuoteIdent [CHR ''a'', backtick, backslash] @ '' FROM t'' \<noteq> QuoteIdent ''a'' @ '' FROM t''"
proof -
  have h: "'' FROM t'' = [] \<or> hd '' FROM t'' \<noteq> backtick" by simp
  have len: "length (QuoteIdent [CHR ''a'', backtick, backslash]) = 7" by code_simp
  show ?thesis
    using QuoteIdent_one_token [OF h, of "''SELECT ''" "[CHR ''a'', backtick, backslash]" "''a''" "'' FROM t''"]
    unfolding len by auto
qed

section \<open>Opaque spans\<close>

text \<open>What \<open>Opaque\<close> promises: non-empty spans inside the text from index \<open>i\<close> on, in order and
  disjoint.\<close>

definition spans_from :: "string \<Rightarrow> nat \<Rightarrow> Span list \<Rightarrow> bool" where
  "spans_from sql i sps \<longleftrightarrow> sorted_wrt (\<lambda>a b. End a \<le> Start b) sps \<and>
     (\<forall>sp \<in> set sps. i \<le> Start sp \<and> Start sp < End sp \<and> End sp \<le> length sql)"

lemma spans_from_mono: "spans_from sql j sps \<Longrightarrow> i \<le> j \<Longrightarrow> spans_from sql i sps"
  by (auto simp: spans_from_def)

lemma spans_from_Cons:
  "spans_from sql j sps \<Longrightarrow> i < j \<Longrightarrow> j \<le> length sql \<Longrightarrow>
   spans_from sql i (\<lparr>Start = i, End = j, Comment = b\<rparr> # sps)"
  by (auto simp: spans_from_def)

lemma opaque_from_end: "length sql \<le> i \<Longrightarrow> opaque_from sql i = []"
  by (subst opaque_from.simps) simp

lemma opaque_from_ordered: "spans_from sql i (opaque_from sql i)"
proof (induction "length sql - i" arbitrary: i rule: less_induct)
  case less
  show ?case
  proof (cases "i < length sql")
    case False
    then show ?thesis by (simp add: opaque_from_end spans_from_def)
  next
    case True
    have skip: "spans_from sql i (opaque_from sql j)" if "i < j" for j
      using less [of j] that True by (intro spans_from_mono [of sql j _ i]) auto
    have emit: "spans_from sql i (\<lparr>Start = i, End = j, Comment = b\<rparr> # opaque_from sql j)"
      if "i < j" "j \<le> length sql" for j b
      using less [of j] that True by (intro spans_from_Cons) auto
    from True show ?thesis
      by (subst opaque_from.simps) (simp add: Let_def skip emit scan_advances scan_bounds)
  qed
qed

text \<open>The opaque spans of a text are non-empty, lie inside it, are in order and do not overlap.\<close>

theorem Opaque_ordered:
  "sorted_wrt (\<lambda>a b. End a \<le> Start b) (Opaque sql) \<and>
   (\<forall>sp \<in> set (Opaque sql). Start sp < End sp \<and> End sp \<le> length sql)"
  using opaque_from_ordered [of sql 0] by (simp add: Opaque_def spans_from_def)

theorem Opaque_ordered_witness:
  "Opaque ''a -- b'' = [\<lparr>Start = 2, End = 6, Comment = True\<rparr>] \<and> (2::nat) < 6 \<and> 6 \<le> length ''a -- b''"
proof -
  have h: "Opaque ''a -- b'' = [\<lparr>Start = 2, End = 6, Comment = True\<rparr>]" by code_simp
  from Opaque_ordered [of "''a -- b''"] show ?thesis unfolding h by simp
qed

section \<open>The classifier sees through what the lexer skips\<close>

lemma sqlSpaceLen_shift: "i < length s \<Longrightarrow> sqlSpaceLen (pre @ s) (length pre + i) = sqlSpaceLen s i"
  by (simp add: sqlSpaceLen_def nth_append)

lemma skipComment_shift:
  "i < length s \<Longrightarrow> skipComment (pre @ s) (length pre + i) = length pre + skipComment s i"
  by (simp add: skipComment_def nth_append)

lemma skipSpaceAndComments_shift:
  "skipSpaceAndComments (pre @ s) (length pre + i) = length pre + skipSpaceAndComments s i"
proof (induction "length s - i" arbitrary: i rule: less_induct)
  case less
  show ?case
  proof (cases "i < length s")
    case False
    then show ?thesis by (subst (1 2) skipSpaceAndComments.simps) simp
  next
    case True
    have IH: "skipSpaceAndComments (pre @ s) (length pre + j) = length pre + skipSpaceAndComments s j"
      if "i < j" for j
      using less [of j] that True by auto
    show ?thesis
      using True IH [of "i + sqlSpaceLen s i"] IH [of "skipComment s i"] skipComment_ge [of i s]
      by (subst (1 2) skipSpaceAndComments.simps)
        (auto simp: Let_def sqlSpaceLen_shift skipComment_shift add.assoc)
  qed
qed

text \<open>Text the lexer skips before a token: ASCII whitespace, a line comment with its newline, a block
  comment, in any number and order. \<open>comment_closes\<close> says that a block comment ends where it ends.\<close>

definition comment_closes :: "string \<Rightarrow> bool" where
  "comment_closes c \<longleftrightarrow> prefix ''/*'' c \<and> (\<forall>t. block_len 0 (c @ t) = length c)"

inductive skipped :: "string \<Rightarrow> bool" where
  skipped_Nil: "skipped []"
| skipped_space: "c \<in> {CHR 0x20, CHR 0x09, CHR 0x0A, CHR 0x0B, CHR 0x0C, CHR 0x0D} \<Longrightarrow>
    skipped s \<Longrightarrow> skipped (c # s)"
| skipped_line: "l \<in> {''--'', ''//'', ''#''} \<Longrightarrow> CHR 0x0A \<notin> set a \<Longrightarrow>
    skipped s \<Longrightarrow> skipped (l @ a @ CHR 0x0A # s)"
| skipped_block: "comment_closes c \<Longrightarrow> skipped s \<Longrightarrow> skipped (c @ s)"

lemma skip_step:
  assumes "a \<noteq> []" "sqlSpaceLen (a @ t) 0 = length a \<or>
    sqlSpaceLen (a @ t) 0 = 0 \<and> skipComment (a @ t) 0 = length a"
  shows "skipSpaceAndComments (a @ t) 0 = length a + skipSpaceAndComments t 0"
  using assms skipSpaceAndComments_shift [of a t 0]
  by (subst skipSpaceAndComments.simps) (auto simp: Let_def)

lemma line_len_comment:
  "l \<in> {''--'', ''//'', ''#''} \<Longrightarrow> CHR 0x0A \<notin> set a \<Longrightarrow>
   line_len ((l @ a @ [CHR 0x0A]) @ t) = length (l @ a @ [CHR 0x0A])"
  using str_index_byte [of "CHR 0x0A" "l @ a" t] by (auto simp: line_len_def)

lemma skipped_skips: "skipped pre \<Longrightarrow> skipSpaceAndComments (pre @ t) 0 = length pre + skipSpaceAndComments t 0"
proof (induction arbitrary: t rule: skipped.induct)
  case skipped_Nil
  then show ?case by simp
next
  case (skipped_space c s)
  then have "sqlSpaceLen ([c] @ (s @ t)) 0 = length [c]" by (auto simp: sqlSpaceLen_def)
  from skip_step [OF _ disjI1 [OF this]] skipped_space.IH show ?case by simp
next
  case (skipped_line l a s)
  let ?c = "l @ a @ [CHR 0x0A]"
  from skipped_line line_len_comment [of l a "s @ t"]
  have "sqlSpaceLen (?c @ s @ t) 0 = 0 \<and> skipComment (?c @ s @ t) 0 = length ?c"
    by (auto simp: sqlSpaceLen_def skipComment_def)
  from skip_step [OF _ disjI2 [OF this]] skipped_line.IH [of t] show ?case by simp
next
  case (skipped_block c s)
  from skipped_block.hyps(1) obtain c' where c: "c = ''/*'' @ c'" and "\<forall>t. block_len 0 (c @ t) = length c"
    by (auto simp: comment_closes_def prefix_def)
  then have "sqlSpaceLen (c @ s @ t) 0 = 0 \<and> skipComment (c @ s @ t) 0 = length c"
    by (auto simp: sqlSpaceLen_def skipComment_def)
  with c skip_step [of c "s @ t"] skipped_block.IH [of t] show ?case by simp
qed

lemma StripLeadingComments_skipped: "skipped pre \<Longrightarrow> StripLeadingComments (pre @ s) = StripLeadingComments s"
  by (simp add: StripLeadingComments_def skipped_skips)



lemma byte_lower: "byte (lower_byte c) = (if is_upper c then byte c + 32 else byte c :: nat)"
  by (simp add: lower_byte_def is_upper_byte)

lemma byte_upper: "byte (upper_byte c) = (if is_lower c then byte c - 32 else byte c :: nat)"
proof -
  have "byte c - 32 < (256::nat)" using nat_of_char_less_256 [of c] by arith
  then show ?thesis by (simp add: upper_byte_def)
qed

lemma upper_lower: "upper_byte (lower_byte c) = upper_byte c"
  unfolding char_eq_byte byte_upper byte_lower is_lower_byte is_upper_byte by auto

lemma lower_upper: "lower_byte (upper_byte c) = lower_byte c"
  unfolding char_eq_byte byte_upper byte_lower is_lower_byte is_upper_byte by auto

lemma fold_upper: "lower_byte a = lower_byte b \<longleftrightarrow> upper_byte a = upper_byte b"
  by (metis upper_lower lower_upper)

lemma equal_fold_upper: "equal_fold s t \<longleftrightarrow> to_upper s = to_upper t"
  unfolding equal_fold_def to_upper_def
  by (induction s arbitrary: t) (auto simp: fold_upper map_eq_Cons_conv Cons_eq_map_conv)

definition bareword :: "string \<Rightarrow> bool" where
  "bareword w \<longleftrightarrow> w \<noteq> [] \<and> list_all (\<lambda>c. isWordByte c \<or> c = CHR ''$'') w"

lemma SkipWord_bareword:
  assumes "bareword w" "rest = [] \<or> \<not> (isWordByte (hd rest) \<or> hd rest = CHR ''$'')"
  shows "SkipWord (w @ rest) 0 = length w"
proof -
  have "takeWhile (\<lambda>c. isWordByte c \<or> c = CHR ''$'') rest = []" using assms(2) by (cases rest) auto
  then show ?thesis using assms(1)
    by (simp add: SkipWord_def bareword_def list_all_iff takeWhile_append2)
qed

lemma word_byte_code: "isWordByte c \<or> c = CHR ''$'' \<Longrightarrow> byte c \<in> {36::nat} \<union> {48..57} \<union> {65..90} \<union> {95} \<union> {97..122}"
  by (auto simp: isWordByte_def isDigit_def less_eq_char_def)

lemma bareword_not_skipped:
  assumes "bareword w"
  shows "StripLeadingComments (w @ rest) = w @ rest"
proof -
  from assms obtain c w' where w: "w = c # w'" and c: "isWordByte c \<or> c = CHR ''$''"
    by (cases w) (auto simp: bareword_def)
  then have "sqlSpaceLen (w @ rest) 0 = 0" "skipComment (w @ rest) 0 = 0"
    using word_byte_code [OF c] by (auto simp: sqlSpaceLen_def skipComment_def)
  with w show ?thesis
    by (subst StripLeadingComments_def, subst skipSpaceAndComments.simps) simp
qed

text \<open>A statement's class depends on its first word alone, whatever whitespace and comments of
  any kind lead it and whatever its case: a verb of the list is a write, any other word but WITH and
  EXECUTE a read, and WITH is a write exactly when INSERT INTO stands at the top level after it.\<close>

theorem IsMutation_first_word:
  assumes "skipped pre" "bareword w" "to_upper w \<noteq> ''EXECUTE''"
    and "rest = [] \<or> \<not> (isWordByte (hd rest) \<or> hd rest = CHR ''$'')"
  shows "IsMutation (pre @ w @ rest) \<longleftrightarrow>
    (if to_upper w = ''WITH'' then hasTopLevelInsertInto rest else to_upper w \<in> mutationVerbs)"
proof -
  have "to_upper ''EXECUTE'' = ''EXECUTE''" by code_simp
  then have "SkipExecuteAs (w @ rest) = (w @ rest, False)"
    using assms(3) SkipWord_bareword [OF assms(2,4)]
    by (simp add: SkipExecuteAs_def slice_def equal_fold_upper)
  moreover have "StripLeadingComments (pre @ w @ rest) = w @ rest" and "w \<noteq> []"
    using assms(1,2) by (simp_all add: StripLeadingComments_skipped bareword_not_skipped bareword_def)
  ultimately show ?thesis
    using SkipWord_bareword [OF assms(2,4)] by (simp add: IsMutation_def)
qed

lemma skipped_example: "skipped ('' /* c */-- x'' @ [CHR 0x0A])"
proof -
  have "block_len 0 (''/* c */'' @ t) = length ''/* c */''" for t by simp
  then have c: "comment_closes ''/* c */''" by (simp add: comment_closes_def)
  have "skipped (''--'' @ '' x'' @ CHR 0x0A # [])"
    by (rule skipped_line) (auto intro: skipped_Nil)
  from skipped_space [OF _ skipped_block [OF c this], of "CHR '' ''"] show ?thesis by simp
qed

theorem IsMutation_first_word_witness:
  "IsMutation (('' /* c */-- x'' @ [CHR 0x0A]) @ ''Drop'' @ '' TABLE t'') \<and>
   \<not> IsMutation ([] @ ''dropped'' @ '' TABLE t'')"
proof -
  have d: "bareword ''Drop''" "to_upper ''Drop'' = ''DROP''" "bareword ''dropped''"
    "to_upper ''dropped'' = ''DROPPED''"
    by code_simp+
  have r: "'' TABLE t'' = [] \<or> \<not> (isWordByte (hd '' TABLE t'') \<or> hd '' TABLE t'' = CHR ''$'')"
    by code_simp
  show ?thesis
    using IsMutation_first_word [OF skipped_example d(1) _ r] d
      IsMutation_first_word [OF skipped_Nil d(3) _ r]
    by (simp add: mutationVerbs_def)
qed

end
