(* ===== verification/Keyenc.thy ===== *)
theory Keyenc
  imports Prelude
begin

text \<open>
  The escaping that composite keys are built from (\<^verbatim>\<open>internal/keyenc/keyenc.go\<close>) and the tenant
  identifier whose bytes it keeps (\<^verbatim>\<open>pkg/tenant/tenant.go\<close>). NATS subjects, cache keys and dedupe
  keys all go through \<open>Join\<close>, so its injectivity is what keeps two tenants', tables' or
  scopes' data apart. The locale \<open>field_codec\<close> is the interface the key builders rely on; it is
  interpreted on \<open>Escape\<close> and \<open>Unescape\<close>.
\<close>

section \<open>Escaping one field\<close>

definition kept :: "char \<Rightarrow> bool" where
  "kept b \<longleftrightarrow> (CHR ''a'' \<le> b \<and> b \<le> CHR ''z'') \<or> (CHR ''A'' \<le> b \<and> b \<le> CHR ''Z'') \<or>
     (CHR ''0'' \<le> b \<and> b \<le> CHR ''9'') \<or> b = CHR ''_'' \<or> b = CHR ''-''"

definition upperHex :: string where
  "upperHex = ''0123456789ABCDEF''"

text \<open>One byte as \<^verbatim>\<open>AppendEscape\<close> appends it: itself, or a percent sign and two hex digits.\<close>

definition escape_byte :: "char \<Rightarrow> string" where
  "escape_byte b =
     (if kept b then [b]
      else [CHR ''%'', upperHex ! (byte b div 16), upperHex ! (byte b mod 16)])"

definition AppendEscape :: "bytes \<Rightarrow> string \<Rightarrow> bytes" where
  "AppendEscape dst s = dst @ concat (map escape_byte s)"

text \<open>\<^verbatim>\<open>Escape\<close> returns its argument unchanged when every byte is kept, and escapes otherwise.\<close>

definition Escape :: "string \<Rightarrow> string" where
  "Escape s = (if list_all kept s then s else AppendEscape [] s)"

section \<open>Unescaping\<close>

datatype keyenc_error = EscapeError string

definition hex_val :: "char \<Rightarrow> nat option" where
  "hex_val c =
     (if is_digit c then Some (byte c - 48)
      else if CHR ''a'' \<le> c \<and> c \<le> CHR ''f'' then Some (byte c - 87)
      else if CHR ''A'' \<le> c \<and> c \<le> CHR ''F'' then Some (byte c - 55)
      else None)"

text \<open>\<^verbatim>\<open>url.PathUnescape\<close>: a percent sign must lead two hex digits of either case, every other byte
  reads as itself.\<close>

fun Unescape :: "string \<Rightarrow> keyenc_error + string" where
  "Unescape [] = Inr []"
| "Unescape (c # cs) =
     (if c = CHR ''%'' then
        (case cs of
           h # l # rest \<Rightarrow>
             (case (hex_val h, hex_val l) of
                (Some x, Some y) \<Rightarrow> map_sum id ((#) (char_of (16 * x + y))) (Unescape rest)
              | _ \<Rightarrow> Inl (EscapeError (take 3 (c # cs))))
         | _ \<Rightarrow> Inl (EscapeError (take 3 (c # cs))))
      else map_sum id ((#) c) (Unescape cs))"

section \<open>Joining and splitting\<close>

text \<open>\<^verbatim>\<open>checkSep\<close> and \<^verbatim>\<open>AppendJoin\<close> panic; a panic is \<open>Inl\<close>.\<close>

datatype keyenc_panic = BadSeparator char | NoFields

definition checkSep :: "char \<Rightarrow> bool" where
  "checkSep sep \<longleftrightarrow> \<not> (kept sep \<or> sep = CHR ''%'' \<or> byte sep \<ge> (128::nat))"

fun join_fields :: "char \<Rightarrow> string list \<Rightarrow> bytes" where
  "join_fields sep [] = []"
| "join_fields sep [f] = AppendEscape [] f"
| "join_fields sep (f # g # gs) = AppendEscape [] f @ sep # join_fields sep (g # gs)"

definition AppendJoin :: "bytes \<Rightarrow> char \<Rightarrow> string list \<Rightarrow> keyenc_panic + bytes" where
  "AppendJoin dst sep fields =
     (if \<not> checkSep sep then Inl (BadSeparator sep)
      else if fields = [] then Inl NoFields
      else Inr (dst @ join_fields sep fields))"

definition Join :: "char \<Rightarrow> string list \<Rightarrow> keyenc_panic + string" where
  "Join sep fields = AppendJoin [] sep fields"

fun unescape_all :: "string list \<Rightarrow> keyenc_error + string list" where
  "unescape_all [] = Inr []"
| "unescape_all (p # ps) =
     (case Unescape p of Inl e \<Rightarrow> Inl e
      | Inr f \<Rightarrow> map_sum id ((#) f) (unescape_all ps))"

definition Split :: "string \<Rightarrow> char \<Rightarrow> keyenc_panic + (keyenc_error + string list)" where
  "Split key sep =
     (if \<not> checkSep sep then Inl (BadSeparator sep)
      else Inr (unescape_all (split_at sep key)))"

section \<open>The tenant identifier\<close>

datatype tenant_error = TenantEmpty | TenantTooLong nat | TenantByte char nat

definition MaxLen :: nat where
  "MaxLen = 64"

fun check_tenant_bytes :: "nat \<Rightarrow> string \<Rightarrow> tenant_error option" where
  "check_tenant_bytes i [] = None"
| "check_tenant_bytes i (c # cs) =
     (if (CHR ''a'' \<le> c \<and> c \<le> CHR ''z'') \<or> (CHR ''A'' \<le> c \<and> c \<le> CHR ''Z'') \<or>
         (CHR ''0'' \<le> c \<and> c \<le> CHR ''9'') \<or> c = CHR ''_'' \<or> c = CHR ''-''
      then check_tenant_bytes (Suc i) cs
      else Some (TenantByte c i))"

definition tenant_Parse :: "string \<Rightarrow> tenant_error + string" where
  "tenant_Parse s =
     (if s = [] then Inl TenantEmpty
      else if MaxLen < length s then Inl (TenantTooLong (length s))
      else case check_tenant_bytes 0 s of Some e \<Rightarrow> Inl e | None \<Rightarrow> Inr s)"

section \<open>What the escaping guarantees\<close>

lemma hex_val_upperHex: "n < 16 \<Longrightarrow> hex_val (upperHex ! n) = Some n"
proof -
  assume "n < 16"
  moreover have "\<forall>k \<in> set [0..<16]. hex_val (upperHex ! k) = Some k" by code_simp
  ultimately show ?thesis by simp
qed

lemma kept_upperHex: "n < 16 \<Longrightarrow> kept (upperHex ! n)"
proof -
  assume "n < 16"
  moreover have "\<forall>k \<in> set [0..<16]. kept (upperHex ! k)" by code_simp
  ultimately show ?thesis by simp
qed

lemma byte_div_16: "byte c div 16 < (16::nat)"
  using nat_of_char_less_256 [of c] by (simp add: div_less_iff_less_mult)

lemma not_kept_percent [simp]: "\<not> kept (CHR ''%'')"
  by (simp add: kept_def)

lemma AppendEscape_append: "AppendEscape dst s = dst @ AppendEscape [] s"
  by (simp add: AppendEscape_def)

lemma AppendEscape_kept: "list_all kept s \<Longrightarrow> AppendEscape [] s = s"
  by (induction s) (auto simp: AppendEscape_def escape_byte_def)

lemma Escape_eq: "Escape s = AppendEscape [] s"
  by (simp add: Escape_def AppendEscape_kept)

lemma set_Escape: "c \<in> set (Escape s) \<Longrightarrow> kept c \<or> c = CHR ''%''"
  by (auto simp: Escape_eq AppendEscape_def escape_byte_def byte_div_16 kept_upperHex split: if_splits)

lemma Unescape_escape_byte: "Unescape (escape_byte b @ s) = map_sum id ((#) b) (Unescape s)"
proof (cases "kept b")
  case True
  then have "b \<noteq> CHR ''%''" by auto
  with True show ?thesis by (simp add: escape_byte_def)
next
  case False
  then show ?thesis
    by (simp add: escape_byte_def hex_val_upperHex byte_div_16 mult_div_mod_eq)
qed

lemma Unescape_Escape: "Unescape (Escape s) = Inr s"
  by (induction s) (simp_all add: Escape_eq AppendEscape_def Unescape_escape_byte)

lemma checkSep_not_in_Escape: "checkSep sep \<Longrightarrow> sep \<notin> set (Escape s)"
  using set_Escape [of sep s] by (auto simp: checkSep_def)

section \<open>Field codecs: the interface of the key builders\<close>

text \<open>A way of writing any string as a field that never holds a separator and reads back as
  what was written. Everything a composite key needs follows from these two laws.\<close>

locale field_codec =
  fixes esc :: "string \<Rightarrow> string"
    and unesc :: "string \<Rightarrow> 'e + string"
    and sep_ok :: "char \<Rightarrow> bool"
  assumes unesc_esc: "unesc (esc s) = Inr s"
    and esc_no_sep: "sep_ok c \<Longrightarrow> c \<notin> set (esc s)"
begin

lemma esc_inject: "esc s = esc t \<longleftrightarrow> s = t"
  by (metis unesc_esc sum.inject(2))

lemma split_fields:
  "sep_ok c \<Longrightarrow> xs \<noteq> [] \<Longrightarrow> split_at c (join [c] (map esc xs)) = map esc xs"
  by (rule split_at_join) (auto simp: esc_no_sep)

lemma fields_inject:
  assumes "sep_ok c" "xs \<noteq> []" "ys \<noteq> []"
  shows "join [c] (map esc xs) = join [c] (map esc ys) \<longleftrightarrow> xs = ys"
proof
  assume "join [c] (map esc xs) = join [c] (map esc ys)"
  with assms have "map esc xs = map esc ys" by (metis split_fields)
  then show "xs = ys" by (rule map_injective) (simp add: inj_def esc_inject)
qed simp

lemma keyed_fields_inject:
  assumes "sep_ok c" "c \<notin> set k" "c \<notin> set k'" "xs \<noteq> []" "ys \<noteq> []"
  shows "k @ c # join [c] (map esc xs) = k' @ c # join [c] (map esc ys) \<longleftrightarrow> k = k' \<and> xs = ys"
  using assms by (simp add: append_first_sep fields_inject)

lemma fields_avoid:
  "sep_ok d \<Longrightarrow> d \<noteq> c \<Longrightarrow> d \<notin> set (join [c] (map esc xs))"
  by (auto dest!: set_join simp: esc_no_sep)

end

interpretation keyenc: field_codec Escape Unescape checkSep
  by unfold_locales (simp_all add: Unescape_Escape checkSep_not_in_Escape)

section \<open>Join and Split\<close>

lemma join_fields_eq: "join_fields sep fs = join [sep] (map Escape fs)"
  by (induction sep fs rule: join_fields.induct) (simp_all add: Escape_eq)

lemma Join_Inr: "checkSep sep \<Longrightarrow> fs \<noteq> [] \<Longrightarrow> Join sep fs = Inr (join [sep] (map Escape fs))"
  by (simp add: Join_def AppendJoin_def join_fields_eq)

lemma Join_Inr_iff:
  "Join sep fs = Inr k \<longleftrightarrow> checkSep sep \<and> fs \<noteq> [] \<and> k = join [sep] (map Escape fs)"
  by (auto simp: Join_def AppendJoin_def join_fields_eq split: if_splits)

lemma AppendJoin_Inr:
  "checkSep sep \<Longrightarrow> fs \<noteq> [] \<Longrightarrow> AppendJoin dst sep fs = Inr (dst @ join [sep] (map Escape fs))"
  by (simp add: AppendJoin_def join_fields_eq)

text \<open>For callers whose separator is one the code accepts: the joined key without the panics.\<close>

definition append_join :: "bytes \<Rightarrow> char \<Rightarrow> string list \<Rightarrow> bytes" where
  "append_join dst sep fs = (case AppendJoin dst sep fs of Inr r \<Rightarrow> r | Inl _ \<Rightarrow> [])"

lemma append_join_eq:
  "checkSep sep \<Longrightarrow> fs \<noteq> [] \<Longrightarrow> append_join dst sep fs = dst @ join [sep] (map Escape fs)"
  by (simp add: append_join_def AppendJoin_Inr)

lemma sep_chars [simp]:
  "checkSep (CHR ''.'')" "checkSep (CHR '':'')" "checkSep (CHR ''|'')" "checkSep (CHR ''/'')"
  "\<not> kept (CHR ''.'')" "\<not> kept (CHR '':'')" "\<not> kept (CHR ''|'')" "\<not> kept (CHR ''/'')"
  by (simp_all add: checkSep_def kept_def)

lemma unescape_all_Escape: "unescape_all (map Escape fs) = Inr fs"
  by (induction fs) (simp_all add: Unescape_Escape)

section \<open>Tenant identifiers are their own escaped form\<close>

lemma check_tenant_bytes_None: "check_tenant_bytes i s = None \<longleftrightarrow> list_all kept s"
  by (induction s arbitrary: i) (auto simp: kept_def)

lemma tenant_Parse_Inr:
  "tenant_Parse s = Inr t \<longleftrightarrow> s \<noteq> [] \<and> length s \<le> MaxLen \<and> list_all kept s \<and> t = s"
  by (auto simp: tenant_Parse_def not_less check_tenant_bytes_None [of 0, symmetric] split: option.splits)

lemma tenant_no_sep: "tenant_Parse s = Inr t \<Longrightarrow> \<not> kept c \<Longrightarrow> c \<notin> set s"
  by (auto simp: tenant_Parse_Inr list_all_iff)

section \<open>Properties\<close>

text \<open>C1. Joining fields and splitting the key again gives the fields back, for every separator the
  code accepts and any field contents (separators, percent signs and non-ASCII bytes included).\<close>

theorem Split_Join:
  assumes "Join sep fields = Inr key"
  shows "Split key sep = Inr (Inr fields)"
  using assms by (auto simp: Join_Inr_iff Split_def keyenc.split_fields unescape_all_Escape)

theorem Split_Join_witness:
  "Join (CHR ''/'') [''a/b'', '''', ''50%''] = Inr ''a%2Fb//50%25'' \<and>
   Split ''a%2Fb//50%25'' (CHR ''/'') = Inr (Inr [''a/b'', '''', ''50%''])"
proof -
  have h: "Join (CHR ''/'') [''a/b'', '''', ''50%''] = Inr ''a%2Fb//50%25''" by code_simp
  from h Split_Join [OF h] show ?thesis by simp
qed

end
