(* ===== verification/Gojson.thy ===== *)
theory Gojson
  imports Prelude "HOL-Library.Log_Nat"
begin

text \<open>
  The parts of Go's \<^verbatim>\<open>encoding/json\<close>, \<^verbatim>\<open>math/big\<close> and \<^verbatim>\<open>strconv\<close> that the policy engine uses: decoded
  JSON values, the JSON validity scanner, decimal integers and floating-point rounding and
  formatting.

  A decoded value is what \<^verbatim>\<open>json.Unmarshal\<close> hands out: with \<^verbatim>\<open>UseNumber\<close> (the stream, ingest and the
  JWT parser) a number is its literal (\<open>VNumber\<close>), without it a float64 (\<open>VFloat\<close>, by its 64 bits). A
  map is an association list with distinct keys.
\<close>

section \<open>Decoded values\<close>

datatype jvalue =
    VNil
  | VBool bool
  | VNumber string
  | VFloat "64 word"
  | VString string
  | VArray "jvalue list"
  | VMap "(string \<times> jvalue) list"

section \<open>Integers in decimal\<close>

text \<open>\<^verbatim>\<open>big.Int.SetString(s, 10)\<close>: an optional sign and one or more digits, the whole string.\<close>

definition parse_digits :: "string \<Rightarrow> nat option" where
  "parse_digits s = (if s \<noteq> [] \<and> list_all is_digit s then Some (digits_val s) else None)"

definition set_string :: "string \<Rightarrow> int option" where
  "set_string s =
     (case s of
        [] \<Rightarrow> None
      | c # cs \<Rightarrow>
          (if c = CHR ''-'' then map_option (\<lambda>n. - int n) (parse_digits cs)
           else if c = CHR ''+'' then map_option int (parse_digits cs)
           else map_option int (parse_digits s)))"

text \<open>\<^verbatim>\<open>strconv.Atoi\<close> on a 64-bit platform; a range error is \<open>None\<close> like a syntax error.\<close>

definition atoi :: "string \<Rightarrow> int option" where
  "atoi s =
     (case set_string s of
        Some i \<Rightarrow> (if - (2 ^ 63) \<le> i \<and> i < 2 ^ 63 then Some i else None)
      | None \<Rightarrow> None)"

section \<open>The JSON scanner (\<^verbatim>\<open>json.Valid\<close>)\<close>

text \<open>Each function takes the bytes left and returns those after what it read. \<open>fuel\<close> bounds the
  recursion and \<open>length s\<close> is enough, each call reading a byte; \<open>depth\<close> is the scanner's nesting
  bound.\<close>

definition json_space :: "char \<Rightarrow> bool" where
  "json_space c \<longleftrightarrow> byte c \<in> {0x20, 0x09, 0x0A, 0x0D :: nat}"

abbreviation skip_ws :: "string \<Rightarrow> string" where
  "skip_ws \<equiv> dropWhile json_space"

definition is_hex :: "char \<Rightarrow> bool" where
  "is_hex c \<longleftrightarrow> is_digit c \<or> (CHR ''a'' \<le> c \<and> c \<le> CHR ''f'') \<or> (CHR ''A'' \<le> c \<and> c \<le> CHR ''F'')"

fun json_string :: "string \<Rightarrow> string option" where
  "json_string [] = None"
| "json_string (c # cs) =
     (if c = CHR 0x22 then Some cs
      else if c = CHR 0x5C then
        (case cs of
           [] \<Rightarrow> None
         | d # ds \<Rightarrow>
             (if d = CHR ''u'' then
                (case ds of
                   h1 # h2 # h3 # h4 # rest \<Rightarrow>
                     (if is_hex h1 \<and> is_hex h2 \<and> is_hex h3 \<and> is_hex h4 then json_string rest else None)
                 | _ \<Rightarrow> None)
              else if d \<in> {CHR ''b'', CHR ''f'', CHR ''n'', CHR ''r'', CHR ''t'', CHR 0x5C, CHR ''/'', CHR 0x22}
              then json_string ds else None))
      else if byte c < (0x20 :: nat) then None
      else json_string cs)"

definition json_digits :: "string \<Rightarrow> string option" where
  "json_digits s = (case s of c # _ \<Rightarrow> if is_digit c then Some (dropWhile is_digit s) else None | [] \<Rightarrow> None)"

definition json_frac :: "string \<Rightarrow> string option" where
  "json_frac s = (case s of c # cs \<Rightarrow> if c = CHR ''.'' then json_digits cs else Some s | [] \<Rightarrow> Some [])"

definition json_exp :: "string \<Rightarrow> string option" where
  "json_exp s =
     (case s of
        c # cs \<Rightarrow>
          (if c = CHR ''e'' \<or> c = CHR ''E'' then
             (case cs of
                d # ds \<Rightarrow> if d = CHR ''+'' \<or> d = CHR ''-'' then json_digits ds else json_digits cs
              | [] \<Rightarrow> None)
           else Some s)
      | [] \<Rightarrow> Some [])"

definition json_int :: "string \<Rightarrow> string option" where
  "json_int s = (case s of c # cs \<Rightarrow> if c = CHR ''0'' then Some cs else json_digits s | [] \<Rightarrow> None)"

definition json_number :: "string \<Rightarrow> string option" where
  "json_number s =
     (let s = (case s of c # cs \<Rightarrow> if c = CHR ''-'' then cs else s | [] \<Rightarrow> s) in
      case json_int s of None \<Rightarrow> None
      | Some s \<Rightarrow> (case json_frac s of None \<Rightarrow> None | Some s \<Rightarrow> json_exp s))"

definition maxNestingDepth :: nat where
  "maxNestingDepth = 10000"

fun json_value :: "nat \<Rightarrow> nat \<Rightarrow> string \<Rightarrow> string option"
  and json_elems :: "nat \<Rightarrow> nat \<Rightarrow> string \<Rightarrow> string option"
  and json_members :: "nat \<Rightarrow> nat \<Rightarrow> string \<Rightarrow> string option" where
  "json_value 0 depth s = None"
| "json_value (Suc fuel) depth s =
     (case skip_ws s of
        [] \<Rightarrow> None
      | c # cs \<Rightarrow>
          (if c = CHR 0x22 then json_string cs
           else if c = CHR ''['' then
             (if maxNestingDepth \<le> depth then None
              else case skip_ws cs of
                d # ds \<Rightarrow> (if d = CHR '']'' then Some ds else json_elems fuel (Suc depth) cs)
              | [] \<Rightarrow> None)
           else if c = CHR ''{'' then
             (if maxNestingDepth \<le> depth then None
              else case skip_ws cs of
                d # ds \<Rightarrow> (if d = CHR ''}'' then Some ds else json_members fuel (Suc depth) cs)
              | [] \<Rightarrow> None)
           else if c = CHR ''t'' then cut_prefix ''rue'' cs
           else if c = CHR ''f'' then cut_prefix ''alse'' cs
           else if c = CHR ''n'' then cut_prefix ''ull'' cs
           else json_number (c # cs)))"
| "json_elems 0 depth s = None"
| "json_elems (Suc fuel) depth s =
     (case json_value fuel depth s of
        None \<Rightarrow> None
      | Some s \<Rightarrow>
          (case skip_ws s of
             [] \<Rightarrow> None
           | c # cs \<Rightarrow> (if c = CHR '','' then json_elems fuel depth cs
                        else if c = CHR '']'' then Some cs else None)))"
| "json_members 0 depth s = None"
| "json_members (Suc fuel) depth s =
     (case skip_ws s of
        [] \<Rightarrow> None
      | q # s \<Rightarrow>
          (if q \<noteq> CHR 0x22 then None
           else case json_string s of None \<Rightarrow> None
           | Some s \<Rightarrow>
               (case skip_ws s of
                  [] \<Rightarrow> None
                | c # s \<Rightarrow>
                    (if c \<noteq> CHR '':'' then None
                     else case json_value fuel depth s of None \<Rightarrow> None
                     | Some s \<Rightarrow>
                         (case skip_ws s of
                            [] \<Rightarrow> None
                          | c # cs \<Rightarrow> (if c = CHR '','' then json_members fuel depth cs
                                       else if c = CHR ''}'' then Some cs else None))))))"

definition json_valid :: "string \<Rightarrow> bool" where
  "json_valid s =
     (case json_value (2 * length s + 2) 0 s of Some rest \<Rightarrow> skip_ws rest = [] | None \<Rightarrow> False)"

section \<open>Floating point\<close>

text \<open>An IEEE format by its precision and least exponent; a finite value is \<open>n * 2 powi e\<close>.\<close>

definition half_even :: "rat \<Rightarrow> int" where
  "half_even q =
     (let n = \<lfloor>q\<rfloor>; r = q - of_int n in
      if r < 1/2 then n else if r > 1/2 then n + 1 else if even n then n else n + 1)"

text \<open>The binary exponent of a positive rational: \<open>2 powi log2_rat q \<le> q < 2 powi (log2_rat q + 1)\<close>.\<close>

definition log2_rat :: "rat \<Rightarrow> int" where
  "log2_rat q =
     (case quotient_of q of (a, b) \<Rightarrow>
        (let k = int (floorlog 2 (nat a)) - int (floorlog 2 (nat b)) in
         if 2 powi k \<le> q then k else k - 1))"

record float_format =
  ff_prec :: int
  ff_emin :: int
  ff_max :: rat

definition float64 :: float_format where
  "float64 = \<lparr>ff_prec = 53, ff_emin = - 1074, ff_max = (2 ^ 53 - 1) * 2 ^ 971\<rparr>"

definition float32 :: float_format where
  "float32 = \<lparr>ff_prec = 24, ff_emin = - 149, ff_max = (2 ^ 24 - 1) * 2 ^ 104\<rparr>"

text \<open>Rounding a magnitude to nearest, ties to even, at a format; \<open>None\<close> is overflow.\<close>

definition round_mag :: "float_format \<Rightarrow> rat \<Rightarrow> rat option" where
  "round_mag F q =
     (if q = 0 then Some 0
      else (let e = max (ff_emin F) (log2_rat q - (ff_prec F - 1));
                r = of_int (half_even (q / 2 powi e)) * 2 powi e in
            if r \<le> ff_max F then Some r else None))"

definition round_float :: "float_format \<Rightarrow> rat \<Rightarrow> rat option" where
  "round_float F q = (if q < 0 then map_option uminus (round_mag F (- q)) else round_mag F q)"

text \<open>Reading the bits of a float64.\<close>

datatype float_class = Finite bool rat | Infinite bool | NaN

definition float_of_bits :: "64 word \<Rightarrow> float_class" where
  "float_of_bits w =
     (let neg = bit w 63; ex = unat (drop_bit 52 w) mod 2 ^ 11; mant = unat w mod 2 ^ 52 in
      if ex = 2047 then (if mant = 0 then Infinite neg else NaN)
      else if ex = 0 then Finite neg (of_nat mant * 2 powi (- 1074))
      else Finite neg (of_nat (2 ^ 52 + mant) * 2 powi (int ex - 1075)))"

text \<open>\<^verbatim>\<open>strconv.FormatFloat(f, 'f', -1, 64)\<close>: the fewest significant digits that round back to \<open>f\<close>, the
  closest to it among those, positionally. \<open>shortest n k q\<close> tries \<open>n\<close> and more digits.\<close>

definition log10_rat :: "rat \<Rightarrow> int" where
  "log10_rat q =
     (case quotient_of q of (a, b) \<Rightarrow>
        (let k = int (floorlog 10 (nat a)) - int (floorlog 10 (nat b)) in
         if 10 powi k \<le> q then k else k - 1))"

definition digits_at :: "rat \<Rightarrow> int \<Rightarrow> (int \<times> int) option" where
  "digits_at q n =
     (let e = log10_rat q - (n - 1); lo = \<lfloor>q / 10 powi e\<rfloor>; hi = lo + 1;
          ok = (\<lambda>d. round_mag float64 (of_int d * 10 powi e) = Some q);
          nearer_lo = q / 10 powi e - of_int lo \<le> of_int hi - q / 10 powi e in
      if ok lo \<and> (nearer_lo \<or> \<not> ok hi) then Some (lo, e)
      else if ok hi then Some (if hi = 10 ^ nat n then (hi div 10, e + 1) else (hi, e)) else None)"

fun shortest :: "nat \<Rightarrow> int \<Rightarrow> rat \<Rightarrow> int \<times> int" where
  "shortest 0 n q = (let e = log10_rat q - (n - 1) in (half_even (q / 10 powi e), e))"
| "shortest (Suc k) n q = (case digits_at q n of Some r \<Rightarrow> r | None \<Rightarrow> shortest k (n + 1) q)"

definition positional :: "int \<Rightarrow> int \<Rightarrow> string" where
  "positional d e =
     (let ds = itoa (nat d) in
      if e \<ge> 0 then ds @ replicate (nat e) (CHR ''0'')
      else if nat (- e) < length ds then take (length ds - nat (- e)) ds @ ''.'' @ drop (length ds - nat (- e)) ds
      else ''0.'' @ replicate (nat (- e) - length ds) (CHR ''0'') @ ds)"

definition format_mag :: "rat \<Rightarrow> string" where
  "format_mag q = (if q = 0 then ''0'' else case shortest 17 1 q of (d, e) \<Rightarrow> positional d e)"

definition format_float :: "64 word \<Rightarrow> string" where
  "format_float w =
     (case float_of_bits w of
        NaN \<Rightarrow> ''NaN''
      | Infinite neg \<Rightarrow> (if neg then ''-Inf'' else ''+Inf'')
      | Finite neg q \<Rightarrow>
          (if neg then ''-'' else '''') @ format_mag q)"

definition format_bool :: "bool \<Rightarrow> string" where
  "format_bool b = (if b then ''true'' else ''false'')"

end
