(* ===== verification/Canonical.thy ===== *)
theory Canonical
  imports Gojson
begin

text \<open>
  The one rendering layer for comparison operands of the policy engine
  (\<^verbatim>\<open>pkg/policy/canonical.go\<close>): decoded scalars, authored literals and ingested values all go to one
  canonical decimal form. The theorems say that the form has the value the literal spells, and that
  equal values have equal forms.
\<close>

section \<open>The code\<close>

definition maxCanonicalDigits :: nat where
  "maxCanonicalDigits = 100"

definition maxNumericOperandChars :: nat where
  "maxNumericOperandChars = maxCanonicalDigits + 4"

fun strip_lead :: "string \<Rightarrow> int \<Rightarrow> string \<times> int" where
  "strip_lead [] point = ([], point)"
| "strip_lead (c # cs) point = (if c = CHR ''0'' then strip_lead cs (point - 1) else (c # cs, point))"

fun strip_trail :: "string \<Rightarrow> int \<Rightarrow> string" where
  "strip_trail ds point =
     (if ds \<noteq> [] \<and> point < int (length ds) \<and> last ds = CHR ''0'' then strip_trail (butlast ds) point
      else ds)"

declare strip_trail.simps [simp del]

text \<open>The digits laid out around the decimal point.\<close>

definition lay_out :: "string \<Rightarrow> int \<Rightarrow> string" where
  "lay_out digits point =
     (if point \<le> 0 then ''0.'' @ repeat_str ''0'' (nat (- point)) @ digits
      else if int (length digits) \<le> point then digits @ repeat_str ''0'' (nat (point - int (length digits)))
      else take (nat point) digits @ ''.'' @ drop (nat point) digits)"

definition canonical_exp :: "string \<Rightarrow> (string \<times> int) option" where
  "canonical_exp lit =
     (let (mant, expStr, hasExp) = cut_byte (CHR ''e'') lit;
          (mant, expStr, hasExp) = (if \<not> hasExp then cut_byte (CHR ''E'') lit else (mant, expStr, hasExp)) in
      if hasExp then
        (case atoi expStr of
           None \<Rightarrow> None
         | Some ex \<Rightarrow>
             (if ex > 2 * int maxCanonicalDigits \<or> ex < - 2 * int maxCanonicalDigits then None
              else Some (mant, ex)))
      else Some (mant, 0))"

definition place_digits :: "string \<Rightarrow> string \<Rightarrow> string \<Rightarrow> int \<Rightarrow> string option" where
  "place_digits sign intPart fracPart ex =
     (let digits = intPart @ fracPart in
      if digits = [] then None
      else if \<not> list_all is_digit digits then None
      else (let (digits, point) = strip_lead digits (int (length intPart) + ex);
                digits = strip_trail digits point in
            if digits = [] then Some ''0''
            else (let out = lay_out digits point in
                  if length out > maxCanonicalDigits + 2 then None
                  else Some (sign @ out))))"

definition canonicalDecimal :: "string \<Rightarrow> string option" where
  "canonicalDecimal lit =
     (case canonical_exp lit of
        None \<Rightarrow> None
      | Some (mant, ex) \<Rightarrow>
          (let (sign, mant) = (if prefix ''-'' mant then (''-'', drop 1 mant) else ('''', mant));
               (intPart, fracPart, _) = cut_byte (CHR ''.'') mant in
           place_digits sign intPart fracPart ex))"

definition two53 :: rat where
  "two53 = 2 ^ 53"

fun CanonicalScalar :: "jvalue \<Rightarrow> string option" where
  "CanonicalScalar VNil = None"
| "CanonicalScalar (VMap _) = None"
| "CanonicalScalar (VArray _) = None"
| "CanonicalScalar (VNumber val) =
     (if length (filter is_digit val) > maxCanonicalDigits then None
      else case set_string val of
        Some i \<Rightarrow> Some (itoa_int i)
      | None \<Rightarrow> canonicalDecimal val)"
| "CanonicalScalar (VFloat f) =
     (case float_of_bits f of
        Infinite _ \<Rightarrow> None
      | NaN \<Rightarrow> Some (format_float f)
      | Finite _ q \<Rightarrow> (if q \<ge> two53 then None else Some (format_float f)))"
| "CanonicalScalar (VString s) = Some s"
| "CanonicalScalar (VBool b) = Some (format_bool b)"

definition CanonicalNumericLiteral :: "string \<Rightarrow> string option" where
  "CanonicalNumericLiteral s = (if \<not> json_valid s then None else CanonicalScalar (VNumber s))"

fun numericCanonical :: "jvalue \<Rightarrow> string option" where
  "numericCanonical (VString x) =
     (if length x > maxNumericOperandChars then None else CanonicalNumericLiteral x)"
| "numericCanonical (VNumber x) =
     (if length x > maxNumericOperandChars then None else CanonicalScalar (VNumber x))"
| "numericCanonical (VFloat x) =
     (case CanonicalScalar (VFloat x) of None \<Rightarrow> None | Some s \<Rightarrow> CanonicalNumericLiteral s)"
| "numericCanonical _ = None"

fun scalarString :: "jvalue \<Rightarrow> string option" where
  "scalarString (VString x) = Some x"
| "scalarString (VNumber x) = Some x"
| "scalarString (VFloat x) = Some (format_float x)"
| "scalarString (VBool b) = Some (format_bool b)"
| "scalarString _ = None"

section \<open>What a decimal literal means\<close>

text \<open>The value of an unsigned and of a signed decimal without exponent.\<close>

definition mag_val :: "string \<Rightarrow> rat" where
  "mag_val s = (case cut_byte (CHR ''.'') s of (i, f, _) \<Rightarrow> of_nat (digits_val (i @ f)) / 10 ^ length f)"

definition dec_val :: "string \<Rightarrow> rat" where
  "dec_val s = (if prefix ''-'' s then - mag_val (drop 1 s) else mag_val s)"

text \<open>The canonical form: no leading zero but a lone one, no trailing fraction zero, no minus zero.\<close>

definition canonical_mag :: "string \<Rightarrow> bool" where
  "canonical_mag s \<longleftrightarrow>
     (case cut_byte (CHR ''.'') s of (i, f, has) \<Rightarrow>
        i \<noteq> [] \<and> list_all is_digit (i @ f) \<and> (hd i = CHR ''0'' \<longrightarrow> i = ''0'') \<and>
        (has \<longrightarrow> f \<noteq> [] \<and> last f \<noteq> CHR ''0''))"

definition canonical :: "string \<Rightarrow> bool" where
  "canonical s \<longleftrightarrow>
     (if prefix ''-'' s then canonical_mag (drop 1 s) \<and> drop 1 s \<noteq> ''0'' else canonical_mag s)"

text \<open>The value a number literal spells, read left to right: sign, digits, fraction, exponent.\<close>

definition exp_val :: "string \<Rightarrow> int" where
  "exp_val s =
     (case s of
        [] \<Rightarrow> 0
      | _ # t \<Rightarrow>
          (case t of
             [] \<Rightarrow> 0
           | c # u \<Rightarrow> (if c = CHR ''-'' then - int (digits_val u)
                       else if c = CHR ''+'' then int (digits_val u) else int (digits_val t))))"

definition num_val :: "string \<Rightarrow> rat" where
  "num_val lit =
     (let neg = prefix ''-'' lit;
          s = (if neg then drop 1 lit else lit);
          i = takeWhile is_digit s; r = dropWhile is_digit s;
          (f, r) = (if prefix ''.'' r then (takeWhile is_digit (drop 1 r), dropWhile is_digit (drop 1 r)) else ([], r));
          m = of_nat (digits_val (i @ f)) * 10 powi (exp_val r - int (length f)) in
      if neg then - m else m)"

section \<open>The loops of the code\<close>

definition scaled :: "string \<Rightarrow> int \<Rightarrow> rat" where
  "scaled ds point = of_nat (digits_val ds) * 10 powi (point - int (length ds))"

lemma strip_lead_scaled:
  "strip_lead ds p = (ds', p') \<Longrightarrow> scaled ds' p' = scaled ds p"
proof (induction ds p arbitrary: ds' p' rule: strip_lead.induct)
  case (2 c cs point)
  then show ?case
    by (cases "c = CHR ''0''") (auto simp: scaled_def digits_val_Cons digit_val_def algebra_simps)
qed auto

lemma strip_lead_shape:
  "strip_lead ds p = (ds', p') \<Longrightarrow> suffix ds' ds \<and> (ds' \<noteq> [] \<longrightarrow> hd ds' \<noteq> CHR ''0'')"
  by (induction ds p arbitrary: ds' p' rule: strip_lead.induct)
    (auto split: if_splits intro: suffix_ConsI)

lemma strip_trail_scaled: "scaled (strip_trail ds p) p = scaled ds p"
proof (induction ds p rule: strip_trail.induct)
  case (1 ds p)
  show ?case
  proof (cases "ds \<noteq> [] \<and> p < int (length ds) \<and> last ds = CHR ''0''")
    case True
    then obtain bs where ds: "ds = bs @ [CHR ''0'']" by (metis append_butlast_last_id)
    have "scaled (butlast ds) p = scaled ds p"
      by (simp add: ds scaled_def digit_val_def power_int_diff field_simps power_int_add)
    then show ?thesis using 1 [OF True] True by (simp add: strip_trail.simps [of ds])
  next
    case False
    then show ?thesis by (auto simp: strip_trail.simps [of ds])
  qed
qed

lemma strip_trail_shape:
  "prefix (strip_trail ds p) ds \<and>
   (strip_trail ds p \<noteq> [] \<longrightarrow> p < int (length (strip_trail ds p)) \<longrightarrow> last (strip_trail ds p) \<noteq> CHR ''0'')"
proof (induction ds p rule: strip_trail.induct)
  case (1 ds p)
  then show ?case
    by (cases "ds \<noteq> [] \<and> p < int (length ds) \<and> last ds = CHR ''0''")
      (auto simp: strip_trail.simps [of ds] intro: prefix_order.trans [OF _ prefixeq_butlast])
qed

lemma repeat_zero: "repeat_str ''0'' n = replicate n (CHR ''0'')"
  by (induction n) (simp_all add: repeat_str_def)

lemma digits_val_zeros [simp]: "digits_val (replicate n (CHR ''0'')) = 0"
  by (induction n) (simp_all add: digits_val_Cons digit_val_def)

lemma zeros_digits [simp]: "list_all is_digit (replicate n (CHR ''0''))"
  by (simp add: list_all_iff is_digit_def)

lemma digits_no_byte: "list_all is_digit s \<Longrightarrow> \<not> is_digit c \<Longrightarrow> c \<notin> set s"
  by (auto simp: list_all_iff)

lemma not_digit_marks [simp]:
  "\<not> is_digit (CHR ''.'')" "\<not> is_digit (CHR ''-'')" "\<not> is_digit (CHR ''+'')"
  "\<not> is_digit (CHR ''e'')" "\<not> is_digit (CHR ''E'')"
  by (simp_all add: is_digit_def)

lemma cut_point_digits: "list_all is_digit i \<Longrightarrow> cut_byte (CHR ''.'') i = (i, [], False)"
  by (simp add: cut_no_sep digits_no_byte)

lemma cut_point_append: "list_all is_digit i \<Longrightarrow> cut_byte (CHR ''.'') (i @ CHR ''.'' # f) = (i, f, True)"
  by (simp add: cut_append digits_no_byte)

lemma powi_neg: "k = - int n \<Longrightarrow> (10::rat) powi k = 1 / 10 ^ n"
  by (simp only: power_int_minus power_int_of_nat inverse_eq_divide)

lemma lay_out_small:
  assumes "p \<le> 0"
  shows "lay_out ds p = ''0'' @ CHR ''.'' # (replicate (nat (- p)) (CHR ''0'') @ ds)"
  using assms by (simp add: lay_out_def repeat_zero)

lemma lay_out_val:
  assumes "list_all is_digit ds"
  shows "mag_val (lay_out ds p) = scaled ds p"
proof -
  consider "p \<le> 0" | "0 < p" "int (length ds) \<le> p" | "0 < p" "p < int (length ds)" by linarith
  then show ?thesis
  proof cases
    case 1
    have "cut_byte (CHR ''.'') (lay_out ds p) = (''0'', replicate (nat (- p)) (CHR ''0'') @ ds, True)"
      unfolding lay_out_small [OF 1] by (rule cut_point_append) (simp add: is_digit_def)
    moreover have "digits_val (''0'' @ replicate n (CHR ''0'') @ ds) = digits_val ds" for n
      unfolding digits_val_append by (simp add: digits_val_Cons digit_val_def)
    moreover have "(10::rat) powi (p - int (length ds)) = 1 / 10 ^ (nat (- p) + length ds)"
      using 1 by (intro powi_neg) simp
    ultimately show ?thesis
      by (simp add: mag_val_def scaled_def del: append.simps)
  next
    case 2
    then have "lay_out ds p = ds @ replicate (nat (p - int (length ds))) (CHR ''0'')"
      by (simp add: lay_out_def repeat_zero)
    with 2 assms show ?thesis
      by (simp add: mag_val_def scaled_def cut_point_digits digits_val_append power_int_def)
  next
    case 3
    then have "lay_out ds p = take (nat p) ds @ CHR ''.'' # drop (nat p) ds"
      by (simp add: lay_out_def)
    moreover have "list_all is_digit (take (nat p) ds)"
      using assms by (auto simp: list_all_iff dest: in_set_takeD)
    moreover have "(10::rat) powi (p - int (length ds)) = 1 / 10 ^ (length ds - nat p)"
      using 3 by (intro powi_neg) simp
    ultimately show ?thesis
      by (simp add: mag_val_def scaled_def cut_point_append)
  qed
qed

lemma lay_out_canonical:
  assumes ds: "list_all is_digit ds" "ds \<noteq> []" "hd ds \<noteq> CHR ''0''"
    and tr: "p < int (length ds) \<longrightarrow> last ds \<noteq> CHR ''0''"
  shows "canonical_mag (lay_out ds p)" and "lay_out ds p \<noteq> ''0''" and "\<not> prefix ''-'' (lay_out ds p)"
proof -
  consider "p \<le> 0" | "0 < p" "int (length ds) \<le> p" | "0 < p" "p < int (length ds)" by linarith
  then have "canonical_mag (lay_out ds p) \<and> lay_out ds p \<noteq> ''0'' \<and> \<not> prefix ''-'' (lay_out ds p)"
  proof cases
    case 1
    have z: "list_all is_digit ''0''" by (simp add: is_digit_def)
    have "p < int (length ds)" using 1 ds(2) by (cases ds) auto
    with 1 ds tr show ?thesis
      unfolding lay_out_small [OF 1] canonical_mag_def cut_point_append [OF z]
      by (auto simp: is_digit_def list_all_iff)
  next
    case 2
    from 2 have "lay_out ds p = ds @ replicate (nat (p - int (length ds))) (CHR ''0'')"
      by (simp add: lay_out_def repeat_zero)
    with ds show ?thesis
      by (cases ds) (auto simp: canonical_mag_def cut_point_digits digits_no_byte cut_no_sep)
  next
    case 3
    then have "lay_out ds p = take (nat p) ds @ CHR ''.'' # drop (nat p) ds" "nat p < length ds"
      by (auto simp: lay_out_def)
    moreover have "list_all is_digit (take (nat p) ds)" "list_all is_digit (drop (nat p) ds)"
      using ds(1) by (auto simp: list_all_iff dest: in_set_takeD in_set_dropD)
    ultimately show ?thesis using ds tr 3
      by (cases ds) (auto simp: canonical_mag_def cut_point_append take_Cons' last_drop)
  qed
  then show "canonical_mag (lay_out ds p)" "lay_out ds p \<noteq> ''0''" "\<not> prefix ''-'' (lay_out ds p)"
    by auto
qed

section \<open>Reading a literal\<close>

lemma set_string_cases:
  assumes "set_string s = Some i"
  obtains (neg) ds where "s = CHR ''-'' # ds" "ds \<noteq> []" "list_all is_digit ds" "i = - int (digits_val ds)"
  | (plus) ds where "s = CHR ''+'' # ds" "ds \<noteq> []" "list_all is_digit ds" "i = int (digits_val ds)"
  | (plain) "s \<noteq> []" "list_all is_digit s" "i = int (digits_val s)"
  using assms by (auto simp: set_string_def parse_digits_def split: list.splits if_splits)

lemma atoi_exp_val:
  assumes "atoi t = Some ex"
  shows "exp_val (c # t) = ex"
proof -
  from assms have "set_string t = Some ex" by (auto simp: atoi_def split: option.splits if_splits)
  then show ?thesis
    by (cases rule: set_string_cases) (auto simp: exp_val_def split: list.splits)
qed

lemma takeWhile_digits:
  "list_all is_digit i \<Longrightarrow> r = [] \<or> \<not> is_digit (hd r) \<Longrightarrow>
   takeWhile is_digit (i @ r) = i \<and> dropWhile is_digit (i @ r) = r"
  by (cases r) (auto simp: list_all_iff takeWhile_append dropWhile_append)

text \<open>The exponent part of a literal: nothing, or a marker and what follows it.\<close>

definition exp_part :: "string \<Rightarrow> bool" where
  "exp_part r \<longleftrightarrow> r = [] \<or> hd r = CHR ''e'' \<or> hd r = CHR ''E''"

lemma num_val_parts:
  assumes "list_all is_digit i" "list_all is_digit f" "exp_part r" "m = i \<and> f = [] \<or> m = i @ CHR ''.'' # f"
    "i \<noteq> [] \<or> f \<noteq> []"
  shows "num_val (m @ r) = scaled (i @ f) (int (length i) + exp_val r)"
    and "num_val (CHR ''-'' # m @ r) = - scaled (i @ f) (int (length i) + exp_val r)"
proof -
  have r: "r = [] \<or> \<not> is_digit (hd r)" "\<not> prefix ''.'' r" using assms(3) by (cases r; auto simp: exp_part_def)+
  have nm: "\<not> prefix ''-'' (m @ r)" using assms by (cases i) (auto simp: exp_part_def)
  have "num_val (m @ r) = scaled (i @ f) (int (length i) + exp_val r) \<and>
        num_val (CHR ''-'' # m @ r) = - scaled (i @ f) (int (length i) + exp_val r)"
  proof (cases "m = i \<and> f = []")
    case True
    then show ?thesis using takeWhile_digits [OF assms(1) r(1)] nm r(2)
      by (simp add: num_val_def scaled_def)
  next
    case False
    then have m: "m @ r = i @ CHR ''.'' # f @ r" using assms(4) by auto
    have "takeWhile is_digit (m @ r) = i \<and> dropWhile is_digit (m @ r) = CHR ''.'' # f @ r"
      unfolding m using takeWhile_digits [OF assms(1), of "CHR ''.'' # f @ r"] by simp
    then show ?thesis using takeWhile_digits [OF assms(2) r(1)] nm
      by (simp add: num_val_def scaled_def)
  qed
  then show "num_val (m @ r) = scaled (i @ f) (int (length i) + exp_val r)"
    and "num_val (CHR ''-'' # m @ r) = - scaled (i @ f) (int (length i) + exp_val r)"
    by auto
qed

lemma canonical_exp_parts:
  assumes "canonical_exp lit = Some (mant, ex)"
  obtains r where "lit = mant @ r" "exp_part r" "exp_val r = ex"
proof -
  have "exp_part []" "exp_val [] = 0" by (simp_all add: exp_part_def exp_val_def)
  moreover have "exp_part (c # t)" if "c = CHR ''e'' \<or> c = CHR ''E''" for c t
    using that by (auto simp: exp_part_def)
  ultimately have "\<exists>r. lit = mant @ r \<and> exp_part r \<and> exp_val r = ex"
    using assms unfolding canonical_exp_def
    by (auto simp: Let_def cut_found cut_not_found atoi_exp_val
        split: prod.splits if_splits option.splits)
  then show ?thesis using that by blast
qed

text \<open>Everything that follows holds of a sign and the digits before and after the point.\<close>

lemma place_digits_sound:
  assumes "place_digits sign i f ex = Some out" "sign = (if neg then ''-'' else '''')"
  shows "list_all is_digit (i @ f) \<and> i @ f \<noteq> [] \<and> canonical out \<and>
    dec_val out = (if neg then - scaled (i @ f) (int (length i) + ex) else scaled (i @ f) (int (length i) + ex))"
proof -
  obtain ds p where s: "strip_lead (i @ f) (int (length i) + ex) = (ds, p)" by fastforce
  define ds' where "ds' = strip_trail ds p"
  have body: "i @ f \<noteq> []" "list_all is_digit (i @ f)"
    "(if ds' = [] then Some ''0''
      else if length (lay_out ds' p) > maxCanonicalDigits + 2 then None
      else Some (sign @ lay_out ds' p)) = Some out"
    using assms(1) unfolding place_digits_def Let_def s ds'_def by (auto split: if_splits)
  have val: "scaled (i @ f) (int (length i) + ex) = scaled ds' p"
    using strip_lead_scaled [OF s] strip_trail_scaled [of ds p] by (simp add: ds'_def)
  have "set ds' \<subseteq> set (i @ f)"
    using strip_lead_shape [OF s] strip_trail_shape [of ds p]
    unfolding ds'_def by (meson set_mono_prefix set_mono_suffix subset_trans)
  then have dig: "list_all is_digit ds'" using body(2) by (auto simp: list_all_iff)
  show ?thesis
  proof (cases "ds' = []")
    case True
    then have "scaled ds' p = 0" "out = ''0''" using body(3) by (auto simp: scaled_def)
    moreover have "canonical ''0''" "dec_val ''0'' = 0" by code_simp+
    ultimately show ?thesis using val body by simp
  next
    case False
    have hd: "hd ds' \<noteq> CHR ''0''"
      using False strip_lead_shape [OF s] strip_trail_shape [of ds p]
      unfolding ds'_def by (metis hd_append2 prefix_def append_is_Nil_conv)
    have tr: "p < int (length ds') \<longrightarrow> last ds' \<noteq> CHR ''0''"
      using False strip_trail_shape [of ds p] by (auto simp: ds'_def)
    note lo = lay_out_canonical [OF dig False hd tr]
    have out: "out = (if neg then CHR ''-'' # lay_out ds' p else lay_out ds' p)"
      using body(3) False assms(2) by (auto split: if_splits)
    show ?thesis
      using lo lay_out_val [OF dig] val body by (auto simp: out canonical_def dec_val_def)
  qed
qed

lemma canonicalDecimal_sound:
  assumes "canonicalDecimal lit = Some out"
  shows "canonical out \<and> dec_val out = num_val lit"
proof -
  from assms obtain mant ex where e: "canonical_exp lit = Some (mant, ex)"
    by (auto simp: canonicalDecimal_def split: option.splits)
  from canonical_exp_parts [OF e] obtain r where lit: "lit = mant @ r" and r: "exp_part r" "exp_val r = ex" .
  define neg where "neg = prefix ''-'' mant"
  define m where "m = (if neg then drop 1 mant else mant)"
  have mant: "mant = (if neg then CHR ''-'' # m else m)" by (auto simp: neg_def m_def prefix_def)
  obtain i f b where c: "cut_byte (CHR ''.'') m = (i, f, b)" by (cases "cut_byte (CHR ''.'') m") auto
  then have m: "m = i \<and> f = [] \<or> m = i @ CHR ''.'' # f" by (cases b) (auto simp: cut_found cut_not_found)
  have "place_digits (if neg then ''-'' else '''') i f ex = Some out"
    using assms c by (cases neg) (simp_all add: canonicalDecimal_def e neg_def m_def)
  note p = place_digits_sound [OF this refl]
  then show ?thesis
    using num_val_parts [of i f r m] r m by (auto simp: lit mant)
qed

lemma itoa_hd: "hd (itoa n) = CHR ''0'' \<Longrightarrow> n = 0"
proof (induction n rule: itoa.induct)
  case (1 n)
  then show ?case
    by (cases "n < 10")
      (auto simp: itoa.simps [of n] digit_char_def hd_append dest: arg_cong [of _ _ "of_char :: char \<Rightarrow> nat"])
qed

lemma itoa_0: "itoa 0 = ''0''"
  by code_simp

lemma itoa_canonical: "canonical_mag (itoa n) \<and> mag_val (itoa n) = of_nat n"
proof -
  have "hd (itoa n) = CHR ''0'' \<longrightarrow> itoa n = ''0''"
    using itoa_hd [of n] itoa_0 by auto
  then show ?thesis by (simp add: canonical_mag_def mag_val_def cut_point_digits)
qed

lemma itoa_no_minus [simp]: "\<not> prefix ''-'' (itoa n)"
proof
  assume "prefix ''-'' (itoa n)"
  then have "CHR ''-'' \<in> set (itoa n)" by (auto simp: prefix_def)
  then show False using itoa_digit_set by fastforce
qed

lemma itoa_int_canonical: "canonical (itoa_int i) \<and> dec_val (itoa_int i) = of_int i"
proof (cases "i < 0")
  case True
  then have "itoa (nat (- i)) \<noteq> ''0''"
    using itoa_inject [of "nat (- i)" 0] by (auto simp: itoa_0)
  with True itoa_canonical [of "nat (- i)"] show ?thesis
    by (simp add: itoa_int_def canonical_def dec_val_def)
next
  case False
  with itoa_canonical [of "nat i"] show ?thesis
    by (simp add: itoa_int_def canonical_def dec_val_def)
qed

lemma set_string_num_val:
  assumes "set_string s = Some i" "\<not> prefix ''+'' s"
  shows "num_val s = of_int i"
  using assms(1)
proof (cases rule: set_string_cases)
  case (neg ds)
  then show ?thesis
    using num_val_parts(2) [of ds "[]" "[]" ds] by (simp add: exp_part_def scaled_def exp_val_def)
next
  case (plus ds)
  then show ?thesis using assms(2) by simp
next
  case plain
  then show ?thesis
    using num_val_parts(1) [of s "[]" "[]" s] by (simp add: exp_part_def scaled_def exp_val_def)
qed

lemma json_valid_no_plus: "json_valid s \<Longrightarrow> \<not> prefix ''+'' s"
  by (auto simp: json_valid_def prefix_def json_space_def json_number_def json_int_def json_digits_def
      split: option.splits)

section \<open>Properties\<close>

text \<open>C3. Rendering a JSON number, exponent and fraction included, gives a canonical decimal with
  exactly the value the literal spells: no digit is lost at any width.\<close>

theorem CanonicalScalar_exact:
  assumes "CanonicalScalar (VNumber lit) = Some out" "\<not> prefix ''+'' lit"
  shows "canonical out \<and> dec_val out = num_val lit"
  using assms canonicalDecimal_sound itoa_int_canonical set_string_num_val
  by (auto split: if_splits option.splits)

theorem CanonicalScalar_exact_witness:
  "CanonicalScalar (VNumber ''-25.0e-4'') = Some ''-0.0025'' \<and> canonical ''-0.0025'' \<and>
   dec_val ''-0.0025'' = num_val ''-25.0e-4''"
proof -
  have h: "CanonicalScalar (VNumber ''-25.0e-4'') = Some ''-0.0025''" by code_simp
  have p: "\<not> prefix ''+'' ''-25.0e-4''" by simp
  from h CanonicalScalar_exact [OF h p] show ?thesis by simp
qed

lemma numericCanonical_canonical: "numericCanonical v = Some c \<Longrightarrow> (\<forall>x. v = VNumber x \<longrightarrow> \<not> prefix ''+'' x) \<Longrightarrow> canonical c"
  by (cases v rule: numericCanonical.cases)
    (auto simp: CanonicalNumericLiteral_def canonicalDecimal_sound itoa_int_canonical
      split: if_splits option.splits)

end
