(* ===== verification/Claims.thy ===== *)
theory Claims
  imports Canonical
begin

text \<open>
  Claim templates (\<^verbatim>\<open>pkg/policy/claims.go\<close> and the resolvers of \<^verbatim>\<open>policy.go\<close>): the grammar
  \<^verbatim>\<open>{{ jwt.path }}\<close>, the navigation of a token's nested claims, and the resolution of a template or of
  an \<^verbatim>\<open>_in\<close> set. Pipe SQL and policy values share them.

  The grammar is a regular expression in the source. Its pieces have disjoint first bytes, so a
  match at a position is found greedily without backtracking (\<open>match_claim\<close>), and the leftmost
  non-overlapping matches by one pass over the text.
\<close>

section \<open>The template grammar\<close>

text \<open>The class \<^verbatim>\<open>\s\<close> of Go's regexp syntax.\<close>

definition re_space :: "char \<Rightarrow> bool" where
  "re_space c \<longleftrightarrow> byte c \<in> {0x09, 0x0A, 0x0C, 0x0D, 0x20 :: nat}"

definition path_byte :: "char \<Rightarrow> bool" where
  "path_byte c \<longleftrightarrow> is_alnum c \<or> c = CHR ''_'' \<or> c = CHR ''.''"

text \<open>A match of \<open>ClaimTemplatePattern\<close> at the front of a text: the path (group 1) and what follows.\<close>

definition match_claim :: "string \<Rightarrow> (string \<times> string) option" where
  "match_claim s =
     (case cut_prefix ''{{'' s of
        None \<Rightarrow> None
      | Some s \<Rightarrow>
          (case cut_prefix ''jwt.'' (dropWhile re_space s) of
             None \<Rightarrow> None
           | Some s \<Rightarrow>
               (let path = takeWhile path_byte s in
                if path = [] then None
                else map_option (Pair path)
                       (cut_prefix ''}}'' (dropWhile re_space (dropWhile path_byte s))))))"

lemma match_claim_shorter: "match_claim s = Some (p, r) \<Longrightarrow> length r < length s"
proof -
  assume "match_claim s = Some (p, r)"
  then obtain t u where t: "s = ''{{'' @ t" and u: "dropWhile re_space t = ''jwt.'' @ u"
    and r: "dropWhile re_space (dropWhile path_byte u) = ''}}'' @ r"
    by (auto simp: match_claim_def Let_def split: option.splits if_splits)
  have "length r \<le> length u"
    using r length_dropWhile_le [of re_space "dropWhile path_byte u"] length_dropWhile_le [of path_byte u] by simp
  moreover have "length u \<le> length t" using u length_dropWhile_le [of re_space t] by simp
  ultimately show ?thesis using t by simp
qed

text \<open>A text cut at its templates: literal runs (\<open>Lit\<close>) and claim paths (\<open>Claim\<close>).\<close>

datatype piece = Lit char | Claim string

function template_pieces :: "string \<Rightarrow> piece list" where
  "template_pieces [] = []"
| "template_pieces (c # cs) =
     (case match_claim (c # cs) of
        Some (path, rest) \<Rightarrow> Claim path # template_pieces rest
      | None \<Rightarrow> Lit c # template_pieces cs)"
  by pat_completeness auto
termination
  by (relation "measure length") (auto dest: match_claim_shorter)

definition claim_paths :: "string \<Rightarrow> string list" where
  "claim_paths s = List.map_filter (\<lambda>p. case p of Claim path \<Rightarrow> Some path | Lit _ \<Rightarrow> None) (template_pieces s)"

text \<open>\<^verbatim>\<open>claimTemplateRe.MatchString\<close>, and the path of a value that is exactly one reference
  (\<^verbatim>\<open>wholeClaimRe\<close>).\<close>

definition has_claim :: "string \<Rightarrow> bool" where
  "has_claim s \<longleftrightarrow> claim_paths s \<noteq> []"

definition whole_claim :: "string \<Rightarrow> string option" where
  "whole_claim s = (case match_claim s of Some (path, []) \<Rightarrow> Some path | _ \<Rightarrow> None)"

section \<open>Resolving claims\<close>

type_synonym claims = "(string \<times> jvalue) list"

fun navigateClaims :: "claims \<Rightarrow> string list \<Rightarrow> jvalue" where
  "navigateClaims claims [] = VNil"
| "navigateClaims claims [p] = (case map_of claims p of Some v \<Rightarrow> v | None \<Rightarrow> VNil)"
| "navigateClaims claims (p # q # ps) =
     (case map_of claims p of
        Some (VMap nested) \<Rightarrow> navigateClaims nested (q # ps)
      | _ \<Rightarrow> VNil)"

definition claim_at :: "claims \<Rightarrow> string \<Rightarrow> jvalue" where
  "claim_at claims path = navigateClaims claims (split_at (CHR ''.'') path)"

fun canonical_all :: "jvalue list \<Rightarrow> string list option" where
  "canonical_all [] = Some []"
| "canonical_all (e # es) =
     (case CanonicalScalar e of
        None \<Rightarrow> None
      | Some s \<Rightarrow> map_option ((#) s) (canonical_all es))"

text \<open>The values a claim binds, whether it is a set, and whether anything can bind.\<close>

definition ResolveClaim :: "claims \<Rightarrow> string \<Rightarrow> string list \<times> bool \<times> bool" where
  "ResolveClaim claims path =
     (case claim_at claims path of
        VArray v \<Rightarrow>
          (if v = [] then ([], True, False)
           else (case canonical_all v of
                   None \<Rightarrow> ([], True, False)
                 | Some values \<Rightarrow> (values, True, True)))
      | v \<Rightarrow> (case CanonicalScalar v of
                None \<Rightarrow> ([], False, False)
              | Some s \<Rightarrow> ([s], False, True)))"

text \<open>\<^verbatim>\<open>resolveTemplate\<close>: the text with each template replaced by its value (or by nothing), and whether
  every one of them could bind.\<close>

fun resolve_pieces :: "claims \<Rightarrow> piece list \<Rightarrow> string \<times> bool" where
  "resolve_pieces claims [] = ([], True)"
| "resolve_pieces claims (Lit c # ps) = (case resolve_pieces claims ps of (s, ok) \<Rightarrow> (c # s, ok))"
| "resolve_pieces claims (Claim path # ps) =
     (case resolve_pieces claims ps of (s, ok) \<Rightarrow>
        (case CanonicalScalar (claim_at claims path) of
           None \<Rightarrow> (s, False)
         | Some v \<Rightarrow> (v @ s, ok)))"

definition resolveTemplate :: "string \<Rightarrow> claims \<Rightarrow> string \<times> bool" where
  "resolveTemplate tmpl claims = resolve_pieces claims (template_pieces tmpl)"

text \<open>\<^verbatim>\<open>resolveInValues\<close>; the empty list is the nil set, which matches nothing.\<close>

definition resolveInValues :: "string \<Rightarrow> claims \<Rightarrow> string list" where
  "resolveInValues tmpl claims =
     (case whole_claim (trim_space tmpl) of
        Some path \<Rightarrow>
          (case ResolveClaim claims path of (vals, _, ok) \<Rightarrow> if \<not> ok then [] else vals)
      | None \<Rightarrow>
          (case resolveTemplate tmpl claims of (v, ok) \<Rightarrow> if ok then [v] else []))"

section \<open>Malformed templates\<close>

text \<open>\<^verbatim>\<open>claimTemplateRe.ReplaceAllString(v, "")\<close>.\<close>

definition strip_claims :: "string \<Rightarrow> string" where
  "strip_claims v = List.map_filter (\<lambda>p. case p of Lit c \<Rightarrow> Some c | Claim _ \<Rightarrow> None) (template_pieces v)"

definition malformedTemplate :: "string \<Rightarrow> string option" where
  "malformedTemplate v =
     (let stripped = strip_claims v in
      case str_index ''{{'' stripped of
        None \<Rightarrow> None
      | Some i \<Rightarrow>
          (let frag = drop i stripped in
           case str_index ''}}'' frag of
             Some end \<Rightarrow> Some (take (end + 2) frag)
           | None \<Rightarrow> Some frag))"

section \<open>What resolution guarantees\<close>

text \<open>A template can bind exactly when each of its claims is a scalar with a canonical form.\<close>

definition bindable :: "claims \<Rightarrow> string \<Rightarrow> bool" where
  "bindable claims path \<longleftrightarrow> CanonicalScalar (claim_at claims path) \<noteq> None"

lemma resolve_pieces_ok:
  "snd (resolve_pieces claims ps) \<longleftrightarrow> (\<forall>path. Claim path \<in> set ps \<longrightarrow> bindable claims path)"
  by (induction claims ps rule: resolve_pieces.induct)
    (auto simp: bindable_def split: prod.splits option.splits)

lemma claim_paths_iff: "path \<in> set (claim_paths s) \<longleftrightarrow> Claim path \<in> set (template_pieces s)"
  by (force simp: claim_paths_def map_filter_def split: piece.splits)

lemma resolveTemplate_ok:
  "snd (resolveTemplate tmpl claims) \<longleftrightarrow> (\<forall>path \<in> set (claim_paths tmpl). bindable claims path)"
  by (auto simp: resolveTemplate_def resolve_pieces_ok claim_paths_iff)

lemma resolve_literal: "claim_paths tmpl = [] \<Longrightarrow> resolveTemplate tmpl claims = (tmpl, True)"
proof -
  have "List.map_filter (\<lambda>p. case p of Claim path \<Rightarrow> Some path | Lit _ \<Rightarrow> None) (template_pieces s) = []
    \<Longrightarrow> resolve_pieces claims (template_pieces s) = (s, True)" for s
    by (induction s rule: template_pieces.induct) (auto simp: map_filter_simps split: option.splits prod.splits)
  then show "claim_paths tmpl = [] \<Longrightarrow> ?thesis" by (simp add: claim_paths_def resolveTemplate_def)
qed

lemma canonical_all_Some: "canonical_all vs = Some ss \<Longrightarrow> length ss = length vs \<and> (\<forall>v \<in> set vs. CanonicalScalar v \<noteq> None)"
  by (induction vs arbitrary: ss) (auto split: option.splits)

lemma ResolveClaim_values: "ResolveClaim claims path = (vals, is_set, ok) \<Longrightarrow> ok \<longleftrightarrow> vals \<noteq> []"
  by (auto simp: ResolveClaim_def split: jvalue.splits if_splits option.splits dest: canonical_all_Some)

end
