(* ===== verification/Policy.thy ===== *)
theory Policy
  imports Claims Chsql
begin

text \<open>
  The access-control policy (\<^verbatim>\<open>pkg/policy/policy.go\<close>, \<^verbatim>\<open>roles.go\<close>): the document, its evaluation
  for a role, table and operation against a token's claims, the accessors of a resolved grant, and
  the validation of a document.

  A Go pointer or map that may be nil is an \<open>option\<close>; a method on a nil receiver takes \<open>None\<close>. A Go map
  is an association list with distinct keys, whose order is the order one iteration visits: what
  the code computes from it is shown not to depend on that order.
\<close>

section \<open>The document\<close>

record filter_spec =
  Eq :: "string option"
  Neq :: "string option"
  Gt :: "string option"
  Lt :: "string option"
  In :: "string option"

record SelectPermissions =
  sel_AllowColumns :: "string list"
  sel_DenyColumns :: "string list"
  sel_Filter :: "(string \<times> filter_spec) list"
  sel_AllowedAggregations :: "string list"
  sel_DeniedAggregations :: "string list"
  sel_MaxRows :: int
  sel_MaxExecutionTime :: int
  sel_MaxRowsToRead :: int
  sel_MaxMemoryUsage :: int

record InsertPermissions =
  ins_AllowColumns :: "string list"
  ins_DenyColumns :: "string list"
  ins_Check :: "(string \<times> filter_spec) list"

record RolePermissions =
  role_Select :: "SelectPermissions option"
  role_Insert :: "InsertPermissions option"

type_synonym TablePolicy = "(string \<times> RolePermissions) list"

record Policy =
  DefaultRole :: string
  AdminRole_field :: string
  Tables :: "(string \<times> TablePolicy) list"

definition hasOperator :: "filter_spec \<Rightarrow> bool" where
  "hasOperator f \<longleftrightarrow> Eq f \<noteq> None \<or> Neq f \<noteq> None \<or> Gt f \<noteq> None \<or> Lt f \<noteq> None \<or> In f \<noteq> None"

section \<open>Roles (\<^verbatim>\<open>roles.go\<close>)\<close>

definition defaultAdminRole :: string where
  "defaultAdminRole = ''admin''"

definition AdminRole :: "Policy option \<Rightarrow> string" where
  "AdminRole p =
     (case p of
        None \<Rightarrow> ''''
      | Some p \<Rightarrow> (if AdminRole_field p \<noteq> '''' then AdminRole_field p else defaultAdminRole))"

definition IsAdmin :: "Policy option \<Rightarrow> string \<Rightarrow> bool" where
  "IsAdmin p role = (case p of None \<Rightarrow> False | Some _ \<Rightarrow> role \<noteq> '''' \<and> role = AdminRole p)"

definition DefaultRoleGrantsAdmin :: "Policy option \<Rightarrow> bool" where
  "DefaultRoleGrantsAdmin p =
     (case p of None \<Rightarrow> False | Some q \<Rightarrow> DefaultRole q \<noteq> '''' \<and> DefaultRole q = AdminRole p)"

definition RoleAllowed :: "Policy option \<Rightarrow> string \<Rightarrow> string list \<Rightarrow> bool" where
  "RoleAllowed p role allowedRoles =
     (if IsAdmin p role then True
      else if role = '''' then False
      else list_ex (\<lambda>ar. ar \<noteq> '''' \<and> ar = role) allowedRoles)"

definition ResolveRole :: "Policy option \<Rightarrow> string \<Rightarrow> string" where
  "ResolveRole p role =
     (if role \<noteq> '''' then role else case p of None \<Rightarrow> role | Some q \<Rightarrow> DefaultRole q)"

section \<open>Resolved grants\<close>

record resolvedPredicate =
  Column :: string
  Op :: string
  Values :: "string list"

record ResolvedSelect =
  rs_AllowColumns :: "string list"
  rs_DenyColumns :: "string list"
  WhereClause :: string
  WhereParams :: "string list"
  rowFilter :: "resolvedPredicate list"
  rs_AllowedAggregations :: "string list"
  rs_DeniedAggregations :: "string list"
  rs_MaxRows :: int
  rs_MaxExecutionTime :: int
  rs_MaxRowsToRead :: int
  rs_MaxMemoryUsage :: int

text \<open>A required value of a check: a literal (\<^verbatim>\<open>LiteralValue\<close>), a value from a claim, or a set.\<close>

datatype check_value = LiteralValue string | ClaimValue string | InSet "string list"

record ResolvedInsert =
  ri_AllowColumns :: "string list"
  ri_DenyColumns :: "string list"
  ri_CheckClauses :: "(string \<times> check_value) list"

record ResolvedPermissions =
  Allowed :: bool
  Select :: "ResolvedSelect option"
  Insert :: "ResolvedInsert option"

definition denied :: ResolvedPermissions where
  "denied = \<lparr>Allowed = False, Select = None, Insert = None\<rparr>"

definition empty_select :: ResolvedSelect where
  "empty_select =
     \<lparr>rs_AllowColumns = [], rs_DenyColumns = [], WhereClause = '''', WhereParams = [], rowFilter = [],
      rs_AllowedAggregations = [], rs_DeniedAggregations = [], rs_MaxRows = 0, rs_MaxExecutionTime = 0,
      rs_MaxRowsToRead = 0, rs_MaxMemoryUsage = 0\<rparr>"

definition empty_insert :: ResolvedInsert where
  "empty_insert = \<lparr>ri_AllowColumns = [], ri_DenyColumns = [], ri_CheckClauses = []\<rparr>"

section \<open>Predicates and their SQL\<close>

definition scalar_pred :: "claims \<Rightarrow> string \<Rightarrow> string \<Rightarrow> string \<Rightarrow> resolvedPredicate" where
  "scalar_pred claims col op tmpl =
     (case resolveTemplate tmpl claims of (v, ok) \<Rightarrow>
        \<lparr>Column = col, Op = op, Values = (if \<not> ok then [] else [v])\<rparr>)"

definition column_predicates :: "claims \<Rightarrow> string \<times> filter_spec \<Rightarrow> resolvedPredicate list" where
  "column_predicates claims cf =
     (case cf of (col, f) \<Rightarrow>
        (case Eq f of Some t \<Rightarrow> [scalar_pred claims col ''='' t] | None \<Rightarrow> []) @
        (case Neq f of Some t \<Rightarrow> [scalar_pred claims col ''!='' t] | None \<Rightarrow> []) @
        (case Gt f of Some t \<Rightarrow> [scalar_pred claims col ''>'' t] | None \<Rightarrow> []) @
        (case Lt f of Some t \<Rightarrow> [scalar_pred claims col ''<'' t] | None \<Rightarrow> []) @
        (case In f of
           Some t \<Rightarrow> [\<lparr>Column = col, Op = ''in'', Values = resolveInValues t claims\<rparr>]
         | None \<Rightarrow> []))"

definition resolvePredicates :: "(string \<times> filter_spec) list \<Rightarrow> claims \<Rightarrow> resolvedPredicate list" where
  "resolvePredicates filters claims = concat (map (column_predicates claims) filters)"

text \<open>The clause of one predicate and what it binds.\<close>

definition predicate_sql :: "resolvedPredicate \<Rightarrow> string \<times> string list" where
  "predicate_sql p =
     (let qcol = QuoteIdent (Column p) in
      if Op p = ''in'' then
        (if Values p = [] then (''1 = 0'', [])
         else (qcol @ '' IN ('' @ trim_suffix '','' (repeat_str ''?,'' (length (Values p))) @ '')'', Values p))
      else if Values p = [] then (''1 = 0'', [])
      else (qcol @ '' '' @ Op p @ '' ?'', [Values p ! 0]))"

definition predicatesToSQL :: "resolvedPredicate list \<Rightarrow> string list \<times> string list" where
  "predicatesToSQL preds =
     (map (fst \<circ> predicate_sql) preds, concat (map (snd \<circ> predicate_sql) preds))"

definition resolveFilters :: "(string \<times> filter_spec) list \<Rightarrow> claims \<Rightarrow> string list \<times> string list" where
  "resolveFilters filters claims = predicatesToSQL (resolvePredicates filters claims)"

section \<open>Evaluation\<close>

definition evaluateSelect :: "SelectPermissions option \<Rightarrow> claims \<Rightarrow> ResolvedPermissions" where
  "evaluateSelect perms claims =
     (case perms of
        None \<Rightarrow> denied
      | Some perms \<Rightarrow>
          (let base = empty_select
                 \<lparr>rs_AllowColumns := sel_AllowColumns perms, rs_DenyColumns := sel_DenyColumns perms,
                  rs_AllowedAggregations := sel_AllowedAggregations perms,
                  rs_DeniedAggregations := sel_DeniedAggregations perms,
                  rs_MaxRows := sel_MaxRows perms, rs_MaxExecutionTime := sel_MaxExecutionTime perms,
                  rs_MaxRowsToRead := sel_MaxRowsToRead perms, rs_MaxMemoryUsage := sel_MaxMemoryUsage perms\<rparr> in
           if sel_Filter perms \<noteq> [] then
             (if list_ex (\<lambda>(col, f). BindUnsafe col \<or> \<not> hasOperator f) (sel_Filter perms) then denied
              else (let preds = resolvePredicates (sel_Filter perms) claims;
                        (clauses, params) = predicatesToSQL preds;
                        r = base\<lparr>rowFilter := preds\<rparr> in
                    \<lparr>Allowed = True,
                     Select = Some (if clauses \<noteq> []
                       then r\<lparr>WhereClause := join '' AND '' clauses, WhereParams := params\<rparr> else r),
                     Insert = None\<rparr>))
           else \<lparr>Allowed = True, Select = Some base, Insert = None\<rparr>))"

definition check_rejected :: "filter_spec \<Rightarrow> bool" where
  "check_rejected f \<longleftrightarrow> \<not> hasOperator f \<or> Neq f \<noteq> None \<or> Gt f \<noteq> None \<or> Lt f \<noteq> None \<or>
     (Eq f \<noteq> None \<and> In f \<noteq> None)"

definition check_clause :: "claims \<Rightarrow> filter_spec \<Rightarrow> check_value option" where
  "check_clause claims f =
     (case Eq f of
        Some t \<Rightarrow>
          (let v = fst (resolveTemplate t claims) in
           Some (if \<not> has_claim t then LiteralValue v else ClaimValue v))
      | None \<Rightarrow>
          (case In f of Some t \<Rightarrow> Some (InSet (resolveInValues t claims)) | None \<Rightarrow> None))"

definition check_clauses :: "claims \<Rightarrow> (string \<times> filter_spec) list \<Rightarrow> (string \<times> check_value) list" where
  "check_clauses claims checks =
     List.map_filter (\<lambda>(col, f). map_option (Pair col) (check_clause claims f)) checks"

definition evaluateInsert :: "InsertPermissions option \<Rightarrow> claims \<Rightarrow> ResolvedPermissions" where
  "evaluateInsert perms claims =
     (case perms of
        None \<Rightarrow> denied
      | Some perms \<Rightarrow>
          (let base = empty_insert
                 \<lparr>ri_AllowColumns := ins_AllowColumns perms, ri_DenyColumns := ins_DenyColumns perms\<rparr> in
           if ins_Check perms \<noteq> [] then
             (if list_ex (\<lambda>(col, f). BindUnsafe col \<or> check_rejected f) (ins_Check perms) then denied
              else \<lparr>Allowed = True, Select = None,
                    Insert = Some (base\<lparr>ri_CheckClauses := check_clauses claims (ins_Check perms)\<rparr>)\<rparr>)
           else \<lparr>Allowed = True, Select = None, Insert = Some base\<rparr>))"

definition Evaluate :: "Policy option \<Rightarrow> string \<Rightarrow> string \<Rightarrow> string \<Rightarrow> claims \<Rightarrow> ResolvedPermissions" where
  "Evaluate p role table operation claims =
     (let role = ResolveRole p role in
      if IsAdmin p role then \<lparr>Allowed = True, Select = Some empty_select, Insert = Some empty_insert\<rparr>
      else case p of
        None \<Rightarrow> denied
      | Some p \<Rightarrow>
          (case map_of (Tables p) table of
             None \<Rightarrow> denied
           | Some tp \<Rightarrow>
               (case (if role \<noteq> '''' then map_of tp role else None) of
                  None \<Rightarrow> denied
                | Some perms \<Rightarrow>
                    (if operation = ''select'' then evaluateSelect (role_Select perms) claims
                     else if operation = ''insert'' then evaluateInsert (role_Insert perms) claims
                     else denied))))"

section \<open>Accessors of a resolved grant\<close>

definition column_allowed :: "string list \<Rightarrow> string list \<Rightarrow> string \<Rightarrow> bool" where
  "column_allowed allowColumns denyColumns col =
     (if list_ex (\<lambda>d. d = col) denyColumns then False
      else if allowColumns = [] then True
      else list_ex (\<lambda>a. a = ''*'' \<or> a = col) allowColumns)"

definition IsColumnAllowed :: "ResolvedPermissions option \<Rightarrow> string \<Rightarrow> bool \<Rightarrow> bool" where
  "IsColumnAllowed rp col insert_side =
     (case rp of
        None \<Rightarrow> True
      | Some rp \<Rightarrow>
          (if \<not> Allowed rp then False
           else if insert_side then
             (case Insert rp of
                None \<Rightarrow> False
              | Some s \<Rightarrow> column_allowed (ri_AllowColumns s) (ri_DenyColumns s) col)
           else
             (case Select rp of
                None \<Rightarrow> False
              | Some s \<Rightarrow> column_allowed (rs_AllowColumns s) (rs_DenyColumns s) col)))"

definition CheckClauses :: "ResolvedPermissions option \<Rightarrow> (string \<times> check_value) list option" where
  "CheckClauses rp =
     (case rp of
        None \<Rightarrow> Some []
      | Some rp \<Rightarrow>
          (if \<not> Allowed rp then None
           else case Insert rp of None \<Rightarrow> None | Some s \<Rightarrow> Some (ri_CheckClauses s)))"

definition AllowedProjection :: "ResolvedPermissions option \<Rightarrow> string list \<Rightarrow> string list" where
  "AllowedProjection rp cols =
     (case rp of None \<Rightarrow> cols | Some _ \<Rightarrow> filter (\<lambda>c. IsColumnAllowed rp c False) cols)"

definition RestrictsColumns :: "ResolvedPermissions option \<Rightarrow> bool" where
  "RestrictsColumns rp =
     (case rp of
        None \<Rightarrow> False
      | Some rp \<Rightarrow>
          (if \<not> Allowed rp then True
           else case Select rp of
             None \<Rightarrow> True
           | Some s \<Rightarrow>
               (if rs_DenyColumns s \<noteq> [] then True
                else if rs_AllowColumns s = [] then False
                else \<not> list_ex (\<lambda>a. a = ''*'') (rs_AllowColumns s))))"

definition IsAggregationAllowed :: "(string \<Rightarrow> string) \<Rightarrow> ResolvedPermissions option \<Rightarrow> string \<Rightarrow> bool" where
  "IsAggregationAllowed uni rp fn =
     (case rp of
        None \<Rightarrow> True
      | Some rp \<Rightarrow>
          (if \<not> Allowed rp then False
           else case Select rp of
             None \<Rightarrow> False
           | Some s \<Rightarrow>
               (let fn = to_lower uni fn in
                if list_ex (\<lambda>d. to_lower uni d = fn) (rs_DeniedAggregations s) then False
                else if rs_AllowedAggregations s = [] then True
                else list_ex (\<lambda>a. to_lower uni a = fn) (rs_AllowedAggregations s))))"

section \<open>Validation\<close>

datatype policy_error =
    PolicyNil
  | EmptyRole string
  | NegativeCap string string string
  | UnsafeColumn string string string
  | NoOperator string string string
  | CheckOperator string string string
  | CheckAmbiguous string string string
  | MalformedTemplate string string string string

definition rejectMalformedTemplates :: "string \<Rightarrow> string \<Rightarrow> string \<Rightarrow> filter_spec \<Rightarrow> policy_error option" where
  "rejectMalformedTemplates table role col f =
     (case List.map_filter (\<lambda>v. Option.bind v malformedTemplate) [Eq f, Neq f, Gt f, Lt f, In f] of
        [] \<Rightarrow> None
      | frag # _ \<Rightarrow> Some (MalformedTemplate table role col frag))"

text \<open>The first error of a list of checks, as a loop with early returns reports it.\<close>

fun first_error :: "('a \<Rightarrow> 'e option) \<Rightarrow> 'a list \<Rightarrow> 'e option" where
  "first_error check [] = None"
| "first_error check (x # xs) = (case check x of Some e \<Rightarrow> Some e | None \<Rightarrow> first_error check xs)"

definition validate_filter :: "string \<Rightarrow> string \<Rightarrow> string \<times> filter_spec \<Rightarrow> policy_error option" where
  "validate_filter table role cf =
     (case cf of (col, f) \<Rightarrow>
        (if BindUnsafe col then Some (UnsafeColumn table role col)
         else if \<not> hasOperator f then Some (NoOperator table role col)
         else rejectMalformedTemplates table role col f))"

definition validateSelectPerms :: "string \<Rightarrow> string \<Rightarrow> SelectPermissions option \<Rightarrow> policy_error option" where
  "validateSelectPerms table role perms =
     (case perms of
        None \<Rightarrow> None
      | Some perms \<Rightarrow>
          (if sel_MaxRows perms < 0 then Some (NegativeCap table role ''max_rows'')
           else if sel_MaxExecutionTime perms < 0 then Some (NegativeCap table role ''max_execution_time'')
           else if sel_MaxRowsToRead perms < 0 then Some (NegativeCap table role ''max_rows_to_read'')
           else if sel_MaxMemoryUsage perms < 0 then Some (NegativeCap table role ''max_memory_usage'')
           else first_error (validate_filter table role) (sel_Filter perms)))"

definition validate_check :: "string \<Rightarrow> string \<Rightarrow> string \<times> filter_spec \<Rightarrow> policy_error option" where
  "validate_check table role cf =
     (case cf of (col, f) \<Rightarrow>
        (if BindUnsafe col then Some (UnsafeColumn table role col)
         else if \<not> hasOperator f then Some (NoOperator table role col)
         else if Neq f \<noteq> None \<or> Gt f \<noteq> None \<or> Lt f \<noteq> None then Some (CheckOperator table role col)
         else if Eq f \<noteq> None \<and> In f \<noteq> None then Some (CheckAmbiguous table role col)
         else rejectMalformedTemplates table role col f))"

definition validateInsertPerms :: "string \<Rightarrow> string \<Rightarrow> InsertPermissions option \<Rightarrow> policy_error option" where
  "validateInsertPerms table role perms =
     (case perms of
        None \<Rightarrow> None
      | Some perms \<Rightarrow> first_error (validate_check table role) (ins_Check perms))"

definition validate_role :: "string \<Rightarrow> string \<times> RolePermissions \<Rightarrow> policy_error option" where
  "validate_role table rp =
     (case rp of (role, perms) \<Rightarrow>
        (if trim_space role = '''' then Some (EmptyRole table)
         else case validateSelectPerms table role (role_Select perms) of
           Some e \<Rightarrow> Some e
         | None \<Rightarrow> validateInsertPerms table role (role_Insert perms)))"

definition Validate :: "Policy option \<Rightarrow> policy_error option" where
  "Validate p =
     (case p of
        None \<Rightarrow> Some PolicyNil
      | Some p \<Rightarrow> first_error (\<lambda>(table, tp). first_error (validate_role table) tp) (Tables p))"

section \<open>Placeholders\<close>

lemma qmarks_ident [placeholders]: "qmarks (QuoteIdent c) = qmarks c"
  by (induction c) (auto simp: QuoteIdent_def ident_escape_def placeholders)

lemma BindUnsafe_qmarks: "\<not> BindUnsafe c \<longleftrightarrow> qmarks c = 0"
  by (simp add: BindUnsafe_def count_list_0_iff)

lemma predicate_sql_qmarks:
  assumes "\<not> BindUnsafe (Column p)" "qmarks (Op p) = 0"
  shows "qmarks (fst (predicate_sql p)) = length (snd (predicate_sql p))"
  using assms by (simp add: predicate_sql_def Let_def placeholders BindUnsafe_qmarks)

lemma predicatesToSQL_qmarks:
  assumes "\<forall>p \<in> set preds. \<not> BindUnsafe (Column p) \<and> qmarks (Op p) = 0"
  shows "qmarks (join '' AND '' (fst (predicatesToSQL preds))) = length (snd (predicatesToSQL preds))"
proof -
  have "sum_list (map (qmarks \<circ> (fst \<circ> predicate_sql)) preds) = sum_list (map (length \<circ> (snd \<circ> predicate_sql)) preds)"
    using assms predicate_sql_qmarks by (intro arg_cong [of _ _ sum_list] map_cong) auto
  then show ?thesis by (simp add: predicatesToSQL_def placeholders length_concat comp_assoc)
qed

lemma scalar_pred_simps [simp]: "Column (scalar_pred claims col op t) = col" "Op (scalar_pred claims col op t) = op"
  by (simp_all add: scalar_pred_def split: prod.splits)

lemma resolvePredicates_Nil [simp]: "resolvePredicates [] claims = []"
  by (simp add: resolvePredicates_def)

lemma column_predicates_shape:
  "p \<in> set (column_predicates claims (col, f)) \<Longrightarrow> Column p = col \<and> Op p \<in> {''='', ''!='', ''>'', ''<'', ''in''}"
  by (auto simp: column_predicates_def split: option.splits)

lemma resolvePredicates_shape:
  "p \<in> set (resolvePredicates filters claims) \<Longrightarrow>
   (\<exists>f. (Column p, f) \<in> set filters) \<and> Op p \<in> {''='', ''!='', ''>'', ''<'', ''in''}"
  by (fastforce simp: resolvePredicates_def dest: column_predicates_shape)

lemma evaluateSelect_cases:
  assumes "evaluateSelect perms claims = rp" "Allowed rp"
  obtains sp s where "perms = Some sp" "Select rp = Some s" "Insert rp = None"
    "\<forall>(col, f) \<in> set (sel_Filter sp). \<not> BindUnsafe col \<and> hasOperator f"
    "rs_AllowColumns s = sel_AllowColumns sp" "rs_DenyColumns s = sel_DenyColumns sp"
    "rowFilter s = resolvePredicates (sel_Filter sp) claims"
    "WhereClause s = join '' AND '' (fst (predicatesToSQL (rowFilter s)))"
    "WhereParams s = snd (predicatesToSQL (rowFilter s))"
proof -
  from assms have "\<exists>sp s. perms = Some sp \<and> Select rp = Some s \<and> Insert rp = None \<and>
    (\<forall>(col, f) \<in> set (sel_Filter sp). \<not> BindUnsafe col \<and> hasOperator f) \<and>
    rs_AllowColumns s = sel_AllowColumns sp \<and> rs_DenyColumns s = sel_DenyColumns sp \<and>
    rowFilter s = resolvePredicates (sel_Filter sp) claims \<and>
    WhereClause s = join '' AND '' (fst (predicatesToSQL (rowFilter s))) \<and>
    WhereParams s = snd (predicatesToSQL (rowFilter s))"
    by (auto simp: evaluateSelect_def denied_def empty_select_def Let_def list_ex_iff
        predicatesToSQL_def split: option.splits if_splits)
  then show ?thesis using that by blast
qed

section \<open>Fail closed\<close>

text \<open>A filter that refers to a claim the token cannot bind.\<close>

definition unresolvable :: "claims \<Rightarrow> filter_spec \<Rightarrow> bool" where
  "unresolvable claims f \<longleftrightarrow>
     (\<exists>t \<in> {Eq f, Neq f, Gt f, Lt f}. case t of None \<Rightarrow> False
        | Some tmpl \<Rightarrow> \<exists>path \<in> set (claim_paths tmpl). \<not> bindable claims path) \<or>
     (case In f of None \<Rightarrow> False | Some tmpl \<Rightarrow> resolveInValues tmpl claims = [])"

lemma scalar_pred_unresolvable:
  "path \<in> set (claim_paths tmpl) \<Longrightarrow> \<not> bindable claims path \<Longrightarrow> Values (scalar_pred claims col op tmpl) = []"
  using resolveTemplate_ok [of tmpl claims] by (auto simp: scalar_pred_def split: prod.splits)

lemma unresolvable_empty:
  assumes "(col, f) \<in> set filters" "unresolvable claims f"
  shows "\<exists>p \<in> set (resolvePredicates filters claims). Values p = []"
proof -
  have "\<exists>p \<in> set (column_predicates claims (col, f)). Values p = []"
    using assms(2) scalar_pred_unresolvable [where claims = claims and col = col]
    by (fastforce simp: unresolvable_def column_predicates_def split: option.splits)
  with assms(1) show ?thesis by (auto simp: resolvePredicates_def)
qed

lemma empty_predicate_sql: "Values p = [] \<Longrightarrow> predicate_sql p = (''1 = 0'', [])"
  by (simp add: predicate_sql_def Let_def)

section \<open>Validation and evaluation agree\<close>

lemma first_error_None: "first_error check xs = None \<longleftrightarrow> (\<forall>x \<in> set xs. check x = None)"
  by (induction xs) (auto split: option.splits)

lemma validate_filter_safe: "validate_filter table role (col, f) = None \<Longrightarrow> \<not> BindUnsafe col \<and> hasOperator f"
  by (auto simp: validate_filter_def split: if_splits)

lemma validate_check_safe: "validate_check table role (col, f) = None \<Longrightarrow> \<not> BindUnsafe col \<and> \<not> check_rejected f"
  by (auto simp: validate_check_def check_rejected_def split: if_splits)

lemma evaluateSelect_valid:
  assumes "validateSelectPerms table role perms = None"
  shows "Allowed (evaluateSelect perms claims) \<longleftrightarrow> perms \<noteq> None"
proof (cases perms)
  case (Some sp)
  with assms have "\<not> list_ex (\<lambda>(col, f). BindUnsafe col \<or> \<not> hasOperator f) (sel_Filter sp)"
    by (auto simp: validateSelectPerms_def first_error_None list_ex_iff split: if_splits dest!: validate_filter_safe)
  with Some show ?thesis by (simp add: evaluateSelect_def Let_def split: prod.splits)
qed (simp add: evaluateSelect_def denied_def)

lemma evaluateInsert_valid:
  assumes "validateInsertPerms table role perms = None"
  shows "Allowed (evaluateInsert perms claims) \<longleftrightarrow> perms \<noteq> None"
proof (cases perms)
  case (Some sp)
  with assms have "\<not> list_ex (\<lambda>(col, f). BindUnsafe col \<or> check_rejected f) (ins_Check sp)"
    by (auto simp: validateInsertPerms_def first_error_None list_ex_iff dest!: validate_check_safe)
  with Some show ?thesis by (simp add: evaluateInsert_def Let_def)
qed (simp add: evaluateInsert_def denied_def)

lemma Validate_role:
  assumes "Validate (Some p) = None" "map_of (Tables p) table = Some tp" "map_of tp role = Some perms"
  shows "validateSelectPerms table role (role_Select perms) = None \<and>
    validateInsertPerms table role (role_Insert perms) = None \<and> trim_space role \<noteq> ''''"
proof -
  have "(table, tp) \<in> set (Tables p)" "(role, perms) \<in> set tp" using assms(2,3) by (auto dest: map_of_SomeD)
  then have "validate_role table (role, perms) = None"
    using assms(1) by (fastforce simp: Validate_def first_error_None)
  then show ?thesis by (auto simp: validate_role_def split: if_splits option.splits)
qed

section \<open>Columns\<close>

lemma column_allowed_iff:
  "column_allowed allow deny col \<longleftrightarrow> col \<notin> set deny \<and> (allow = [] \<or> ''*'' \<in> set allow \<or> col \<in> set allow)"
  by (auto simp: column_allowed_def list_ex_iff)

lemma fresh_column: "\<exists>col. col \<notin> set (cols :: string list)"
  by (rule ex_new_if_finite) (auto simp: infinite_UNIV_listI)

lemma column_allowed_all:
  "(\<forall>col. column_allowed allow deny col) \<longleftrightarrow> deny = [] \<and> (allow = [] \<or> ''*'' \<in> set allow)"
proof -
  have "\<exists>d. d \<in> set deny" if "deny \<noteq> []" using that by (cases deny) auto
  then show ?thesis using fresh_column [of allow] by (auto simp: column_allowed_iff)
qed

lemma AllowedProjection_filter:
  "AllowedProjection rp cols = filter (\<lambda>c. IsColumnAllowed rp c False) cols"
  by (cases rp) (simp_all add: AllowedProjection_def IsColumnAllowed_def)

lemma restricts_columns:
  "RestrictsColumns rp \<longleftrightarrow> (\<exists>col. \<not> IsColumnAllowed rp col False)"
proof (cases rp)
  case (Some r)
  show ?thesis
  proof (cases "Select r")
    case (Some s)
    then show ?thesis
      using column_allowed_all [of "rs_AllowColumns s" "rs_DenyColumns s"] \<open>rp = Some r\<close>
      by (auto simp: RestrictsColumns_def IsColumnAllowed_def list_ex_iff)
  qed (auto simp: Some RestrictsColumns_def IsColumnAllowed_def)
qed (simp add: RestrictsColumns_def IsColumnAllowed_def)


text \<open>The interface the two read paths rely on: one decision per column, and a projection that is
  exactly the allowed part of a column list, so a caller may skip it when nothing is restricted.\<close>

locale column_gate =
  fixes allowed :: "'p \<Rightarrow> string \<Rightarrow> bool"
    and project :: "'p \<Rightarrow> string list \<Rightarrow> string list"
    and restricts :: "'p \<Rightarrow> bool"
  assumes project_filter: "project p cols = filter (allowed p) cols"
    and restricts_iff: "restricts p \<longleftrightarrow> (\<exists>col. \<not> allowed p col)"
begin

lemma project_allowed: "c \<in> set (project p cols) \<longleftrightarrow> c \<in> set cols \<and> allowed p c"
  by (auto simp: project_filter)

lemma project_unrestricted: "\<not> restricts p \<Longrightarrow> project p cols = cols"
  by (simp add: project_filter restricts_iff)

lemma project_twice: "project p (project p cols) = project p cols"
  by (simp add: project_filter)

lemma project_subseq: "subseq (project p cols) cols"
  by (simp add: project_filter)

end

interpretation select_gate: column_gate "\<lambda>rp col. IsColumnAllowed rp col False" AllowedProjection RestrictsColumns
  by unfold_locales (simp_all add: AllowedProjection_filter restricts_columns)

text \<open>The two column questions never disagree: a grant is reported as unrestricted exactly when it
  allows every column, whatever the allow and deny lists and whichever side was resolved; and the
  projection of a full read is then the whole column list, otherwise exactly its allowed part.\<close>

theorem RestrictsColumns_iff:
  "(RestrictsColumns rp \<longleftrightarrow> (\<exists>col. \<not> IsColumnAllowed rp col False)) \<and>
   set (AllowedProjection rp cols) = {col \<in> set cols. IsColumnAllowed rp col False} \<and>
   subseq (AllowedProjection rp cols) cols"
  using select_gate.restricts_iff select_gate.project_allowed select_gate.project_subseq by auto

section \<open>Evaluation\<close>

lemma select_where_qmarks:
  assumes "Evaluate p role table ''select'' claims = rp" "Select rp = Some s"
  shows "qmarks (WhereClause s) = length (WhereParams s)"
proof -
  consider "IsAdmin p (ResolveRole p role)" | perms where "evaluateSelect perms claims = rp" | "rp = denied"
    using assms(1) by (auto simp: Evaluate_def Let_def split: option.splits if_splits)
  then show ?thesis
  proof cases
    case 1
    with assms show ?thesis by (auto simp: Evaluate_def empty_select_def)
  next
    case 2
    with assms(2) have "Allowed rp"
      by (auto simp: evaluateSelect_def denied_def Let_def split: option.splits if_splits prod.splits)
    with 2 show ?thesis
    proof (cases rule: evaluateSelect_cases)
      case (1 sp s')
      have "\<forall>q \<in> set (rowFilter s'). \<not> BindUnsafe (Column q) \<and> qmarks (Op q) = 0"
        using 1 resolvePredicates_shape [of _ "sel_Filter sp" claims] by fastforce
      with 1 assms(2) predicatesToSQL_qmarks show ?thesis by simp
    qed
  next
    case 3
    with assms(2) show ?thesis by (simp add: denied_def)
  qed
qed

text \<open>The clause a read grant adds to a query holds exactly one positional placeholder per value it
  binds, for every policy and every claim, however the filter columns are named. (A grant whose
  column name holds a question mark is denied.)\<close>

theorem where_placeholders:
  assumes "Evaluate p role table ''select'' claims = rp" "Select rp = Some s"
  shows "qmarks (WhereClause s) = length (WhereParams s)"
  using assms by (rule select_where_qmarks)

definition example_filter :: filter_spec where
  "example_filter = \<lparr>Eq = None, Neq = Some ''x{{ jwt.org.id }}'', Gt = None, Lt = None, In = Some ''{{jwt.ids}}''\<rparr>"

definition example_policy :: Policy where
  "example_policy =
     \<lparr>DefaultRole = '''', AdminRole_field = '''',
      Tables = [(''t'', [(''viewer'',
        \<lparr>role_Select = Some \<lparr>sel_AllowColumns = [], sel_DenyColumns = [],
           sel_Filter = [(''a`b'', example_filter)], sel_AllowedAggregations = [], sel_DeniedAggregations = [],
           sel_MaxRows = 0, sel_MaxExecutionTime = 0, sel_MaxRowsToRead = 0, sel_MaxMemoryUsage = 0\<rparr>,
         role_Insert = None\<rparr>)])]\<rparr>"

definition example_claims :: claims where
  "example_claims = [(''org'', VMap [(''id'', VNumber ''1e3'')]), (''ids'', VArray [VNumber ''1'', VString ''b''])]"

theorem where_placeholders_witness:
  "(case Select (Evaluate (Some example_policy) ''viewer'' ''t'' ''select'' example_claims) of
      Some s \<Rightarrow> qmarks (WhereClause s) = length (WhereParams s) \<and> WhereParams s = [''x1000'', ''1'', ''b'']
    | None \<Rightarrow> False)"
proof -
  let ?rp = "Evaluate (Some example_policy) ''viewer'' ''t'' ''select'' example_claims"
  have "map_option WhereParams (Select ?rp) = Some [''x1000'', ''1'', ''b'']" by code_simp
  then obtain s where s: "Select ?rp = Some s" "WhereParams s = [''x1000'', ''1'', ''b'']" by auto
  from where_placeholders [OF refl s(1)] s show ?thesis by simp
qed

text \<open>C5. A request is granted only what its role's own entry for that table and operation says: no policy
  grants nothing to anyone; an empty role is only ever the default role; outside the admin role a
  grant exists only for a table and role the policy names, resolves only the side of the operation
  asked for, and the other side answers no to every column and to the checks.\<close>

theorem Evaluate_grants:
  assumes "Evaluate p role table operation claims = rp" "Allowed rp"
  shows "(\<exists>q. p = Some q \<and> ResolveRole p role \<noteq> '''' \<and>
    (if ResolveRole p role = AdminRole p
     then (\<forall>col side. IsColumnAllowed (Some rp) col side) \<and> CheckClauses (Some rp) = Some []
     else (\<exists>tp perms. map_of (Tables q) table = Some tp \<and> map_of tp (ResolveRole p role) = Some perms \<and>
       (operation = ''select'' \<and> role_Select perms \<noteq> None \<and> (\<forall>col. \<not> IsColumnAllowed (Some rp) col True) \<and>
          CheckClauses (Some rp) = None \<or>
        operation = ''insert'' \<and> role_Insert perms \<noteq> None \<and> (\<forall>col. \<not> IsColumnAllowed (Some rp) col False)))))"
proof (cases "IsAdmin p (ResolveRole p role)")
  case True
  then obtain q where "p = Some q" "ResolveRole p role \<noteq> ''''" "ResolveRole p role = AdminRole p"
    by (auto simp: IsAdmin_def split: option.splits)
  moreover have rp: "rp = \<lparr>Allowed = True, Select = Some empty_select, Insert = Some empty_insert\<rparr>"
    using assms(1) True by (simp add: Evaluate_def)
  moreover have "IsColumnAllowed (Some rp) col side" for col side
    by (simp add: rp IsColumnAllowed_def column_allowed_def empty_select_def empty_insert_def)
  moreover have "CheckClauses (Some rp) = Some []"
    by (simp add: rp CheckClauses_def empty_insert_def)
  ultimately show ?thesis by auto
next
  case False
  with assms obtain q tp perms where q: "p = Some q" "map_of (Tables q) table = Some tp"
    "ResolveRole p role \<noteq> ''''" "map_of tp (ResolveRole p role) = Some perms"
    and op: "operation = ''select'' \<and> evaluateSelect (role_Select perms) claims = rp \<or>
      operation = ''insert'' \<and> evaluateInsert (role_Insert perms) claims = rp"
    by (auto simp: Evaluate_def Let_def denied_def split: option.splits if_splits)
  have adm: "ResolveRole p role \<noteq> AdminRole p" using False q(1,3) by (simp add: IsAdmin_def)
  have sel: "Insert rp = None \<and> role_Select perms \<noteq> None" if "evaluateSelect (role_Select perms) claims = rp"
    by (rule evaluateSelect_cases [OF that assms(2)]) auto
  have ins: "Select rp = None \<and> role_Insert perms \<noteq> None" if "evaluateInsert (role_Insert perms) claims = rp"
    using that assms(2) by (auto simp: evaluateInsert_def denied_def Let_def split: option.splits if_splits)
  show ?thesis using q adm op sel ins assms(2) by (auto simp: IsColumnAllowed_def CheckClauses_def)
qed

theorem Evaluate_grants_witness:
  "Allowed (Evaluate (Some example_policy) ''viewer'' ''t'' ''select'' example_claims) \<and>
   \<not> IsColumnAllowed (Some (Evaluate (Some example_policy) ''viewer'' ''t'' ''select'' example_claims)) ''c'' True"
proof -
  let ?rp = "Evaluate (Some example_policy) ''viewer'' ''t'' ''select'' example_claims"
  have a: "Allowed ?rp" by code_simp
  have r: "ResolveRole (Some example_policy) ''viewer'' \<noteq> AdminRole (Some example_policy)" by code_simp
  from Evaluate_grants [OF refl a] r a show ?thesis by auto
qed

text \<open>C6. Evaluation never denies a validated policy's grant defensively: once a document passes
  validation, a role's request is allowed exactly when the role has an entry for the operation.\<close>

theorem Validate_complete:
  assumes "Validate (Some p) = None" "map_of (Tables p) table = Some tp" "map_of tp role = Some perms"
  shows "(Allowed (Evaluate (Some p) role table ''select'' claims) \<longleftrightarrow>
      role_Select perms \<noteq> None \<or> role = AdminRole (Some p)) \<and>
    (Allowed (Evaluate (Some p) role table ''insert'' claims) \<longleftrightarrow>
      role_Insert perms \<noteq> None \<or> role = AdminRole (Some p))"
proof -
  note v = Validate_role [OF assms]
  have "trim_space '''' = ''''" by code_simp
  with v have r: "role \<noteq> ''''" by auto
  from assms r v show ?thesis
    by (simp add: Evaluate_def Let_def ResolveRole_def IsAdmin_def
        evaluateSelect_valid [of table role] evaluateInsert_valid [of table role])
qed

theorem Validate_complete_witness:
  "Allowed (Evaluate (Some example_policy) ''viewer'' ''t'' ''select'' []) \<and>
   \<not> Allowed (Evaluate (Some example_policy) ''viewer'' ''t'' ''insert'' [])"
proof -
  have v: "Validate (Some example_policy) = None" by code_simp
  obtain tp perms where t: "map_of (Tables example_policy) ''t'' = Some tp" "map_of tp ''viewer'' = Some perms"
    "role_Select perms \<noteq> None" "role_Insert perms = None"
    by (simp add: example_policy_def)
  have "''viewer'' \<noteq> AdminRole (Some example_policy)" by code_simp
  with Validate_complete [OF v t(1,2)] t show ?thesis by simp
qed

end
