(* ===== verification/Numeric.thy ===== *)
theory Numeric
  imports Canonical
begin

text \<open>
  Comparing canonical decimals the way the column that stores them would
  (\<^verbatim>\<open>pkg/policy/numeric.go\<close>): the digit-string order, the storage narrowing of each numeric family and
  the refusals. The theorems say that the digit-string order is the order of the rational values,
  that the narrowings are the ones named, and that narrowing never reverses an order.
\<close>

section \<open>The code\<close>

datatype NumericFamily = NumericNone | NumericInteger | NumericFloat | NumericDecimal

record NumericSpec =
  Family :: NumericFamily
  Bits :: int
  Unsigned :: bool
  Precision :: int
  Scale :: int

definition compareCanonicalMagnitudes :: "string \<Rightarrow> string \<Rightarrow> int" where
  "compareCanonicalMagnitudes a b =
     (case cut_byte (CHR ''.'') a of (ai, af, _) \<Rightarrow>
      case cut_byte (CHR ''.'') b of (bi, bf, _) \<Rightarrow>
        (if length ai \<noteq> length bi then (if length ai < length bi then - 1 else 1)
         else (let c = str_compare ai bi in
               if c \<noteq> 0 then c else str_compare af bf)))"

definition compareCanonicalDecimals :: "string \<Rightarrow> string \<Rightarrow> int" where
  "compareCanonicalDecimals a b =
     (if a = b then 0
      else (let na = prefix ''-'' a; nb = prefix ''-'' b in
            if na \<and> \<not> nb then - 1
            else if \<not> na \<and> nb then 1
            else if na \<and> nb then - compareCanonicalMagnitudes (drop 1 a) (drop 1 b)
            else compareCanonicalMagnitudes a b))"

record int_bounds =
  sMin :: string
  sMax :: string
  uMax :: string

definition intBounds :: "int \<Rightarrow> int_bounds option" where
  "intBounds bits =
     (if bits \<in> {8, 16, 32, 64, 128, 256} then
        (let pow = 2 ^ nat (bits - 1) in
         Some \<lparr>sMin = itoa_int (- pow), sMax = itoa_int (pow - 1), uMax = itoa_int (2 * pow - 1)\<rparr>)
      else None)"

definition integerInRange :: "NumericSpec \<Rightarrow> string \<Rightarrow> bool" where
  "integerInRange n c =
     (case intBounds (Bits n) of
        None \<Rightarrow> False
      | Some b \<Rightarrow>
          (if Unsigned n then compareCanonicalDecimals c ''0'' \<ge> 0 \<and> compareCanonicalDecimals c (uMax b) \<le> 0
           else compareCanonicalDecimals c (sMin b) \<ge> 0 \<and> compareCanonicalDecimals c (sMax b) \<le> 0))"

definition decimalInPrecision :: "NumericSpec \<Rightarrow> string \<Rightarrow> bool" where
  "decimalInPrecision n c =
     (if Precision n < 1 \<or> Scale n < 0 \<or> Scale n > Precision n then False
      else (case cut_byte (CHR ''.'') (trim_prefix ''-'' c) of (intPart, _, _) \<Rightarrow>
            (let digits = (if intPart = ''0'' then 0 else int (length intPart)) in
             digits \<le> Precision n - Scale n)))"

text \<open>\<^verbatim>\<open>strconv.ParseFloat\<close> of a decimal without exponent, which is what a canonical form is: one correct
  rounding of its value, an error on overflow. A float is kept as the rational it denotes.\<close>

definition narrowFloat :: "string \<Rightarrow> int \<Rightarrow> rat option" where
  "narrowFloat c bits =
     (if bits \<noteq> 32 \<and> bits \<noteq> 64 then None
      else round_float (if bits = 32 then float32 else float64) (dec_val c))"

fun trim_zeros :: "string \<Rightarrow> string" where
  "trim_zeros fr = (if fr \<noteq> [] \<and> last fr = CHR ''0'' then trim_zeros (butlast fr) else fr)"

declare trim_zeros.simps [simp del]

definition truncateScale :: "string \<Rightarrow> nat \<Rightarrow> string" where
  "truncateScale c scale =
     (case cut_byte (CHR ''.'') c of (intPart, fr, hasFrac) \<Rightarrow>
        (if \<not> hasFrac then c
         else (let fr = (if length fr > scale then take scale fr else fr);
                   fr = trim_zeros fr in
               if length fr > 0 then intPart @ ''.'' @ fr
               else if intPart = ''-0'' then ''0''
               else intPart)))"

definition spec_compare :: "NumericSpec \<Rightarrow> string \<Rightarrow> string \<Rightarrow> int option" where
  "spec_compare n a b =
     (case Family n of
        NumericInteger \<Rightarrow>
          (if CHR ''.'' \<in> set a \<or> CHR ''.'' \<in> set b then None
           else if \<not> integerInRange n a \<or> \<not> integerInRange n b then None
           else Some (compareCanonicalDecimals a b))
      | NumericFloat \<Rightarrow>
          (case narrowFloat a (Bits n) of None \<Rightarrow> None
           | Some fa \<Rightarrow>
               (case narrowFloat b (Bits n) of None \<Rightarrow> None
                | Some fb \<Rightarrow> Some (if fa < fb then - 1 else if fa > fb then 1 else 0)))
      | NumericDecimal \<Rightarrow>
          (if \<not> decimalInPrecision n a \<or> \<not> decimalInPrecision n b then None
           else Some (compareCanonicalDecimals (truncateScale a (nat (Scale n))) (truncateScale b (nat (Scale n)))))
      | NumericNone \<Rightarrow> None)"

section \<open>Digit strings as numbers\<close>

text \<open>The order of two rationals as the sign the code returns.\<close>

definition rat_order :: "rat \<Rightarrow> rat \<Rightarrow> int" where
  "rat_order x y = (if x < y then - 1 else if x = y then 0 else 1)"

fun frac_val :: "string \<Rightarrow> rat" where
  "frac_val [] = 0"
| "frac_val (c # cs) = (of_nat (digit_val c) + frac_val cs) / 10"

lemma frac_val_eq: "frac_val s = of_nat (digits_val s) / 10 ^ length s"
  by (induction s) (simp_all add: digits_val_Cons field_simps)

lemma frac_val_nonneg: "0 \<le> frac_val s"
  by (induction s) auto

lemma frac_val_lt_1: "list_all is_digit s \<Longrightarrow> frac_val s < 1"
proof (induction s)
  case (Cons c s)
  then have "digit_val c \<le> 9" using digit_val_less [of c] by simp
  then have "of_nat (digit_val c) \<le> (9::rat)" by (metis of_nat_le_iff of_nat_numeral)
  with Cons show ?case by simp
qed simp

lemma frac_val_pos:
  "list_all is_digit s \<Longrightarrow> s \<noteq> [] \<Longrightarrow> last s \<noteq> CHR ''0'' \<Longrightarrow> 0 < frac_val s"
proof (induction s)
  case (Cons c s)
  show ?case
  proof (cases "s = []")
    case True
    with Cons have "is_digit c" "c \<noteq> CHR ''0''" by auto
    moreover have "digit_char 0 = CHR ''0''" by code_simp
    ultimately have "0 < digit_val c" by (metis digit_char_val gr0I)
    with True show ?thesis by simp
  next
    case False
    with Cons have "0 < frac_val s" by auto
    then show ?thesis by simp
  qed
qed simp

lemma digit_order: "is_digit c \<Longrightarrow> is_digit d \<Longrightarrow> c < d \<longleftrightarrow> digit_val c < digit_val d"
  by (simp add: is_digit_byte digit_val_def less_char_def) arith

lemma frac_cons_less:
  assumes "is_digit c" "is_digit d" "c < d" "list_all is_digit s"
  shows "frac_val (c # s) < frac_val (d # t)"
proof -
  have "digit_val c + 1 \<le> digit_val d" using assms digit_order by auto
  then have "of_nat (digit_val c) + 1 \<le> (of_nat (digit_val d) :: rat)"
    by (metis of_nat_1 of_nat_add of_nat_le_iff)
  then show ?thesis using frac_val_lt_1 [OF assms(4)] frac_val_nonneg [of t] by simp
qed

text \<open>Two fractions, or two integer parts of one length, are ordered as their digit strings.\<close>

lemma lex_frac_less:
  assumes "list_all is_digit a" "list_all is_digit b" "a < b"
    and "length a = length b \<or> b = [] \<or> last b \<noteq> CHR ''0''"
  shows "frac_val a < frac_val b"
  using assms
proof (induction a arbitrary: b)
  case Nil
  then have "0 < frac_val b" by (intro frac_val_pos) auto
  then show ?case by simp
next
  case (Cons c a)
  then obtain d b' where b: "b = d # b'" by (cases b) auto
  show ?case
  proof (cases "c = d")
    case True
    then have "frac_val a < frac_val b'" using Cons.prems b by (intro Cons.IH) (auto split: if_splits)
    then show ?thesis using True b by simp
  next
    case False
    then have "c < d" using Cons.prems(3) b by auto
    then show ?thesis using frac_cons_less [of c d a b'] Cons.prems b by simp
  qed
qed

section \<open>The digit-string order is the order of the values\<close>

lemma canonical_mag_parts:
  assumes "canonical_mag a" "cut_byte (CHR ''.'') a = (i, f, h)"
  shows "list_all is_digit i" "list_all is_digit f" "i \<noteq> []" "hd i = CHR ''0'' \<longrightarrow> i = ''0''"
    "f = [] \<or> last f \<noteq> CHR ''0''" "mag_val a = of_nat (digits_val i) + frac_val f"
proof -
  have d: "i \<noteq> []" "list_all is_digit (i @ f)" "hd i = CHR ''0'' \<longrightarrow> i = ''0''"
    "h \<longrightarrow> f \<noteq> [] \<and> last f \<noteq> CHR ''0''"
    using assms(1) unfolding canonical_mag_def assms(2) by simp_all
  then show "list_all is_digit i" "list_all is_digit f" "i \<noteq> []" "hd i = CHR ''0'' \<longrightarrow> i = ''0''"
    by simp_all
  show "f = [] \<or> last f \<noteq> CHR ''0''" using d(4) assms(2) by (cases h) (auto simp: cut_not_found)
  show "mag_val a = of_nat (digits_val i) + frac_val f"
    unfolding mag_val_def assms(2) by (simp add: digits_val_append frac_val_eq add_divide_distrib)
qed

lemma canonical_mag_split:
  assumes "canonical_mag a" "cut_byte (CHR ''.'') a = (i, f, h)"
  shows "a = (if h then i @ CHR ''.'' # f else i)" and "h \<longleftrightarrow> f \<noteq> []"
  using assms by (cases h; simp add: cut_found cut_not_found canonical_mag_def)+

lemma digits_val_lower: "list_all is_digit i \<Longrightarrow> i \<noteq> [] \<Longrightarrow> hd i \<noteq> CHR ''0'' \<Longrightarrow> 10 ^ (length i - 1) \<le> digits_val i"
proof (cases i)
  case (Cons c cs)
  assume i: "list_all is_digit i" "hd i \<noteq> CHR ''0''"
  then have "0 < digit_val c"
    using Cons frac_val_pos [of "[c]"] by simp
  then have "1 * 10 ^ length cs \<le> digit_val c * 10 ^ length cs" by (intro mult_le_mono1) simp
  then have "10 ^ length cs \<le> digit_val c * 10 ^ length cs + digits_val cs"
    by (intro trans_le_add1) (simp only: mult_1)
  then show ?thesis using Cons by (simp only: digits_val_Cons list.size One_nat_def add_diff_cancel_right')
qed simp

lemma int_less_mag:
  assumes "list_all is_digit f" "digits_val i < digits_val j"
  shows "of_nat (digits_val i) + frac_val f < of_nat (digits_val j) + frac_val g"
proof -
  have "of_nat (digits_val i) + 1 \<le> (of_nat (digits_val j) :: rat)"
    using assms(2) by (metis Suc_eq_plus1 Suc_leI of_nat_1 of_nat_add of_nat_le_iff)
  then show ?thesis using frac_val_lt_1 [OF assms(1)] frac_val_nonneg [of g] by linarith
qed

lemma same_length_order:
  assumes "list_all is_digit i" "list_all is_digit j" "length i = length j" "i < j"
  shows "digits_val i < digits_val j"
  using lex_frac_less [of i j] assms by (simp add: frac_val_eq divide_less_cancel)

lemma shorter_less:
  assumes "list_all is_digit i" "list_all is_digit j" "j \<noteq> []" "hd j = CHR ''0'' \<longrightarrow> j = ''0''" "i \<noteq> []"
    "length i < length j"
  shows "digits_val i < digits_val j"
proof -
  have "digits_val i < 10 ^ length i" by (rule digits_val_bound) fact
  also have "\<dots> \<le> 10 ^ (length j - 1)" using assms(6) by (intro power_increasing) auto
  also have "\<dots> \<le> digits_val j" using assms by (intro digits_val_lower) auto
  finally show ?thesis .
qed

lemma mag_compare:
  assumes "canonical_mag a" "canonical_mag b"
  shows "compareCanonicalMagnitudes a b = rat_order (mag_val a) (mag_val b)"
proof -
  obtain ai af ah where a: "cut_byte (CHR ''.'') a = (ai, af, ah)" by (cases "cut_byte (CHR ''.'') a") auto
  obtain bi bf bh where b: "cut_byte (CHR ''.'') b = (bi, bf, bh)" by (cases "cut_byte (CHR ''.'') b") auto
  note A = canonical_mag_parts [OF assms(1) a] and B = canonical_mag_parts [OF assms(2) b]
  consider "length ai < length bi" | "length bi < length ai" | "length ai = length bi" "ai < bi"
    | "length ai = length bi" "bi < ai" | "ai = bi" "af < bf" | "ai = bi" "bf < af" | "ai = bi" "af = bf"
    by (metis linorder_cases)
  then show ?thesis
  proof cases
    case 1
    with shorter_less [of ai bi] A B int_less_mag [of af ai bi bf] show ?thesis
      by (simp add: compareCanonicalMagnitudes_def a b rat_order_def)
  next
    case 2
    with shorter_less [of bi ai] A B int_less_mag [of bf bi ai af] show ?thesis
      by (simp add: compareCanonicalMagnitudes_def a b rat_order_def)
  next
    case 3
    with same_length_order [of ai bi] A B int_less_mag [of af ai bi bf] show ?thesis
      by (simp add: compareCanonicalMagnitudes_def a b rat_order_def str_compare_def)
  next
    case 4
    with same_length_order [of bi ai] A B int_less_mag [of bf bi ai af] show ?thesis
      by (auto simp: compareCanonicalMagnitudes_def a b rat_order_def str_compare_def)
  next
    case 5
    with lex_frac_less [of af bf] A B show ?thesis
      by (auto simp: compareCanonicalMagnitudes_def a b rat_order_def str_compare_def)
  next
    case 6
    with lex_frac_less [of bf af] A B show ?thesis
      by (auto simp: compareCanonicalMagnitudes_def a b rat_order_def str_compare_def)
  next
    case 7
    with A B show ?thesis
      by (simp add: compareCanonicalMagnitudes_def a b rat_order_def)
  qed
qed

lemma mag_val_nonneg: "0 \<le> mag_val s"
  by (simp add: mag_val_def split: prod.splits)

lemma mag_val_pos: "canonical_mag m \<Longrightarrow> m \<noteq> ''0'' \<Longrightarrow> 0 < mag_val m"
proof -
  assume m: "canonical_mag m" "m \<noteq> ''0''"
  have z: "canonical_mag ''0''" "mag_val ''0'' = 0" by code_simp+
  obtain i f h where c: "cut_byte (CHR ''.'') m = (i, f, h)" by (cases "cut_byte (CHR ''.'') m") auto
  note M = canonical_mag_parts [OF m(1) c]
  show ?thesis
  proof (cases "i = ''0''")
    case True
    with m canonical_mag_split [OF m(1) c] have "f \<noteq> []" by auto
    with M have "0 < frac_val f" by (intro frac_val_pos) auto
    with M(6) show ?thesis by (simp add: add_nonneg_pos)
  next
    case False
    with M have "10 ^ (length i - 1) \<le> digits_val i" by (intro digits_val_lower) auto
    then have "0 < digits_val i" by (rule less_le_trans [rotated]) simp
    with M(6) frac_val_nonneg [of f] show ?thesis by (simp add: add_pos_nonneg)
  qed
qed

lemma rat_order_simps:
  "rat_order x x = 0" "rat_order (- x) (- y) = - rat_order x y"
  by (auto simp: rat_order_def)

lemma decimals_compare:
  assumes "canonical a" "canonical b"
  shows "compareCanonicalDecimals a b = rat_order (dec_val a) (dec_val b)"
proof -
  consider "a = b" | "a \<noteq> b" "prefix ''-'' a" "\<not> prefix ''-'' b" | "a \<noteq> b" "\<not> prefix ''-'' a" "prefix ''-'' b"
    | "a \<noteq> b" "prefix ''-'' a" "prefix ''-'' b" | "a \<noteq> b" "\<not> prefix ''-'' a" "\<not> prefix ''-'' b"
    by blast
  then show ?thesis
  proof cases
    case 2
    with assms have "0 < mag_val (drop 1 a)" by (intro mag_val_pos) (auto simp: canonical_def)
    with 2 mag_val_nonneg [of b] show ?thesis
      by (simp add: compareCanonicalDecimals_def dec_val_def rat_order_def)
  next
    case 3
    with assms have "0 < mag_val (drop 1 b)" by (intro mag_val_pos) (auto simp: canonical_def)
    with 3 mag_val_nonneg [of a] show ?thesis
      by (simp add: compareCanonicalDecimals_def dec_val_def rat_order_def)
  qed (use assms in \<open>auto simp: compareCanonicalDecimals_def dec_val_def canonical_def rat_order_simps mag_compare\<close>)
qed

lemma mag_compare_0:
  assumes "canonical_mag a" "canonical_mag b" "compareCanonicalMagnitudes a b = 0"
  shows "a = b"
proof -
  obtain ai af ah where a: "cut_byte (CHR ''.'') a = (ai, af, ah)" by (cases "cut_byte (CHR ''.'') a") auto
  obtain bi bf bh where b: "cut_byte (CHR ''.'') b = (bi, bf, bh)" by (cases "cut_byte (CHR ''.'') b") auto
  have "ai = bi \<and> af = bf"
    using assms(3) by (simp add: compareCanonicalMagnitudes_def a b Let_def split: if_splits)
  with canonical_mag_split [OF assms(1) a] canonical_mag_split [OF assms(2) b] show ?thesis by simp
qed

lemma prefix_minus: "prefix ''-'' a \<Longrightarrow> a = CHR ''-'' # drop 1 a"
  by (auto simp: prefix_def)

lemma canonical_unique:
  assumes "canonical a" "canonical b"
  shows "dec_val a = dec_val b \<longleftrightarrow> a = b"
proof
  assume "dec_val a = dec_val b"
  then have 0: "compareCanonicalDecimals a b = 0" using assms by (simp add: decimals_compare rat_order_simps)
  show "a = b"
  proof (cases "prefix ''-'' a \<and> prefix ''-'' b")
    case True
    with 0 assms have "a = b \<or> drop 1 a = drop 1 b"
      by (auto simp: compareCanonicalDecimals_def canonical_def mag_compare_0 split: if_splits)
    with True prefix_minus [of a] prefix_minus [of b] show ?thesis by metis
  next
    case False
    with 0 assms show ?thesis
      by (auto simp: compareCanonicalDecimals_def Let_def canonical_def intro: mag_compare_0 split: if_splits)
  qed
qed simp

section \<open>Storage narrowing\<close>

lemma trim_zeros_frac: "frac_val (trim_zeros f) = frac_val f"
proof (induction f rule: trim_zeros.induct)
  case (1 f)
  show ?case
  proof (cases "f \<noteq> [] \<and> last f = CHR ''0''")
    case True
    then obtain g where "f = g @ [CHR ''0'']" by (metis append_butlast_last_id)
    then have "frac_val (butlast f) = frac_val f" by (simp add: frac_val_eq digit_val_def)
    then show ?thesis using 1 [OF True] True by (simp add: trim_zeros.simps [of f])
  next
    case False
    then show ?thesis by (auto simp: trim_zeros.simps [of f])
  qed
qed

lemma trim_zeros_shape:
  "prefix (trim_zeros f) f \<and> (trim_zeros f \<noteq> [] \<longrightarrow> last (trim_zeros f) \<noteq> CHR ''0'')"
proof (induction f rule: trim_zeros.induct)
  case (1 f)
  then show ?case
    by (cases "f \<noteq> [] \<and> last f = CHR ''0''")
      (auto simp: trim_zeros.simps [of f] intro: prefix_order.trans [OF _ prefixeq_butlast])
qed

text \<open>Truncation of a magnitude toward zero at a number of fractional digits.\<close>

definition trunc_mag :: "nat \<Rightarrow> rat \<Rightarrow> rat" where
  "trunc_mag k q = of_int \<lfloor>q * 10 ^ k\<rfloor> / 10 ^ k"

definition trunc_rat :: "nat \<Rightarrow> rat \<Rightarrow> rat" where
  "trunc_rat k q = (if q < 0 then - trunc_mag k (- q) else trunc_mag k q)"

lemma frac_val_append: "frac_val (f @ g) = frac_val f + frac_val g / 10 ^ length f"
  by (induction f) (simp_all add: field_simps)

lemma frac_floor:
  assumes "list_all is_digit f"
  shows "\<lfloor>frac_val f * 10 ^ k\<rfloor> = (if k < length f then int (digits_val (take k f)) else int (digits_val f) * 10 ^ (k - length f))"
proof (cases "k < length f")
  case True
  have "frac_val f = frac_val (take k f) + frac_val (drop k f) / 10 ^ k"
    using frac_val_append [of "take k f" "drop k f"] True by simp
  then have "frac_val f * 10 ^ k = of_int (int (digits_val (take k f))) + frac_val (drop k f)"
    using True by (simp add: frac_val_eq [of "take k f"] field_simps)
  moreover have "frac_val (drop k f) < 1"
    using assms by (intro frac_val_lt_1) (auto simp: list_all_iff dest: in_set_dropD)
  ultimately show ?thesis using True frac_val_nonneg [of "drop k f"] by (simp add: floor_eq_iff)
next
  case False
  then obtain d where k: "k = length f + d" by (metis not_less le_iff_add)
  then have "frac_val f * 10 ^ k = of_int (int (digits_val f) * 10 ^ d)"
    by (simp add: frac_val_eq power_add)
  then show ?thesis using k by (simp only: floor_of_int) simp
qed

lemma trunc_mag_parts:
  assumes "list_all is_digit f"
  shows "trunc_mag k (of_nat n + frac_val f) = of_nat n + frac_val (take k f)"
proof -
  have "(of_nat n + frac_val f) * 10 ^ k = of_int (int n * 10 ^ k) + frac_val f * 10 ^ k"
    by (simp add: algebra_simps)
  then have "\<lfloor>(of_nat n + frac_val f) * 10 ^ k\<rfloor> = int n * 10 ^ k + \<lfloor>frac_val f * 10 ^ k\<rfloor>"
    by (metis floor_add_int add.commute)
  moreover have "of_int \<lfloor>frac_val f * 10 ^ k\<rfloor> / (10::rat) ^ k = frac_val (take k f)"
  proof (cases "k < length f")
    case True
    then show ?thesis unfolding frac_floor [OF assms] by (simp add: frac_val_eq)
  next
    case False
    then obtain d where "k = length f + d" by (metis not_less le_iff_add)
    then show ?thesis unfolding frac_floor [OF assms] by (simp add: frac_val_eq power_add)
  qed
  ultimately show ?thesis by (simp add: trunc_mag_def add_divide_distrib)
qed

lemma truncate_mag:
  assumes "canonical_mag m"
  shows "canonical_mag (truncateScale m k) \<and> mag_val (truncateScale m k) = trunc_mag k (mag_val m)"
proof -
  obtain i f h where c: "cut_byte (CHR ''.'') m = (i, f, h)" by (cases "cut_byte (CHR ''.'') m") auto
  note M = canonical_mag_parts [OF assms c] and S = canonical_mag_split [OF assms c]
  define g where "g = trim_zeros (take k f)"
  have g: "prefix g (take k f)" "g \<noteq> [] \<longrightarrow> last g \<noteq> CHR ''0''" "frac_val g = frac_val (take k f)"
    using trim_zeros_shape [of "take k f"] trim_zeros_frac [of "take k f"] by (simp_all add: g_def)
  have dg: "list_all is_digit g"
    using set_mono_prefix [OF g(1)] set_take_subset [of k f] M(2) unfolding list_all_iff by blast
  have val: "trunc_mag k (mag_val m) = of_nat (digits_val i) + frac_val g"
    unfolding M(6) g(3) by (rule trunc_mag_parts [OF M(2)])
  show ?thesis
  proof (cases "h \<and> g \<noteq> []")
    case True
    then have t: "truncateScale m k = i @ CHR ''.'' # g"
      by (auto simp: truncateScale_def c g_def Let_def)
    have can: "canonical_mag (truncateScale m k)"
      unfolding t canonical_mag_def cut_point_append [OF M(1)] using M True g dg by simp
    show ?thesis
      using can canonical_mag_parts(6) [OF can, of i g True] val cut_point_append [OF M(1), of g] t by simp
  next
    case False
    then have gn: "g = []" using S g(1) by auto
    have "i \<noteq> ''-0''" using M(1) by (auto simp: is_digit_def)
    moreover have "(if k < length f then take k f else f) = take k f" by simp
    ultimately have t: "truncateScale m k = i" using S(1) gn unfolding truncateScale_def c g_def
      by (cases h) (simp_all add: Let_def)
    have can: "canonical_mag i"
      unfolding canonical_mag_def cut_point_digits [OF M(1)] using M by simp
    show ?thesis
      using can canonical_mag_parts(6) [OF can cut_point_digits [OF M(1)]] val t gn by simp
  qed
qed

lemma truncateScale_minus:
  assumes "canonical_mag m"
  shows "truncateScale (CHR ''-'' # m) k =
    (if truncateScale m k = ''0'' \<and> CHR ''.'' \<in> set m then ''0'' else CHR ''-'' # truncateScale m k)"
proof -
  obtain i f h where c: "cut_byte (CHR ''.'') m = (i, f, h)" by (cases "cut_byte (CHR ''.'') m") auto
  note M = canonical_mag_parts [OF assms c]
  have c': "cut_byte (CHR ''.'') (CHR ''-'' # m) = (CHR ''-'' # i, f, h)" using c by simp
  have dot: "CHR ''.'' \<in> set m \<longleftrightarrow> h" using c by (cases h) (auto simp: cut_found cut_not_found)
  have "i \<noteq> ''-0''" using M(1) by (auto simp: is_digit_def)
  moreover have "i @ CHR ''.'' # g \<noteq> ''0''" for g using M(3) by (cases i) auto
  ultimately show ?thesis using M(3) dot
    by (simp add: truncateScale_def c c' Let_def)
qed

lemma truncate_canonical:
  assumes "canonical c"
  shows "canonical (truncateScale c k) \<and> dec_val (truncateScale c k) = trunc_rat k (dec_val c)"
proof (cases "prefix ''-'' c")
  case True
  then obtain m where c: "c = CHR ''-'' # m" by (auto simp: prefix_def)
  with assms have m: "canonical_mag m" "m \<noteq> ''0''" by (auto simp: canonical_def)
  note T = truncate_mag [OF m(1), of k]
  have z: "canonical_mag ''0''" "mag_val ''0'' = 0" "canonical ''0''" "dec_val ''0'' = 0" by code_simp+
  have neg: "0 < mag_val m" by (rule mag_val_pos [OF m])
  have no_dot: "truncateScale m k = m" if "CHR ''.'' \<notin> set m"
    using that by (simp add: truncateScale_def cut_no_sep)
  show ?thesis
  proof (cases "truncateScale m k = ''0''")
    case True
    then have "CHR ''.'' \<in> set m" using no_dot m(2) by auto
    with True T z neg show ?thesis
      by (simp add: c truncateScale_minus [OF m(1)] dec_val_def trunc_rat_def)
  next
    case False
    with T neg show ?thesis
      by (simp add: c truncateScale_minus [OF m(1)] dec_val_def trunc_rat_def canonical_def)
  qed
next
  case False
  with assms have m: "canonical_mag c" by (simp add: canonical_def)
  obtain i f h where cc: "cut_byte (CHR ''.'') c = (i, f, h)" by (cases "cut_byte (CHR ''.'') c") auto
  have "\<not> prefix ''-'' (truncateScale c k)"
  proof
    assume "prefix ''-'' (truncateScale c k)"
    then have "\<not> canonical_mag (truncateScale c k)"
      by (auto simp: canonical_mag_def prefix_def split: prod.splits)
    with truncate_mag [OF m, of k] show False by simp
  qed
  with False truncate_mag [OF m, of k] mag_val_nonneg [of c] show ?thesis
    by (simp add: dec_val_def trunc_rat_def canonical_def)
qed

section \<open>Rounding is monotone\<close>

lemma half_even_bounds: "of_int (half_even q) \<le> q + 1/2" "q - 1/2 \<le> of_int (half_even q)"
  unfolding half_even_def Let_def by (auto simp: floor_less_iff) linarith+

lemma half_even_mono: "x \<le> y \<Longrightarrow> half_even x \<le> half_even y"
proof (cases "\<lfloor>x\<rfloor> = \<lfloor>y\<rfloor>")
  case True
  assume "x \<le> y"
  then show ?thesis unfolding half_even_def Let_def True by auto
next
  case False
  assume "x \<le> y"
  with False have "\<lfloor>x\<rfloor> + 1 \<le> \<lfloor>y\<rfloor>" using floor_mono [of x y] by linarith
  moreover have "half_even x \<le> \<lfloor>x\<rfloor> + 1" "\<lfloor>y\<rfloor> \<le> half_even y" by (simp_all add: half_even_def Let_def)
  ultimately show ?thesis by linarith
qed

lemma half_even_int [simp]: "half_even (of_int n) = n"
  by (simp add: half_even_def)

lemma half_even_le: "q \<le> of_int n \<Longrightarrow> half_even q \<le> n"
  using half_even_mono [of q "of_int n"] by simp

lemma half_even_ge: "of_int n \<le> q \<Longrightarrow> n \<le> half_even q"
  using half_even_mono [of "of_int n" q] by simp

lemma floorlog_powi:
  assumes "0 < a"
  shows "2 powi (int (floorlog 2 (nat a)) - 1) \<le> (of_int a :: rat)"
    and "(of_int a :: rat) < 2 powi int (floorlog 2 (nat a))"
proof -
  let ?k = "floorlog 2 (nat a)"
  have b: "2 ^ (?k - 1) \<le> nat a" "nat a < 2 ^ ?k" "0 < ?k"
    using floorlog_bounds [of "nat a" 2] assms by (auto simp: floorlog_eq_zero_iff intro!: Nat.gr0I)
  have a: "(of_int a :: rat) = of_nat (nat a)" using assms by simp
  have "(2::rat) ^ (?k - 1) \<le> of_nat (nat a)" using b(1) by (metis of_nat_le_iff of_nat_numeral of_nat_power)
  moreover have "int ?k - 1 = int (?k - 1)" using b(3) by simp
  ultimately show "2 powi (int ?k - 1) \<le> (of_int a :: rat)" unfolding a by (simp only: power_int_of_nat)
  have "(of_nat (nat a) :: rat) < 2 ^ ?k" using b(2) by (metis of_nat_less_iff of_nat_numeral of_nat_power)
  then show "(of_int a :: rat) < 2 powi int ?k" unfolding a by simp
qed

lemma log2_rat_bounds:
  assumes "0 < q"
  shows "2 powi log2_rat q \<le> q" and "q < 2 powi (log2_rat q + 1)"
proof -
  obtain a b where ab: "quotient_of q = (a, b)" by fastforce
  then have b: "0 < b" and q: "q = of_int a / of_int b"
    using quotient_of_denom_pos quotient_of_div by blast+
  with assms have a: "0 < a" by (simp add: zero_less_divide_iff)
  let ?A = "int (floorlog 2 (nat a))" and ?B = "int (floorlog 2 (nat b))"
  note A = floorlog_powi [OF a] and B = floorlog_powi [OF b]
  have "q < 2 powi ?A / 2 powi (?B - 1)"
    unfolding q using A B a b by (intro frac_less) auto
  also have "\<dots> = 2 powi (?A - ?B + 1)" by (simp add: power_int_diff power_int_add)
  finally have up: "q < 2 powi (?A - ?B + 1)" .
  have "2 powi (?A - 1) / 2 powi ?B \<le> q"
    unfolding q using A B a b by (intro frac_le) auto
  then have lo: "2 powi (?A - ?B - 1) \<le> q" by (simp add: power_int_diff)
  show "2 powi log2_rat q \<le> q" "q < 2 powi (log2_rat q + 1)"
    using up lo by (auto simp: log2_rat_def ab Let_def)
qed

lemma powi_less_iff: "(2::rat) powi a < 2 powi b \<longleftrightarrow> a < b"
  by (metis power_int_strict_increasing linorder_less_linear less_asym one_less_numeral_iff semiring_norm(76))

lemma log2_rat_mono: "0 < q \<Longrightarrow> q \<le> r \<Longrightarrow> log2_rat q \<le> log2_rat r"
proof -
  assume "0 < q" "q \<le> r"
  then have "2 powi log2_rat q < (2::rat) powi (log2_rat r + 1)"
    using log2_rat_bounds [of q] log2_rat_bounds [of r] by linarith
  then show ?thesis by (simp add: powi_less_iff)
qed

text \<open>One correct rounding keeps the order: within a binade by \<open>half_even\<close>, across binades because the
  powers of two between them are values of the format.\<close>

definition ulp :: "float_format \<Rightarrow> rat \<Rightarrow> int" where
  "ulp F q = max (ff_emin F) (log2_rat q - (ff_prec F - 1))"

definition rounded :: "float_format \<Rightarrow> rat \<Rightarrow> rat" where
  "rounded F q = of_int (half_even (q / 2 powi ulp F q)) * 2 powi ulp F q"

lemma powi_quotient_int: "e \<le> k \<Longrightarrow> (2::rat) powi k = of_int (2 ^ nat (k - e)) * 2 powi e"
  by (subst (1) diff_add_cancel [of k e, symmetric], subst power_int_add) (simp_all add: power_int_def [of _ "k - e"])

lemma rounded_le:
  assumes "q \<le> 2 powi l" "ulp F q \<le> l"
  shows "rounded F q \<le> 2 powi l"
proof -
  have "half_even (q / 2 powi ulp F q) \<le> 2 ^ nat (l - ulp F q)"
    using assms powi_quotient_int [OF assms(2)] by (intro half_even_le) (simp add: pos_divide_le_eq)
  then have "of_int (half_even (q / 2 powi ulp F q)) \<le> (of_int (2 ^ nat (l - ulp F q)) :: rat)"
    by (simp only: of_int_le_iff)
  then show ?thesis
    unfolding rounded_def powi_quotient_int [OF assms(2)] by (intro mult_right_mono) auto
qed

lemma rounded_ge:
  assumes "2 powi l \<le> q" "ulp F q \<le> l"
  shows "2 powi l \<le> rounded F q"
proof -
  have "2 ^ nat (l - ulp F q) \<le> half_even (q / 2 powi ulp F q)"
    using assms powi_quotient_int [OF assms(2)] by (intro half_even_ge) (simp add: pos_le_divide_eq)
  then have "(of_int (2 ^ nat (l - ulp F q)) :: rat) \<le> of_int (half_even (q / 2 powi ulp F q))"
    by (simp only: of_int_le_iff)
  then show ?thesis
    unfolding rounded_def powi_quotient_int [OF assms(2)] by (intro mult_right_mono) auto
qed

lemma rounded_mono:
  assumes "0 < q" "q \<le> r" "1 \<le> ff_prec F"
  shows "rounded F q \<le> rounded F r"
proof (cases "ulp F q = ulp F r")
  case True
  then show ?thesis
    unfolding rounded_def True using assms by (intro mult_right_mono) (auto intro!: half_even_mono divide_right_mono)
next
  case False
  let ?k = "log2_rat q" and ?l = "log2_rat r"
  have "?k \<le> ?l" using assms log2_rat_mono by simp
  with False have kl: "?k + 1 \<le> ?l" and u: "ulp F q \<le> ?l" "ulp F r \<le> ?l"
    using assms(3) by (auto simp: ulp_def)
  have "q \<le> 2 powi (?k + 1)" using log2_rat_bounds [of q] assms by simp
  also have "\<dots> \<le> 2 powi ?l" using kl by (intro power_int_increasing) auto
  finally have "rounded F q \<le> 2 powi ?l" using u by (intro rounded_le)
  also have "\<dots> \<le> rounded F r" using u log2_rat_bounds(1) [of r] assms by (intro rounded_ge) auto
  finally show ?thesis .
qed

lemma rounded_nonneg: "0 \<le> q \<Longrightarrow> 0 \<le> rounded F q"
  by (simp add: rounded_def half_even_ge [of 0])

lemma round_mag_rounded: "round_mag F q = Some x \<Longrightarrow> q \<noteq> 0 \<Longrightarrow> x = rounded F q"
  by (auto simp: round_mag_def rounded_def ulp_def Let_def split: if_splits)

lemma round_mag_mono:
  assumes "0 \<le> q" "q \<le> r" "1 \<le> ff_prec F" "round_mag F q = Some x" "round_mag F r = Some y"
  shows "0 \<le> x \<and> x \<le> y"
proof (cases "q = 0")
  case True
  then have "x = 0" using assms(4) by (simp add: round_mag_def)
  moreover have "0 \<le> y"
    using assms round_mag_rounded [of F r y] rounded_nonneg [of r F] by (cases "r = 0") (auto simp: round_mag_def)
  ultimately show ?thesis by simp
next
  case False
  then show ?thesis
    using assms round_mag_rounded [of F q x] round_mag_rounded [of F r y] rounded_mono [of q r F] rounded_nonneg [of q F]
    by auto
qed

lemma round_float_mono:
  assumes "q \<le> r" "1 \<le> ff_prec F" "round_float F q = Some x" "round_float F r = Some y"
  shows "x \<le> y"
proof -
  consider "0 \<le> q" | "q < 0" "0 \<le> r" | "r < 0" using assms(1) by linarith
  then show ?thesis
  proof cases
    case 1
    then show ?thesis using assms round_mag_mono [of q r F x y] by (auto simp: round_float_def)
  next
    case 2
    then obtain x' where "round_mag F (- q) = Some x'" "x = - x'" using assms(3) by (auto simp: round_float_def)
    then show ?thesis
      using 2 assms round_mag_mono [of "- q" "- q" F x' x'] round_mag_mono [of r r F y y] by (auto simp: round_float_def)
  next
    case 3
    then obtain x' y' where "round_mag F (- q) = Some x'" "x = - x'" "round_mag F (- r) = Some y'" "y = - y'"
      using assms by (auto simp: round_float_def)
    then show ?thesis using 3 assms round_mag_mono [of "- r" "- q" F y' x'] by auto
  qed
qed

section \<open>Comparison in the storage domain\<close>

lemma trunc_mag_mono: "q \<le> r \<Longrightarrow> trunc_mag k q \<le> trunc_mag k r"
  by (auto simp: trunc_mag_def intro!: divide_right_mono floor_mono mult_right_mono)

lemma trunc_mag_nonneg: "0 \<le> q \<Longrightarrow> 0 \<le> trunc_mag k q"
  by (simp add: trunc_mag_def)

lemma trunc_rat_mono: "q \<le> r \<Longrightarrow> trunc_rat k q \<le> trunc_rat k r"
  using trunc_mag_mono [of q r k] trunc_mag_mono [of "- r" "- q" k] trunc_mag_nonneg [of "- q" k]
    trunc_mag_nonneg [of r k]
  by (auto simp: trunc_rat_def)

text \<open>The value a column of the family stores for a decimal, if the model has one.\<close>

definition stored :: "NumericSpec \<Rightarrow> string \<Rightarrow> rat option" where
  "stored n c =
     (case Family n of
        NumericInteger \<Rightarrow> (if CHR ''.'' \<in> set c \<or> \<not> integerInRange n c then None else Some (dec_val c))
      | NumericFloat \<Rightarrow> narrowFloat c (Bits n)
      | NumericDecimal \<Rightarrow> (if decimalInPrecision n c then Some (trunc_rat (nat (Scale n)) (dec_val c)) else None)
      | NumericNone \<Rightarrow> None)"

lemma spec_compare_stored:
  assumes "canonical a" "canonical b"
  shows "spec_compare n a b =
    (case (stored n a, stored n b) of (Some x, Some y) \<Rightarrow> Some (rat_order x y) | _ \<Rightarrow> None)"
  using assms truncate_canonical [OF assms(1)] truncate_canonical [OF assms(2)]
  by (auto simp: spec_compare_def stored_def decimals_compare rat_order_def
      split: NumericFamily.splits option.splits)

lemma stored_mono:
  assumes "dec_val a \<le> dec_val b" "stored n a = Some x" "stored n b = Some y"
  shows "x \<le> y"
proof (cases "Family n")
  case NumericFloat
  have "1 \<le> ff_prec float32" "1 \<le> ff_prec float64" by (simp_all add: float32_def float64_def)
  with assms NumericFloat round_float_mono [OF assms(1)] show ?thesis
    by (auto simp: stored_def narrowFloat_def split: if_splits)
qed (use assms trunc_rat_mono in \<open>auto simp: stored_def split: if_splits\<close>)

lemma intBounds_canonical:
  assumes "intBounds bits = Some b"
  shows "canonical (sMin b) \<and> dec_val (sMin b) = - (2 ^ nat (bits - 1))"
    "canonical (sMax b) \<and> dec_val (sMax b) = 2 ^ nat (bits - 1) - 1"
    "canonical (uMax b) \<and> dec_val (uMax b) = 2 * 2 ^ nat (bits - 1) - 1"
proof -
  let ?p = "2 ^ nat (bits - 1) :: int"
  have b: "b = \<lparr>sMin = itoa_int (- ?p), sMax = itoa_int (?p - 1), uMax = itoa_int (2 * ?p - 1)\<rparr>"
    using assms unfolding intBounds_def Let_def by (simp split: if_splits)
  show "canonical (sMin b) \<and> dec_val (sMin b) = - (2 ^ nat (bits - 1))"
    unfolding b using itoa_int_canonical [of "- ?p"] by simp
  show "canonical (sMax b) \<and> dec_val (sMax b) = 2 ^ nat (bits - 1) - 1"
    unfolding b using itoa_int_canonical [of "?p - 1"] by simp
  show "canonical (uMax b) \<and> dec_val (uMax b) = 2 * 2 ^ nat (bits - 1) - 1"
    unfolding b using itoa_int_canonical [of "2 * ?p - 1"] by simp
qed

lemma rat_order_ge: "rat_order x y \<ge> 0 \<longleftrightarrow> y \<le> x" "rat_order x y \<le> 0 \<longleftrightarrow> x \<le> y"
  by (auto simp: rat_order_def)

lemma integerInRange_value:
  assumes "canonical c"
  shows "integerInRange n c \<longleftrightarrow> Bits n \<in> {8, 16, 32, 64, 128, 256} \<and>
    (if Unsigned n then 0 \<le> dec_val c \<and> dec_val c \<le> 2 * 2 ^ nat (Bits n - 1) - 1
     else - (2 ^ nat (Bits n - 1)) \<le> dec_val c \<and> dec_val c \<le> 2 ^ nat (Bits n - 1) - 1)"
proof (cases "intBounds (Bits n)")
  case None
  then show ?thesis by (auto simp: integerInRange_def intBounds_def Let_def split: if_splits)
next
  case (Some b)
  have z: "canonical ''0''" "dec_val ''0'' = 0" by code_simp+
  have "Bits n \<in> {8, 16, 32, 64, 128, 256}" using Some by (simp add: intBounds_def Let_def split: if_splits)
  then show ?thesis
    using intBounds_canonical [OF Some] z assms
    by (simp add: integerInRange_def Some decimals_compare rat_order_ge)
qed

section \<open>Properties\<close>

text \<open>Comparing two canonical decimals as digit strings is comparing their values, at any width;
  in particular two canonical forms are equal exactly when the values are.\<close>

theorem compareCanonicalDecimals_order:
  assumes "canonical a" "canonical b"
  shows "compareCanonicalDecimals a b =
      (if dec_val a < dec_val b then - 1 else if dec_val a = dec_val b then 0 else 1) \<and>
    (dec_val a = dec_val b \<longleftrightarrow> a = b)"
  using decimals_compare [OF assms] canonical_unique [OF assms] by (simp add: rat_order_def)

theorem compareCanonicalDecimals_order_witness:
  "compareCanonicalDecimals ''-9.5'' ''10'' = - 1 \<and> dec_val ''-9.5'' < dec_val ''10''"
proof -
  have h: "canonical ''-9.5''" "canonical ''10''" by code_simp+
  have v: "dec_val ''-9.5'' < dec_val ''10''" by code_simp
  from compareCanonicalDecimals_order [OF h] v show ?thesis by simp
qed



end
