(* ===== verification/Rowfilter.thy ===== *)
theory Rowfilter
  imports Policy Numeric
begin

text \<open>
  Row-level security in memory (\<^verbatim>\<open>pkg/policy/rowfilter.go\<close>): the predicates that the query path
  renders to SQL, evaluated against a decoded event, so that the stream shows a subscriber only the
  rows its queries could return. The parser of a timestamp column is supplied by the schema registry
  (\<^verbatim>\<open>ColumnSpec.ParseTime\<close>); it is a field of the column specification, an instant being its
  nanoseconds.
\<close>

section \<open>The code\<close>

datatype ColumnKind = ColumnOpaque | ColumnNumeric | ColumnText | ColumnTime

record ColumnSpec =
  Kind :: ColumnKind
  ParseTime :: "(jvalue \<Rightarrow> int option) option"
  Numeric :: NumericSpec

definition no_numeric :: NumericSpec where
  "no_numeric = \<lparr>Family = NumericNone, Bits = 0, Unsigned = False, Precision = 0, Scale = 0\<rparr>"

text \<open>The zero value of a specification, which a column absent from the map has.\<close>

definition opaque_spec :: ColumnSpec where
  "opaque_spec = \<lparr>Kind = ColumnOpaque, ParseTime = None, Numeric = no_numeric\<rparr>"

definition maxTimeOperandChars :: nat where
  "maxTimeOperandChars = 64"

definition HasRowFilter :: "ResolvedPermissions option \<Rightarrow> bool" where
  "HasRowFilter p =
     (case p of
        None \<Rightarrow> False
      | Some p \<Rightarrow>
          (if \<not> Allowed p then True
           else case Select p of None \<Rightarrow> True | Some s \<Rightarrow> rowFilter s \<noteq> []))"

fun too_long_time :: "jvalue \<Rightarrow> bool" where
  "too_long_time (VString v) \<longleftrightarrow> length v > maxTimeOperandChars"
| "too_long_time (VNumber v) \<longleftrightarrow> length v > maxTimeOperandChars"
| "too_long_time _ \<longleftrightarrow> False"

definition compareScalar :: "jvalue \<Rightarrow> string \<Rightarrow> ColumnSpec \<Rightarrow> int option" where
  "compareScalar rowVal filterVal spec =
     (case Kind spec of
        ColumnTime \<Rightarrow>
          (case ParseTime spec of
             None \<Rightarrow> None
           | Some parse \<Rightarrow>
               (if too_long_time rowVal then None
                else if length filterVal > maxTimeOperandChars then None
                else case parse rowVal of
                  None \<Rightarrow> None
                | Some a \<Rightarrow>
                    (case parse (VString filterVal) of
                       None \<Rightarrow> None
                     | Some b \<Rightarrow> Some (if a < b then - 1 else if a > b then 1 else 0))))
      | ColumnNumeric \<Rightarrow>
          (if length filterVal > maxNumericOperandChars then None
           else case numericCanonical rowVal of
             None \<Rightarrow> None
           | Some a \<Rightarrow>
               (case CanonicalNumericLiteral filterVal of
                  None \<Rightarrow> None
                | Some b \<Rightarrow>
                    (if Family (Numeric spec) = NumericInteger \<and> b \<noteq> filterVal then None
                     else spec_compare (Numeric spec) a b)))
      | ColumnText \<Rightarrow> map_option (\<lambda>s. str_compare s filterVal) (scalarString rowVal)
      | ColumnOpaque \<Rightarrow>
          (case scalarString rowVal of
             None \<Rightarrow> None
           | Some s \<Rightarrow> (if s = filterVal then Some 0 else None)))"

definition holds :: "(int \<Rightarrow> bool) \<Rightarrow> int option \<Rightarrow> bool" where
  "holds P c = (case c of Some c \<Rightarrow> P c | None \<Rightarrow> False)"

type_synonym row = "(string \<times> jvalue) list"

definition pred_matches :: "resolvedPredicate \<Rightarrow> row \<Rightarrow> ColumnSpec \<Rightarrow> bool" where
  "pred_matches pred row spec =
     (if Values pred = [] then False
      else case map_of row (Column pred) of
        None \<Rightarrow> False
      | Some raw \<Rightarrow>
          (let cmp = compareScalar raw (Values pred ! 0) spec in
           if Op pred = ''='' then holds (\<lambda>c. c = 0) cmp
           else if Op pred = ''!='' then holds (\<lambda>c. c \<noteq> 0) cmp
           else if Op pred = ''>'' then holds (\<lambda>c. c > 0) cmp
           else if Op pred = ''<'' then holds (\<lambda>c. c < 0) cmp
           else if Op pred = ''in'' then
             list_ex (\<lambda>v. holds (\<lambda>c. c = 0) (compareScalar raw v spec)) (Values pred)
           else False))"

definition spec_of :: "(string \<times> ColumnSpec) list \<Rightarrow> string \<Rightarrow> ColumnSpec" where
  "spec_of cols col = (case map_of cols col of Some s \<Rightarrow> s | None \<Rightarrow> opaque_spec)"

definition RowVisible :: "ResolvedPermissions option \<Rightarrow> row \<Rightarrow> (string \<times> ColumnSpec) list \<Rightarrow> bool" where
  "RowVisible p row cols =
     (case p of
        None \<Rightarrow> True
      | Some p \<Rightarrow>
          (if \<not> Allowed p then False
           else case Select p of
             None \<Rightarrow> False
           | Some s \<Rightarrow> list_all (\<lambda>pred. pred_matches pred row (spec_of cols (Column pred))) (rowFilter s)))"

section \<open>Lemmas\<close>

lemma RowVisible_Select:
  "Allowed rp \<Longrightarrow> Select rp = Some s \<Longrightarrow>
   RowVisible (Some rp) row cols \<longleftrightarrow> (\<forall>p \<in> set (rowFilter s). pred_matches p row (spec_of cols (Column p)))"
  by (simp add: RowVisible_def list_all_iff)

lemma resolvePredicates_perm:
  "mset fs = mset gs \<Longrightarrow> set (resolvePredicates fs claims) = set (resolvePredicates gs claims)"
  by (auto simp: resolvePredicates_def dest: mset_eq_setD)

text \<open>A comparison of a row value with a filter constant that says the two are equal is right about it:
  for text the bytes are equal, for integers the values are.\<close>

lemma compare_text_eq:
  "Kind spec \<in> {ColumnText, ColumnOpaque} \<Longrightarrow> compareScalar v c spec = Some 0 \<Longrightarrow> scalarString v = Some c"
  by (auto simp: compareScalar_def split: option.splits if_splits)

lemma opaque_never_unequal:
  "Kind spec = ColumnOpaque \<Longrightarrow> compareScalar v c spec = Some r \<Longrightarrow> r = 0"
  by (auto simp: compareScalar_def split: option.splits if_splits)

section \<open>What a template asks for and a token carries\<close>

text \<open>A reference \<^verbatim>\<open>{{ jwt.path }}\<close> as it is written, and a text that holds one.\<close>

definition reference :: "string \<Rightarrow> string \<Rightarrow> bool" where
  "reference path r \<longleftrightarrow> path \<noteq> [] \<and> list_all path_byte path \<and>
     (\<exists>u w. list_all re_space u \<and> list_all re_space w \<and> r = ''{{'' @ u @ ''jwt.'' @ path @ w @ ''}}'')"

definition mentions :: "string \<Rightarrow> string \<Rightarrow> bool" where
  "mentions tmpl path \<longleftrightarrow> (\<exists>a r b. tmpl = a @ r @ b \<and> reference path r)"

text \<open>The value a path names, read off the nested objects of a token, and the values that can stand in a comparison:
  texts, booleans, and numbers within the bounds of the canonical form.\<close>

inductive carries :: "claims \<Rightarrow> string list \<Rightarrow> jvalue \<Rightarrow> bool" where
  carries_here: "map_of claims p = Some v \<Longrightarrow> carries claims [p] v"
| carries_nested: "map_of claims p = Some (VMap nested) \<Longrightarrow> carries nested ps v \<Longrightarrow> carries claims (p # ps) v"

inductive_cases carries_NilE: "carries claims [] v"
inductive_cases carries_ConsE: "carries claims (p # ps) v"

fun simple_value :: "jvalue \<Rightarrow> bool" where
  "simple_value (VString s) \<longleftrightarrow> True"
| "simple_value (VBool b) \<longleftrightarrow> True"
| "simple_value (VNumber s) \<longleftrightarrow> length (filter is_digit s) \<le> maxCanonicalDigits"
| "simple_value (VFloat f) \<longleftrightarrow> (case float_of_bits f of Infinite _ \<Rightarrow> False | NaN \<Rightarrow> True | Finite _ q \<Rightarrow> q < 2 ^ 53)"
| "simple_value _ \<longleftrightarrow> False"

definition lacks_value :: "claims \<Rightarrow> string \<Rightarrow> bool" where
  "lacks_value claims path \<longleftrightarrow> \<not> (\<exists>v. carries claims (split_at (CHR ''.'') path) v \<and> simple_value v)"

definition lacks_set :: "claims \<Rightarrow> string \<Rightarrow> bool" where
  "lacks_set claims path \<longleftrightarrow>
     \<not> (\<exists>vs. carries claims (split_at (CHR ''.'') path) (VArray vs) \<and> vs \<noteq> [] \<and> list_all simple_value vs)"

text \<open>A filter that asks for a claim the token lacks: a comparison whose constant refers to one, or a set that is a
  reference to one or mixes text with one.\<close>

definition asks_in_vain :: "claims \<Rightarrow> filter_spec \<Rightarrow> bool" where
  "asks_in_vain claims f \<longleftrightarrow>
     (\<exists>tmpl path. Some tmpl \<in> {Eq f, Neq f, Gt f, Lt f} \<and> mentions tmpl path \<and> lacks_value claims path) \<or>
     (\<exists>tmpl path. In f = Some tmpl \<and> lacks_value claims path \<and>
        (if \<exists>p. reference p (trim_space tmpl) then reference path (trim_space tmpl) \<and> lacks_set claims path
         else mentions tmpl path))"

lemma takeWhile_stop: "list_all P xs \<Longrightarrow> \<not> P y \<Longrightarrow> takeWhile P (xs @ y # ys) = xs" "list_all P xs \<Longrightarrow> \<not> P y \<Longrightarrow> dropWhile P (xs @ y # ys) = y # ys"
  by (induction xs) auto

lemma space_or_path: "re_space c \<Longrightarrow> \<not> path_byte c \<and> c \<noteq> CHR ''{'' \<and> c \<noteq> CHR ''j'' \<and> c \<noteq> CHR ''}''"
  "path_byte c \<Longrightarrow> c \<noteq> CHR ''{'' \<and> c \<noteq> CHR ''}''"
  by (auto simp: re_space_def path_byte_def is_alnum_def is_lower_def is_upper_def is_digit_def less_eq_char_def)

lemma path_then_close:
  assumes "list_all path_byte path" "list_all re_space w"
  shows "takeWhile path_byte (path @ w @ CHR ''}'' # t) = path" "dropWhile path_byte (path @ w @ CHR ''}'' # t) = w @ CHR ''}'' # t"
proof -
  have c: "\<not> path_byte (CHR ''}'')" by code_simp
  show "takeWhile path_byte (path @ w @ CHR ''}'' # t) = path" "dropWhile path_byte (path @ w @ CHR ''}'' # t) = w @ CHR ''}'' # t"
    using takeWhile_stop [OF assms(1)] c assms(2) space_or_path(1) by (cases w; force)+
qed

lemma match_claim_iff: "match_claim s = Some (path, b) \<longleftrightarrow> (\<exists>r. s = r @ b \<and> reference path r)"
proof
  assume "match_claim s = Some (path, b)"
  then obtain t x where t: "s = ''{{'' @ t" "dropWhile re_space t = ''jwt.'' @ x" "path = takeWhile path_byte x" "path \<noteq> []"
    "dropWhile re_space (dropWhile path_byte x) = ''}}'' @ b"
    by (auto simp: match_claim_def Let_def split: option.splits if_splits)
  then have "s = ''{{'' @ takeWhile re_space t @ ''jwt.'' @ path @ takeWhile re_space (dropWhile path_byte x) @ ''}}'' @ b"
    by (metis takeWhile_dropWhile_id)
  moreover have "list_all path_byte path" "list_all re_space (takeWhile re_space y)" for y
    unfolding t(3) list_all_iff by (auto dest: set_takeWhileD)
  ultimately show "\<exists>r. s = r @ b \<and> reference path r" using t(4)
    by (intro exI [of _ "''{{'' @ takeWhile re_space t @ ''jwt.'' @ path @ takeWhile re_space (dropWhile path_byte x) @ ''}}''"])
      (auto simp: reference_def)
next
  assume "\<exists>r. s = r @ b \<and> reference path r"
  then obtain u w where s: "s = ''{{'' @ u @ CHR ''j'' # ''wt.'' @ path @ w @ CHR ''}'' # CHR ''}'' # b" "path \<noteq> []" "list_all path_byte path"
    "list_all re_space u" "list_all re_space w"
    by (auto simp: reference_def)
  have sp: "\<not> re_space (CHR ''j'')" "\<not> re_space (CHR ''}'')" by code_simp+
  have cut: "cut_prefix ''{{'' s = Some (u @ CHR ''j'' # ''wt.'' @ path @ w @ CHR ''}'' # CHR ''}'' # b)"
    "cut_prefix ''jwt.'' (CHR ''j'' # ''wt.'' @ path @ w @ CHR ''}'' # CHR ''}'' # b) = Some (path @ w @ CHR ''}'' # CHR ''}'' # b)"
    "cut_prefix ''}}'' (CHR ''}'' # CHR ''}'' # b) = Some b"
    using s(1) by simp_all
  show "match_claim s = Some (path, b)"
    unfolding match_claim_def cut(1) option.case takeWhile_stop(2) [OF s(4) sp(1)] cut(2) Let_def
      path_then_close [OF s(3,5)] takeWhile_stop(2) [OF s(5) sp(2)] cut(3) using s(2) by simp
qed

text \<open>A reference anywhere in a text is found, since no match can end inside another.\<close>

lemma reference_shape:
  assumes "reference path r"
  shows "\<exists>m. r = ''{{'' @ m @ ''}}'' \<and> CHR ''{'' \<notin> set m \<and> m \<noteq> []"
proof -
  obtain u w where r: "list_all re_space u" "list_all re_space w" "list_all path_byte path" "r = ''{{'' @ u @ ''jwt.'' @ path @ w @ ''}}''"
    using assms by (auto simp: reference_def)
  then have "CHR ''{'' \<notin> set u" "CHR ''{'' \<notin> set w" "CHR ''{'' \<notin> set path"
    using space_or_path(1) [of "CHR ''{''"] space_or_path(2) [of "CHR ''{''"] by (auto simp: list_all_iff)
  then show ?thesis using r(4) by (intro exI [of _ "u @ ''jwt.'' @ path @ w"]) simp
qed

lemma references_apart:
  assumes "reference p m" "reference q r" "a \<noteq> []" "a @ r @ b = m @ t"
  shows "\<exists>d. a = m @ d"
proof (rule ccontr)
  assume no: "\<nexists>d. a = m @ d"
  from assms(4) obtain e where "a @ e = m \<and> r @ b = e @ t \<or> a = m @ e"
    unfolding append_eq_append_conv2 [of a "r @ b" m t] by auto
  with no have e: "a @ e = m" "r @ b = e @ t" "e \<noteq> []" by auto
  obtain x where x: "m = ''{{'' @ x @ ''}}''" "CHR ''{'' \<notin> set x" "x \<noteq> []" using reference_shape [OF assms(1)] by blast
  obtain y where y: "r = ''{{'' @ y @ ''}}''" using reference_shape [OF assms(2)] by blast
  obtain e' where e': "e = CHR ''{'' # e'" using e(2,3) y by (cases e) auto
  obtain c a' where a': "a = c # a'" using assms(3) by (cases a) auto
  have 1: "a' @ CHR ''{'' # e' = CHR ''{'' # x @ ''}}''" using e(1) unfolding a' e' x(1) by simp
  show False
  proof (cases a')
    case Nil
    then have "e' = x @ ''}}''" using 1 by simp
    then show ?thesis using e(2) x(2,3) unfolding e' y by (cases x) auto
  next
    case (Cons d ds)
    then have "ds @ CHR ''{'' # e' = x @ ''}}''" using 1 by simp
    then have "CHR ''{'' \<in> set (x @ ''}}'')" by (metis in_set_conv_decomp)
    then show ?thesis using x(2) by simp
  qed
qed

lemma reference_found: "reference path r \<Longrightarrow> path \<in> set (claim_paths (a @ r @ b))"
proof (induction "a @ r @ b" arbitrary: a rule: template_pieces.induct)
  case 1
  then show ?case using reference_shape by auto
next
  case (2 c cs)
  show ?case
  proof (cases a)
    case Nil
    have "match_claim (r @ b) = Some (path, b)" using 2(4) match_claim_iff by blast
    moreover have "r @ b = c # cs" using 2(3) Nil by simp
    ultimately show ?thesis unfolding Nil by (simp add: claim_paths_iff)
  next
    case (Cons c' a')
    then have cs: "cs = a' @ r @ b" "c' = c" using 2(3) by auto
    show ?thesis
    proof (cases "match_claim (c # cs)")
      case None
      have "path \<in> set (claim_paths (a' @ r @ b))" by (rule 2(1) [OF None cs(1) 2(4)])
      then show ?thesis using None unfolding Cons cs(2) by (simp add: claim_paths_iff cs(1))
    next
      case (Some x)
      obtain p t where x: "x = (p, t)" by (cases x)
      then obtain m where m: "c # cs = m @ t" "reference p m" using Some match_claim_iff by blast
      then obtain d where "a = m @ d" using references_apart [OF m(2) 2(4), of a b t] 2(3) Cons by auto
      then have t: "t = d @ r @ b" using m(1) 2(3) by simp
      then have "(p, d @ r @ b) = (p, t)" by simp
      then have "path \<in> set (claim_paths (d @ r @ b))" using 2(2) [OF Some [unfolded x] _ 2(4)] by blast
      moreover have "c # cs = a @ r @ b" using Cons cs by simp
      ultimately show ?thesis using Some x t by (simp add: claim_paths_iff flip: \<open>c # cs = a @ r @ b\<close>)
    qed
  qed
qed

lemma whole_claim_iff: "whole_claim s = Some path \<longleftrightarrow> reference path s"
  using match_claim_iff [of s path "[]"] by (auto simp: whole_claim_def split: option.splits list.splits)

text \<open>What the code reads at a path is what the token carries there, and what it can bind is simple.\<close>

lemma navigate_carries: "navigateClaims claims ps = v \<Longrightarrow> v \<noteq> VNil \<Longrightarrow> carries claims ps v"
  by (induction claims ps rule: navigateClaims.induct) (auto split: option.splits jvalue.splits intro: carries.intros)

lemma canonical_simple: "CanonicalScalar v = Some c \<Longrightarrow> simple_value v"
  by (cases v) (auto simp: two53_def split: if_splits float_class.splits)

lemma lacks_unbindable: "lacks_value claims path \<Longrightarrow> \<not> bindable claims path"
proof
  assume l: "lacks_value claims path" "bindable claims path"
  then obtain c where c: "CanonicalScalar (claim_at claims path) = Some c" by (auto simp: bindable_def)
  then have "claim_at claims path \<noteq> VNil" by auto
  then have "carries claims (split_at (CHR ''.'') path) (claim_at claims path)" using navigate_carries by (simp add: claim_at_def)
  then show False using canonical_simple [OF c] l(1) by (auto simp: lacks_value_def)
qed

lemma lacks_no_values:
  assumes "lacks_value claims path" "lacks_set claims path"
  shows "\<exists>s. ResolveClaim claims path = ([], s, False)"
proof (cases "\<exists>vs. claim_at claims path = VArray vs")
  case True
  then obtain vs where vs: "claim_at claims path = VArray vs" by blast
  then have "carries claims (split_at (CHR ''.'') path) (VArray vs)" using navigate_carries by (fastforce simp: claim_at_def)
  then have "vs = [] \<or> \<not> list_all simple_value vs" using assms(2) by (auto simp: lacks_set_def)
  then have "vs = [] \<or> canonical_all vs = None"
    using canonical_all_Some canonical_simple by (cases "canonical_all vs") (fastforce simp: list_all_iff)+
  then show ?thesis using vs by (auto simp: ResolveClaim_def)
next
  case False
  then show ?thesis using lacks_unbindable [OF assms(1)] by (auto simp: ResolveClaim_def bindable_def split: jvalue.splits)
qed

lemma vain_unresolvable:
  assumes "asks_in_vain claims f"
  shows "unresolvable claims f"
  using assms unfolding asks_in_vain_def
proof (elim disjE exE conjE)
  fix tmpl path
  assume a: "Some tmpl \<in> {Eq f, Neq f, Gt f, Lt f}" "mentions tmpl path" "lacks_value claims path"
  then have "path \<in> set (claim_paths tmpl)" using reference_found by (auto simp: mentions_def)
  then show ?thesis unfolding unresolvable_def using a lacks_unbindable [OF a(3)] by (intro disjI1 bexI [of _ "Some tmpl"]) auto
next
  fix tmpl path
  assume a: "In f = Some tmpl" "lacks_value claims path" "if \<exists>p. reference p (trim_space tmpl) then reference path (trim_space tmpl) \<and> lacks_set claims path
         else mentions tmpl path"
  have "resolveInValues tmpl claims = []"
  proof (cases "\<exists>p. reference p (trim_space tmpl)")
    case True
    then have "whole_claim (trim_space tmpl) = Some path" "lacks_set claims path" using a(3) whole_claim_iff by simp_all
    then show ?thesis using lacks_no_values [OF a(2)] by (auto simp: resolveInValues_def)
  next
    case False
    then have "whole_claim (trim_space tmpl) = None" using whole_claim_iff by (cases "whole_claim (trim_space tmpl)") auto
    moreover have "path \<in> set (claim_paths tmpl)" using False a(3) reference_found by (auto simp: mentions_def)
    then have "\<not> snd (resolveTemplate tmpl claims)" using resolveTemplate_ok lacks_unbindable [OF a(2)] by blast
    ultimately show ?thesis by (auto simp: resolveInValues_def split: prod.splits)
  qed
  then show ?thesis using a(1) by (simp add: unresolvable_def)
qed

section \<open>Properties\<close>

text \<open>C7. A row filter that refers to a claim the token does not carry hides everything on both read surfaces. The filter
  mentions \<^verbatim>\<open>{{ jwt.path }}\<close> in the constant of a comparison, and at that path the token has nothing, a null, an
  object, an array, or a number outside the bounds of the canonical form; or its set is that reference, or a text with
  it, and there is no such value, nor, for the bare reference, a non-empty array of them. Then the SQL
  clause has the conjunct \<^verbatim>\<open>1 = 0\<close>, and no event row is visible.\<close>

theorem unresolvable_hides_all:
  assumes "evaluateSelect (Some sp) claims = rp" "Allowed rp" "(col, f) \<in> set (sel_Filter sp)"
    and "asks_in_vain claims f"
  shows "\<exists>s clauses. Select rp = Some s \<and> WhereClause s = join '' AND '' clauses \<and>
    ''1 = 0'' \<in> set clauses \<and> (\<forall>row cols. \<not> RowVisible (Some rp) row cols)"
  using assms(1,2)
proof (cases rule: evaluateSelect_cases)
  case (1 sp' s)
  then have "\<exists>p \<in> set (rowFilter s). Values p = []" using unresolvable_empty [OF assms(3) vain_unresolvable [OF assms(4)]] by simp
  then obtain p where p: "p \<in> set (rowFilter s)" "Values p = []" ..
  then have "''1 = 0'' \<in> set (fst (predicatesToSQL (rowFilter s)))"
    by (force simp: predicatesToSQL_def empty_predicate_sql)
  moreover have "\<not> RowVisible (Some rp) row cols" for row cols
    using p RowVisible_Select [OF assms(2) 1(2)] by (auto simp: pred_matches_def)
  ultimately show ?thesis using 1 by blast
qed

theorem unresolvable_hides_all_witness:
  "(\<exists>s clauses. Select (Evaluate (Some example_policy) ''viewer'' ''t'' ''select'' []) = Some s \<and>
     WhereClause s = join '' AND '' clauses \<and> ''1 = 0'' \<in> set clauses \<and>
     \<not> RowVisible (Some (Evaluate (Some example_policy) ''viewer'' ''t'' ''select'' []))
         [(''a`b'', VString ''x'')] [])"
proof -
  let ?rp = "Evaluate (Some example_policy) ''viewer'' ''t'' ''select'' []"
  obtain sp where sp: "evaluateSelect (Some sp) [] = ?rp" "sel_Filter sp = [(''a`b'', example_filter)]"
    by (simp add: Evaluate_def Let_def ResolveRole_def IsAdmin_def AdminRole_def defaultAdminRole_def example_policy_def)
  have a: "Allowed ?rp" by code_simp
  have "\<not> carries [] ps v" for ps v by (auto elim: carries.cases)
  then have l: "lacks_value [] ''org.id''" by (simp add: lacks_value_def)
  have "reference ''org.id'' ''{{ jwt.org.id }}''"
    unfolding reference_def by (intro conjI exI [of _ "'' ''"]) (code_simp | simp)+
  then have "mentions ''x{{ jwt.org.id }}'' ''org.id''"
    unfolding mentions_def by (intro exI [of _ "''x''"] exI [of _ "''{{ jwt.org.id }}''"] exI [of _ "[]"]) simp
  then have "asks_in_vain [] example_filter" using l unfolding asks_in_vain_def example_filter_def by fastforce
  with unresolvable_hides_all [OF sp(1) a, of "''a`b''" example_filter] sp(2) show ?thesis by auto
qed

text \<open>Which rows a subscriber sees, whether the grant is allowed, and which columns it may read do
  not depend on the order in which the filter map is iterated.\<close>

theorem RowVisible_order_independent:
  assumes "mset (sel_Filter sp) = mset (sel_Filter sp')"
    and "sel_AllowColumns sp = sel_AllowColumns sp'" "sel_DenyColumns sp = sel_DenyColumns sp'"
  shows "RowVisible (Some (evaluateSelect (Some sp) claims)) row cols =
      RowVisible (Some (evaluateSelect (Some sp') claims)) row cols \<and>
    Allowed (evaluateSelect (Some sp) claims) = Allowed (evaluateSelect (Some sp') claims) \<and>
    IsColumnAllowed (Some (evaluateSelect (Some sp) claims)) col False =
      IsColumnAllowed (Some (evaluateSelect (Some sp') claims)) col False"
proof -
  have s: "set (sel_Filter sp) = set (sel_Filter sp')" using assms(1) by (rule mset_eq_setD)
  have "sel_Filter sp = [] \<longleftrightarrow> sel_Filter sp' = []" using s by auto
  with s have al: "Allowed (evaluateSelect (Some sp) claims) = Allowed (evaluateSelect (Some sp') claims)"
    by (auto simp: evaluateSelect_def Let_def denied_def list_ex_iff split: prod.splits)
  show ?thesis
  proof (cases "Allowed (evaluateSelect (Some sp) claims)")
    case False
    with al show ?thesis by (simp add: RowVisible_def IsColumnAllowed_def)
  next
    case True
    obtain s where "Select (evaluateSelect (Some sp) claims) = Some s"
      "rowFilter s = resolvePredicates (sel_Filter sp) claims"
      "rs_AllowColumns s = sel_AllowColumns sp" "rs_DenyColumns s = sel_DenyColumns sp"
      by (rule evaluateSelect_cases [OF refl True]) auto
    moreover obtain s' where "Select (evaluateSelect (Some sp') claims) = Some s'"
      "rowFilter s' = resolvePredicates (sel_Filter sp') claims"
      "rs_AllowColumns s' = sel_AllowColumns sp'" "rs_DenyColumns s' = sel_DenyColumns sp'"
      by (rule evaluateSelect_cases [OF refl True [unfolded al]]) auto
    ultimately show ?thesis
      using True al assms(2,3) resolvePredicates_perm [OF assms(1), of claims]
      by (simp add: RowVisible_def list_all_iff IsColumnAllowed_def)
  qed
qed

definition example_select :: "(string \<times> filter_spec) list \<Rightarrow> SelectPermissions" where
  "example_select fs =
     \<lparr>sel_AllowColumns = [], sel_DenyColumns = [], sel_Filter = fs, sel_AllowedAggregations = [],
      sel_DeniedAggregations = [], sel_MaxRows = 0, sel_MaxExecutionTime = 0, sel_MaxRowsToRead = 0,
      sel_MaxMemoryUsage = 0\<rparr>"

theorem RowVisible_order_independent_witness:
  "RowVisible (Some (evaluateSelect (Some (example_select
      [(''b'', \<lparr>Eq = Some ''1'', Neq = None, Gt = None, Lt = None, In = None\<rparr>), (''a'', example_filter)])) [])) [] [] =
   RowVisible (Some (evaluateSelect (Some (example_select
      [(''a'', example_filter), (''b'', \<lparr>Eq = Some ''1'', Neq = None, Gt = None, Lt = None, In = None\<rparr>)])) [])) [] []"
  by (rule RowVisible_order_independent [THEN conjunct1]) (simp_all add: example_select_def)

section \<open>Numeric predicates\<close>

lemma compare_numeric_stored:
  assumes "Kind spec = ColumnNumeric" "compareScalar raw c spec = Some r"
    and "\<forall>x. raw = VNumber x \<longrightarrow> \<not> prefix ''+'' x"
  shows "\<exists>a b x y. numericCanonical raw = Some a \<and> CanonicalNumericLiteral c = Some b \<and>
    stored (Numeric spec) a = Some x \<and> stored (Numeric spec) b = Some y \<and> r = rat_order x y"
proof -
  from assms(1,2) obtain a b where a: "numericCanonical raw = Some a" and b: "CanonicalNumericLiteral c = Some b"
    and r: "spec_compare (Numeric spec) a b = Some r"
    by (auto simp: compareScalar_def split: if_splits option.splits)
  have "canonical a" by (rule numericCanonical_canonical [OF a assms(3)])
  moreover have "canonical b"
  proof -
    have "length c \<le> maxNumericOperandChars"
      using assms(1,2) by (auto simp: compareScalar_def split: if_splits)
    then have "numericCanonical (VString c) = Some b" using b by simp
    then show ?thesis by (rule numericCanonical_canonical) simp
  qed
  ultimately show ?thesis
    using r spec_compare_stored [of a b "Numeric spec"] a b by (auto split: option.splits)
qed

lemma rat_order_signs: "rat_order x y = 0 \<longleftrightarrow> x = y" "0 < rat_order x y \<longleftrightarrow> y < x" "rat_order x y < 0 \<longleftrightarrow> x < y"
  by (auto simp: rat_order_def)

text \<open>C8. A row admitted by a predicate on a numeric column satisfies it on the values the column
  stores: some constant of the predicate and the row's value both have a stored value at the
  column's width, rounding or scale, and the two stand in the predicate's relation.\<close>

theorem numeric_match_sound:
  assumes "Kind spec = ColumnNumeric" "map_of row (Column pred) = Some raw" "pred_matches pred row spec"
    and "\<forall>x. raw = VNumber x \<longrightarrow> \<not> prefix ''+'' x"
  shows "\<exists>c \<in> set (Values pred). \<exists>a b x y. numericCanonical raw = Some a \<and>
    CanonicalNumericLiteral c = Some b \<and> stored (Numeric spec) a = Some x \<and> stored (Numeric spec) b = Some y \<and>
    (Op pred = ''='' \<and> x = y \<or> Op pred = ''!='' \<and> x \<noteq> y \<or> Op pred = ''>'' \<and> y < x \<or>
     Op pred = ''<'' \<and> x < y \<or> Op pred = ''in'' \<and> x = y)"
proof -
  from assms(2,3) obtain c r where c: "c \<in> set (Values pred)" "compareScalar raw c spec = Some r"
    and r: "Op pred = ''='' \<and> r = 0 \<or> Op pred = ''!='' \<and> r \<noteq> 0 \<or> Op pred = ''>'' \<and> r > 0 \<or>
      Op pred = ''<'' \<and> r < 0 \<or> Op pred = ''in'' \<and> r = 0"
    by (auto simp: pred_matches_def holds_def Let_def list_ex_iff neq_Nil_conv split: if_splits option.splits)
  from compare_numeric_stored [OF assms(1) c(2) assms(4)] obtain a b x y where
    s: "numericCanonical raw = Some a" "CanonicalNumericLiteral c = Some b" "stored (Numeric spec) a = Some x"
    "stored (Numeric spec) b = Some y" "r = rat_order x y" by blast
  with r have "Op pred = ''='' \<and> x = y \<or> Op pred = ''!='' \<and> x \<noteq> y \<or> Op pred = ''>'' \<and> y < x \<or>
     Op pred = ''<'' \<and> x < y \<or> Op pred = ''in'' \<and> x = y" by (simp add: rat_order_signs)
  with s(1-4) c(1) show ?thesis by blast
qed

definition decimal_spec :: ColumnSpec where
  "decimal_spec = \<lparr>Kind = ColumnNumeric, ParseTime = None,
     Numeric = \<lparr>Family = NumericDecimal, Bits = 0, Unsigned = False, Precision = 10, Scale = 2\<rparr>\<rparr>"

theorem numeric_match_sound_witness:
  "\<exists>c \<in> {''9''}. \<exists>a b x y. numericCanonical (VNumber ''100'') = Some a \<and> CanonicalNumericLiteral c = Some b \<and>
     stored (Numeric decimal_spec) a = Some x \<and> stored (Numeric decimal_spec) b = Some y \<and> y < x"
proof -
  let ?p = "\<lparr>Column = ''n'', Op = ''>'', Values = [''9'']\<rparr>"
  have k: "Kind decimal_spec = ColumnNumeric" by (simp add: decimal_spec_def)
  have m: "pred_matches ?p [(''n'', VNumber ''100'')] decimal_spec" by code_simp
  have l: "map_of [(''n'', VNumber ''100'')] (Column ?p) = Some (VNumber ''100'')" by simp
  have j: "\<forall>x. VNumber ''100'' = VNumber x \<longrightarrow> \<not> prefix ''+'' x" by simp
  from numeric_match_sound [OF k l m j] show ?thesis by (elim bexE exE conjE disjE) auto
qed

end
