(* ===== verification/Gotime.thy ===== *)
theory Gotime
  imports Gojson
begin

text \<open>
  The parts of Go's \<^verbatim>\<open>time\<close> package that the query builder uses: \<^verbatim>\<open>ParseDuration\<close>, \<^verbatim>\<open>Parse\<close> with the
  layout \<^verbatim>\<open>RFC3339Nano\<close>, \<^verbatim>\<open>Truncate\<close> and \<^verbatim>\<open>Format\<close> with ClickHouse's layout. An instant is its
  nanoseconds since the Unix epoch, a duration its nanoseconds.
\<close>

section \<open>Durations\<close>

text \<open>\<^verbatim>\<open>leadingInt\<close>: the digits at the front as a number, which overflows past \<open>2 ^ 63\<close>.\<close>

definition leadingInt :: "string \<Rightarrow> (nat \<times> string) option" where
  "leadingInt s =
     (let ds = takeWhile is_digit s in
      if digits_val ds > 2 ^ 63 then None else Some (digits_val ds, dropWhile is_digit s))"

text \<open>\<^verbatim>\<open>leadingFraction\<close>: digits past the capacity are read and dropped; the scale counts those kept.\<close>

fun lead_fraction :: "nat \<Rightarrow> nat \<Rightarrow> bool \<Rightarrow> string \<Rightarrow> nat \<times> nat \<times> string" where
  "lead_fraction x k overflow [] = (x, k, [])"
| "lead_fraction x k overflow (c # cs) =
     (if \<not> is_digit c then (x, k, c # cs)
      else if overflow then lead_fraction x k True cs
      else if x > (2 ^ 63 - 1) div 10 then lead_fraction x k True cs
      else (let y = 10 * x + digit_val c in
            if y > 2 ^ 63 then lead_fraction x k True cs else lead_fraction y (k + 1) False cs))"

definition unit_ns :: "string \<Rightarrow> nat option" where
  "unit_ns u =
     (if u = ''ns'' then Some 1
      else if u = ''us'' \<or> u = [CHR 0xC2, CHR 0xB5, CHR ''s''] \<or> u = [CHR 0xCE, CHR 0xBC, CHR ''s''] then Some 1000
      else if u = ''ms'' then Some 1000000
      else if u = ''s'' then Some 1000000000
      else if u = ''m'' then Some 60000000000
      else if u = ''h'' then Some 3600000000000
      else None)"

definition f64 :: "rat \<Rightarrow> rat" where
  "f64 q = (case round_float float64 q of Some r \<Rightarrow> r | None \<Rightarrow> 0)"

text \<open>The optional fraction: its digits, how many, what follows, and whether there was a digit.\<close>

definition opt_fraction :: "string \<Rightarrow> nat \<times> nat \<times> string \<times> bool" where
  "opt_fraction s =
     (if prefix ''.'' s
      then (case lead_fraction 0 0 False (drop 1 s) of (f, k, r) \<Rightarrow> (f, k, r, length r \<noteq> length (drop 1 s)))
      else (0, 0, s, False))"

definition unit_byte :: "char \<Rightarrow> bool" where
  "unit_byte c \<longleftrightarrow> \<not> (c = CHR ''.'' \<or> is_digit c)"

text \<open>One number and unit; \<open>None\<close> is an error.\<close>

definition duration_part :: "string \<Rightarrow> (nat \<times> string) option" where
  "duration_part s =
     (if s = [] \<or> unit_byte (hd s) then None
      else case leadingInt s of
        None \<Rightarrow> None
      | Some (v, s1) \<Rightarrow>
          (case opt_fraction s1 of (f, k, s2, post) \<Rightarrow>
             (if length s1 = length s \<and> \<not> post then None
              else case unit_ns (takeWhile unit_byte s2) of
                None \<Rightarrow> None
              | Some unit \<Rightarrow>
                  (if v > 2 ^ 63 div unit then None
                   else (let w = v * unit +
                               (if f > 0 then nat \<lfloor>f64 (f64 (of_nat f) * f64 (of_nat unit / 10 ^ k))\<rfloor> else 0) in
                         if f > 0 \<and> w > 2 ^ 63 then None else Some (w, dropWhile unit_byte s2))))))"

lemma lead_fraction_length: "lead_fraction x k ov s = (f, j, r) \<Longrightarrow> length r \<le> length s"
  by (induction x k ov s rule: lead_fraction.induct) (auto simp: Let_def split: if_splits)

lemma duration_part_shorter:
  assumes "duration_part s = Some (w, r)"
  shows "length r < length s"
proof -
  from assms obtain v s1 where l: "leadingInt s = Some (v, s1)"
    by (auto simp: duration_part_def split: if_splits option.splits)
  obtain f k s2 post where x: "opt_fraction s1 = (f, k, s2, post)" by (cases "opt_fraction s1") auto
  have 1: "length s1 \<le> length s"
    using l by (auto simp: leadingInt_def Let_def length_dropWhile_le split: if_splits)
  have 2: "length s2 \<le> length s1"
    using x by (auto simp: opt_fraction_def split: if_splits prod.splits dest!: lead_fraction_length)
  have "takeWhile unit_byte s2 \<noteq> []" "r = dropWhile unit_byte s2"
    using assms by (auto simp: duration_part_def l x unit_ns_def Let_def split: if_splits option.splits)
  then have "length r < length s2"
    by (metis takeWhile_dropWhile_id length_append length_greater_0_conv less_add_same_cancel2)
  with 1 2 show ?thesis by simp
qed

function duration_parts :: "nat \<Rightarrow> string \<Rightarrow> nat option" where
  "duration_parts d s =
     (if s = [] then Some d
      else case duration_part s of
        None \<Rightarrow> None
      | Some (v, r) \<Rightarrow> (if d + v > 2 ^ 63 then None else duration_parts (d + v) r))"
  by pat_completeness auto
termination
  by (relation "measure (\<lambda>(d, s). length s)") (auto dest: duration_part_shorter)

declare duration_parts.simps [simp del]

definition ParseDuration :: "string \<Rightarrow> int option" where
  "ParseDuration s =
     (let neg = prefix ''-'' s;
          s = (if neg \<or> prefix ''+'' s then drop 1 s else s) in
      if s = ''0'' then Some 0
      else if s = '''' then None
      else case duration_parts 0 s of
        None \<Rightarrow> None
      | Some d \<Rightarrow> (if neg then Some (- int d) else if d > 2 ^ 63 - 1 then None else Some (int d)))"

section \<open>Dates\<close>

definition leap :: "int \<Rightarrow> bool" where
  "leap y \<longleftrightarrow> y mod 4 = 0 \<and> (y mod 100 \<noteq> 0 \<or> y mod 400 = 0)"

definition days_in :: "int \<Rightarrow> int \<Rightarrow> int" where
  "days_in m y = (if m = 2 then (if leap y then 29 else 28) else if m \<in> {4, 6, 9, 11} then 30 else 31)"

text \<open>Days since 1970-01-01 of a civil date, and back, counting years from March.\<close>

definition days_from_civil :: "int \<Rightarrow> int \<Rightarrow> int \<Rightarrow> int" where
  "days_from_civil y m d =
     (let y = (if m \<le> 2 then y - 1 else y); era = y div 400; yoe = y mod 400;
          doy = (153 * ((m + 9) mod 12) + 2) div 5 + d - 1;
          doe = yoe * 365 + yoe div 4 - yoe div 100 + doy in
      era * 146097 + doe - 719468)"

definition civil_from_days :: "int \<Rightarrow> int \<times> int \<times> int" where
  "civil_from_days z =
     (let z = z + 719468; era = z div 146097; doe = z mod 146097;
          yoe = (doe - doe div 1460 + doe div 36524 - doe div 146096) div 365;
          doy = doe - (365 * yoe + yoe div 4 - yoe div 100);
          mp = (5 * doy + 2) div 153;
          d = doy - (153 * mp + 2) div 5 + 1;
          m = (if mp < 10 then mp + 3 else mp - 9);
          y = yoe + era * 400 + (if m \<le> 2 then 1 else 0) in
      (y, m, d))"

section \<open>Parsing and formatting\<close>

text \<open>Exactly two digits, or one or two (\<^verbatim>\<open>getnum\<close>).\<close>

definition getnum2 :: "string \<Rightarrow> (int \<times> string) option" where
  "getnum2 s =
     (case s of
        a # b # r \<Rightarrow> (if is_digit a \<and> is_digit b then Some (int (digits_val [a, b]), r) else None)
      | _ \<Rightarrow> None)"

definition getnum :: "string \<Rightarrow> (int \<times> string) option" where
  "getnum s =
     (case s of
        [] \<Rightarrow> None
      | a # r \<Rightarrow>
          (if \<not> is_digit a then None
           else case r of
             b # r' \<Rightarrow> (if is_digit b then Some (int (digits_val [a, b]), r') else Some (int (digit_val a), r))
           | [] \<Rightarrow> Some (int (digit_val a), r)))"

text \<open>An optional fraction of a second, introduced by a period or a comma: the nanoseconds of its
  first nine digits.\<close>

definition get_fraction :: "string \<Rightarrow> int \<times> string" where
  "get_fraction s =
     (case s of
        p # c # r \<Rightarrow>
          (if (p = CHR ''.'' \<or> p = CHR '','') \<and> is_digit c then
             (let ds = take 9 (takeWhile is_digit (c # r)) in
              (int (digits_val ds) * 10 ^ (9 - length ds), dropWhile is_digit (c # r)))
           else (0, s))
      | _ \<Rightarrow> (0, s))"

text \<open>The zone: \<open>Z\<close>, or a sign, hours, a colon and minutes; its offset in seconds.\<close>

definition get_zone :: "string \<Rightarrow> (int \<times> string) option" where
  "get_zone s =
     (case s of
        [] \<Rightarrow> None
      | c # r \<Rightarrow>
          (if c = CHR ''Z'' then Some (0, r)
           else if c = CHR ''+'' \<or> c = CHR ''-'' then
             (case getnum2 r of
                None \<Rightarrow> None
              | Some (hh, r) \<Rightarrow>
                  (case r of
                     [] \<Rightarrow> None
                   | q # r \<Rightarrow>
                       (if q \<noteq> CHR '':'' then None
                        else case getnum2 r of
                          None \<Rightarrow> None
                        | Some (mm, r) \<Rightarrow>
                            (if hh > 24 \<or> mm > 60 then None
                             else Some ((if c = CHR ''-'' then - 1 else 1) * (hh * 3600 + mm * 60), r)))))
           else None))"

definition expect :: "char \<Rightarrow> string \<Rightarrow> string option" where
  "expect c s = (case s of [] \<Rightarrow> None | d # r \<Rightarrow> if d = c then Some r else None)"

definition get_date :: "string \<Rightarrow> (int \<times> int \<times> int \<times> string) option" where
  "get_date s =
     (if length s < 4 \<or> \<not> list_all is_digit (take 4 s) then None
      else Option.bind (expect (CHR ''-'') (drop 4 s)) (\<lambda>r.
           Option.bind (getnum2 r) (\<lambda>(m, r).
           Option.bind (expect (CHR ''-'') r) (\<lambda>r.
           Option.bind (getnum2 r) (\<lambda>(d, r). Some (int (digits_val (take 4 s)), m, d, r))))))"

definition get_clock :: "string \<Rightarrow> (int \<times> int \<times> int \<times> string) option" where
  "get_clock s =
     Option.bind (getnum s) (\<lambda>(h, r).
     Option.bind (expect (CHR '':'') r) (\<lambda>r.
     Option.bind (getnum2 r) (\<lambda>(m, r).
     Option.bind (expect (CHR '':'') r) (\<lambda>r.
     Option.bind (getnum2 r) (\<lambda>(sec, r). Some (h, m, sec, r))))))"

text \<open>\<^verbatim>\<open>time.Parse(time.RFC3339Nano, s)\<close> as an instant.\<close>

definition parse_rfc3339 :: "string \<Rightarrow> int option" where
  "parse_rfc3339 s =
     Option.bind (get_date s) (\<lambda>(y, mo, d, r).
     Option.bind (expect (CHR ''T'') r) (\<lambda>r.
     Option.bind (get_clock r) (\<lambda>(h, mi, sec, r).
       (case get_fraction r of (ns, r) \<Rightarrow>
        Option.bind (get_zone r) (\<lambda>(off, r).
          (if r = [] \<and> 1 \<le> mo \<and> mo \<le> 12 \<and> 1 \<le> d \<and> d \<le> days_in mo y \<and> h < 24 \<and> mi < 60 \<and> sec < 60
           then Some ((((days_from_civil y mo d * 24 + h) * 60 + mi) * 60 + sec - off) * 1000000000 + ns)
           else None))))))"

text \<open>\<^verbatim>\<open>t.Truncate(d)\<close> counts from the zero time, January 1 of year 1.\<close>

definition zero_time :: int where
  "zero_time = - 62135596800 * 1000000000"

definition time_truncate :: "int \<Rightarrow> int \<Rightarrow> int" where
  "time_truncate t d = (if d \<le> 0 then t else t - (t - zero_time) mod d)"

definition pad :: "nat \<Rightarrow> int \<Rightarrow> string" where
  "pad w n = (if n < 0 then ''-'' else '''') @
     (let ds = itoa (nat \<bar>n\<bar>) in replicate (w - length ds) (CHR ''0'') @ ds)"

fun strip_zeros :: "string \<Rightarrow> string" where
  "strip_zeros s = (if s \<noteq> [] \<and> last s = CHR ''0'' then strip_zeros (butlast s) else s)"

declare strip_zeros.simps [simp del]

text \<open>\<^verbatim>\<open>t.UTC().Format("2006-01-02 15:04:05.999999999")\<close>.\<close>

definition format_datetime :: "int \<Rightarrow> string" where
  "format_datetime t =
     (let secs = t div 1000000000; ns = t mod 1000000000; sod = secs mod 86400;
          fr = strip_zeros (pad 9 ns) in
      case civil_from_days (secs div 86400) of (y, m, d) \<Rightarrow>
        pad 4 y @ ''-'' @ pad 2 m @ ''-'' @ pad 2 d @ '' '' @
        pad 2 (sod div 3600) @ '':'' @ pad 2 (sod div 60 mod 60) @ '':'' @ pad 2 (sod mod 60) @
        (if fr = [] then '''' else ''.'' @ fr))"

end
