(* ===== verification/Query.thy ===== *)
theory Query
  imports Policy Gotime
begin

text \<open>
  The structured query builder (\<^verbatim>\<open>internal/query\<close>): the query AST (\<^verbatim>\<open>ast.go\<close>), its errors
  (\<^verbatim>\<open>errors.go\<close>) and its translation to parameterized SQL (\<^verbatim>\<open>builder.go\<close>). The builder uses of a
  table's discovered schema only the column names, in order. Bound parameters are decoded JSON
  values. The clock is an argument (\<open>now\<close>), and so are the Unicode tables of \<^verbatim>\<open>strings.ToLower\<close> (\<open>uni\<close>).
\<close>

section \<open>The query\<close>

record Aggregation =
  agg_Fn :: string
  agg_Column :: string
  agg_Alias :: string

record query_filter =
  qf_Column :: string
  qf_Op :: string
  qf_Value :: jvalue

record OrderClause =
  ord_Column :: string
  ord_Dir :: string

record TimeRange =
  tr_Column :: string
  tr_Since :: string
  tr_Until :: string

record StructuredQuery =
  Columns :: "string list"
  SelectAll :: bool
  Aggregations :: "Aggregation list"
  Filters :: "query_filter list"
  GroupBy :: "string list"
  OrderBy :: "OrderClause list"
  Limit :: int
  TimeRange :: "TimeRange option"

record BuildResult =
  SQL :: string
  Params :: "jvalue list"

text \<open>Every error of \<open>Build\<close>; \<open>NilSelect\<close> is the panic of reading a field of an unresolved grant.\<close>

datatype query_error =
    UnsupportedTable string
  | ErrColumnsAndSelectAll
  | SelectAllWithAggregations
  | UnknownColumn string
  | UnsupportedColumn string
  | ForbiddenColumnError string
  | UnsupportedAggregation string
  | ForbiddenAggregationError string
  | UnsupportedAlias string
  | UnsupportedOrderColumn string
  | ErrNoReadableColumns
  | ErrEmptyProjection
  | InvalidIn string
  | UnsupportedOperator string string
  | EmptyFilterClause string
  | InvalidTimeValue string
  | NilSelect

section \<open>Columns and functions\<close>

definition validateColumn :: "string \<Rightarrow> string list \<Rightarrow> query_error option" where
  "validateColumn col validCols =
     (if col \<notin> set validCols then Some (UnknownColumn col)
      else if BindUnsafe col then Some (UnsupportedColumn col)
      else None)"

definition agg_functions :: "string list" where
  "agg_functions =
     [''count'', ''sum'', ''avg'', ''min'', ''max'', ''countdistinct'', ''uniq'', ''uniqexact'', ''any'',
      ''anylast'', ''argmin'', ''argmax'', ''grouparray'', ''median'', ''quantile'', ''stddevpop'',
      ''stddevsamp'', ''varpop'', ''varsamp'']"

definition isValidAggFn :: "string \<Rightarrow> bool" where
  "isValidAggFn fn = (if \<not> list_all is_ascii fn then False else map lower_byte fn \<in> set agg_functions)"

definition authorize :: "ResolvedPermissions option \<Rightarrow> string \<Rightarrow> query_error option" where
  "authorize perms col = (if \<not> IsColumnAllowed perms col False then Some (ForbiddenColumnError col) else None)"

definition check_column :: "string list \<Rightarrow> ResolvedPermissions option \<Rightarrow> string \<Rightarrow> query_error option" where
  "check_column cols perms col =
     (case validateColumn col cols of Some e \<Rightarrow> Some e | None \<Rightarrow> authorize perms col)"

definition check_aggregation ::
  "(string \<Rightarrow> string) \<Rightarrow> string list \<Rightarrow> ResolvedPermissions option \<Rightarrow> Aggregation \<Rightarrow> query_error option" where
  "check_aggregation uni cols perms a =
     (case (if agg_Column a \<noteq> ''*'' then check_column cols perms (agg_Column a) else None) of
        Some e \<Rightarrow> Some e
      | None \<Rightarrow>
          (if \<not> isValidAggFn (agg_Fn a) then Some (UnsupportedAggregation (agg_Fn a))
           else if \<not> IsAggregationAllowed uni perms (agg_Fn a) then Some (ForbiddenAggregationError (agg_Fn a))
           else if BindUnsafe (agg_Alias a) then Some (UnsupportedAlias (agg_Alias a))
           else None))"

definition check_order :: "string list \<Rightarrow> ResolvedPermissions option \<Rightarrow> OrderClause \<Rightarrow> query_error option" where
  "check_order cols perms ord =
     (case validateColumn (ord_Column ord) cols of
        Some _ \<Rightarrow> (if BindUnsafe (ord_Column ord) then Some (UnsupportedOrderColumn (ord_Column ord)) else None)
      | None \<Rightarrow> authorize perms (ord_Column ord))"

definition check_time_range :: "string list \<Rightarrow> ResolvedPermissions option \<Rightarrow> TimeRange option \<Rightarrow> query_error option" where
  "check_time_range cols perms tr =
     (case tr of
        None \<Rightarrow> None
      | Some tr \<Rightarrow> (if tr_Column tr \<noteq> '''' then check_column cols perms (tr_Column tr) else None))"

text \<open>Checks run in sequence, stopping at the first error.\<close>

fun sequence :: "'e option list \<Rightarrow> 'e option" where
  "sequence [] = None"
| "sequence (Some e # _) = Some e"
| "sequence (None # es) = sequence es"

definition validateAndAuthorizeColumns ::
  "(string \<Rightarrow> string) \<Rightarrow> StructuredQuery \<Rightarrow> string list \<Rightarrow> ResolvedPermissions option \<Rightarrow> query_error option" where
  "validateAndAuthorizeColumns uni q cols perms =
     sequence
       [first_error (check_column cols perms) (Columns q),
        first_error (check_aggregation uni cols perms) (Aggregations q),
        first_error (\<lambda>f. check_column cols perms (qf_Column f)) (Filters q),
        first_error (check_column cols perms) (GroupBy q),
        first_error (check_order cols perms) (OrderBy q),
        check_time_range cols perms (TimeRange q)]"

definition resolveProjection ::
  "StructuredQuery \<Rightarrow> string list \<Rightarrow> ResolvedPermissions option \<Rightarrow> query_error + (string list \<times> bool)" where
  "resolveProjection q schema perms =
     (if SelectAll q then
        (if \<not> RestrictsColumns perms then Inr ([], True)
         else (let allowed = AllowedProjection perms schema in
               if allowed = [] then Inl ErrNoReadableColumns else Inr (allowed, False)))
      else if Columns q \<noteq> [] then Inr (Columns q, False)
      else if Aggregations q \<noteq> [] then Inr ([], False)
      else Inl ErrEmptyProjection)"

definition aggregationExpr :: "Aggregation \<Rightarrow> string" where
  "aggregationExpr a =
     (let arg = (if agg_Column a \<noteq> ''*'' then QuoteIdent (agg_Column a) else agg_Column a);
          expr = agg_Fn a @ ''('' @ arg @ '')'' in
      if agg_Alias a \<noteq> '''' then expr @ '' AS '' @ QuoteIdent (agg_Alias a) else expr)"

section \<open>Times\<close>

text \<open>A match of \<^verbatim>\<open>(\d+(?:\.\d+)?)([dw])\<close> at the front: the number, whether the unit is a week, the
  rest.\<close>

definition match_day_week :: "string \<Rightarrow> (string \<times> bool \<times> string) option" where
  "match_day_week s =
     (let i = takeWhile is_digit s; r = dropWhile is_digit s;
          f = (if prefix ''.'' r then takeWhile is_digit (drop 1 r) else []);
          num = (if f \<noteq> [] then i @ ''.'' @ f else i);
          r = (if f \<noteq> [] then dropWhile is_digit (drop 1 r) else r) in
      if i = [] then None
      else case r of
        [] \<Rightarrow> None
      | u # rest \<Rightarrow> (if u = CHR ''d'' \<or> u = CHR ''w'' then Some (num, u = CHR ''w'', rest) else None))"

lemma match_day_week_shorter: "match_day_week s = Some (n, w, r) \<Longrightarrow> length r < length s"
proof -
  assume m: "match_day_week s = Some (n, w, r)"
  let ?r = "dropWhile is_digit s"
  have "length r < length ?r \<or> length r < length (drop 1 ?r)"
    using m length_dropWhile_le [of is_digit "drop 1 ?r"]
    by (auto simp: match_day_week_def Let_def split: list.splits if_splits)
  then show ?thesis using length_dropWhile_le [of is_digit s] by auto
qed

definition expand_unit :: "string \<Rightarrow> bool \<Rightarrow> string" where
  "expand_unit num week =
     (case round_float float64 (dec_val num) of
        None \<Rightarrow> num @ (if week then ''w'' else ''d'')
      | Some n \<Rightarrow>
          (case round_float float64 (n * (if week then 168 else 24)) of
             Some h \<Rightarrow> format_mag h @ ''h''
           | None \<Rightarrow> ''+Infh''))"

function expandDayWeek :: "string \<Rightarrow> string" where
  "expandDayWeek [] = []"
| "expandDayWeek (c # cs) =
     (case match_day_week (c # cs) of
        Some (num, week, rest) \<Rightarrow> expand_unit num week @ expandDayWeek rest
      | None \<Rightarrow> c # expandDayWeek cs)"
  by pat_completeness auto
termination
  by (relation "measure length") (auto dest: match_day_week_shorter)

definition bucketTime :: "int \<Rightarrow> int \<Rightarrow> int" where
  "bucketTime t bucketSeconds =
     (if bucketSeconds \<le> 0 then t else time_truncate t (wrap64 (bucketSeconds * 1000000000)))"

definition formatClickHouseTime :: "int \<Rightarrow> string" where
  "formatClickHouseTime t = format_datetime t"

definition resolveTimeValue :: "int \<Rightarrow> string \<Rightarrow> int \<Rightarrow> query_error + string" where
  "resolveTimeValue now val bucketSeconds =
     (case ParseDuration (expandDayWeek val) of
        Some d \<Rightarrow> Inr (formatClickHouseTime (bucketTime (now + wrap64 (- d)) bucketSeconds))
      | None \<Rightarrow>
          (case parse_rfc3339 val of
             Some t \<Rightarrow> Inr (formatClickHouseTime (bucketTime t bucketSeconds))
           | None \<Rightarrow> Inl (InvalidTimeValue val)))"

definition coerceFilterValue :: "jvalue \<Rightarrow> jvalue" where
  "coerceFilterValue v =
     (case v of
        VString s \<Rightarrow>
          (case parse_rfc3339 s of Some t \<Rightarrow> VString (formatClickHouseTime t) | None \<Rightarrow> v)
      | _ \<Rightarrow> v)"

section \<open>Building\<close>

definition filterToSQL :: "(string \<Rightarrow> string) \<Rightarrow> query_filter \<Rightarrow> query_error + (string \<times> jvalue list)" where
  "filterToSQL uni f =
     (let col = QuoteIdent (qf_Column f); val = coerceFilterValue (qf_Value f); op = to_lower uni (qf_Op f) in
      if op = ''eq'' then Inr (col @ '' = ?'', [val])
      else if op = ''neq'' then Inr (col @ '' != ?'', [val])
      else if op = ''gt'' then Inr (col @ '' > ?'', [val])
      else if op = ''gte'' then Inr (col @ '' >= ?'', [val])
      else if op = ''lt'' then Inr (col @ '' < ?'', [val])
      else if op = ''lte'' then Inr (col @ '' <= ?'', [val])
      else if op = ''like'' then Inr (col @ '' LIKE ?'', [val])
      else if op = ''in'' then
        (case qf_Value f of
           VArray vals \<Rightarrow>
             (if vals \<noteq> [] then
                Inr (col @ '' IN ('' @ butlast (repeat_str ''?,'' (length vals)) @ '')'', vals)
              else Inl (InvalidIn (qf_Column f)))
         | _ \<Rightarrow> Inl (InvalidIn (qf_Column f)))
      else Inl (UnsupportedOperator (qf_Column f) (qf_Op f)))"

fun filters_where :: "(string \<Rightarrow> string) \<Rightarrow> query_filter list \<Rightarrow> query_error + (string list \<times> jvalue list)" where
  "filters_where uni [] = Inr ([], [])"
| "filters_where uni (f # fs) =
     (case filterToSQL uni f of
        Inl e \<Rightarrow> Inl e
      | Inr (clause, p) \<Rightarrow>
          (if clause = [] then Inl (EmptyFilterClause (qf_Column f))
           else case filters_where uni fs of
             Inl e \<Rightarrow> Inl e
           | Inr (parts, params) \<Rightarrow> Inr (clause # parts, p @ params)))"

definition time_where :: "int \<Rightarrow> TimeRange option \<Rightarrow> int \<Rightarrow> query_error + (string list \<times> jvalue list)" where
  "time_where now tr bucketSeconds =
     (case tr of
        None \<Rightarrow> Inr ([], [])
      | Some tr \<Rightarrow>
          (if tr_Column tr \<noteq> '''' \<and> tr_Since tr \<noteq> '''' then
             (let col = QuoteIdent (tr_Column tr) in
              case resolveTimeValue now (tr_Since tr) bucketSeconds of
                Inl e \<Rightarrow> Inl e
              | Inr since \<Rightarrow>
                  (if tr_Until tr \<noteq> '''' then
                     (case resolveTimeValue now (tr_Until tr) bucketSeconds of
                        Inl e \<Rightarrow> Inl e
                      | Inr till \<Rightarrow> Inr ([col @ '' >= ?'', col @ '' <= ?''], [VString since, VString till]))
                   else Inr ([col @ '' >= ?''], [VString since])))
           else Inr ([], [])))"

definition buildWhere ::
  "(string \<Rightarrow> string) \<Rightarrow> int \<Rightarrow> query_filter list \<Rightarrow> TimeRange option \<Rightarrow> int \<Rightarrow> query_error + (string list \<times> jvalue list)" where
  "buildWhere uni now filters timeRange bucketSeconds =
     (case filters_where uni filters of
        Inl e \<Rightarrow> Inl e
      | Inr (parts, params) \<Rightarrow>
          (case time_where now timeRange bucketSeconds of
             Inl e \<Rightarrow> Inl e
           | Inr (parts', params') \<Rightarrow> Inr (parts @ parts', params @ params')))"

definition DefaultMaxRows :: int where
  "DefaultMaxRows = 10000"

definition order_sql :: "(string \<Rightarrow> string) \<Rightarrow> OrderClause \<Rightarrow> string" where
  "order_sql uni ord = QuoteIdent (ord_Column ord) @ '' '' @ (if to_lower uni (ord_Dir ord) = ''desc'' then ''DESC'' else ''ASC'')"

definition limit_rows :: "StructuredQuery \<Rightarrow> ResolvedSelect option \<Rightarrow> int \<Rightarrow> int" where
  "limit_rows q sel defaultMaxRows =
     (let maxRows = (if defaultMaxRows \<le> 0 then DefaultMaxRows else defaultMaxRows);
          maxRows = (case sel of
              Some s \<Rightarrow> (if rs_MaxRows s > 0 \<and> rs_MaxRows s < maxRows then rs_MaxRows s else maxRows)
            | None \<Rightarrow> maxRows) in
      if Limit q > 0 \<and> Limit q \<le> maxRows then Limit q else maxRows)"

text \<open>The text and the parameters once the checks have passed; \<open>sel\<close> is the read side of the grant.\<close>

definition assemble ::
  "(string \<Rightarrow> string) \<Rightarrow> string \<Rightarrow> StructuredQuery \<Rightarrow> string list \<Rightarrow> string list \<Rightarrow> jvalue list \<Rightarrow>
   ResolvedSelect option \<Rightarrow> int \<Rightarrow> BuildResult" where
  "assemble uni table q selectParts whereParts whereParams sel defaultMaxRows =
     (let (rlsParts, rlsParams) =
            (case sel of
               Some s \<Rightarrow> (if WhereClause s \<noteq> '''' then ([''('' @ WhereClause s @ '')''], map VString (WhereParams s))
                          else ([], []))
             | None \<Rightarrow> ([], []));
          whereParts = rlsParts @ whereParts in
      \<lparr>SQL = ''SELECT '' @ join '', '' selectParts @ '' FROM '' @ QuoteIdent table @
             (if whereParts \<noteq> [] then '' WHERE '' @ join '' AND '' whereParts else '''') @
             (if GroupBy q \<noteq> [] then '' GROUP BY '' @ join '', '' (map QuoteIdent (GroupBy q)) else '''') @
             (if OrderBy q \<noteq> [] then '' ORDER BY '' @ join '', '' (map (order_sql uni) (OrderBy q)) else '''') @
             '' LIMIT '' @ itoa_int (limit_rows q sel defaultMaxRows),
       Params = rlsParams @ whereParams\<rparr>)"

definition select_parts :: "StructuredQuery \<Rightarrow> string list \<times> bool \<Rightarrow> string list" where
  "select_parts q pw =
     (case pw of (projection, wildcard) \<Rightarrow>
        (if wildcard then [''*''] else []) @ map QuoteIdent projection @ map aggregationExpr (Aggregations q))"

definition Build ::
  "(string \<Rightarrow> string) \<Rightarrow> int \<Rightarrow> string \<Rightarrow> StructuredQuery \<Rightarrow> string list \<Rightarrow> ResolvedPermissions option \<Rightarrow> int \<Rightarrow> int \<Rightarrow>
   query_error + BuildResult" where
  "Build uni now table q schema perms bucketSeconds defaultMaxRows =
     (if BindUnsafe table then Inl (UnsupportedTable table)
      else if SelectAll q \<and> Columns q \<noteq> [] then Inl ErrColumnsAndSelectAll
      else if SelectAll q \<and> Aggregations q \<noteq> [] then Inl SelectAllWithAggregations
      else case validateAndAuthorizeColumns uni q schema perms of
        Some e \<Rightarrow> Inl e
      | None \<Rightarrow>
          (case resolveProjection q schema perms of
             Inl e \<Rightarrow> Inl e
           | Inr pw \<Rightarrow>
               (let selectParts = select_parts q pw in
                if selectParts = [] then Inl ErrEmptyProjection
                else case buildWhere uni now (Filters q) (TimeRange q) bucketSeconds of
                  Inl e \<Rightarrow> Inl e
                | Inr (whereParts, whereParams) \<Rightarrow>
                    (case perms of
                       None \<Rightarrow> Inr (assemble uni table q selectParts whereParts whereParams None defaultMaxRows)
                     | Some rp \<Rightarrow>
                         (case Select rp of
                            None \<Rightarrow> Inl NilSelect
                          | Some s \<Rightarrow>
                              Inr (assemble uni table q selectParts whereParts whereParams (Some s) defaultMaxRows))))))"

section \<open>What the checks establish\<close>

lemma sequence_None: "sequence es = None \<longleftrightarrow> (\<forall>e \<in> set es. e = None)"
  by (induction es rule: sequence.induct) auto

definition readable :: "string list \<Rightarrow> ResolvedPermissions option \<Rightarrow> string \<Rightarrow> bool" where
  "readable schema perms col \<longleftrightarrow> col \<in> set schema \<and> IsColumnAllowed perms col False \<and> qmarks col = 0"

lemma check_column_None: "check_column schema perms col = None \<longleftrightarrow> readable schema perms col"
  by (auto simp: check_column_def validateColumn_def authorize_def readable_def BindUnsafe_qmarks [symmetric])

lemma check_aggregation_None:
  "check_aggregation uni schema perms a = None \<Longrightarrow>
   (agg_Column a \<noteq> ''*'' \<longrightarrow> readable schema perms (agg_Column a)) \<and> isValidAggFn (agg_Fn a) \<and>
   IsAggregationAllowed uni perms (agg_Fn a) \<and> qmarks (agg_Alias a) = 0"
  by (auto simp: check_aggregation_def BindUnsafe_qmarks [symmetric] check_column_None
      split: option.splits if_splits)

lemma check_order_None:
  "check_order schema perms ord = None \<Longrightarrow>
   qmarks (ord_Column ord) = 0 \<and> (ord_Column ord \<in> set schema \<longrightarrow> IsColumnAllowed perms (ord_Column ord) False)"
  by (auto simp: check_order_def validateColumn_def authorize_def BindUnsafe_qmarks [symmetric]
      split: option.splits if_splits)

text \<open>What a query that passed the checks may refer to.\<close>

definition authorized_query ::
  "(string \<Rightarrow> string) \<Rightarrow> StructuredQuery \<Rightarrow> string list \<Rightarrow> ResolvedPermissions option \<Rightarrow> bool" where
  "authorized_query uni q schema perms \<longleftrightarrow>
     (\<forall>c \<in> set (Columns q). readable schema perms c) \<and>
     (\<forall>a \<in> set (Aggregations q). (agg_Column a \<noteq> ''*'' \<longrightarrow> readable schema perms (agg_Column a)) \<and>
        isValidAggFn (agg_Fn a) \<and> IsAggregationAllowed uni perms (agg_Fn a) \<and> qmarks (agg_Alias a) = 0) \<and>
     (\<forall>f \<in> set (Filters q). readable schema perms (qf_Column f)) \<and>
     (\<forall>c \<in> set (GroupBy q). readable schema perms c) \<and>
     (\<forall>ord \<in> set (OrderBy q). qmarks (ord_Column ord) = 0 \<and>
        (ord_Column ord \<in> set schema \<longrightarrow> IsColumnAllowed perms (ord_Column ord) False)) \<and>
     (case TimeRange q of None \<Rightarrow> True
      | Some tr \<Rightarrow> tr_Column tr \<noteq> '''' \<longrightarrow> readable schema perms (tr_Column tr))"

lemma validate_authorized:
  assumes "validateAndAuthorizeColumns uni q schema perms = None"
  shows "authorized_query uni q schema perms"
proof -
  have "\<forall>c \<in> set (Columns q). check_column schema perms c = None"
    "\<forall>a \<in> set (Aggregations q). check_aggregation uni schema perms a = None"
    "\<forall>f \<in> set (Filters q). check_column schema perms (qf_Column f) = None"
    "\<forall>c \<in> set (GroupBy q). check_column schema perms c = None"
    "\<forall>ord \<in> set (OrderBy q). check_order schema perms ord = None"
    "check_time_range schema perms (TimeRange q) = None"
    using assms by (simp_all add: validateAndAuthorizeColumns_def sequence_None first_error_None)
  then show ?thesis
    unfolding authorized_query_def check_column_None check_time_range_def
    using check_aggregation_None [of uni schema perms] check_order_None [of schema perms]
    by (simp split: option.splits if_splits add: check_column_None)
qed

lemma resolveProjection_allowed:
  assumes "resolveProjection q schema perms = Inr (proj, wild)" "\<forall>c \<in> set (Columns q). readable schema perms c"
  shows "(wild \<longrightarrow> proj = [] \<and> (\<forall>c. IsColumnAllowed perms c False)) \<and>
    (\<forall>c \<in> set proj. c \<in> set schema \<and> IsColumnAllowed perms c False)"
  using assms
  by (auto simp: resolveProjection_def Let_def readable_def select_gate.restricts_iff select_gate.project_allowed
      split: if_splits)

lemma Build_cases:
  assumes "Build uni now table q schema perms bucket dmax = Inr res"
  obtains proj wild parts ps sel where
    "\<not> BindUnsafe table" "authorized_query uni q schema perms"
    "resolveProjection q schema perms = Inr (proj, wild)"
    "buildWhere uni now (Filters q) (TimeRange q) bucket = Inr (parts, ps)"
    "sel = Option.bind perms Select" "perms \<noteq> None \<longrightarrow> sel \<noteq> None"
    "res = assemble uni table q (select_parts q (proj, wild)) parts ps sel dmax"
proof -
  from assms have u: "\<not> BindUnsafe table" and v: "validateAndAuthorizeColumns uni q schema perms = None"
    by (auto simp: Build_def split: if_splits option.splits)
  from assms u v obtain proj wild where r: "resolveProjection q schema perms = Inr (proj, wild)"
    by (auto simp: Build_def split: if_splits sum.splits)
  from assms u v r obtain parts ps where w: "buildWhere uni now (Filters q) (TimeRange q) bucket = Inr (parts, ps)"
    by (auto simp: Build_def Let_def split: if_splits sum.splits)
  have "perms \<noteq> None \<longrightarrow> Option.bind perms Select \<noteq> None"
    and "res = assemble uni table q (select_parts q (proj, wild)) parts ps (Option.bind perms Select) dmax"
    using assms u v r w by (auto simp: Build_def Let_def split: if_splits option.splits)
  then show ?thesis using that u validate_authorized [OF v] r w by blast
qed

section \<open>Properties\<close>

text \<open>What each clause of a read may be, given the schema and the grant: the only names in it are quoted columns the role
  may read. The exceptions are an aggregation over \<^verbatim>\<open>*\<close>, which names no column, the aliases the query gives its
  aggregations, and an ordering by a name that is no column of the schema, which can only be an alias.\<close>

definition may_read :: "string list \<Rightarrow> ResolvedPermissions option \<Rightarrow> string \<Rightarrow> bool" where
  "may_read schema perms col \<longleftrightarrow> col \<in> set schema \<and> IsColumnAllowed perms col False"

definition select_item :: "(string \<Rightarrow> string) \<Rightarrow> string list \<Rightarrow> ResolvedPermissions option \<Rightarrow> string \<Rightarrow> bool" where
  "select_item uni schema perms x \<longleftrightarrow>
     x = ''*'' \<and> (\<forall>c. IsColumnAllowed perms c False) \<or>
     (\<exists>c. may_read schema perms c \<and> x = QuoteIdent c) \<or>
     (\<exists>fn arg alias. isValidAggFn fn \<and> IsAggregationAllowed uni perms fn \<and>
        (arg = ''*'' \<or> (\<exists>c. may_read schema perms c \<and> arg = QuoteIdent c)) \<and>
        (alias = '''' \<or> (\<exists>a. alias = '' AS '' @ QuoteIdent a)) \<and> x = fn @ ''('' @ arg @ '')'' @ alias)"

definition comparison :: "string \<Rightarrow> bool" where
  "comparison rhs \<longleftrightarrow>
     rhs \<in> {'' = ?'', '' != ?'', '' > ?'', '' >= ?'', '' < ?'', '' <= ?'', '' LIKE ?''} \<or>
     (\<exists>n. rhs = '' IN ('' @ join '','' (replicate (Suc n) ''?'') @ '')'')"

definition where_item :: "string list \<Rightarrow> ResolvedPermissions option \<Rightarrow> string \<Rightarrow> bool" where
  "where_item schema perms x \<longleftrightarrow> (\<exists>c rhs. may_read schema perms c \<and> comparison rhs \<and> x = QuoteIdent c @ rhs)"

lemma where_itemI: "may_read schema perms c \<Longrightarrow> comparison rhs \<Longrightarrow> where_item schema perms (QuoteIdent c @ rhs)"
  by (auto simp: where_item_def)

lemma comparison_simps: "comparison '' = ?''" "comparison '' != ?''" "comparison '' > ?''" "comparison '' >= ?''"
  "comparison '' < ?''" "comparison '' <= ?''" "comparison '' LIKE ?''"
  by (simp_all add: comparison_def)

definition order_item :: "string list \<Rightarrow> ResolvedPermissions option \<Rightarrow> string \<Rightarrow> bool" where
  "order_item schema perms x \<longleftrightarrow>
     (\<exists>c dir. dir \<in> {'' ASC'', '' DESC''} \<and> x = QuoteIdent c @ dir \<and> (may_read schema perms c \<or> c \<notin> set schema))"

lemma butlast_marks: "butlast (repeat_str ''?,'' (Suc n)) = join '','' (replicate (Suc n) ''?'')"
proof (induction n)
  case (Suc n)
  have "repeat_str ''?,'' (Suc (Suc n)) = ''?,'' @ repeat_str ''?,'' (Suc n)" by (simp add: repeat_str_def)
  moreover have "repeat_str ''?,'' (Suc n) \<noteq> []" by (simp add: repeat_str_def)
  ultimately show ?case using Suc by (simp add: butlast_append)
qed (simp add: repeat_str_def)

lemma comparison_in: "vals \<noteq> [] \<Longrightarrow>
    comparison (CHR '' '' # CHR ''I'' # CHR ''N'' # CHR '' '' # CHR ''('' # butlast (repeat_str ''?,'' (length (vals :: jvalue list))) @ '')'')"
  using butlast_marks [of "length vals - 1"] unfolding comparison_def
  by (intro disjI2 exI [of _ "length vals - 1"]) (simp del: replicate_Suc)

lemma filterToSQL_item:
  assumes "filterToSQL uni f = Inr (c, p)" "may_read schema perms (qf_Column f)"
  shows "where_item schema perms c"
  using assms
  by (auto simp: filterToSQL_def Let_def comparison_simps comparison_in intro!: where_itemI split: if_splits jvalue.splits)

lemma buildWhere_items:
  assumes "buildWhere uni now (Filters q) (TimeRange q) b = Inr (parts, ps)" "authorized_query uni q schema perms"
  shows "\<forall>x \<in> set parts. where_item schema perms x"
proof -
  have f: "filters_where uni fs = Inr (p, s) \<Longrightarrow> \<forall>f \<in> set fs. readable schema perms (qf_Column f) \<Longrightarrow> \<forall>x \<in> set p. where_item schema perms x" for fs p s
    by (induction fs arbitrary: p s) (auto simp: filterToSQL_item readable_def may_read_def split: sum.splits if_splits)
  have t: "\<forall>x \<in> set p. where_item schema perms x" if "time_where now (TimeRange q) b = Inr (p, s)" for p s
  proof -
    have "may_read schema perms (tr_Column tr)" if "TimeRange q = Some tr" "tr_Column tr \<noteq> ''''" for tr
      using that assms(2) by (simp add: authorized_query_def readable_def may_read_def)
    then show ?thesis using that
      by (auto simp: time_where_def Let_def comparison_simps intro!: where_itemI split: option.splits if_splits sum.splits)
  qed
  from assms obtain p1 s1 p2 s2 where "filters_where uni (Filters q) = Inr (p1, s1)" "time_where now (TimeRange q) b = Inr (p2, s2)" "parts = p1 @ p2"
    by (auto simp: buildWhere_def split: sum.splits)
  then show ?thesis using f t assms(2) by (auto simp: authorized_query_def)
qed

lemma select_parts_items:
  assumes "authorized_query uni q schema perms" "resolveProjection q schema perms = Inr (proj, wild)"
  shows "\<forall>x \<in> set (select_parts q (proj, wild)). select_item uni schema perms x"
proof -
  have r: "(wild \<longrightarrow> proj = [] \<and> (\<forall>c. IsColumnAllowed perms c False)) \<and> (\<forall>c \<in> set proj. may_read schema perms c)"
    using resolveProjection_allowed [OF assms(2)] assms(1) by (simp add: authorized_query_def may_read_def)
  have "select_item uni schema perms (aggregationExpr a)" if "a \<in> set (Aggregations q)" for a
  proof -
    have "agg_Column a = ''*'' \<or> may_read schema perms (agg_Column a)" "isValidAggFn (agg_Fn a)" "IsAggregationAllowed uni perms (agg_Fn a)"
      using that assms(1) by (auto simp: authorized_query_def readable_def may_read_def)
    then show ?thesis unfolding select_item_def
      by (intro disjI2 exI [of _ "agg_Fn a"] exI [of _ "if agg_Column a \<noteq> ''*'' then QuoteIdent (agg_Column a) else agg_Column a"]
          exI [of _ "if agg_Alias a \<noteq> '''' then '' AS '' @ QuoteIdent (agg_Alias a) else ''''"]) (auto simp: aggregationExpr_def Let_def)
  qed
  then show ?thesis using r by (auto simp: select_parts_def select_item_def)
qed

definition policy_conds :: "ResolvedPermissions option \<Rightarrow> string list" where
  "policy_conds perms =
     (case Option.bind perms Select of
        Some s \<Rightarrow> (if WhereClause s \<noteq> '''' then [''('' @ WhereClause s @ '')''] else [])
      | None \<Rightarrow> [])"

lemma order_sql_item:
  assumes "authorized_query uni q schema perms" "ord \<in> set (OrderBy q)"
  shows "order_item schema perms (order_sql uni ord)"
  unfolding order_item_def
  using assms
  by (intro exI [of _ "ord_Column ord"] exI [of _ "if to_lower uni (ord_Dir ord) = ''desc'' then '' DESC'' else '' ASC''"])
    (auto simp: authorized_query_def order_sql_def may_read_def)

text \<open>C9. The text of a query that builds, in full: every item of SELECT is a quoted column of the schema the role may read, a known and
  allowed aggregation of one or of all rows, or, for a role that may read every column, \<^verbatim>\<open>*\<close>; WHERE is the role's
  row filter and comparisons of readable columns with placeholders; GROUP BY names readable columns; ORDER BY names
  readable columns or names that no column has (aliases).\<close>

theorem Build_authorized:
  assumes "Build uni now table q schema perms bucket dmax = Inr res"
  shows "\<exists>items conds groups orders n.
    SQL res = ''SELECT '' @ join '', '' items @ '' FROM '' @ QuoteIdent table @
      (if policy_conds perms @ conds = [] then '''' else '' WHERE '' @ join '' AND '' (policy_conds perms @ conds)) @
      (if groups = [] then '''' else '' GROUP BY '' @ join '', '' (map QuoteIdent groups)) @
      (if orders = [] then '''' else '' ORDER BY '' @ join '', '' orders) @ '' LIMIT '' @ itoa_int n \<and>
    (\<forall>x \<in> set items. select_item uni schema perms x) \<and> (\<forall>x \<in> set conds. where_item schema perms x) \<and>
    (\<forall>c \<in> set groups. may_read schema perms c) \<and> (\<forall>x \<in> set orders. order_item schema perms x)"
proof (rule Build_cases [OF assms])
  fix proj wild parts ps sel
  assume a: "authorized_query uni q schema perms"
    and r: "resolveProjection q schema perms = Inr (proj, wild)"
    and w: "buildWhere uni now (Filters q) (TimeRange q) bucket = Inr (parts, ps)"
    and sel: "sel = Option.bind perms Select"
    and res: "res = assemble uni table q (select_parts q (proj, wild)) parts ps sel dmax"
  have "\<forall>x \<in> set (map (order_sql uni) (OrderBy q)). order_item schema perms x" using order_sql_item [OF a] by simp
  moreover have "\<forall>c \<in> set (GroupBy q). may_read schema perms c" using a by (simp add: authorized_query_def readable_def may_read_def)
  moreover have "SQL res = ''SELECT '' @ join '', '' (select_parts q (proj, wild)) @ '' FROM '' @ QuoteIdent table @
      (if policy_conds perms @ parts = [] then '''' else '' WHERE '' @ join '' AND '' (policy_conds perms @ parts)) @
      (if GroupBy q = [] then '''' else '' GROUP BY '' @ join '', '' (map QuoteIdent (GroupBy q))) @
      (if map (order_sql uni) (OrderBy q) = [] then '''' else '' ORDER BY '' @ join '', '' (map (order_sql uni) (OrderBy q))) @
      '' LIMIT '' @ itoa_int (limit_rows q sel dmax)"
    by (simp add: res sel policy_conds_def assemble_def Let_def split: option.split)
  ultimately show ?thesis using select_parts_items [OF a r] buildWhere_items [OF w a]
    by (intro exI conjI)
qed

definition example_query :: StructuredQuery where
  "example_query = \<lparr>Columns = [''a''], SelectAll = False, Aggregations = [], Filters =
     [\<lparr>qf_Column = ''a'', qf_Op = ''EQ'', qf_Value = VString ''x''\<rparr>], GroupBy = [], OrderBy = [], Limit = 5,
     TimeRange = None\<rparr>"

definition example_build :: "query_error + BuildResult" where
  "example_build = Build id 0 ''t'' example_query [''a'', ''b'']
     (Some (Evaluate (Some example_policy) ''viewer'' ''t'' ''select'' example_claims)) 0 0"

lemma example_build_ok: "(case example_build of Inr res \<Rightarrow> length (Params res) = 4 | Inl _ \<Rightarrow> False)"
  by code_simp

theorem Build_authorized_witness:
  "(case example_build of
      Inr res \<Rightarrow> \<exists>items tail. SQL res = ''SELECT '' @ join '', '' items @ '' FROM '' @ QuoteIdent ''t'' @ tail \<and>
        list_all (select_item id [''a'', ''b''] (Some (Evaluate (Some example_policy) ''viewer'' ''t'' ''select'' example_claims))) items
    | Inl _ \<Rightarrow> False)"
proof -
  obtain res where r: "example_build = Inr res" using example_build_ok by (auto split: sum.splits)
  from Build_authorized [OF r [unfolded example_build_def]] show ?thesis unfolding r sum.case list_all_iff by blast
qed

section \<open>Placeholders and parameters\<close>

lemma butlast_repeat: "0 < n \<Longrightarrow> qmarks (butlast (repeat_str ''?,'' n)) = n"
proof -
  assume "0 < n"
  then obtain m where n: "n = Suc m" by (cases n) auto
  have "repeat_str ''?,'' (Suc m) = repeat_str ''?,'' m @ ''?,''"
    unfolding repeat_str_def by (induction m) simp_all
  then have "butlast (repeat_str ''?,'' n) = repeat_str ''?,'' m @ ''?''" by (simp add: n butlast_append)
  then show ?thesis by (simp add: placeholders n)
qed

lemma filterToSQL_qmarks:
  "filterToSQL uni f = Inr (c, p) \<Longrightarrow> qmarks (qf_Column f) = 0 \<Longrightarrow> qmarks c = length p"
  by (auto simp: filterToSQL_def Let_def placeholders butlast_repeat split: if_splits jvalue.splits)

lemma filters_where_qmarks:
  "filters_where uni fs = Inr (parts, ps) \<Longrightarrow> \<forall>f \<in> set fs. qmarks (qf_Column f) = 0 \<Longrightarrow>
   sum_list (map qmarks parts) = length ps"
  by (induction fs arbitrary: parts ps) (auto simp: filterToSQL_qmarks split: sum.splits if_splits)

lemma time_where_qmarks:
  "time_where now tr b = Inr (parts, ps) \<Longrightarrow> \<forall>t. tr = Some t \<longrightarrow> tr_Column t \<noteq> '''' \<longrightarrow> qmarks (tr_Column t) = 0 \<Longrightarrow>
   sum_list (map qmarks parts) = length ps"
  by (auto simp: time_where_def Let_def placeholders split: option.splits if_splits sum.splits)

lemma buildWhere_qmarks:
  assumes "buildWhere uni now (Filters q) (TimeRange q) b = Inr (parts, ps)" "authorized_query uni q schema perms"
  shows "sum_list (map qmarks parts) = length ps"
proof -
  from assms(1) obtain p1 s1 p2 s2 where w: "filters_where uni (Filters q) = Inr (p1, s1)"
    "time_where now (TimeRange q) b = Inr (p2, s2)" "parts = p1 @ p2" "ps = s1 @ s2"
    by (auto simp: buildWhere_def split: sum.splits)
  moreover have "\<forall>f \<in> set (Filters q). qmarks (qf_Column f) = 0"
    and "\<forall>t. TimeRange q = Some t \<longrightarrow> tr_Column t \<noteq> '''' \<longrightarrow> qmarks (tr_Column t) = 0"
    using assms(2) by (auto simp: authorized_query_def readable_def split: option.splits)
  ultimately show ?thesis using filters_where_qmarks time_where_qmarks by simp
qed

lemma lower_qmark: "lower_byte c = CHR ''?'' \<longleftrightarrow> c = CHR ''?''"
proof -
  have "lower_byte c = CHR ''?'' \<longleftrightarrow> byte (lower_byte c) = (63::nat)" by (subst char_eq_byte) simp
  also have "\<dots> \<longleftrightarrow> byte c = (63::nat)" unfolding byte_lower is_upper_byte by auto
  also have "\<dots> \<longleftrightarrow> c = CHR ''?''" by (subst char_eq_byte) simp
  finally show ?thesis .
qed

lemma agg_fn_qmarks: "isValidAggFn fn \<Longrightarrow> qmarks fn = 0"
proof -
  assume "isValidAggFn fn"
  then have "map lower_byte fn \<in> set agg_functions" by (simp add: isValidAggFn_def split: if_splits)
  moreover have "\<forall>s \<in> set agg_functions. CHR ''?'' \<notin> set s" by (simp add: agg_functions_def)
  ultimately have "CHR ''?'' \<notin> lower_byte ` set fn" by auto
  moreover have "CHR ''?'' \<in> lower_byte ` set fn" if "CHR ''?'' \<in> set fn"
    using that lower_qmark [of "CHR ''?''"] by (metis image_eqI)
  ultimately show ?thesis by (auto simp: count_list_0_iff)
qed

lemma itoa_int_qmarks: "qmarks (itoa_int n) = 0"
  by (simp add: itoa_int_def placeholders)

lemma select_parts_qmarks:
  assumes "authorized_query uni q schema perms" "\<forall>c \<in> set proj. qmarks c = 0"
  shows "sum_list (map qmarks (select_parts q (proj, wild))) = 0"
  using assms
  by (auto simp: select_parts_def aggregationExpr_def Let_def authorized_query_def readable_def placeholders
      agg_fn_qmarks)

lemma clauses_qmarks:
  assumes "authorized_query uni q schema perms"
  shows "\<forall>x \<in> set (GroupBy q). qmarks (QuoteIdent x) = 0" "\<forall>ord \<in> set (OrderBy q). qmarks (order_sql uni ord) = 0"
  using assms by (auto simp: authorized_query_def readable_def placeholders order_sql_def)

text \<open>C10. Unless it is a full read of a schema with a column whose name holds a question mark, a query that builds has
  exactly one positional placeholder per parameter, and the role's row filter comes first in both: its clause, in
  parentheses, is the first conjunct of WHERE, and the parameters start with the values it binds. (A full read expands
  the columns of the schema without refusing such names; \<open>select_all_unguarded\<close> below is the counterexample.)\<close>

theorem Build_placeholders:
  assumes "Build uni now table q schema (Some rp) bucket dmax = Inr res" "Select rp = Some s"
    and "rp = Evaluate p role table ''select'' claims"
    and "SelectAll q \<longrightarrow> (\<forall>c \<in> set schema. qmarks c = 0)"
  shows "qmarks (SQL res) = length (Params res) \<and>
    (WhereClause s \<noteq> '''' \<longrightarrow>
      take (length (WhereParams s)) (Params res) = map VString (WhereParams s) \<and>
      (\<exists>sel rest tail. SQL res = ''SELECT '' @ sel @ '' FROM '' @ QuoteIdent table @
         '' WHERE '' @ join '' AND '' ((''('' @ WhereClause s @ '')'') # rest) @ tail))"
  using assms(1)
proof (rule Build_cases)
  fix proj wild parts ps sel
  assume u: "\<not> BindUnsafe table" and a: "authorized_query uni q schema (Some rp)"
    and r: "resolveProjection q schema (Some rp) = Inr (proj, wild)"
    and w: "buildWhere uni now (Filters q) (TimeRange q) bucket = Inr (parts, ps)"
    and sel: "sel = Option.bind (Some rp) Select"
    and res: "res = assemble uni table q (select_parts q (proj, wild)) parts ps sel dmax"
  have s: "sel = Some s" using sel assms(2) by simp
  have rls: "qmarks (WhereClause s) = length (WhereParams s)"
    using select_where_qmarks assms(2,3) by blast
  have proj: "\<forall>c \<in> set proj. qmarks c = 0"
    using r assms(4) a
    by (auto simp: resolveProjection_def Let_def select_gate.project_allowed authorized_query_def readable_def
        split: if_splits)
  have q: "qmarks (SQL res) = length (Params res)"
    using select_parts_qmarks [OF a proj, of wild] buildWhere_qmarks [OF w a] clauses_qmarks [OF a] rls u
    by (auto simp: res s assemble_def Let_def placeholders itoa_int_qmarks BindUnsafe_qmarks o_def)
  show ?thesis using q
    by (auto simp: res s assemble_def Let_def)
qed

theorem Build_placeholders_witness:
  "(case example_build of Inr res \<Rightarrow> qmarks (SQL res) = length (Params res) \<and> length (Params res) = 4 | Inl _ \<Rightarrow> False)"
proof -
  obtain res where r: "example_build = Inr res" and l: "length (Params res) = 4"
    using example_build_ok by (auto split: sum.splits)
  have "Select (Evaluate (Some example_policy) ''viewer'' ''t'' ''select'' example_claims) \<noteq> None" by code_simp
  then obtain s where s: "Select (Evaluate (Some example_policy) ''viewer'' ''t'' ''select'' example_claims) = Some s"
    by blast
  have "SelectAll example_query \<longrightarrow> (\<forall>c \<in> set [''a'', ''b'']. qmarks c = 0)" by (simp add: example_query_def)
  from Build_placeholders [OF r [unfolded example_build_def] s refl this] l show ?thesis unfolding r by simp
qed

text \<open>A full read by a role with column rules expands to the role's columns without the refusal of
  question marks that every other column reference gets: a column of that name leaves the text with
  more placeholders than parameters.\<close>

lemma select_all_unguarded:
  "(case Build id 0 ''t''
      \<lparr>Columns = [], SelectAll = True, Aggregations = [], Filters = [], GroupBy = [], OrderBy = [], Limit = 0,
       TimeRange = None\<rparr> [''a?'', ''b'']
      (Some \<lparr>Allowed = True, Select = Some (empty_select\<lparr>rs_DenyColumns := [''b'']\<rparr>), Insert = None\<rparr>) 0 9 of
    Inr res \<Rightarrow> qmarks (SQL res) = 1 \<and> Params res = [] | Inl _ \<Rightarrow> False)"
  by code_simp

section \<open>Limits\<close>

text \<open>C11. Every built query ends in a LIMIT between one and the smallest of the configured maximum (the
  default one when that is not positive), the role's cap and the caller's own positive limit within
  them: no read is unbounded.\<close>

theorem Build_limit:
  assumes "Build uni now table q schema perms bucket dmax = Inr res"
  shows "\<exists>body n. SQL res = body @ '' LIMIT '' @ itoa n \<and> 1 \<le> n \<and>
    int n \<le> (if dmax \<le> 0 then DefaultMaxRows else dmax) \<and>
    (\<forall>rp s. perms = Some rp \<longrightarrow> Select rp = Some s \<longrightarrow> 0 < rs_MaxRows s \<longrightarrow> int n \<le> rs_MaxRows s) \<and>
    (0 < Limit q \<longrightarrow> int n \<le> Limit q)"
proof (rule Build_cases [OF assms])
  fix proj wild parts ps sel
  assume sel: "sel = Option.bind perms Select"
    and res: "res = assemble uni table q (select_parts q (proj, wild)) parts ps sel dmax"
  let ?n = "limit_rows q sel dmax"
  have n: "1 \<le> ?n" "?n \<le> (if dmax \<le> 0 then DefaultMaxRows else dmax)" "0 < Limit q \<longrightarrow> ?n \<le> Limit q"
    "\<And>s. sel = Some s \<Longrightarrow> 0 < rs_MaxRows s \<Longrightarrow> ?n \<le> rs_MaxRows s"
    by (auto simp: limit_rows_def Let_def DefaultMaxRows_def split: option.splits)
  have "\<exists>body. SQL res = body @ '' LIMIT '' @ itoa_int ?n"
    unfolding res assemble_def Let_def by (simp split: prod.splits)
  then obtain body where "SQL res = body @ '' LIMIT '' @ itoa_int ?n" ..
  with n(1) have "SQL res = body @ '' LIMIT '' @ itoa (nat ?n)" by (simp add: itoa_int_def)
  moreover have "\<forall>rp s. perms = Some rp \<longrightarrow> Select rp = Some s \<longrightarrow> 0 < rs_MaxRows s \<longrightarrow> ?n \<le> rs_MaxRows s"
    using n(4) sel by simp
  ultimately show ?thesis using n by (intro exI [of _ body] exI [of _ "nat ?n"]) auto
qed

theorem Build_limit_witness:
  "(case example_build of Inr res \<Rightarrow> (\<exists>body n. SQL res = body @ '' LIMIT '' @ itoa n \<and> 1 \<le> n \<and> int n \<le> 5) | Inl _ \<Rightarrow> False)"
proof -
  obtain res where r: "example_build = Inr res" using example_build_ok by (auto split: sum.splits)
  have "Limit example_query = 5" by (simp add: example_query_def)
  with Build_limit [OF r [unfolded example_build_def]] show ?thesis unfolding r by auto
qed

section \<open>No unresolved grant is read\<close>

lemma unresolved_select:
  "Select rp = None \<Longrightarrow> \<not> IsColumnAllowed (Some rp) c False \<and> \<not> IsAggregationAllowed uni (Some rp) fn \<and>
   AllowedProjection (Some rp) cols = [] \<and> RestrictsColumns (Some rp)"
  by (auto simp: IsColumnAllowed_def IsAggregationAllowed_def AllowedProjection_def RestrictsColumns_def)

lemma sequence_Some: "sequence es = Some e \<Longrightarrow> Some e \<in> set es"
  by (induction es rule: sequence.induct) auto

lemma first_error_not: "(\<And>x. chk x \<noteq> Some e) \<Longrightarrow> first_error chk xs \<noteq> Some e"
  by (induction xs) (auto split: option.splits)

lemma checks_not_nil:
  "check_column schema perms c \<noteq> Some NilSelect" "check_aggregation uni schema perms a \<noteq> Some NilSelect"
  "check_order schema perms ord \<noteq> Some NilSelect" "check_time_range schema perms tr \<noteq> Some NilSelect"
  by (auto simp: check_column_def validateColumn_def authorize_def check_aggregation_def check_order_def
      check_time_range_def split: option.splits if_splits)

lemma validate_not_nil: "validateAndAuthorizeColumns uni q schema perms \<noteq> Some NilSelect"
proof -
  note fe = first_error_not [where e = NilSelect, symmetric]
  show ?thesis
    unfolding validateAndAuthorizeColumns_def
    by (auto dest!: sequence_Some simp: fe checks_not_nil checks_not_nil [symmetric])
qed

lemma buildWhere_not_nil: "buildWhere uni now fs tr bucket \<noteq> Inl NilSelect"
proof -
  have "filters_where uni fs \<noteq> Inl NilSelect"
    by (induction fs) (auto simp: filterToSQL_def Let_def split: sum.splits if_splits jvalue.splits)
  moreover have "time_where now tr bucket \<noteq> Inl NilSelect"
    by (auto simp: time_where_def resolveTimeValue_def Let_def split: option.splits if_splits sum.splits)
  ultimately show ?thesis by (auto simp: buildWhere_def split: sum.splits)
qed

lemma projection_resolved:
  assumes "authorized_query uni q schema (Some rp)" "resolveProjection q schema (Some rp) = Inr pw"
  shows "Select rp \<noteq> None"
proof
  assume n: "Select rp = None"
  note u = unresolved_select [OF n]
  from assms(2) consider "SelectAll q" "AllowedProjection (Some rp) schema \<noteq> []" | "Columns q \<noteq> []" | "Aggregations q \<noteq> []"
    using u by (auto simp: resolveProjection_def Let_def split: if_splits)
  then show False
  proof cases
    case 2
    then obtain c where "readable schema (Some rp) c" using assms(1) by (cases "Columns q") (auto simp: authorized_query_def)
    with u show False by (simp add: readable_def)
  next
    case 3
    then have "\<exists>a \<in> set (Aggregations q). IsAggregationAllowed uni (Some rp) (agg_Fn a)"
      using assms(1) by (cases "Aggregations q") (simp_all add: authorized_query_def)
    with u show False by simp
  qed (use u in simp)
qed

text \<open>Building never reads a grant whose read side was not resolved: for a grant resolved for another
  operation, or denied, one of the checks before that point answers with an error whatever the query
  names.\<close>

theorem Build_no_nil_select: "Build uni now table q schema perms bucket dmax \<noteq> Inl NilSelect"
proof
  assume b: "Build uni now table q schema perms bucket dmax = Inl NilSelect"
  then have v: "validateAndAuthorizeColumns uni q schema perms = None"
    using validate_not_nil by (auto simp: Build_def split: if_splits option.splits)
  have "resolveProjection q schema perms \<noteq> Inl NilSelect" by (simp add: resolveProjection_def Let_def)
  with b v obtain pw where r: "resolveProjection q schema perms = Inr pw"
    by (auto simp: Build_def split: if_splits sum.splits)
  with b v obtain rp where "perms = Some rp" "Select rp = None"
    using buildWhere_not_nil
    by (auto simp: Build_def Let_def split: if_splits sum.splits option.splits)
  with projection_resolved validate_authorized [OF v] r show False by blast
qed

end
