(* ===== verification/Pipes.thy ===== *)
theory Pipes
  imports Claims Chsql
begin

text \<open>
  Named query pipes (\<^verbatim>\<open>pkg/pipes/pipes.go\<close>): the placeholder grammar of a SQL template, the check of a
  template, and the binding of supplied values and token claims into it. As for claim templates, the
  regular expressions of the source are deterministic and read by greedy scanners. The float
  conversions are those of a 64-bit x86 platform.
\<close>

section \<open>Templates\<close>

record ParamDef =
  pd_Name :: string
  pd_Type :: string
  pd_Required :: bool
  pd_Default :: jvalue

record NamedQuery =
  nq_Name :: string
  nq_SQL :: string
  nq_Parameters :: "ParamDef list"
  nq_Description :: string
  nq_AllowedRoles :: "string list"

definition word_byte :: "char \<Rightarrow> bool" where
  "word_byte c \<longleftrightarrow> is_alnum c \<or> c = CHR ''_''"

text \<open>A match of \<open>paramPattern\<close> at the front of a text: the name, the inline default (empty when there is
  none) and what follows.\<close>

definition match_param :: "string \<Rightarrow> (string \<times> string \<times> string) option" where
  "match_param s =
     (case cut_prefix ''{{'' s of
        None \<Rightarrow> None
      | Some s \<Rightarrow>
          (let name = takeWhile word_byte s; s = dropWhile word_byte s;
               (def, s) = (if prefix '':'' s
                 then (takeWhile (\<lambda>c. c \<noteq> CHR ''}'') (drop 1 s), dropWhile (\<lambda>c. c \<noteq> CHR ''}'') (drop 1 s))
                 else ([], s)) in
           if name = [] then None
           else map_option (\<lambda>rest. (name, def, rest)) (cut_prefix ''}}'' s)))"

text \<open>The text cut at its placeholders, a claim reference before a parameter; each placeholder keeps
  its own text.\<close>

datatype placeholder = Text char | ClaimRef string string | ParamRef string string string

lemma match_param_shorter: "match_param s = Some (n, d, r) \<Longrightarrow> length r < length s"
proof -
  assume m: "match_param s = Some (n, d, r)"
  then obtain t where t: "cut_prefix ''{{'' s = Some t" by (auto simp: match_param_def split: option.splits)
  let ?u = "dropWhile word_byte t"
  have "cut_prefix ''}}'' ?u = Some r \<or> cut_prefix ''}}'' (dropWhile (\<lambda>c. c \<noteq> CHR ''}'') (drop 1 ?u)) = Some r"
    using m unfolding match_param_def t by (auto simp: Let_def split: if_splits)
  then have "length r \<le> length t"
    using length_dropWhile_le [of word_byte t] length_dropWhile_le [of "\<lambda>c. c \<noteq> CHR ''}''" "drop 1 ?u"] by auto
  then show ?thesis using t by simp
qed

function pipe_pieces :: "string \<Rightarrow> placeholder list" where
  "pipe_pieces [] = []"
| "pipe_pieces (c # cs) =
     (case match_claim (c # cs) of
        Some (path, rest) \<Rightarrow> ClaimRef path (take (length (c # cs) - length rest) (c # cs)) # pipe_pieces rest
      | None \<Rightarrow>
          (case match_param (c # cs) of
             Some (name, def, rest) \<Rightarrow>
               ParamRef name def (take (length (c # cs) - length rest) (c # cs)) # pipe_pieces rest
           | None \<Rightarrow> Text c # pipe_pieces cs))"
  by pat_completeness auto
termination
  by (relation "measure length") (auto dest: match_claim_shorter match_param_shorter)

definition ReservedParam :: string where
  "ReservedParam = ''jwt''"

definition claim_refs :: "placeholder list \<Rightarrow> string list" where
  "claim_refs ps = List.map_filter (\<lambda>p. case p of ClaimRef path _ \<Rightarrow> Some path | _ \<Rightarrow> None) ps"

text \<open>\<^verbatim>\<open>Claims\<close>: each path once, in order of first use.\<close>

fun first_uses :: "string list \<Rightarrow> string list \<Rightarrow> string list" where
  "first_uses seen [] = []"
| "first_uses seen (p # ps) = (if p \<in> set seen then first_uses seen ps else p # first_uses (p # seen) ps)"

definition pipe_Claims :: "NamedQuery \<Rightarrow> string list" where
  "pipe_Claims q = first_uses [] (claim_refs (pipe_pieces (nq_SQL q)))"

definition replace_refs :: "string \<Rightarrow> placeholder list \<Rightarrow> string" where
  "replace_refs sub ps = concat (map (\<lambda>p. case p of Text c \<Rightarrow> [c] | _ \<Rightarrow> sub) ps)"

definition Skeleton :: "NamedQuery \<Rightarrow> string" where
  "Skeleton q = replace_refs [squote, squote] (pipe_pieces (nq_SQL q))"

section \<open>Checking a template\<close>

datatype template_error =
    ReservedPlaceholder string
  | InsideComment string
  | InsideQuotes string
  | UnrecognizedPlaceholder string

text \<open>The leftmost non-overlapping matches of \<open>paramPattern\<close> alone.\<close>

function param_names :: "string \<Rightarrow> string list" where
  "param_names [] = []"
| "param_names (c # cs) =
     (case match_param (c # cs) of
        Some (name, def, rest) \<Rightarrow> name # param_names rest
      | None \<Rightarrow> param_names cs)"
  by pat_completeness auto
termination
  by (relation "measure length") (auto dest: match_param_shorter)

text \<open>The positions and texts of the placeholders, and the template with each masked by spaces.\<close>

fun ref_locs :: "nat \<Rightarrow> placeholder list \<Rightarrow> (nat \<times> string) list" where
  "ref_locs i [] = []"
| "ref_locs i (Text c # ps) = ref_locs (Suc i) ps"
| "ref_locs i (ClaimRef _ t # ps) = (i, t) # ref_locs (i + length t) ps"
| "ref_locs i (ParamRef _ _ t # ps) = (i, t) # ref_locs (i + length t) ps"

definition mask_refs :: "placeholder list \<Rightarrow> string" where
  "mask_refs ps = concat (map (\<lambda>p. case p of Text c \<Rightarrow> [c] | ClaimRef _ t \<Rightarrow> replicate (length t) (CHR '' '')
     | ParamRef _ _ t \<Rightarrow> replicate (length t) (CHR '' '')) ps)"

definition loc_error :: "Span list \<Rightarrow> nat \<times> string \<Rightarrow> template_error option" where
  "loc_error spans lt =
     (case lt of (i, t) \<Rightarrow>
        (case List.find (\<lambda>sp. Start sp \<le> i \<and> i < End sp) spans of
           None \<Rightarrow> None
         | Some sp \<Rightarrow> Some (if Comment sp then InsideComment t else InsideQuotes t)))"

fun first_loc_error :: "Span list \<Rightarrow> (nat \<times> string) list \<Rightarrow> template_error option" where
  "first_loc_error spans [] = None"
| "first_loc_error spans (l # ls) =
     (case loc_error spans l of Some e \<Rightarrow> Some e | None \<Rightarrow> first_loc_error spans ls)"

text \<open>A match of \<^verbatim>\<open>\{\{\s*[\w.]\<close> at the front, and the suffix from the first one.\<close>

definition malformed_here :: "string \<Rightarrow> bool" where
  "malformed_here s =
     (case cut_prefix ''{{'' s of
        None \<Rightarrow> False
      | Some s \<Rightarrow>
          (case dropWhile re_space s of [] \<Rightarrow> False | c # _ \<Rightarrow> word_byte c \<or> c = CHR ''.''))"

fun find_malformed :: "string \<Rightarrow> string option" where
  "find_malformed [] = None"
| "find_malformed (c # cs) = (if malformed_here (c # cs) then Some (c # cs) else find_malformed cs)"

definition CheckTemplate :: "NamedQuery \<Rightarrow> template_error option" where
  "CheckTemplate q =
     (let ps = pipe_pieces (nq_SQL q) in
      if ReservedParam \<in> set (param_names (nq_SQL q)) then Some (ReservedPlaceholder ReservedParam)
      else case first_loc_error (Opaque (mask_refs ps)) (ref_locs 0 ps) of
        Some e \<Rightarrow> Some e
      | None \<Rightarrow>
          (case find_malformed (replace_refs '''' ps) of
             None \<Rightarrow> None
           | Some fragment \<Rightarrow>
               (case str_index ''}}'' fragment of
                  Some k \<Rightarrow> Some (UnrecognizedPlaceholder (take (k + 2) fragment))
                | None \<Rightarrow> Some (UnrecognizedPlaceholder fragment))))"

section \<open>Literals\<close>

definition literal_escape :: "char \<Rightarrow> string" where
  "literal_escape c =
     (if c = backslash then [backslash, backslash]
      else if c = squote then [squote, squote]
      else if c = CHR 0x0A then [backslash, CHR ''n'']
      else if c = CHR 0x0D then [backslash, CHR ''r'']
      else if c = CHR ''*'' then backslash # ''x2A''
      else if c = CHR ''$'' then backslash # ''x24''
      else [c])"

definition quoteLiteral :: "string \<Rightarrow> string" where
  "quoteLiteral s = [squote] @ concat (map literal_escape s) @ [squote]"

definition drop_sign :: "string \<Rightarrow> string" where
  "drop_sign s = (case s of c # r \<Rightarrow> if c = CHR ''+'' \<or> c = CHR ''-'' then r else s | [] \<Rightarrow> s)"

definition exponent_part :: "string \<Rightarrow> bool" where
  "exponent_part s =
     (case s of
        [] \<Rightarrow> True
      | c # r \<Rightarrow> (c = CHR ''e'' \<or> c = CHR ''E'') \<and> drop_sign r \<noteq> [] \<and> list_all is_digit (drop_sign r))"

definition isNumericLiteral :: "string \<Rightarrow> bool" where
  "isNumericLiteral s =
     (let s = drop_sign s; i = takeWhile is_digit s; r = dropWhile is_digit s in
      if i \<noteq> [] then exponent_part (if prefix ''.'' r then dropWhile is_digit (drop 1 r) else r)
      else prefix ''.'' r \<and> takeWhile is_digit (drop 1 r) \<noteq> [] \<and> exponent_part (dropWhile is_digit (drop 1 r)))"

definition bareNumber :: "string \<Rightarrow> string" where
  "bareNumber s = (if prefix ''-'' s then '' '' @ s else s)"

text \<open>\<^verbatim>\<open>%g\<close>: the shortest digits, with an exponent below \<open>-4\<close> and from \<open>6\<close> on.\<close>

definition format_g :: "rat \<Rightarrow> string" where
  "format_g q =
     (if q = 0 then ''0''
      else case shortest 17 1 q of (d, e) \<Rightarrow>
        (let ds = itoa (nat d); ex = int (length ds) + e - 1; m = itoa (nat \<bar>ex\<bar>) in
         if ex < - 4 \<or> 6 \<le> ex then
           [hd ds] @ (if tl ds = [] then '''' else ''.'' @ tl ds) @ ''e'' @ (if ex < 0 then ''-'' else ''+'') @
           (if length m < 2 then ''0'' @ m else m)
         else positional d e))"

definition format_float_param :: "64 word \<Rightarrow> string" where
  "format_float_param w =
     (case float_of_bits w of
        NaN \<Rightarrow> ''NaN''
      | Infinite neg \<Rightarrow> (if neg then ''-Inf'' else ''+Inf'')
      | Finite neg q \<Rightarrow>
          (let v = (if neg then - q else q) in
           if of_int \<lfloor>v\<rfloor> = v \<and> - (2 ^ 63) \<le> v \<and> v < 2 ^ 63 then itoa_int \<lfloor>v\<rfloor>
           else (if neg then ''-'' else '''') @ format_g q))"

datatype param_error = EmptyArray | UnsupportedType

fun formatParamValue :: "jvalue \<Rightarrow> param_error + string"
  and format_elems :: "jvalue list \<Rightarrow> param_error + string list" where
  "formatParamValue VNil = Inr ''NULL''"
| "formatParamValue (VString val) = Inr (if isNumericLiteral val then bareNumber val else quoteLiteral val)"
| "formatParamValue (VFloat val) = Inr (bareNumber (format_float_param val))"
| "formatParamValue (VBool val) = Inr (if val then ''1'' else ''0'')"
| "formatParamValue (VArray val) =
     (if val = [] then Inl EmptyArray
      else case format_elems val of
        Inl e \<Rightarrow> Inl e
      | Inr parts \<Rightarrow> Inr (''('' @ join '', '' parts @ '')''))"
| "formatParamValue (VNumber _) = Inl UnsupportedType"
| "formatParamValue (VMap _) = Inl UnsupportedType"
| "format_elems [] = Inr []"
| "format_elems (v # vs) =
     (case formatParamValue v of
        Inl e \<Rightarrow> Inl e
      | Inr s \<Rightarrow> (case format_elems vs of Inl e \<Rightarrow> Inl e | Inr ss \<Rightarrow> Inr (s # ss)))"

definition claimLiteral :: "string list \<Rightarrow> bool \<Rightarrow> string" where
  "claimLiteral vals is_set =
     (let parts = map quoteLiteral vals in
      if is_set then ''('' @ join '', '' parts @ '')'' else hd parts)"

section \<open>Binding\<close>

datatype bind_error =
    UnresolvedClaimError string
  | MissingParameter string
  | BadParameter string param_error

definition param_value ::
  "(string \<times> ParamDef) list \<Rightarrow> (string \<times> jvalue) list \<Rightarrow> string \<Rightarrow> string \<Rightarrow> bind_error + jvalue" where
  "param_value formal supplied name inlineDefault =
     (case map_of supplied name of
        Some v \<Rightarrow> Inr v
      | None \<Rightarrow>
          (case map_of formal name of
             Some p \<Rightarrow> Inr (pd_Default p)
           | None \<Rightarrow> (if inlineDefault \<noteq> '''' then Inr (VString inlineDefault) else Inl (MissingParameter name))))"

definition bind_piece ::
  "(string \<times> ParamDef) list \<Rightarrow> (string \<times> jvalue) list \<Rightarrow> claims \<Rightarrow> placeholder \<Rightarrow> bind_error + string" where
  "bind_piece formal supplied claims p =
     (case p of
        Text c \<Rightarrow> Inr [c]
      | ClaimRef path _ \<Rightarrow>
          (case ResolveClaim claims path of (vals, is_set, ok) \<Rightarrow>
             (if \<not> ok then Inl (UnresolvedClaimError path) else Inr (claimLiteral vals is_set)))
      | ParamRef name def _ \<Rightarrow>
          (case param_value formal supplied name def of
             Inl e \<Rightarrow> Inl e
           | Inr val \<Rightarrow>
               (case formatParamValue val of
                  Inl e \<Rightarrow> Inl (BadParameter name e)
                | Inr lit \<Rightarrow> Inr lit)))"

fun bind_pieces ::
  "(string \<times> ParamDef) list \<Rightarrow> (string \<times> jvalue) list \<Rightarrow> claims \<Rightarrow> placeholder list \<Rightarrow> bind_error + string" where
  "bind_pieces formal supplied claims [] = Inr []"
| "bind_pieces formal supplied claims (p # ps) =
     (case bind_piece formal supplied claims p of
        Inl e \<Rightarrow> Inl e
      | Inr s \<Rightarrow> (case bind_pieces formal supplied claims ps of Inl e \<Rightarrow> Inl e | Inr t \<Rightarrow> Inr (s @ t)))"

definition claim_ok :: "claims \<Rightarrow> string \<Rightarrow> bool" where
  "claim_ok claims path = (case ResolveClaim claims path of (_, _, ok) \<Rightarrow> ok)"

definition BindParams :: "NamedQuery \<Rightarrow> (string \<times> jvalue) list \<Rightarrow> claims \<Rightarrow> bind_error + string" where
  "BindParams q supplied claims =
     (case List.find (\<lambda>path. \<not> claim_ok claims path) (pipe_Claims q) of
        Some path \<Rightarrow> Inl (UnresolvedClaimError path)
      | None \<Rightarrow>
          (let formal = rev (map (\<lambda>p. (pd_Name p, p)) (nq_Parameters q)) in
           case List.find (\<lambda>p. pd_Required p \<and> map_of supplied (pd_Name p) = None) (nq_Parameters q) of
             Some p \<Rightarrow> Inl (MissingParameter (pd_Name p))
           | None \<Rightarrow> bind_pieces formal supplied claims (pipe_pieces (nq_SQL q))))"

section \<open>Literals are one token\<close>

lemma literal_step: "quoted_len squote (literal_escape c @ t) = length (literal_escape c) + quoted_len squote t"
  by (auto simp: literal_escape_def quoted_len_plain quoted_len_escaped)

lemma literal_prefix_free: "literal_escape c @ t = literal_escape d @ t' \<Longrightarrow> c = d"
  by (auto simp: literal_escape_def split: if_splits)

interpretation literal: quoted_renderer squote literal_escape quoteLiteral
  by unfold_locales (auto simp: literal_step quoteLiteral_def dest: literal_prefix_free)

lemma literal_bytes: "c \<in> set (quoteLiteral s) \<Longrightarrow> c \<notin> {CHR ''*'', CHR ''$'', CHR 0x0A, CHR 0x0D}"
  by (auto simp: quoteLiteral_def literal_escape_def split: if_splits)

section \<open>Properties\<close>

text \<open>A value rendered as a string literal is one token of ClickHouse's lexer wherever it is bound,
  whatever it holds, determines the value, and contains no byte that could end a line comment, open or
  close a block comment, or close a heredoc around it.\<close>

theorem quoteLiteral_inert:
  assumes "rest = [] \<or> hd rest \<noteq> squote"
  shows "skipQuoted (pre @ quoteLiteral s @ rest) (length pre) = length pre + length (quoteLiteral s) \<and>
    (quoteLiteral s @ rest = quoteLiteral s' @ rest' \<longrightarrow> rest' = [] \<or> hd rest' \<noteq> squote \<longrightarrow> s' = s) \<and>
    set (quoteLiteral s) \<inter> {CHR ''*'', CHR ''$'', CHR 0x0A, CHR 0x0D} = {}"
  using literal.one_token [OF assms] literal.render_prefix_free [OF _ assms] literal_bytes [of _ s] by blast

theorem quoteLiteral_inert_witness:
  "skipQuoted (''x = '' @ quoteLiteral ([squote] @ '' OR 1=1 /*'') @ '' AND y'') (length ''x = '') =
     length ''x = '' + length (quoteLiteral ([squote] @ '' OR 1=1 /*'')) \<and>
   CHR ''*'' \<notin> set (quoteLiteral ([squote] @ '' OR 1=1 /*''))"
proof -
  have h: "'' AND y'' = [] \<or> hd '' AND y'' \<noteq> squote" by simp
  show ?thesis
    using quoteLiteral_inert [OF h, of "''x = ''" "[squote] @ '' OR 1=1 /*''"] by blast
qed

section \<open>Claims bind from the token alone\<close>

lemma claim_refs_iff: "path \<in> set (claim_refs ps) \<longleftrightarrow> (\<exists>t. ClaimRef path t \<in> set ps)"
  unfolding claim_refs_def by (induction ps) (auto simp: map_filter_simps split: placeholder.splits)

lemma set_first_uses: "set (first_uses seen ps) = set ps - set seen"
  by (induction seen ps rule: first_uses.induct) auto

lemma distinct_first_uses: "distinct (first_uses seen ps)"
  by (induction seen ps rule: first_uses.induct) (auto simp: set_first_uses)

lemma set_pipe_Claims: "set (pipe_Claims q) = {path. \<exists>t. ClaimRef path t \<in> set (pipe_pieces (nq_SQL q))}"
  by (auto simp: pipe_Claims_def set_first_uses claim_refs_iff)

lemma bind_pieces_Inr:
  "bind_pieces formal supplied claims ps = Inr sql \<Longrightarrow>
   (\<exists>lits. list_all2 (\<lambda>p lit. bind_piece formal supplied claims p = Inr lit) ps lits \<and> sql = concat lits)"
proof (induction ps arbitrary: sql)
  case Nil
  then show ?case by auto
next
  case (Cons p ps)
  then obtain s t where "bind_piece formal supplied claims p = Inr s" "bind_pieces formal supplied claims ps = Inr t"
    "sql = s @ t" by (auto split: sum.splits)
  with Cons.IH [of t] show ?case by (auto simp: list_all2_Cons1)
qed

lemma find_claim:
  "List.find (\<lambda>path. \<not> claim_ok claims path) (pipe_Claims q) = None \<longleftrightarrow>
   (\<forall>path t. ClaimRef path t \<in> set (pipe_pieces (nq_SQL q)) \<longrightarrow> claim_ok claims path)"
  using set_pipe_Claims [of q] by (auto simp: find_None_iff)

text \<open>C12. A claim reference binds from the verified token and from nothing else. When the token cannot
  bind some reference of the template, the pipe fails with that claim's error whatever the request
  supplied; otherwise a bound text has, at each reference, the quoted values of that claim.\<close>

theorem BindParams_claims:
  "(if \<exists>path \<in> set (pipe_Claims q). \<not> claim_ok claims path
    then \<exists>path \<in> set (pipe_Claims q). \<not> claim_ok claims path \<and>
      (\<forall>supplied. BindParams q supplied claims = Inl (UnresolvedClaimError path))
    else \<forall>supplied sql. BindParams q supplied claims = Inr sql \<longrightarrow>
      (\<exists>lits. sql = concat lits \<and> list_all2 (\<lambda>p lit.
         (\<forall>c. p = Text c \<longrightarrow> lit = [c]) \<and>
         (\<forall>path t. p = ClaimRef path t \<longrightarrow> (case ResolveClaim claims path of (vals, is_set, _) \<Rightarrow>
            vals \<noteq> [] \<and> lit = claimLiteral vals is_set))) (pipe_pieces (nq_SQL q)) lits))"
proof (cases "\<exists>path \<in> set (pipe_Claims q). \<not> claim_ok claims path")
  case True
  then obtain path where p: "List.find (\<lambda>path. \<not> claim_ok claims path) (pipe_Claims q) = Some path"
    by (cases "List.find (\<lambda>path. \<not> claim_ok claims path) (pipe_Claims q)") (auto simp: find_None_iff)
  then have "path \<in> set (pipe_Claims q)" "\<not> claim_ok claims path" by (auto simp: find_Some_iff)
  with True p show ?thesis by (auto simp: BindParams_def)
next
  case False
  have "\<exists>lits. sql = concat lits \<and> list_all2 (\<lambda>p lit. (\<forall>c. p = Text c \<longrightarrow> lit = [c]) \<and>
         (\<forall>path t. p = ClaimRef path t \<longrightarrow> (case ResolveClaim claims path of (vals, is_set, _) \<Rightarrow>
            vals \<noteq> [] \<and> lit = claimLiteral vals is_set))) (pipe_pieces (nq_SQL q)) lits"
    if "BindParams q supplied claims = Inr sql" for supplied sql
  proof -
    from that obtain formal lits where l: "sql = concat lits"
      "list_all2 (\<lambda>p lit. bind_piece formal supplied claims p = Inr lit) (pipe_pieces (nq_SQL q)) lits"
      by (auto simp: BindParams_def Let_def split: option.splits dest!: bind_pieces_Inr)
    from l(2) have "list_all2 (\<lambda>p lit. (\<forall>c. p = Text c \<longrightarrow> lit = [c]) \<and>
         (\<forall>path t. p = ClaimRef path t \<longrightarrow> (case ResolveClaim claims path of (vals, is_set, _) \<Rightarrow>
            vals \<noteq> [] \<and> lit = claimLiteral vals is_set))) (pipe_pieces (nq_SQL q)) lits"
      by (rule list_all2_mono) (auto simp: bind_piece_def dest: ResolveClaim_values split: prod.splits if_splits)
    with l(1) show ?thesis by blast
  qed
  with False show ?thesis by simp
qed

definition example_pipe :: NamedQuery where
  "example_pipe = \<lparr>nq_Name = ''p'', nq_SQL = ''t={{ jwt.ids }}-{{n:5}}'', nq_Parameters = [],
     nq_Description = '''', nq_AllowedRoles = []\<rparr>"

lemma example_pipe_ids: "pipe_Claims example_pipe = [''ids'']" "\<not> claim_ok [] ''ids''"
  by code_simp+

theorem BindParams_claims_witness:
  "BindParams example_pipe [(''n'', VString ''1''), (''ids'', VString ''x'')] [] = Inl (UnresolvedClaimError ''ids'')"
  using BindParams_claims [of example_pipe "[]"] example_pipe_ids by simp

end
