(* ===== verification/Shard.thy ===== *)
theory Shard
  imports Numeric Gotime
begin

text \<open>
  The hashing that places tables, shards and dedupe buckets: \<^verbatim>\<open>pkg/shard/shard.go\<close> and Go's \<^verbatim>\<open>hash/fnv\<close>.
\<close>

unbundle bit_operations_syntax

section \<open>Placement (\<^verbatim>\<open>pkg/shard\<close>)\<close>

definition jump_key :: "64 word \<Rightarrow> 64 word" where
  "jump_key key = key * 2862933555777941757 + 1"

text \<open>The next candidate bucket: the float product of the source, each operation rounded, truncated.\<close>

definition jump_next :: "64 word \<Rightarrow> int \<Rightarrow> int" where
  "jump_next key b =
     \<lfloor>f64 (f64 (of_int (b + 1)) * f64 (f64 (2 ^ 31) / f64 (of_nat (unat (drop_bit 33 key) + 1))))\<rfloor>"

text \<open>The loop with fuel: each round moves to a larger bucket, so \<open>n\<close> rounds are enough.\<close>

fun jump_loop :: "nat \<Rightarrow> 64 word \<Rightarrow> int \<Rightarrow> int \<Rightarrow> int \<Rightarrow> int option" where
  "jump_loop 0 key b j n = (if j < n then None else Some b)"
| "jump_loop (Suc fuel) key b j n =
     (if j < n then jump_loop fuel (jump_key key) j (jump_next (jump_key key) j) n else Some b)"

definition Jump :: "64 word \<Rightarrow> int \<Rightarrow> int option" where
  "Jump key n = jump_loop (nat n) key (- 1) 0 n"

definition Mix :: "64 word \<Rightarrow> 64 word" where
  "Mix z =
     (let z = (z XOR drop_bit 30 z) * 0xbf58476d1ce4e5b9;
          z = (z XOR drop_bit 27 z) * 0x94d049bb133111eb in
      z XOR drop_bit 31 z)"

text \<open>\<^verbatim>\<open>fnv.New64a\<close>.\<close>

definition fnv64a :: "string \<Rightarrow> 64 word" where
  "fnv64a s = foldl (\<lambda>h c. (h XOR of_nat (byte c)) * 1099511628211) 14695981039346656037 s"

section \<open>The jump hash\<close>

lemma log2_rat_upper: "0 < q \<Longrightarrow> q < 2 powi (k + 1) \<Longrightarrow> log2_rat q \<le> k"
  using log2_rat_bounds(1) [of q] powi_less_iff [of "log2_rat q" "k + 1"] by force

lemma rounded_int:
  assumes "0 < m" "m < 2 ^ 53"
  shows "rounded float64 (of_int m) = of_int m"
proof -
  let ?e = "ulp float64 (of_int m)"
  have "(of_int m :: rat) < of_int (2 ^ 53)" using assms(2) by (simp only: of_int_less_iff)
  then have "log2_rat (of_int m) \<le> 52" using assms(1) by (intro log2_rat_upper) simp_all
  then have e: "?e \<le> 0" by (simp add: ulp_def float64_def)
  have "(of_int m :: rat) = of_int (m * 2 ^ nat (- ?e)) * 2 powi ?e"
    using powi_quotient_int [OF e] by simp
  then have "(of_int m :: rat) / 2 powi ?e = of_int (m * 2 ^ nat (- ?e))" by (simp add: field_simps)
  then show ?thesis unfolding rounded_def using powi_quotient_int [OF e] by (simp only: half_even_int) simp
qed

lemma f64_rounded:
  assumes "0 < q" "q \<le> 2 ^ 62"
  shows "f64 q = rounded float64 q"
proof -
  have "q < 2 powi (62 + 1)" using assms(2) by simp
  then have "log2_rat q \<le> 62" using assms(1) by (intro log2_rat_upper) simp_all
  then have "rounded float64 q \<le> 2 powi 62"
    using assms by (intro rounded_le) (simp_all add: ulp_def float64_def)
  also have "\<dots> \<le> ff_max float64" by (simp add: float64_def)
  finally show ?thesis
    using assms by (simp add: f64_def round_float_def round_mag_def rounded_def ulp_def Let_def)
qed

lemma f64_int: "0 < m \<Longrightarrow> m < 2 ^ 53 \<Longrightarrow> f64 (of_int m) = of_int m"
proof -
  assume m: "0 < m" "m < 2 ^ 53"
  then have "m \<le> 2 ^ 62" by simp
  then have "(of_int m :: rat) \<le> of_int (2 ^ 62)" by (simp only: of_int_le_iff)
  then show ?thesis using m by (simp add: f64_rounded rounded_int)
qed

lemma f64_between:
  assumes "0 < m" "m < 2 ^ 53" "of_int m \<le> q" "q \<le> 2 powi k" "0 \<le> k" "k \<le> 62"
  shows "of_int m \<le> f64 q" and "f64 q \<le> 2 powi k"
proof -
  have q: "0 < q" using assms(1,3) by (meson of_int_0_less_iff less_le_trans)
  have "(2::rat) powi k \<le> 2 powi 62" using assms(6) by (intro power_int_increasing) auto
  then have r: "f64 q = rounded float64 q" using assms(4) q by (intro f64_rounded) simp_all
  have "rounded float64 (of_int m) \<le> rounded float64 q"
    using assms q by (intro rounded_mono) (simp_all add: float64_def)
  then show "of_int m \<le> f64 q" by (simp add: r rounded_int [OF assms(1,2)])
  have "log2_rat q \<le> k" using q assms(4)
    by (intro log2_rat_upper) (auto intro: le_less_trans simp: powi_less_iff)
  then show "f64 q \<le> 2 powi k"
    unfolding r using assms by (intro rounded_le) (simp_all add: ulp_def float64_def)
qed

text \<open>The candidate always moves past the current bucket, whatever the rounding, and stays in range.\<close>

lemma jump_next_range:
  assumes "0 \<le> b" "b < 2 ^ 31"
  shows "b + 1 \<le> jump_next key b" and "jump_next key b \<le> 2 ^ 62"
proof -
  let ?k = "int (unat (drop_bit 33 key)) + 1"
  have "unat (drop_bit 33 key) = unat key div 2 ^ 33" by (simp only: unat_drop_bit_eq) (simp only: drop_bit_eq_div)
  moreover have "unat key < 2 ^ 64" using unsigned_less [of key] by simp
  ultimately have "unat (drop_bit 33 key) < 2 ^ 31" by (simp add: less_mult_imp_div_less)
  moreover have "int x + 1 \<le> 2 ^ 31" if "x < 2 ^ 31" for x :: nat using that by simp
  ultimately have "?k \<le> 2 ^ 31" by blast
  then have k: "0 < ?k" "?k \<le> 2 ^ 31" by simp_all
  have fk: "f64 (of_nat (unat (drop_bit 33 key) + 1)) = of_int ?k"
    using f64_int [of ?k] k by (simp add: algebra_simps)
  have fb: "f64 (of_int (b + 1)) = of_int (b + 1)" using assms by (intro f64_int) simp_all
  have f31: "f64 (2 ^ 31) = 2 ^ 31" using f64_int [of "2 ^ 31"] by simp
  have kr: "(of_int ?k :: rat) \<le> of_int (2 ^ 31)" "(1::rat) \<le> of_int ?k"
    using k(2) by (simp_all only: of_int_le_iff of_int_add of_int_1 of_int_of_nat_eq)
  define w where "w = f64 (2 ^ 31 / of_int ?k)"
  have "(2 ^ 31 :: rat) / of_int ?k \<le> 2 powi 31" using kr by (simp add: pos_divide_le_eq)
  then have w: "1 \<le> w" "w \<le> 2 ^ 31"
    using f64_between [of 1 "2 ^ 31 / of_int ?k" 31] kr unfolding w_def by (simp_all add: pos_le_divide_eq)
  have br: "(of_int (b + 1) :: rat) \<le> of_int (2 ^ 31)" "(0::rat) \<le> of_int (b + 1)"
    using assms by (simp_all only: of_int_le_iff of_int_0_le_iff)
  have 1: "of_int (b + 1) \<le> of_int (b + 1) * w" using mult_left_mono [OF w(1) br(2)] by simp
  have "of_int (b + 1) * w \<le> 2 ^ 31 * 2 ^ 31" using w br by (intro mult_mono) simp_all
  then have 2: "of_int (b + 1) * w \<le> 2 powi 62" by simp
  have n: "jump_next key b = \<lfloor>f64 (of_int (b + 1) * w)\<rfloor>" by (simp only: jump_next_def fk fb f31 w_def)
  have "0 < b + 1" "b + 1 < 2 ^ 53" using assms by simp_all
  note B = f64_between [OF this 1 2]
  have "of_int (b + 1) \<le> f64 (of_int (b + 1) * w)" by (rule B(1)) simp_all
  then show "b + 1 \<le> jump_next key b" unfolding n by (simp only: le_floor_iff)
  have "f64 (of_int (b + 1) * w) \<le> of_int (2 ^ 62)" using B(2) by simp
  then show "jump_next key b \<le> 2 ^ 62" unfolding n by (metis floor_mono floor_of_int)
qed

text \<open>A candidate at or past the count ends the loop.\<close>

lemma jump_loop_done [simp]: "n \<le> j \<Longrightarrow> jump_loop fuel key b j n = Some b"
  by (cases fuel) auto

lemma jump_loop_result:
  assumes "- 1 \<le> b" "b < j" "b < n" "0 \<le> j" "0 < n" "n \<le> 2 ^ 31" "nat (n - j) \<le> fuel" "b = - 1 \<Longrightarrow> j = 0"
  shows "\<exists>r. jump_loop fuel key b j n = Some r \<and> 0 \<le> r \<and> r < n \<and>
    (n < 2 ^ 31 \<longrightarrow> (\<forall>fuel' \<ge> nat (n + 1 - j). jump_loop fuel' key b j (n + 1) \<in> {Some r, Some n}))"
  using assms
proof (induction fuel arbitrary: key b j)
  case 0
  then have "n \<le> j" "b \<noteq> - 1" by auto
  moreover have "jump_loop fuel' key b j (n + 1) \<in> {Some b, Some n}"
    if n: "n < 2 ^ 31" "nat (n + 1 - j) \<le> fuel'" for fuel'
    using that 0 jump_next_range(1) [of n "jump_key key"] \<open>n \<le> j\<close>
    by (cases fuel'; cases "j = n") auto
  ultimately show ?case using 0 by (intro exI [of _ b]) auto
next
  case (Suc fuel)
  show ?case
  proof (cases "j < n")
    case True
    have nx: "j + 1 \<le> jump_next (jump_key key) j" using Suc.prems True by (intro jump_next_range) auto
    then have fuel: "nat (n - jump_next (jump_key key) j) \<le> fuel" using Suc.prems True by linarith
    obtain r where r: "jump_loop fuel (jump_key key) j (jump_next (jump_key key) j) n = Some r" "0 \<le> r" "r < n"
      and g: "n < 2 ^ 31 \<Longrightarrow> nat (n + 1 - jump_next (jump_key key) j) \<le> fuel' \<Longrightarrow>
        jump_loop fuel' (jump_key key) j (jump_next (jump_key key) j) (n + 1) \<in> {Some r, Some n}" for fuel'
      using Suc.IH [of j "jump_next (jump_key key) j" "jump_key key"] Suc.prems True nx fuel by auto
    have "jump_loop fuel' key b j (n + 1) \<in> {Some r, Some n}"
      if n: "n < 2 ^ 31" "nat (n + 1 - j) \<le> fuel'" for fuel'
      using that True nx g [of "fuel' - 1"] by (cases fuel') auto
    with r True show ?thesis by auto
  next
    case False
    then have "b \<noteq> - 1" using Suc.prems by auto
    moreover have "jump_loop fuel' key b j (n + 1) \<in> {Some b, Some n}"
      if n: "n < 2 ^ 31" "nat (n + 1 - j) \<le> fuel'" for fuel'
      using that Suc.prems jump_next_range(1) [of n "jump_key key"] False
      by (cases fuel'; cases "j = n") auto
    ultimately show ?thesis using Suc.prems False by (intro exI [of _ b]) auto
  qed
qed


lemma Jump_result:
  assumes "0 < n" "n \<le> 2 ^ 31"
  shows "\<exists>r. Jump key n = Some r \<and> 0 \<le> r \<and> r < n \<and> (n < 2 ^ 31 \<longrightarrow> Jump key (n + 1) \<in> {Some r, Some n})"
  using jump_loop_result [of "- 1" 0 n "nat n" key] assms unfolding Jump_def by auto

text \<open>C13. The jump hash, with every float operation rounded as float64 does: for a bucket count up to
  \<open>2 ^ 31\<close> the loop ends, its result is a bucket, and growing the count by one moves a key only into the
  new bucket.\<close>

theorem Jump_consistent:
  assumes "0 < n" "n \<le> 2 ^ 31"
  shows "\<exists>r. Jump key n = Some r \<and> 0 \<le> r \<and> r < n \<and> (n < 2 ^ 31 \<longrightarrow> Jump key (n + 1) \<in> {Some r, Some n})"
  by (rule Jump_result [OF assms])

theorem Jump_consistent_witness: "\<exists>r. Jump 12345 3 = Some r \<and> 0 \<le> r \<and> r < 3 \<and> Jump 12345 4 \<in> {Some r, Some 3}"
  using Jump_consistent [of 3 12345] by simp

end
