(* ===== verification/Mq.thy ===== *)
theory Mq
  imports Keyenc Shard
begin

text \<open>
  Addresses of the message queue: the topic and its key (\<^verbatim>\<open>internal/mq/mq.go\<close>), the subjects of the
  embedded broker (\<^verbatim>\<open>subject.go\<close>) and of the external one (\<^verbatim>\<open>subject_nats.go\<close>), and the counts of parked
  messages (\<^verbatim>\<open>deadletter.go\<close>).
\<close>

section \<open>Topics\<close>

record Topic =
  Tenant :: string
  Table :: string
  Scope :: string

definition topic_key :: "Topic \<Rightarrow> string" where
  "topic_key t =
     (let key = Tenant t @ ''.'' in
      if Scope t = '''' then append_join key (CHR ''.'') [Table t] else append_join key (CHR ''.'') [Table t, Scope t])"

section \<open>Subjects of the embedded broker\<close>

definition ingestStreamPrefix :: string where "ingestStreamPrefix = ''INGEST_''"
definition dlqStreamPrefix :: string where "dlqStreamPrefix = ''DLQ_''"
definition ingestPrefix :: string where "ingestPrefix = ''ingest.''"
definition dlqPrefix :: string where "dlqPrefix = ''dlq.''"

definition ingestStreamName :: "string \<Rightarrow> string" where
  "ingestStreamName tid = ingestStreamPrefix @ tid"

definition dlqStreamName :: "string \<Rightarrow> string" where
  "dlqStreamName tid = dlqStreamPrefix @ tid"

definition tenantSubjects :: "string \<Rightarrow> string \<Rightarrow> string" where
  "tenantSubjects pre tid = pre @ tid @ ''.>''"

definition streamTenant :: "string \<Rightarrow> string \<Rightarrow> string option" where
  "streamTenant pre name =
     (case cut_prefix pre name of
        None \<Rightarrow> None
      | Some rest \<Rightarrow> (case tenant_Parse rest of Inr tid \<Rightarrow> Some tid | Inl _ \<Rightarrow> None))"

definition subject :: "string \<Rightarrow> Topic \<Rightarrow> tenant_error + string" where
  "subject pre t = (case tenant_Parse (Tenant t) of Inl e \<Rightarrow> Inl e | Inr _ \<Rightarrow> Inr (pre @ topic_key t))"

definition topicKey :: "string \<Rightarrow> string \<Rightarrow> string" where
  "topicKey pre subj = trim_prefix pre subj"

definition keyTenant :: "string \<Rightarrow> string option" where
  "keyTenant key =
     (case cut_byte (CHR ''.'') key of (first, _, _) \<Rightarrow>
        (case tenant_Parse first of Inr tid \<Rightarrow> Some tid | Inl _ \<Rightarrow> None))"

definition parseTopicKey :: "string \<Rightarrow> Topic" where
  "parseTopicKey tail =
     (let none = \<lparr>Tenant = '''', Table = tail, Scope = ''''\<rparr> in
      case cut_byte (CHR ''.'') tail of (first, rest, ok) \<Rightarrow>
        (if \<not> ok then none
         else case (tenant_Parse first, Split rest (CHR ''.'')) of
           (Inr tid, Inr (Inr fs)) \<Rightarrow>
             (case fs of
                [a] \<Rightarrow> \<lparr>Tenant = tid, Table = a, Scope = ''''\<rparr>
              | [a, b] \<Rightarrow> \<lparr>Tenant = tid, Table = a, Scope = b\<rparr>
              | _ \<Rightarrow> none)
         | _ \<Rightarrow> none))"

section \<open>Subjects of the external broker\<close>

definition validSubjectPrefix :: "string \<Rightarrow> bool" where
  "validSubjectPrefix pre \<longleftrightarrow>
     pre \<noteq> [] \<and> list_all (\<lambda>c. is_lower c \<or> is_digit c \<or> c = CHR ''_'' \<or> c = CHR ''-'') pre"

definition natsRoute :: "Topic \<Rightarrow> int \<Rightarrow> int \<Rightarrow> (int \<times> int) option" where
  "natsRoute t n v =
     (let key = fnv64a (Tenant t @ ''.'' @ Escape (Table t)) in
      case (Jump key n, Jump (Mix key) v) of (Some p, Some s) \<Rightarrow> Some (p, s) | _ \<Rightarrow> None)"

definition natsIngestPartition :: "string \<Rightarrow> nat \<Rightarrow> string" where
  "natsIngestPartition pre p = pre @ ''.ingest.'' @ itoa p @ ''.>''"

definition natsShardFilter :: "string \<Rightarrow> nat \<Rightarrow> nat \<Rightarrow> string" where
  "natsShardFilter pre p s = pre @ ''.ingest.'' @ itoa p @ ''.'' @ itoa s @ ''.>''"

definition natsShardDurable :: "string \<Rightarrow> nat \<Rightarrow> string" where
  "natsShardDurable consumerPrefix s = consumerPrefix @ ''-'' @ itoa s"

text \<open>\<^verbatim>\<open>strconv.ParseUint(s, 10, 31)\<close>.\<close>

definition parse_uint31 :: "string \<Rightarrow> nat option" where
  "parse_uint31 s =
     (if s \<noteq> [] \<and> list_all is_digit s \<and> digits_val s < 2 ^ 31 then Some (digits_val s) else None)"

definition parseShardDurable :: "string \<Rightarrow> string \<Rightarrow> nat option" where
  "parseShardDurable consumerPrefix name =
     (case cut_prefix (consumerPrefix @ ''-'') name of
        None \<Rightarrow> None
      | Some rest \<Rightarrow>
          (if rest = [] \<or> (length rest > 1 \<and> hd rest = CHR ''0'') then None else parse_uint31 rest))"

definition natsHistorySubjects :: "string \<Rightarrow> string" where
  "natsHistorySubjects pre = pre @ ''.hist.>''"

definition natsHistorySubject :: "string \<Rightarrow> Topic \<Rightarrow> tenant_error + string" where
  "natsHistorySubject pre t = subject (pre @ ''.hist.'') t"

text \<open>The republish rule of a partition: its source and its destination.\<close>

definition natsRepublish :: "string \<Rightarrow> nat \<Rightarrow> string \<times> string" where
  "natsRepublish pre p = (pre @ ''.ingest.'' @ itoa p @ ''.*.>'', natsHistorySubjects pre)"

definition natsDLQSubjects :: "string \<Rightarrow> string" where
  "natsDLQSubjects pre = pre @ ''.dlq.>''"

text \<open>The subject among \<open>n\<close> partitions of \<open>v\<close> shards, and the partition; \<open>None\<close> is a route that does not end.\<close>

definition natsIngestSubject :: "string \<Rightarrow> int \<Rightarrow> int \<Rightarrow> Topic \<Rightarrow> ((tenant_error + string) \<times> int) option" where
  "natsIngestSubject pre n v t =
     (case natsRoute t n v of
        None \<Rightarrow> None
      | Some (p, s) \<Rightarrow> Some (subject (pre @ ''.ingest.'' @ itoa (nat p) @ ''.'' @ itoa (nat s) @ ''.'') t, p))"

definition natsDLQSubject :: "string \<Rightarrow> Topic \<Rightarrow> tenant_error + string" where
  "natsDLQSubject pre t = subject (pre @ ''.dlq.'') t"

text \<open>One decimal token cut off the front.\<close>

definition cut_number :: "string \<Rightarrow> string option" where
  "cut_number rest =
     (case cut_byte (CHR ''.'') rest of (n, rest', ok) \<Rightarrow>
        (if \<not> ok then None else case parse_uint31 n of None \<Rightarrow> None | Some _ \<Rightarrow> Some rest'))"

definition non_empty :: "string \<Rightarrow> string option" where
  "non_empty s = (if s = [] then None else Some s)"

definition natsTopicKey :: "string \<Rightarrow> string \<Rightarrow> string option" where
  "natsTopicKey pre subj =
     (case cut_prefix (pre @ ''.'') subj of
        None \<Rightarrow> None
      | Some rest \<Rightarrow>
          (case cut_prefix ''dlq.'' rest of
             Some key \<Rightarrow> non_empty key
           | None \<Rightarrow>
               (case cut_prefix ''hist.'' rest of
                  Some key \<Rightarrow> non_empty key
                | None \<Rightarrow>
                    (case cut_prefix ''ingest.'' rest of
                       None \<Rightarrow> None
                     | Some rest \<Rightarrow> Option.bind (Option.bind (cut_number rest) cut_number) non_empty))))"

section \<open>Parked messages per table\<close>

text \<open>Counts are \<^verbatim>\<open>uint64\<close> and wrap.\<close>

definition deadLetterTables :: "(string \<times> 64 word) list \<Rightarrow> string \<Rightarrow> string \<Rightarrow> (string \<rightharpoonup> 64 word)" where
  "deadLetterTables subjects pre table =
     foldl (\<lambda>tables (subj, n).
        (let t = parseTopicKey (topicKey pre subj) in
         if table \<noteq> '''' \<and> Table t \<noteq> table then tables
         else tables(Table t \<mapsto> (case tables (Table t) of Some m \<Rightarrow> m | None \<Rightarrow> 0) + n)))
       Map.empty subjects"

section \<open>Topic keys are a codec\<close>

lemma topic_key_eq:
  "topic_key t = Tenant t @ CHR ''.'' # join ''.'' (map Escape (if Scope t = '''' then [Table t] else [Table t, Scope t]))"
  by (simp add: topic_key_def append_join_eq)

lemma tenant_token: "tenant_Parse s = Inr t \<Longrightarrow> CHR ''.'' \<notin> set s \<and> t = s"
  using tenant_no_sep [of s t "CHR ''.''"] by (auto simp: tenant_Parse_Inr)

lemma parse_key:
  assumes "tenant_Parse (Tenant t) = Inr tid"
  shows "parseTopicKey (topic_key t) = t"
proof -
  let ?fs = "if Scope t = '''' then [Table t] else [Table t, Scope t]"
  have fs: "?fs \<noteq> []" by simp
  have tid: "CHR ''.'' \<notin> set (Tenant t)" "tid = Tenant t" using tenant_token [OF assms] by auto
  have sp: "Split (join ''.'' (map Escape ?fs)) (CHR ''.'') = Inr (Inr ?fs)"
    unfolding Split_def keyenc.split_fields [OF sep_chars(1) fs] unescape_all_Escape by simp
  have "cut_byte (CHR ''.'') (topic_key t) = (Tenant t, join ''.'' (map Escape ?fs), True)"
    unfolding topic_key_eq by (rule cut_append [OF tid(1)])
  then show ?thesis using assms sp tid by (simp add: parseTopicKey_def)
qed

lemma key_inject:
  assumes "tenant_Parse (Tenant t) = Inr a" "tenant_Parse (Tenant t') = Inr b" "topic_key t = topic_key t'"
  shows "t = t'"
  by (metis parse_key assms)

lemma key_not_Nil: "topic_key t \<noteq> []"
  by (simp add: topic_key_eq)

lemma subject_Inr: "subject pre t = Inr s \<longleftrightarrow> (\<exists>tid. tenant_Parse (Tenant t) = Inr tid) \<and> s = pre @ topic_key t"
  by (auto simp: subject_def split: sum.splits)

lemma cut_number_itoa: "n < 2 ^ 31 \<Longrightarrow> cut_number (itoa n @ CHR ''.'' # r) = Some r"
proof -
  have "CHR ''.'' \<notin> set (itoa n)" using itoa_digit_set [of "CHR ''.''" n] by auto
  then show "n < 2 ^ 31 \<Longrightarrow> ?thesis"
    by (simp add: cut_number_def cut_append parse_uint31_def)
qed

lemma natsTopicKey_kinds:
  "natsTopicKey pre (pre @ ''.hist.'' @ k) = non_empty k"
  "natsTopicKey pre (pre @ ''.dlq.'' @ k) = non_empty k"
  "p < 2 ^ 31 \<Longrightarrow> s < 2 ^ 31 \<Longrightarrow>
   natsTopicKey pre (pre @ ''.ingest.'' @ itoa p @ ''.'' @ itoa s @ ''.'' @ k) = non_empty k"
proof -
  have c: "cut_prefix (pre @ ''.'') (pre @ CHR ''.'' # r) = Some r" for r by simp
  show "natsTopicKey pre (pre @ ''.hist.'' @ k) = non_empty k"
    using c [of "''hist.'' @ k"] by (simp add: natsTopicKey_def cut_prefix_def)
  show "natsTopicKey pre (pre @ ''.dlq.'' @ k) = non_empty k"
    using c [of "''dlq.'' @ k"] by (simp add: natsTopicKey_def cut_prefix_def)
  show "natsTopicKey pre (pre @ ''.ingest.'' @ itoa p @ ''.'' @ itoa s @ ''.'' @ k) = non_empty k"
    if "p < 2 ^ 31" "s < 2 ^ 31"
    using c [of "''ingest.'' @ itoa p @ ''.'' @ itoa s @ ''.'' @ k"] that
    by (simp add: natsTopicKey_def cut_prefix_def cut_number_itoa)
qed


lemma nat_itoa_bound: "0 \<le> p \<Longrightarrow> p < n \<Longrightarrow> n \<le> 2 ^ 31 \<Longrightarrow> nat p < 2 ^ 31"
  by (simp add: nat_less_iff)

lemma natsRoute_total:
  assumes "0 < n" "n \<le> 2 ^ 31" "0 < v" "v \<le> 2 ^ 31"
  obtains p s where "natsRoute t n v = Some (p, s)" "0 \<le> p" "p < n" "0 \<le> s" "s < v"
proof -
  obtain p s where "Jump (fnv64a (Tenant t @ ''.'' @ Escape (Table t))) n = Some p" "0 \<le> p" "p < n"
      "Jump (Mix (fnv64a (Tenant t @ ''.'' @ Escape (Table t)))) v = Some s" "0 \<le> s" "s < v"
    using Jump_result assms by meson
  then show thesis using that [of p s] by (simp add: natsRoute_def Let_def)
qed

text \<open>C14. Topic addresses are a codec: a topic with a valid tenant is recovered from its embedded
  subject, from its history, dead-letter and ingest subjects on the external broker (whatever the
  partition and shard counts), so two topics never share a subject; its tenant is read back from the key;
  a topic whose tenant is not valid has no subject at all.\<close>

theorem subject_roundtrip:
  assumes "0 < n" "n \<le> 2 ^ 31" "0 < v" "v \<le> 2 ^ 31"
  shows "case tenant_Parse (Tenant t) of
      Inl e \<Rightarrow> subject pre t = Inl e \<and> natsHistorySubject pre t = Inl e \<and> natsDLQSubject pre t = Inl e \<and>
        (\<exists>p. natsIngestSubject pre n v t = Some (Inl e, p))
    | Inr tid \<Rightarrow> keyTenant (topic_key t) = Some tid \<and> parseTopicKey (topic_key t) = t \<and>
        (\<exists>s. subject pre t = Inr s \<and> parseTopicKey (topicKey pre s) = t) \<and>
        (\<exists>s. natsHistorySubject pre t = Inr s \<and> natsTopicKey pre s = Some (topic_key t)) \<and>
        (\<exists>s. natsDLQSubject pre t = Inr s \<and> natsTopicKey pre s = Some (topic_key t)) \<and>
        (\<exists>s p. natsIngestSubject pre n v t = Some (Inr s, p) \<and> 0 \<le> p \<and> p < n \<and>
           prefix (butlast (natsIngestPartition pre (nat p))) s \<and> natsTopicKey pre s = Some (topic_key t))"
proof -
  obtain p s where r: "natsRoute t n v = Some (p, s)" "0 \<le> p" "p < n" "0 \<le> s" "s < v"
    using assms by (rule natsRoute_total)
  then have b: "nat p < 2 ^ 31" "nat s < 2 ^ 31" using assms by (auto intro: nat_itoa_bound)
  have k: "non_empty (topic_key t) = Some (topic_key t)" by (simp add: non_empty_def key_not_Nil)
  show ?thesis
  proof (cases "tenant_Parse (Tenant t)")
    case (Inl e)
    then show ?thesis
      by (simp add: subject_def natsHistorySubject_def natsDLQSubject_def natsIngestSubject_def r)
  next
    case (Inr tid)
    have "cut_byte (CHR ''.'') (topic_key t) =
        (Tenant t, join ''.'' (map Escape (if Scope t = '''' then [Table t] else [Table t, Scope t])), True)"
      unfolding topic_key_eq using tenant_token [OF Inr] by (intro cut_append) auto
    then have "keyTenant (topic_key t) = Some tid" using Inr by (simp add: keyTenant_def)
    moreover have "subject p t = Inr (p @ topic_key t)" for p using Inr by (simp add: subject_def)
    moreover have "natsIngestSubject pre n v t =
        Some (Inr (pre @ ''.ingest.'' @ itoa (nat p) @ ''.'' @ itoa (nat s) @ ''.'' @ topic_key t), p)"
      using Inr by (simp add: natsIngestSubject_def r subject_def)
    moreover have "butlast (natsIngestPartition pre (nat p)) = pre @ ''.ingest.'' @ itoa (nat p) @ ''.''"
      by (simp add: natsIngestPartition_def butlast_append)
    ultimately show ?thesis
      using natsTopicKey_kinds [where k = "topic_key t"] b k Inr parse_key [OF Inr] r
      by (simp add: topicKey_def natsHistorySubject_def natsDLQSubject_def)
  qed
qed

theorem subject_roundtrip_witness:
  "parseTopicKey (topic_key \<lparr>Tenant = ''acme'', Table = ''a.b'', Scope = ''x''\<rparr>) =
     \<lparr>Tenant = ''acme'', Table = ''a.b'', Scope = ''x''\<rparr>"
proof -
  have "tenant_Parse ''acme'' = Inr ''acme''" by code_simp
  then show ?thesis
    using subject_roundtrip [of 1 1 _ "\<lparr>Tenant = ''acme'', Table = ''a.b'', Scope = ''x''\<rparr>"] by simp
qed

end
