(* ===== verification/Cache.thy ===== *)
theory Cache
  imports Keyenc "HOL-Library.Product_Lexorder"
begin

text \<open>
  The in-process query cache: the invalidation index (\<^verbatim>\<open>internal/cache/version_manager.go\<close>), the
  operations of \<^verbatim>\<open>LocalCache\<close> (\<^verbatim>\<open>local.go\<close>) and the time-to-live rule (\<^verbatim>\<open>cache.go\<close>). Counters are
  64-bit words. The pool behind \<^verbatim>\<open>LocalCache\<close> (Ristretto) is an argument of the operations; of it the
  theorems use only that it answers a key with a value that was stored under that key.
\<close>

type_synonym uint64 = "64 word"

section \<open>The version index\<close>

record Namespace =
  Tenant :: string
  Table :: string
  Scope :: string

record tableVersions =
  version :: uint64
  scopes :: "string \<rightharpoonup> uint64"

record tenantVersions =
  gen :: uint64
  tables :: "string \<rightharpoonup> tableVersions"

record VersionManager =
  tenants :: "string \<rightharpoonup> tenantVersions"
  lastGen :: uint64

definition NewVersionManager :: VersionManager where
  "NewVersionManager = \<lparr>tenants = Map.empty, lastGen = 0\<rparr>"

definition newTenantLocked :: "string \<Rightarrow> VersionManager \<Rightarrow> tenantVersions \<times> VersionManager" where
  "newTenantLocked tid vm =
     (let g = lastGen vm + 1; tv = \<lparr>gen = g, tables = Map.empty\<rparr> in
      (tv, vm\<lparr>lastGen := g, tenants := (tenants vm)(tid \<mapsto> tv)\<rparr>))"

text \<open>The closure \<^verbatim>\<open>index\<close> of \<^verbatim>\<open>queryKeyLocked\<close>.\<close>

definition index :: "bool \<Rightarrow> string \<Rightarrow> VersionManager \<Rightarrow> (tenantVersions \<times> VersionManager) option" where
  "index create tid vm =
     (case tenants vm tid of
        Some tv \<Rightarrow> Some (tv, vm)
      | None \<Rightarrow> (if create then Some (newTenantLocked tid vm) else None))"

text \<open>A missing scope or table reads as 0.\<close>

definition scope_version :: "tableVersions \<Rightarrow> string \<Rightarrow> uint64" where
  "scope_version t s = (case scopes t s of Some v \<Rightarrow> v | None \<Rightarrow> 0)"

definition dep_versions :: "tenantVersions \<Rightarrow> Namespace \<Rightarrow> uint64 \<times> uint64" where
  "dep_versions tv d =
     (case tables tv (Table d) of None \<Rightarrow> (0, 0) | Some t \<Rightarrow> (version t, scope_version t (Scope d)))"

definition FormatUint :: "uint64 \<Rightarrow> string" where
  "FormatUint w = itoa (unat w)"

definition dep_seg :: "tenantVersions \<Rightarrow> Namespace \<Rightarrow> string" where
  "dep_seg tv d =
     (case dep_versions tv d of (table, scope) \<Rightarrow>
        append_join [] (CHR ''.'')
          [Tenant d, FormatUint (gen tv), Table d, FormatUint table, Scope d, FormatUint scope])"

fun dep_segs :: "bool \<Rightarrow> Namespace list \<Rightarrow> VersionManager \<Rightarrow> (string list \<times> VersionManager) option" where
  "dep_segs create [] vm = Some ([], vm)"
| "dep_segs create (d # ds) vm =
     (case index create (Tenant d) vm of
        None \<Rightarrow> None
      | Some (tv, vm) \<Rightarrow>
          (case dep_segs create ds vm of
             None \<Rightarrow> None
           | Some (segs, vm) \<Rightarrow> Some (dep_seg tv d # segs, vm)))"

definition queryKeyLocked ::
  "bool \<Rightarrow> string \<Rightarrow> string \<Rightarrow> Namespace list \<Rightarrow> VersionManager \<Rightarrow> (string \<times> VersionManager) option" where
  "queryKeyLocked create tid sha deps vm =
     (case index create tid vm of
        None \<Rightarrow> None
      | Some (own, vm) \<Rightarrow>
          (case dep_segs create deps vm of
             None \<Rightarrow> None
           | Some (segs, vm) \<Rightarrow>
               Some (Escape sha @ ''|'' @ append_join [] (CHR ''.'') [tid, FormatUint (gen own)] @ ''|'' @
                 join ''|'' (sort segs), vm)))"

text \<open>The key under the read lock, or, when a tenant has no index yet, under the write lock with its
  creation; the first attempt changes nothing.\<close>

definition QueryKey :: "string \<Rightarrow> string \<Rightarrow> Namespace list \<Rightarrow> VersionManager \<Rightarrow> string \<times> VersionManager" where
  "QueryKey tid sha deps vm =
     (case queryKeyLocked False tid sha deps vm of
        Some (key, _) \<Rightarrow> (key, vm)
      | None \<Rightarrow>
          (case queryKeyLocked True tid sha deps vm of Some r \<Rightarrow> r | None \<Rightarrow> ([], vm)))"

text \<open>The table entry a bump writes to; \<open>put_table\<close> is the write through the pointer.\<close>

definition tableLocked :: "string \<Rightarrow> string \<Rightarrow> VersionManager \<Rightarrow> tableVersions option" where
  "tableLocked tid table vm =
     (case tenants vm tid of
        None \<Rightarrow> None
      | Some tv \<Rightarrow> Some (case tables tv table of Some t \<Rightarrow> t | None \<Rightarrow> \<lparr>version = 0, scopes = Map.empty\<rparr>))"

definition put_table :: "string \<Rightarrow> string \<Rightarrow> tableVersions \<Rightarrow> VersionManager \<Rightarrow> VersionManager" where
  "put_table tid table t vm =
     (case tenants vm tid of
        None \<Rightarrow> vm
      | Some tv \<Rightarrow> vm\<lparr>tenants := (tenants vm)(tid \<mapsto> tv\<lparr>tables := (tables tv)(table \<mapsto> t)\<rparr>)\<rparr>)"

definition BumpTable :: "string \<Rightarrow> string \<Rightarrow> VersionManager \<Rightarrow> VersionManager" where
  "BumpTable tid table vm =
     (case tableLocked tid table vm of
        None \<Rightarrow> vm
      | Some t \<Rightarrow> put_table tid table (t\<lparr>version := version t + 1, scopes := Map.empty\<rparr>) vm)"

definition bump_scope :: "string \<Rightarrow> tableVersions \<Rightarrow> tableVersions" where
  "bump_scope s t = t\<lparr>scopes := (scopes t)(s \<mapsto> scope_version t s + 1)\<rparr>"

definition BumpNamespace :: "Namespace \<Rightarrow> VersionManager \<Rightarrow> VersionManager" where
  "BumpNamespace ns vm =
     (case tableLocked (Tenant ns) (Table ns) vm of
        None \<Rightarrow> vm
      | Some t \<Rightarrow>
          (let t = bump_scope (Scope ns) t;
               t = (if Scope ns \<noteq> '''' then bump_scope '''' t else t) in
           put_table (Tenant ns) (Table ns) t vm))"

definition BumpTenant :: "string \<Rightarrow> VersionManager \<Rightarrow> VersionManager" where
  "BumpTenant tid vm = vm\<lparr>tenants := (tenants vm)(tid := None)\<rparr>"

definition Prune :: "(string \<Rightarrow> bool) \<Rightarrow> VersionManager \<Rightarrow> VersionManager" where
  "Prune keep vm = vm\<lparr>tenants := (\<lambda>tid. if keep tid then tenants vm tid else None)\<rparr>"

section \<open>The local cache\<close>

record Entry =
  Value :: bytes
  TTL :: int

record Snapshot =
  key :: string

datatype cache_error = ForeignDependency string string

record LocalCache =
  maxCost :: int
  versionManager :: VersionManager

definition NewLocal :: "int \<Rightarrow> LocalCache" where
  "NewLocal cost = \<lparr>maxCost = cost, versionManager = NewVersionManager\<rparr>"

text \<open>\<open>get\<close> and \<open>getTTL\<close> are the pool's \<^verbatim>\<open>Get\<close> and \<^verbatim>\<open>GetTTL\<close>; a miss is \<open>None\<close>, an error has the zero
  snapshot.\<close>

definition Lookup ::
  "(string \<Rightarrow> bytes option) \<Rightarrow> (string \<Rightarrow> int) \<Rightarrow> LocalCache \<Rightarrow> string \<Rightarrow> string \<Rightarrow> Namespace list \<Rightarrow>
     (cache_error + Entry option) \<times> Snapshot \<times> LocalCache" where
  "Lookup get getTTL l tid sha deps =
     (case List.find (\<lambda>d. Tenant d \<noteq> tid) deps of
        Some d \<Rightarrow> (Inl (ForeignDependency (Tenant d) tid), \<lparr>key = ''''\<rparr>, l)
      | None \<Rightarrow>
          (case QueryKey tid sha deps (versionManager l) of (k, vm) \<Rightarrow>
             (Inr (case get k of None \<Rightarrow> None | Some v \<Rightarrow> Some \<lparr>Value = v, TTL = getTTL k\<rparr>),
              \<lparr>key = k\<rparr>, l\<lparr>versionManager := vm\<rparr>)))"

text \<open>\<^verbatim>\<open>Set\<close>: the call it makes to the pool (key, value, cost, ttl), if any.\<close>

definition Set_call :: "LocalCache \<Rightarrow> Snapshot \<Rightarrow> bytes \<Rightarrow> int \<Rightarrow> (string \<times> bytes \<times> int \<times> int) option" where
  "Set_call l snap v ttl =
     (if key snap = '''' \<or> ttl \<le> 0 \<or> int (length v) > maxCost l then None
      else Some (key snap, v, int (length v), ttl))"

definition bump_namespace :: "Namespace \<Rightarrow> VersionManager \<Rightarrow> VersionManager" where
  "bump_namespace ns vm = (if Scope ns = '''' then BumpTable (Tenant ns) (Table ns) vm else BumpNamespace ns vm)"

definition Invalidate :: "Namespace list \<Rightarrow> LocalCache \<Rightarrow> nat \<times> LocalCache" where
  "Invalidate nss l = (length nss, l\<lparr>versionManager := fold bump_namespace nss (versionManager l)\<rparr>)"

definition InvalidateTenant :: "string \<Rightarrow> LocalCache \<Rightarrow> LocalCache" where
  "InvalidateTenant tid l = l\<lparr>versionManager := BumpTenant tid (versionManager l)\<rparr>"

definition local_Prune :: "(string \<Rightarrow> bool) \<Rightarrow> LocalCache \<Rightarrow> LocalCache" where
  "local_Prune served l = l\<lparr>versionManager := Prune served (versionManager l)\<rparr>"

section \<open>Time to live\<close>

text \<open>Durations are \<^verbatim>\<open>int64\<close> nanoseconds; the product wraps.\<close>

definition QueryTimeToTTL :: "int \<Rightarrow> int" where
  "QueryTimeToTTL queryTime =
     (let ttl = wrap64 (queryTime * 1000); minTTL = 10 * 10 ^ 9; maxTTL = 3600 * 10 ^ 9 in
      if ttl < minTTL then minTTL else if ttl > maxTTL then maxTTL else ttl)"


section \<open>Operations of the index as data\<close>

datatype vm_op =
    OpKey string string "Namespace list"
  | OpTable string string
  | OpNamespace Namespace
  | OpTenant string
  | OpPrune "string \<Rightarrow> bool"

fun apply_op :: "vm_op \<Rightarrow> VersionManager \<Rightarrow> VersionManager" where
  "apply_op (OpKey tid sha deps) vm = snd (QueryKey tid sha deps vm)"
| "apply_op (OpTable tid table) vm = BumpTable tid table vm"
| "apply_op (OpNamespace ns) vm = BumpNamespace ns vm"
| "apply_op (OpTenant tid) vm = BumpTenant tid vm"
| "apply_op (OpPrune keep) vm = Prune keep vm"

text \<open>Which operations are meant to orphan a result that reads a namespace, or any result of a tenant.\<close>

fun drops_tenant :: "vm_op \<Rightarrow> string \<Rightarrow> bool" where
  "drops_tenant (OpTenant tid) t \<longleftrightarrow> t = tid"
| "drops_tenant (OpPrune keep) t \<longleftrightarrow> \<not> keep t"
| "drops_tenant _ _ \<longleftrightarrow> False"

fun touches :: "vm_op \<Rightarrow> Namespace \<Rightarrow> bool" where
  "touches (OpTable tid table) d \<longleftrightarrow> Tenant d = tid \<and> Table d = table"
| "touches (OpNamespace ns) d \<longleftrightarrow>
     Tenant d = Tenant ns \<and> Table d = Table ns \<and> (Scope d = Scope ns \<or> Scope d = '''')"
| "touches op d \<longleftrightarrow> drops_tenant op (Tenant d)"

text \<open>How far a counter can move in one operation.\<close>

fun op_cost :: "vm_op \<Rightarrow> nat" where
  "op_cost (OpKey tid sha deps) = Suc (length deps)"
| "op_cost _ = 1"

section \<open>What a key folds\<close>

text \<open>The versions a key of the current state folds for a namespace; a tenant without an index gets the
  next generation.\<close>

definition tenant_gen :: "VersionManager \<Rightarrow> string \<Rightarrow> nat" where
  "tenant_gen vm tid = (case tenants vm tid of Some tv \<Rightarrow> unat (gen tv) | None \<Rightarrow> Suc (unat (lastGen vm)))"

definition folded :: "VersionManager \<Rightarrow> Namespace \<Rightarrow> nat \<times> nat \<times> nat" where
  "folded vm d =
     (tenant_gen vm (Tenant d),
      case tenants vm (Tenant d) of
        None \<Rightarrow> (0, 0)
      | Some tv \<Rightarrow> (case dep_versions tv d of (t, s) \<Rightarrow> (unat t, unat s)))"

definition present :: "VersionManager \<Rightarrow> string \<Rightarrow> bool" where
  "present vm tid \<longleftrightarrow> tenants vm tid \<noteq> None"

text \<open>No counter is past \<open>n\<close>.\<close>

definition below :: "nat \<Rightarrow> VersionManager \<Rightarrow> bool" where
  "below n vm \<longleftrightarrow> unat (lastGen vm) \<le> n \<and>
     (\<forall>tid tv. tenants vm tid = Some tv \<longrightarrow> gen tv \<le> lastGen vm \<and>
        (\<forall>table t. tables tv table = Some t \<longrightarrow> unat (version t) \<le> n \<and> (\<forall>s. unat (scope_version t s) \<le> n)))"

lemma unat_Suc: "unat (w :: uint64) < 2 ^ 64 - 1 \<Longrightarrow> unat (w + 1) = Suc (unat w)"
  using unat_add_lem [of w 1] by simp


lemma below_D:
  assumes "below n vm"
  shows "unat (lastGen vm) \<le> n"
    and "tenants vm tid = Some tv \<Longrightarrow> unat (gen tv) \<le> unat (lastGen vm)"
    and "tenants vm tid = Some tv \<Longrightarrow> tables tv table = Some t \<Longrightarrow> unat (version t) \<le> n"
    and "tenants vm tid = Some tv \<Longrightarrow> tables tv table = Some t \<Longrightarrow> unat (scope_version t s) \<le> n"
  using assms by (auto simp: below_def word_le_nat_alt)

lemma below_mono: "below m vm \<Longrightarrow> m \<le> n \<Longrightarrow> below n vm"
  unfolding below_def by (meson order_trans)

lemma below_new: "below 0 NewVersionManager"
  by (simp add: below_def NewVersionManager_def)

subsection \<open>Creating a tenant's index\<close>

lemma newTenant_props:
  assumes "below n vm" "n < 2 ^ 64 - 1" "tenants vm tid = None" "newTenantLocked tid vm = (tv, vm')"
  shows "tenants vm' tid = Some tv" "unat (gen tv) = Suc (unat (lastGen vm))" "tables tv = Map.empty"
    "unat (lastGen vm') = Suc (unat (lastGen vm))" "below (Suc n) vm'"
    "t \<noteq> tid \<Longrightarrow> tenants vm' t = tenants vm t"
proof -
  have l: "unat (lastGen vm + 1) = Suc (unat (lastGen vm))"
    using below_D(1) [OF assms(1)] assms(2) by (intro unat_Suc) simp
  show "tenants vm' tid = Some tv" "unat (gen tv) = Suc (unat (lastGen vm))" "tables tv = Map.empty"
    "unat (lastGen vm') = Suc (unat (lastGen vm))" "t \<noteq> tid \<Longrightarrow> tenants vm' t = tenants vm t"
    using assms(4) l by (auto simp: newTenantLocked_def Let_def)
  have vm': "vm' = vm\<lparr>lastGen := lastGen vm + 1, tenants := (tenants vm)(tid \<mapsto> \<lparr>gen = lastGen vm + 1, tables = Map.empty\<rparr>)\<rparr>"
    using assms(4) by (auto simp: newTenantLocked_def Let_def)
  show "below (Suc n) vm'"
    unfolding below_def vm' word_le_nat_alt
    using l below_D(1) [OF assms(1)] below_D(2-4) [OF assms(1), THEN le_SucI] by (simp add: l)
qed

text \<open>\<open>grows vm vm'\<close>: tenants were created, and nothing else happened.\<close>

definition grows :: "VersionManager \<Rightarrow> VersionManager \<Rightarrow> bool" where
  "grows vm vm' \<longleftrightarrow> unat (lastGen vm) \<le> unat (lastGen vm') \<and>
     (\<forall>tid tv. tenants vm tid = Some tv \<longrightarrow> tenants vm' tid = Some tv) \<and>
     (\<forall>tid tv. tenants vm tid = None \<longrightarrow> tenants vm' tid = Some tv \<longrightarrow>
        tables tv = Map.empty \<and> unat (lastGen vm) < unat (gen tv))"

lemma grows_refl: "grows vm vm"
  by (simp add: grows_def)

lemma grows_trans: "grows a b \<Longrightarrow> grows b c \<Longrightarrow> grows a c"
  unfolding grows_def
  by (intro conjI allI impI; elim conjE) (auto, metis not_Some_eq, metis not_Some_eq le_less_trans option.inject)

lemma index_True:
  assumes "below n vm" "n < 2 ^ 64 - 1"
  obtains tv vm' where "index True tid vm = Some (tv, vm')" "tenants vm' tid = Some tv"
    "below (Suc n) vm'" "grows vm vm'"
proof (cases "tenants vm tid")
  case None
  obtain tv vm' where e: "newTenantLocked tid vm = (tv, vm')" by fastforce
  note N = newTenant_props [OF assms None e]
  have "grows vm vm'" unfolding grows_def using N None by (metis option.discI le_SucI order_refl lessI option.inject)
  then show thesis using that [of tv vm'] None N e by (simp add: index_def)
next
  case (Some tv)
  then show thesis using that [of tv vm] below_mono [OF assms(1)] by (simp add: index_def grows_refl)
qed

lemma dep_segs_True:
  assumes "below n vm" "n + length deps < 2 ^ 64"
  shows "\<exists>vm'. dep_segs True deps vm =
      Some (map (\<lambda>d. dep_seg (the (tenants vm' (Tenant d))) d) deps, vm') \<and>
    below (n + length deps) vm' \<and> grows vm vm' \<and> (\<forall>d \<in> set deps. present vm' (Tenant d))"
  using assms
proof (induction deps arbitrary: vm n)
  case Nil
  then show ?case by (auto simp: grows_refl)
next
  case (Cons d ds)
  have "n < 2 ^ 64 - 1" using Cons.prems by simp
  then obtain tv vm1 where i: "index True (Tenant d) vm = Some (tv, vm1)" "tenants vm1 (Tenant d) = Some tv"
    and b: "below (Suc n) vm1" and g: "grows vm vm1"
    by (rule index_True [OF Cons.prems(1)])
  from Cons.IH [OF b] Cons.prems obtain vm2 where
    s: "dep_segs True ds vm1 = Some (map (\<lambda>d. dep_seg (the (tenants vm2 (Tenant d))) d) ds, vm2)"
    and r: "below (Suc n + length ds) vm2" "grows vm1 vm2" "\<forall>d \<in> set ds. present vm2 (Tenant d)" by auto
  have "tenants vm2 (Tenant d) = Some tv" using i(2) r(2) by (simp add: grows_def)
  then show ?case using i s r grows_trans [OF g r(2)] by (auto simp: present_def)
qed

lemma index_False: "index False tid vm = (case tenants vm tid of Some tv \<Rightarrow> Some (tv, vm) | None \<Rightarrow> None)"
  by (simp add: index_def)

lemma dep_segs_False:
  "dep_segs False deps vm =
     (if \<forall>d \<in> set deps. present vm (Tenant d)
      then Some (map (\<lambda>d. dep_seg (the (tenants vm (Tenant d))) d) deps, vm) else None)"
  by (induction deps) (auto simp: index_False present_def split: option.splits)

text \<open>The text of a key from the state it was read in.\<close>

definition key_text :: "VersionManager \<Rightarrow> string \<Rightarrow> string \<Rightarrow> Namespace list \<Rightarrow> string" where
  "key_text vm tid sha deps =
     Escape sha @ ''|'' @ append_join [] (CHR ''.'') [tid, FormatUint (gen (the (tenants vm tid)))] @ ''|'' @
       join ''|'' (sort (map (\<lambda>d. dep_seg (the (tenants vm (Tenant d))) d) deps))"

lemma QueryKey_text:
  assumes "below n vm" "n + Suc (length deps) < 2 ^ 64"
  obtains vm' where "QueryKey tid sha deps vm = (key_text vm' tid sha deps, vm')"
    "below (n + Suc (length deps)) vm'" "grows vm vm'" "present vm' tid" "\<forall>d \<in> set deps. present vm' (Tenant d)"
proof (cases "present vm tid \<and> (\<forall>d \<in> set deps. present vm (Tenant d))")
  case True
  then have "QueryKey tid sha deps vm = (key_text vm tid sha deps, vm)"
    by (auto simp: QueryKey_def queryKeyLocked_def index_False dep_segs_False key_text_def present_def)
  then show thesis using that [of vm] True below_mono [OF assms(1)] by (simp add: grows_refl)
next
  case False
  then have none: "queryKeyLocked False tid sha deps vm = None"
    by (auto simp: queryKeyLocked_def index_False dep_segs_False present_def split: option.splits)
  have "n < 2 ^ 64 - 1" using assms by simp
  then obtain own vm1 where i: "index True tid vm = Some (own, vm1)" "tenants vm1 tid = Some own"
    and b: "below (Suc n) vm1" and g: "grows vm vm1"
    by (rule index_True [OF assms(1)])
  from dep_segs_True [OF b] assms(2) obtain vm2 where
    s: "dep_segs True deps vm1 = Some (map (\<lambda>d. dep_seg (the (tenants vm2 (Tenant d))) d) deps, vm2)"
    and r: "below (Suc n + length deps) vm2" "grows vm1 vm2" "\<forall>d \<in> set deps. present vm2 (Tenant d)" by auto
  have own: "tenants vm2 tid = Some own" using i(2) r(2) by (simp add: grows_def)
  then have "QueryKey tid sha deps vm = (key_text vm2 tid sha deps, vm2)"
    using none i s by (simp add: QueryKey_def queryKeyLocked_def key_text_def)
  then show thesis using that [of vm2] r own grows_trans [OF g r(2)] by (simp add: present_def)
qed


subsection \<open>Keys determine what they fold\<close>

definition seg_of :: "Namespace \<times> nat \<times> nat \<times> nat \<Rightarrow> string" where
  "seg_of = (\<lambda>(d, g, t, s). join ''.'' (map Escape [Tenant d, itoa g, Table d, itoa t, Scope d, itoa s]))"

definition key_form :: "string \<Rightarrow> string \<Rightarrow> nat \<Rightarrow> (Namespace \<times> nat \<times> nat \<times> nat) list \<Rightarrow> string" where
  "key_form sha tid g xs =
     Escape sha @ CHR ''|'' # join ''.'' (map Escape [tid, itoa g]) @ CHR ''|'' # join ''|'' (sort (map seg_of xs))"

lemma seg_of_inject: "seg_of x = seg_of y \<longleftrightarrow> x = y"
proof
  assume "seg_of x = seg_of y"
  then show "x = y"
    by (cases x; cases y)
      (auto simp: seg_of_def keyenc.fields_inject [of "CHR ''.''"] simp del: list.map intro: Namespace.equality)
qed simp

lemma bar_free: "CHR ''|'' \<notin> set (Escape s)" "CHR ''|'' \<notin> set (join ''.'' (map Escape fs))" "CHR ''|'' \<notin> set (seg_of x)"
  by (auto simp: keyenc.esc_no_sep keyenc.fields_avoid seg_of_def simp del: list.map split: prod.splits)

lemma seg_of_not_Nil: "seg_of x \<noteq> []"
  by (auto simp: seg_of_def split: prod.splits)

lemma join_bar_inject:
  assumes "\<forall>x \<in> set xs. CHR ''|'' \<notin> set x \<and> x \<noteq> []" "\<forall>y \<in> set ys. CHR ''|'' \<notin> set y \<and> y \<noteq> []"
    "join ''|'' xs = join ''|'' ys"
  shows "xs = ys"
proof -
  have nil: "join ''|'' zs = [] \<longleftrightarrow> zs = []" if "\<forall>z \<in> set zs. z \<noteq> []" for zs
    using that by (cases "(''|'', zs)" rule: join.cases) auto
  then show ?thesis
    using split_at_join [of xs "CHR ''|''"] split_at_join [of ys "CHR ''|''"] assms by (metis (no_types))
qed

lemma key_form_inject:
  "key_form sha tid g xs = key_form sha' tid' g' ys \<longleftrightarrow> sha = sha' \<and> tid = tid' \<and> g = g' \<and> mset xs = mset ys"
proof
  assume e: "key_form sha tid g xs = key_form sha' tid' g' ys"
  then have s: "Escape sha = Escape sha'"
    and o: "join ''.'' (map Escape [tid, itoa g]) = join ''.'' (map Escape [tid', itoa g'])"
    and d: "join ''|'' (sort (map seg_of xs)) = join ''|'' (sort (map seg_of ys))"
    unfolding key_form_def using bar_free by (simp_all add: append_first_sep del: list.map)
  have "sort (map seg_of xs) = sort (map seg_of ys)"
    by (rule join_bar_inject [OF _ _ d]) (auto simp: bar_free seg_of_not_Nil)
  then have "mset (map seg_of xs) = mset (map seg_of ys)" by (metis mset_sort)
  then have "image_mset seg_of (mset xs) = image_mset seg_of (mset ys)" by simp
  moreover have "inj (image_mset seg_of)" by (rule multiset.inj_map) (simp add: inj_def seg_of_inject)
  ultimately have "mset xs = mset ys" by (simp add: inj_def)
  with s o show "sha = sha' \<and> tid = tid' \<and> g = g' \<and> mset xs = mset ys"
    using keyenc.fields_inject [of "CHR ''.''" "[tid, itoa g]" "[tid', itoa g']"] by (simp add: keyenc.esc_inject del: list.map)
next
  assume "sha = sha' \<and> tid = tid' \<and> g = g' \<and> mset xs = mset ys"
  moreover from this have "sort (map seg_of xs) = sort (map seg_of ys)"
    by (intro properties_for_sort) simp_all
  ultimately show "key_form sha tid g xs = key_form sha' tid' g' ys" by (simp add: key_form_def)
qed

lemma dep_seg_folded:
  "present vm (Tenant d) \<Longrightarrow> dep_seg (the (tenants vm (Tenant d))) d = seg_of (d, folded vm d)"
  by (auto simp: present_def dep_seg_def seg_of_def folded_def tenant_gen_def append_join_eq FormatUint_def split: prod.splits)

lemma key_text_form:
  assumes "present vm tid" "\<forall>d \<in> set deps. present vm (Tenant d)"
  shows "key_text vm tid sha deps = key_form sha tid (tenant_gen vm tid) (map (\<lambda>d. (d, folded vm d)) deps)"
proof -
  have "map (\<lambda>d. dep_seg (the (tenants vm (Tenant d))) d) deps = map seg_of (map (\<lambda>d. (d, folded vm d)) deps)"
    using assms(2) by (simp add: dep_seg_folded)
  then show ?thesis unfolding key_text_def
    using assms(1) by (auto simp: key_form_def append_join_eq FormatUint_def tenant_gen_def present_def simp del: map_map)
qed

subsection \<open>One operation\<close>

lemma grows_folded:
  assumes "grows vm vm'"
  shows "folded vm d \<le> folded vm' d" "tenant_gen vm t \<le> tenant_gen vm' t"
    "present vm t \<Longrightarrow> present vm' t \<and> tenant_gen vm' t = tenant_gen vm t"
    "present vm (Tenant d) \<Longrightarrow> folded vm' d = folded vm d"
  using assms unfolding grows_def folded_def tenant_gen_def present_def
  by (auto simp: dep_versions_def less_eq_prod_def Suc_le_eq split: option.splits)

lemma put_table_folded:
  assumes "present vm tid"
  shows "folded (put_table tid table t vm) d =
      (if Tenant d = tid \<and> Table d = table then (tenant_gen vm tid, unat (version t), unat (scope_version t (Scope d)))
       else folded vm d)"
    "tenant_gen (put_table tid table t vm) a = tenant_gen vm a" "present (put_table tid table t vm) a = present vm a"
proof -
  obtain tv where "tenants vm tid = Some tv" using assms by (auto simp: present_def)
  then have "put_table tid table t vm = vm\<lparr>tenants := (tenants vm)(tid \<mapsto> tv\<lparr>tables := (tables tv)(table \<mapsto> t)\<rparr>)\<rparr>"
    "tenants vm tid = Some tv" by (simp_all add: put_table_def)
  then show "folded (put_table tid table t vm) d =
      (if Tenant d = tid \<and> Table d = table then (tenant_gen vm tid, unat (version t), unat (scope_version t (Scope d)))
       else folded vm d)"
    "tenant_gen (put_table tid table t vm) a = tenant_gen vm a" "present (put_table tid table t vm) a = present vm a"
    by (auto simp: folded_def tenant_gen_def present_def dep_versions_def split: option.splits)
qed

lemma tableLocked_folded:
  assumes "tableLocked tid table vm = Some t"
  shows "present vm tid"
    "Tenant d = tid \<Longrightarrow> Table d = table \<Longrightarrow>
       folded vm d = (tenant_gen vm tid, unat (version t), unat (scope_version t (Scope d)))"
    "below n vm \<Longrightarrow> unat (version t) \<le> n \<and> unat (scope_version t s) \<le> n"
proof -
  have new: "scope_version \<lparr>version = 0, scopes = Map.empty\<rparr> s = 0" for s by (simp add: scope_version_def)
  show "present vm tid"
    "Tenant d = tid \<Longrightarrow> Table d = table \<Longrightarrow>
       folded vm d = (tenant_gen vm tid, unat (version t), unat (scope_version t (Scope d)))"
    "below n vm \<Longrightarrow> unat (version t) \<le> n \<and> unat (scope_version t s) \<le> n"
    using assms new below_D(3,4) [of n vm]
    by (auto simp: tableLocked_def folded_def tenant_gen_def present_def dep_versions_def split: option.splits)
qed

lemma put_table_below:
  assumes "below n vm" "n \<le> m" "unat (version t) \<le> m" "\<And>s. unat (scope_version t s) \<le> m"
  shows "below m (put_table tid table t vm)"
  using below_mono [OF assms(1,2)] assms(3,4)
  by (auto simp: put_table_def below_def split: option.splits if_splits)

text \<open>What one operation does to the versions a key would fold.\<close>

definition op_effect :: "vm_op \<Rightarrow> nat \<Rightarrow> VersionManager \<Rightarrow> VersionManager \<Rightarrow> bool" where
  "op_effect op m vm vm' \<longleftrightarrow> below m vm' \<and>
     (\<forall>d. folded vm d \<le> folded vm' d \<and>
        (present vm (Tenant d) \<longrightarrow>
          (if touches op d then folded vm d < folded vm' d else folded vm' d = folded vm d \<and> present vm' (Tenant d)))) \<and>
     (\<forall>t. tenant_gen vm t \<le> tenant_gen vm' t \<and>
        (present vm t \<longrightarrow>
          (if drops_tenant op t then tenant_gen vm t < tenant_gen vm' t else tenant_gen vm' t = tenant_gen vm t \<and> present vm' t)))"


lemma put_table_effect:
  assumes "below n vm" "tableLocked tid table vm = Some t" "below m (put_table tid table t' vm)"
    "\<And>d. Tenant d = tid \<Longrightarrow> Table d = table \<Longrightarrow> touches op d \<Longrightarrow>
       (version t, scope_version t (Scope d)) < (version t', scope_version t' (Scope d))"
    "\<And>d. Tenant d = tid \<Longrightarrow> Table d = table \<Longrightarrow> \<not> touches op d \<Longrightarrow>
       version t' = version t \<and> scope_version t' (Scope d) = scope_version t (Scope d)"
    "\<And>d. touches op d \<Longrightarrow> Tenant d = tid \<and> Table d = table" "\<And>a. \<not> drops_tenant op a"
  shows "op_effect op m vm (put_table tid table t' vm)"
proof -
  note T = tableLocked_folded [OF assms(2)] and P = put_table_folded [OF tableLocked_folded(1) [OF assms(2)]]
  have "folded vm d < folded (put_table tid table t' vm) d" if "touches op d" for d
    using that assms(4,6) T(2) P(1) by (fastforce simp: less_prod_def' word_less_nat_alt)
  moreover have "folded (put_table tid table t' vm) d = folded vm d" if "\<not> touches op d" for d
    using that assms(5) T(2) P(1) by auto
  ultimately show ?thesis using assms(3,7) P(2,3) by (auto simp: op_effect_def intro: less_imp_le)
qed

lemma op_effect_skip:
  assumes "below n vm" "n \<le> m" "\<And>d. touches op d \<Longrightarrow> \<not> present vm (Tenant d)" "\<And>a. \<not> drops_tenant op a"
  shows "op_effect op m vm vm"
  using assms below_mono [OF assms(1,2)] by (auto simp: op_effect_def)

lemma tableLocked_None: "tableLocked tid table vm = None \<longleftrightarrow> \<not> present vm tid"
  by (simp add: tableLocked_def present_def split: option.splits)

lemma BumpTable_effect:
  assumes "below n vm" "n + 1 < 2 ^ 64"
  shows "op_effect (OpTable tid table) (n + 1) vm (BumpTable tid table vm)"
proof (cases "tableLocked tid table vm")
  case None
  then show ?thesis
    using assms tableLocked_None [of tid table vm] by (auto simp: BumpTable_def intro!: op_effect_skip [of n])
next
  case (Some t)
  let ?t = "t\<lparr>version := version t + 1, scopes := Map.empty\<rparr>"
  have "unat (version t) \<le> n" using tableLocked_folded(3) [OF Some assms(1)] by blast
  then have v: "unat (version t + 1) = Suc (unat (version t))" "unat (version t) \<le> n"
    using assms(2) by (simp_all add: unat_Suc)
  then have "below (n + 1) (put_table tid table ?t vm)"
    using assms by (intro put_table_below) (auto simp: scope_version_def)
  then show ?thesis
    using assms Some v
    by (auto simp: BumpTable_def less_prod_def' word_less_nat_alt intro!: put_table_effect)
qed

lemma bump_scope_version: "scope_version (bump_scope s t) a = (if a = s then scope_version t s + 1 else scope_version t a)"
  "version (bump_scope s t) = version t"
  by (simp_all add: bump_scope_def scope_version_def)

lemma BumpNamespace_effect:
  assumes "below n vm" "n + 1 < 2 ^ 64"
  shows "op_effect (OpNamespace ns) (n + 1) vm (BumpNamespace ns vm)"
proof (cases "tableLocked (Tenant ns) (Table ns) vm")
  case None
  then show ?thesis
    using assms tableLocked_None [of "Tenant ns" "Table ns" vm]
    by (auto simp: BumpNamespace_def intro!: op_effect_skip [of n])
next
  case (Some t)
  let ?t = "if Scope ns \<noteq> '''' then bump_scope '''' (bump_scope (Scope ns) t) else bump_scope (Scope ns) t"
  have b: "unat (version t) \<le> n" "unat (scope_version t s) \<le> n" for s
    using tableLocked_folded(3) [OF Some assms(1)] by auto
  have s: "unat (scope_version t s + 1) = Suc (unat (scope_version t s))" for s
    using b(2) [of s] assms(2) by (intro unat_Suc) simp
  have w: "scope_version ?t a = (if a = Scope ns \<or> a = '''' then scope_version t a + 1 else scope_version t a)"
    "version ?t = version t" for a by (auto simp: bump_scope_version)
  have "below (n + 1) (put_table (Tenant ns) (Table ns) ?t vm)"
    using assms(1) b by (intro put_table_below) (auto simp: w s intro: le_SucI)
  then have "op_effect (OpNamespace ns) (n + 1) vm (put_table (Tenant ns) (Table ns) ?t vm)"
    by (intro put_table_effect [OF assms(1) Some]) (auto simp: w less_prod_def' word_less_nat_alt s)
  then show ?thesis by (simp add: BumpNamespace_def Some Let_def)
qed

lemma Prune_effect:
  assumes "below n vm"
  shows "op_effect (OpPrune keep) (n + 1) vm (Prune keep vm)"
  using below_mono [OF assms, of "n + 1"] below_D(2) [OF assms]
  by (auto simp: op_effect_def Prune_def below_def folded_def tenant_gen_def present_def less_prod_def' less_eq_prod_def
      le_imp_less_Suc le_SucI split: option.splits)

lemma BumpTenant_Prune: "BumpTenant tid vm = Prune (\<lambda>t. t \<noteq> tid) vm"
  by (auto simp: BumpTenant_def Prune_def fun_upd_def intro!: arg_cong [where f = "\<lambda>f. vm\<lparr>tenants := f\<rparr>"])

lemma op_effect_cong:
  "op_effect op m vm vm' \<Longrightarrow> touches op = touches op' \<Longrightarrow> drops_tenant op = drops_tenant op' \<Longrightarrow> op_effect op' m vm vm'"
  by (simp add: op_effect_def)

lemma BumpTenant_effect:
  assumes "below n vm"
  shows "op_effect (OpTenant tid) (n + 1) vm (BumpTenant tid vm)"
  unfolding BumpTenant_Prune by (rule op_effect_cong [OF Prune_effect [OF assms]]) (auto simp: fun_eq_iff)

lemma op_step:
  assumes "below n vm" "n + op_cost op < 2 ^ 64"
  shows "op_effect op (n + op_cost op) vm (apply_op op vm)"
proof (cases op)
  case (OpKey tid sha deps)
  then have "n + Suc (length deps) < 2 ^ 64" using assms(2) by simp
  then obtain vm' where "QueryKey tid sha deps vm = (key_text vm' tid sha deps, vm')"
    "below (n + Suc (length deps)) vm'" "grows vm vm'"
    using QueryKey_text [OF assms(1)] by metis
  then show ?thesis using OpKey grows_folded [of vm vm'] by (simp add: op_effect_def)
qed (use assms BumpTable_effect BumpNamespace_effect BumpTenant_effect Prune_effect in auto)


subsection \<open>Runs\<close>

definition run_ops :: "vm_op list \<Rightarrow> VersionManager \<Rightarrow> VersionManager" where
  "run_ops ops vm = fold apply_op ops vm"

lemma run_ops_simps [simp]:
  "run_ops [] vm = vm" "run_ops (op # ops) vm = run_ops ops (apply_op op vm)"
  "run_ops (xs @ ys) vm = run_ops ys (run_ops xs vm)"
  by (simp_all add: run_ops_def)

abbreviation total_cost :: "vm_op list \<Rightarrow> nat" where
  "total_cost ops \<equiv> sum_list (map op_cost ops)"

text \<open>An observation of the state that no operation moves back: once an operation that hits it has run it
  never returns to its old value, and without one it keeps it.\<close>

definition observes :: "(VersionManager \<Rightarrow> 'a::linorder) \<Rightarrow> (VersionManager \<Rightarrow> bool) \<Rightarrow> (vm_op \<Rightarrow> bool) \<Rightarrow> bool" where
  "observes obs here hit \<longleftrightarrow> (\<forall>op n vm. below n vm \<longrightarrow> n + op_cost op < 2 ^ 64 \<longrightarrow>
     obs vm \<le> obs (apply_op op vm) \<and>
     (here vm \<longrightarrow> (if hit op then obs vm < obs (apply_op op vm) else obs (apply_op op vm) = obs vm \<and> here (apply_op op vm))))"

lemma observes_folded: "observes (\<lambda>vm. folded vm d) (\<lambda>vm. present vm (Tenant d)) (\<lambda>op. touches op d)"
  unfolding observes_def using op_step by (fastforce simp: op_effect_def)

lemma observes_tenant_gen: "observes (\<lambda>vm. tenant_gen vm t) (\<lambda>vm. present vm t) (\<lambda>op. drops_tenant op t)"
  unfolding observes_def using op_step by (fastforce simp: op_effect_def)

lemma run_below: "below n vm \<Longrightarrow> n + total_cost ops < 2 ^ 64 \<Longrightarrow> below (n + total_cost ops) (run_ops ops vm)"
proof (induction ops arbitrary: vm n)
  case (Cons op ops)
  then have "below (n + op_cost op) (apply_op op vm)" using op_step [of n vm op] by (simp add: op_effect_def)
  then show ?case using Cons.IH [of "n + op_cost op"] Cons.prems by (simp add: add.assoc)
qed simp

lemma run_mono:
  assumes "observes obs here hit" "below n vm" "n + total_cost ops < 2 ^ 64"
  shows "obs vm \<le> obs (run_ops ops vm)"
  using assms(2-)
proof (induction ops arbitrary: vm n)
  case (Cons op ops)
  have "below (n + op_cost op) (apply_op op vm)" using op_step [of n vm op] Cons.prems by (simp add: op_effect_def)
  then have "obs (apply_op op vm) \<le> obs (run_ops ops (apply_op op vm))"
    using Cons.IH [of "n + op_cost op"] Cons.prems by (simp add: add.assoc)
  moreover have "n + op_cost op < 2 ^ 64" using Cons.prems by simp
  then have "obs vm \<le> obs (apply_op op vm)" using assms(1) Cons.prems unfolding observes_def by blast
  ultimately show ?case by simp
qed simp

lemma run_observed:
  assumes "observes obs here hit" "below n vm" "n + total_cost ops < 2 ^ 64" "here vm"
  shows "(obs (run_ops ops vm) = obs vm \<longleftrightarrow> list_all (\<lambda>op. \<not> hit op) ops) \<and>
    (list_all (\<lambda>op. \<not> hit op) ops \<longrightarrow> here (run_ops ops vm))"
  using assms(2-)
proof (induction ops arbitrary: vm n)
  case (Cons op ops)
  have b: "below (n + op_cost op) (apply_op op vm)" using op_step [of n vm op] Cons.prems by (simp add: op_effect_def)
  have c: "n + op_cost op + total_cost ops < 2 ^ 64" "n + op_cost op < 2 ^ 64" using Cons.prems by (simp_all add: add.assoc)
  then have e: "if hit op then obs vm < obs (apply_op op vm) else obs (apply_op op vm) = obs vm \<and> here (apply_op op vm)"
    using assms(1) Cons.prems unfolding observes_def by blast
  show ?case
  proof (cases "hit op")
    case True
    then have "obs vm < obs (run_ops ops (apply_op op vm))" using e run_mono [OF assms(1) b c(1)] by simp
    then show ?thesis using True by auto
  next
    case False
    with Cons.IH [OF b c(1)] e show ?thesis by simp
  qed
qed simp

text \<open>The same, with keys built for other queries (which create indexes) at the end.\<close>

lemma run_grows_observed:
  assumes "observes obs here hit" "below n vm" "n + total_cost ops < 2 ^ 64" "here vm"
    "obs (run_ops ops vm) \<le> obs z" "here (run_ops ops vm) \<Longrightarrow> obs z = obs (run_ops ops vm)"
  shows "obs z = obs vm \<longleftrightarrow> list_all (\<lambda>op. \<not> hit op) ops"
proof
  assume "obs z = obs vm"
  then have "obs (run_ops ops vm) = obs vm" using run_mono [OF assms(1-3)] assms(5) by simp
  then show "list_all (\<lambda>op. \<not> hit op) ops" using run_observed [OF assms(1-4)] by blast
next
  assume "list_all (\<lambda>op. \<not> hit op) ops"
  then show "obs z = obs vm" using run_observed [OF assms(1-4)] assms(6) by simp
qed

text \<open>Two keys, the second built after further operations, are equal exactly when they are of the same
  query and nothing in between should have orphaned the first.\<close>

lemma key_stable_iff:
  assumes b: "below n vm" and c: "n + Suc (length deps) + total_cost ops + Suc (length deps') < 2 ^ 64"
    and q1: "QueryKey tid sha deps vm = (k1, vm1)" and q2: "QueryKey tid' sha' deps' (run_ops ops vm1) = (k2, vm2)"
  shows "k2 = k1 \<longleftrightarrow> tid' = tid \<and> sha' = sha \<and> mset deps' = mset deps \<and>
    list_all (\<lambda>op. \<not> drops_tenant op tid) ops \<and> (\<forall>d \<in> set deps. list_all (\<lambda>op. \<not> touches op d) ops)"
proof -
  obtain a where a: "QueryKey tid sha deps vm = (key_text a tid sha deps, a)" "below (n + Suc (length deps)) a"
    "present a tid" "\<forall>d \<in> set deps. present a (Tenant d)"
    using QueryKey_text [OF b, of deps tid sha] c by (metis add_lessD1)
  let ?n = "n + Suc (length deps)" and ?r = "run_ops ops a"
  have c': "?n + total_cost ops < 2 ^ 64" using c by simp
  obtain z where z: "QueryKey tid' sha' deps' ?r = (key_text z tid' sha' deps', z)" "grows ?r z"
    "present z tid'" "\<forall>d \<in> set deps'. present z (Tenant d)"
    using QueryKey_text [OF run_below [OF a(2) c'], of deps' tid' sha'] c by metis
  have v: "vm1 = a" "k1 = key_text a tid sha deps" using q1 a(1) by auto
  then have "k2 = key_text z tid' sha' deps'" using q2 z(1) by auto
  then have keys: "k2 = k1 \<longleftrightarrow> sha' = sha \<and> tid' = tid \<and> tenant_gen z tid' = tenant_gen a tid \<and>
      mset (map (\<lambda>d. (d, folded z d)) deps') = mset (map (\<lambda>d. (d, folded a d)) deps)"
    unfolding v by (simp only: key_text_form [OF a(3,4)] key_text_form [OF z(3,4)] key_form_inject)
  have d: "folded z d = folded a d \<longleftrightarrow> list_all (\<lambda>op. \<not> touches op d) ops" if "d \<in> set deps" for d
    by (rule run_grows_observed [OF observes_folded a(2) c']) (use that a(4) grows_folded [OF z(2)] in auto)
  have t: "tenant_gen z tid = tenant_gen a tid \<longleftrightarrow> list_all (\<lambda>op. \<not> drops_tenant op tid) ops"
    by (rule run_grows_observed [OF observes_tenant_gen a(2) c']) (use a(3) grows_folded [OF z(2)] in auto)
  have "mset (map (\<lambda>d. (d, folded z d)) deps') = mset (map (\<lambda>d. (d, folded a d)) deps) \<longleftrightarrow>
      mset deps' = mset deps \<and> (\<forall>d \<in> set deps. folded z d = folded a d)" (is "?M \<longleftrightarrow> ?D")
  proof
    assume m: ?M
    then have "image_mset fst (mset (map (\<lambda>d. (d, folded z d)) deps')) = image_mset fst (mset (map (\<lambda>d. (d, folded a d)) deps))"
      by (rule arg_cong)
    moreover from m have "set (map (\<lambda>d. (d, folded z d)) deps') = set (map (\<lambda>d. (d, folded a d)) deps)" by (metis set_mset_mset)
    then have "\<forall>d \<in> set deps. (d, folded a d) \<in> set (map (\<lambda>d. (d, folded z d)) deps')" by auto
    ultimately show ?D by (auto simp: multiset.map_comp comp_def)
  next
    assume ?D
    then show ?M by (auto intro!: image_mset_cong)
  qed
  with keys d t show ?thesis by auto
qed


section \<open>Runs of the local cache\<close>

text \<open>What callers do: look results up, store a value under the snapshot of an earlier lookup, invalidate.
  The state keeps the snapshots handed out and the calls made to the pool.\<close>

datatype cache_event =
    ELookup string string "Namespace list"
  | ESet nat bytes int
  | EInvalidate "Namespace list"
  | EInvalidateTenant string
  | EPrune "string \<Rightarrow> bool"

record cache_run =
  local_cache :: LocalCache
  snaps :: "Snapshot list"
  fills :: "(string \<times> bytes) list"

fun cache_step :: "cache_event \<Rightarrow> cache_run \<Rightarrow> cache_run" where
  "cache_step (ELookup tid sha deps) r =
     (case Lookup (\<lambda>_. None) (\<lambda>_. 0) (local_cache r) tid sha deps of (_, snap, l) \<Rightarrow>
        r\<lparr>local_cache := l, snaps := snaps r @ [snap]\<rparr>)"
| "cache_step (ESet i v ttl) r =
     (if i < length (snaps r) then
        (case Set_call (local_cache r) (snaps r ! i) v ttl of
           None \<Rightarrow> r
         | Some (k, v, _, _) \<Rightarrow> r\<lparr>fills := fills r @ [(k, v)]\<rparr>)
      else r)"
| "cache_step (EInvalidate nss) r = r\<lparr>local_cache := snd (Invalidate nss (local_cache r))\<rparr>"
| "cache_step (EInvalidateTenant tid) r = r\<lparr>local_cache := InvalidateTenant tid (local_cache r)\<rparr>"
| "cache_step (EPrune served) r = r\<lparr>local_cache := local_Prune served (local_cache r)\<rparr>"

definition run_cache :: "cache_event list \<Rightarrow> int \<Rightarrow> cache_run" where
  "run_cache es cost = fold cache_step es \<lparr>local_cache = NewLocal cost, snaps = [], fills = []\<rparr>"

text \<open>Which events orphan a cached result of a tenant that reads the given namespaces.\<close>

fun orphans :: "cache_event \<Rightarrow> string \<Rightarrow> Namespace list \<Rightarrow> bool" where
  "orphans (EInvalidate nss) tid deps \<longleftrightarrow>
     (\<exists>ns \<in> set nss. \<exists>d \<in> set deps. Tenant d = Tenant ns \<and> Table d = Table ns \<and>
        (Scope ns = '''' \<or> Scope d = '''' \<or> Scope d = Scope ns))"
| "orphans (EInvalidateTenant t) tid deps \<longleftrightarrow> t = tid"
| "orphans (EPrune served) tid deps \<longleftrightarrow> \<not> served tid"
| "orphans _ tid deps \<longleftrightarrow> False"

text \<open>The operations of the index an event performs.\<close>

definition own_deps :: "string \<Rightarrow> Namespace list \<Rightarrow> bool" where
  "own_deps tid deps \<longleftrightarrow> list_all (\<lambda>d. Tenant d = tid) deps"

definition ns_op :: "Namespace \<Rightarrow> vm_op" where
  "ns_op ns = (if Scope ns = '''' then OpTable (Tenant ns) (Table ns) else OpNamespace ns)"

fun event_ops :: "cache_event \<Rightarrow> vm_op list" where
  "event_ops (ELookup tid sha deps) = (if own_deps tid deps then [OpKey tid sha deps] else [])"
| "event_ops (ESet i v ttl) = []"
| "event_ops (EInvalidate nss) = map ns_op nss"
| "event_ops (EInvalidateTenant t) = [OpTenant t]"
| "event_ops (EPrune served) = [OpPrune served]"

definition events_cost :: "cache_event list \<Rightarrow> nat" where
  "events_cost es = total_cost (concat (map event_ops es))"

lemma find_own: "List.find (\<lambda>d. Tenant d \<noteq> tid) deps = None \<longleftrightarrow> own_deps tid deps"
  by (auto simp: find_None_iff own_deps_def list_all_iff)

lemma fold_bump: "fold bump_namespace nss vm = run_ops (map ns_op nss) vm"
  by (induction nss arbitrary: vm) (auto simp: bump_namespace_def ns_op_def)

lemma Lookup_vm:
  "snd (snd (Lookup get ttl l tid sha deps)) =
     l\<lparr>versionManager := run_ops (event_ops (ELookup tid sha deps)) (versionManager l)\<rparr>"
proof (cases "own_deps tid deps")
  case True
  then show ?thesis using find_own [of tid deps] by (auto simp: Lookup_def split: prod.splits)
next
  case False
  then obtain d where "List.find (\<lambda>d. Tenant d \<noteq> tid) deps = Some d" using find_own by (metis not_Some_eq)
  with False show ?thesis by (simp add: Lookup_def)
qed

lemma event_vm:
  "versionManager (local_cache (cache_step e r)) = run_ops (event_ops e) (versionManager (local_cache r))"
proof (cases e)
  case (ELookup tid sha deps)
  then show ?thesis
    using Lookup_vm [of "\<lambda>_. None" "\<lambda>_. 0" "local_cache r" tid sha deps] by (auto split: prod.splits)
qed (auto simp: Invalidate_def InvalidateTenant_def local_Prune_def fold_bump split: option.splits)

lemma events_vm:
  "versionManager (local_cache (fold cache_step es r)) =
     run_ops (concat (map event_ops es)) (versionManager (local_cache r))"
  by (induction es arbitrary: r) (auto simp: event_vm)

lemma touches_ns_op:
  "touches (ns_op ns) d \<longleftrightarrow> Tenant d = Tenant ns \<and> Table d = Table ns \<and> (Scope ns = '''' \<or> Scope d = '''' \<or> Scope d = Scope ns)"
  "\<not> drops_tenant (ns_op ns) t"
  by (auto simp: ns_op_def)

lemma orphans_ops:
  assumes "own_deps tid deps"
  shows "orphans e tid deps \<longleftrightarrow>
    \<not> (list_all (\<lambda>op. \<not> drops_tenant op tid) (event_ops e) \<and> (\<forall>d \<in> set deps. list_all (\<lambda>op. \<not> touches op d) (event_ops e))) "
  using assms by (cases e) (auto simp: touches_ns_op own_deps_def list_all_iff)


lemma run_cache_snoc: "run_cache (es @ [e]) cost = cache_step e (run_cache es cost)"
  by (simp add: run_cache_def)

lemma run_cache_vm: "versionManager (local_cache (run_cache es cost)) = run_ops (concat (map event_ops es)) NewVersionManager"
  by (simp add: run_cache_def events_vm NewLocal_def)

lemma run_cache_below:
  "events_cost es < 2 ^ 64 \<Longrightarrow> below (events_cost es) (versionManager (local_cache (run_cache es cost)))"
  using run_below [OF below_new] by (simp add: run_cache_vm events_cost_def)

lemma Lookup_snap:
  "fst (snd (Lookup get ttl l tid sha deps)) =
     \<lparr>key = (if own_deps tid deps then fst (QueryKey tid sha deps (versionManager l)) else '''')\<rparr>"
proof (cases "own_deps tid deps")
  case True
  then show ?thesis using find_own [of tid deps] by (auto simp: Lookup_def split: prod.splits)
next
  case False
  then obtain d where "List.find (\<lambda>d. Tenant d \<noteq> tid) deps = Some d" using find_own by (metis not_Some_eq)
  with False show ?thesis by (simp add: Lookup_def)
qed

lemma lookup_event_snaps:
  "snaps (cache_step (ELookup tid sha deps) r) =
     snaps r @ [\<lparr>key = (if own_deps tid deps then fst (QueryKey tid sha deps (versionManager (local_cache r))) else '''')\<rparr>]"
  using Lookup_snap [of "\<lambda>_. None" "\<lambda>_. 0" "local_cache r" tid sha deps] by (auto split: prod.splits)

lemma other_event_snaps: "(\<And>tid sha deps. e \<noteq> ELookup tid sha deps) \<Longrightarrow> snaps (cache_step e r) = snaps r"
  by (cases e) (auto split: option.splits)

text \<open>Where a snapshot, and a value in the pool, came from.\<close>

lemma snaps_origin:
  "i < length (snaps (run_cache es cost)) \<Longrightarrow>
   \<exists>pre tid sha deps post. es = pre @ ELookup tid sha deps # post \<and> i = length (snaps (run_cache pre cost)) \<and>
     key (snaps (run_cache es cost) ! i) =
       (if own_deps tid deps then fst (QueryKey tid sha deps (versionManager (local_cache (run_cache pre cost)))) else '''')"
proof (induction es rule: rev_induct)
  case Nil
  then show ?case by (simp add: run_cache_def)
next
  case (snoc e es)
  show ?case
  proof (cases "i < length (snaps (run_cache es cost))")
    case True
    then have "snaps (run_cache (es @ [e]) cost) ! i = snaps (run_cache es cost) ! i"
      by (cases e) (auto simp: run_cache_snoc lookup_event_snaps other_event_snaps nth_append
          simp del: cache_step.simps)
    with snoc.IH [OF True] show ?thesis by (metis append_Cons append_assoc)
  next
    case False
    then obtain tid sha deps where e: "e = ELookup tid sha deps"
      using snoc.prems other_event_snaps [of e] unfolding run_cache_snoc by metis
    then have "i = length (snaps (run_cache es cost))"
      using False snoc.prems by (simp add: run_cache_snoc lookup_event_snaps del: cache_step.simps)
    then show ?thesis
      using e by (intro exI [of _ es] exI [of _ tid] exI [of _ sha] exI [of _ deps] exI [of _ "[]"])
        (simp add: run_cache_snoc lookup_event_snaps del: cache_step.simps)
  qed
qed

lemma fills_origin:
  "(k, v) \<in> set (fills (run_cache es cost)) \<Longrightarrow>
   \<exists>pre tid sha deps post ttl. es = pre @ ELookup tid sha deps # post \<and> own_deps tid deps \<and>
     k = fst (QueryKey tid sha deps (versionManager (local_cache (run_cache pre cost)))) \<and>
     ESet (length (snaps (run_cache pre cost))) v ttl \<in> set post \<and> 0 < ttl"
proof (induction es rule: rev_induct)
  case Nil
  then show ?case by (simp add: run_cache_def)
next
  case (snoc e es)
  show ?case
  proof (cases "(k, v) \<in> set (fills (run_cache es cost))")
    case True
    from snoc.IH [OF this] obtain pre tid sha deps post ttl where
      "es = pre @ ELookup tid sha deps # post" "own_deps tid deps"
      "k = fst (QueryKey tid sha deps (versionManager (local_cache (run_cache pre cost))))"
      "ESet (length (snaps (run_cache pre cost))) v ttl \<in> set post" "0 < ttl" by blast
    then show ?thesis
      by (intro exI [of _ pre] exI [of _ tid] exI [of _ sha] exI [of _ deps] exI [of _ "post @ [e]"] exI [of _ ttl]) simp
  next
    case False
    then obtain i ttl where e: "e = ESet i v ttl" "i < length (snaps (run_cache es cost))"
      "key (snaps (run_cache es cost) ! i) = k" "k \<noteq> ''''" "0 < ttl"
      using snoc.prems by (cases e) (auto simp: run_cache_snoc Set_call_def split: if_splits option.splits prod.splits)
    from snaps_origin [OF e(2)] obtain pre tid sha deps post where
      o: "es = pre @ ELookup tid sha deps # post" "i = length (snaps (run_cache pre cost))"
      "k = (if own_deps tid deps then fst (QueryKey tid sha deps (versionManager (local_cache (run_cache pre cost)))) else '''')"
      using e(3) by auto
    then show ?thesis using e
      by (intro exI [of _ pre] exI [of _ tid] exI [of _ sha] exI [of _ deps] exI [of _ "post @ [e]"] exI [of _ ttl])
        (auto split: if_splits)
  qed
qed

lemma total_cost_events: "total_cost (concat (map event_ops es)) = events_cost es"
  by (simp add: events_cost_def)

lemma orphans_none:
  assumes "own_deps tid deps"
  shows "list_all (\<lambda>op. \<not> drops_tenant op tid) (concat (map event_ops es)) \<and>
      (\<forall>d \<in> set deps. list_all (\<lambda>op. \<not> touches op d) (concat (map event_ops es))) \<longleftrightarrow>
    list_all (\<lambda>e. \<not> orphans e tid deps) es"
  by (induction es) (auto simp: orphans_ops [OF assms])


section \<open>Properties\<close>

text \<open>C15. Over any history of the index (counters at 64 bits, fewer than \<open>2 ^ 64\<close> steps), a key built later
  equals one built earlier exactly when both are of the same tenant, query and dependencies (in any
  order) and no operation in between was a bump of one of those dependencies' tables or scopes, or a drop
  of its tenant: every bump orphans what it must, and nothing of another tenant, table or scope.\<close>

theorem QueryKey_iff:
  assumes "total_cost pre + Suc (length deps) + total_cost ops + Suc (length deps') < 2 ^ 64"
    "QueryKey tid sha deps (run_ops pre NewVersionManager) = (k1, vm1)"
    "QueryKey tid' sha' deps' (run_ops ops vm1) = (k2, vm2)"
  shows "k2 = k1 \<longleftrightarrow> tid' = tid \<and> sha' = sha \<and> mset deps' = mset deps \<and>
    list_all (\<lambda>op. \<not> drops_tenant op tid) ops \<and> (\<forall>d \<in> set deps. list_all (\<lambda>op. \<not> touches op d) ops)"
proof (rule key_stable_iff [OF _ assms])
  show "below (total_cost pre) (run_ops pre NewVersionManager)"
    using run_below [OF below_new, of pre] assms(1) by simp
qed

theorem QueryKey_iff_witness:
  "fst (QueryKey ''a'' ''q'' [] (run_ops [OpTenant ''a''] (snd (QueryKey ''a'' ''q'' [] (run_ops [] NewVersionManager))))) \<noteq>
   fst (QueryKey ''a'' ''q'' [] (run_ops [] NewVersionManager))"
proof -
  obtain k1 vm1 where q1: "QueryKey ''a'' ''q'' [] (run_ops [] NewVersionManager) = (k1, vm1)" by (rule prod.exhaust)
  obtain k2 vm2 where q2: "QueryKey ''a'' ''q'' [] (run_ops [OpTenant ''a''] vm1) = (k2, vm2)" by (rule prod.exhaust)
  have c: "total_cost [] + Suc (length ([] :: Namespace list)) + total_cost [OpTenant ''a''] + Suc (length ([] :: Namespace list)) < 2 ^ 64"
    by simp
  have "k2 \<noteq> k1" unfolding QueryKey_iff [OF c q1 q2] by simp
  then show ?thesis unfolding q1 snd_conv fst_conv q2 .
qed

text \<open>C16. A hit of the local cache is fresh. Given only that the pool answers a key with a value some
  \<^verbatim>\<open>Set\<close> stored under it, a value returned was stored under the snapshot of an earlier lookup of the same
  tenant, the same query and the same dependencies, and nothing since that lookup (so since before the
  value was computed) invalidated one of the dependencies or the tenant.\<close>

theorem local_hit_fresh:
  assumes "events_cost es + Suc (length deps) < 2 ^ 64"
    and pool: "\<And>k v. get k = Some v \<Longrightarrow> (k, v) \<in> set (fills (run_cache es cost))"
    and hit: "Lookup get getTTL (local_cache (run_cache es cost)) tid sha deps = (Inr (Some entry), snap, l)"
  shows "\<exists>pre deps' post ttl. es = pre @ ELookup tid sha deps' # post \<and> mset deps' = mset deps \<and>
    ESet (length (snaps (run_cache pre cost))) (Value entry) ttl \<in> set post \<and> 0 < ttl \<and>
    list_all (\<lambda>e. \<not> orphans e tid deps) post"
proof -
  let ?vm = "versionManager (local_cache (run_cache es cost))"
  obtain k2 vm2 where q2: "QueryKey tid sha deps ?vm = (k2, vm2)" by fastforce
  have own: "own_deps tid deps" and g: "get k2 = Some (Value entry)"
    using hit q2 find_own [of tid deps] by (auto simp: Lookup_def split: option.splits)
  from fills_origin [OF pool [OF g]] obtain pre tid' sha' deps' post ttl where
    es: "es = pre @ ELookup tid' sha' deps' # post" and own': "own_deps tid' deps'"
    and k: "k2 = fst (QueryKey tid' sha' deps' (versionManager (local_cache (run_cache pre cost))))"
    and s: "ESet (length (snaps (run_cache pre cost))) (Value entry) ttl \<in> set post" "0 < ttl" by blast
  obtain vm1 where q1: "QueryKey tid' sha' deps' (versionManager (local_cache (run_cache pre cost))) = (k2, vm1)"
    using k by (metis prod.collapse)
  have c: "events_cost es = events_cost pre + Suc (length deps') + events_cost post"
    using own' by (simp add: es events_cost_def)
  have "?vm = run_ops (concat (map event_ops post)) vm1"
    using own' q1 by (simp add: run_cache_vm es)
  then have q2': "QueryKey tid sha deps (run_ops (concat (map event_ops post)) vm1) = (k2, vm2)" using q2 by simp
  have b: "below (events_cost pre) (versionManager (local_cache (run_cache pre cost)))"
    by (rule run_cache_below) (use assms(1) c in simp)
  have "events_cost pre + Suc (length deps') + total_cost (concat (map event_ops post)) + Suc (length deps) < 2 ^ 64"
    unfolding total_cost_events using assms(1) c by simp
  note iff = key_stable_iff [OF b this q1 q2']
  have "tid = tid' \<and> sha = sha' \<and> mset deps = mset deps' \<and> list_all (\<lambda>e. \<not> orphans e tid' deps') post"
    using iff [unfolded orphans_none [OF own']] by blast
  moreover from this have "orphans e tid deps \<longleftrightarrow> orphans e tid' deps'" for e
    by (cases e) (auto dest: mset_eq_setD)
  ultimately show ?thesis using es s by (intro exI [of _ pre] exI [of _ deps'] exI [of _ post] exI [of _ ttl]) auto
qed


theorem local_hit_fresh_witness:
  "\<exists>pre deps' post ttl.
     [ELookup ''a'' ''q'' [], ESet 0 ''v'' 5] = pre @ ELookup ''a'' ''q'' deps' # post \<and> mset deps' = mset [] \<and>
     ESet (length (snaps (run_cache pre 100))) ''v'' ttl \<in> set post \<and> 0 < ttl \<and>
     list_all (\<lambda>e. \<not> orphans e ''a'' []) post"
proof -
  let ?es = "[ELookup ''a'' ''q'' [], ESet 0 ''v'' 5]"
  let ?get = "\<lambda>k. if k = ''q|a.1|'' then Some ''v'' else None"
  have f: "fills (run_cache ?es 100) = [(''q|a.1|'', ''v'')]" by code_simp
  have h: "fst (Lookup ?get (\<lambda>_. 3) (local_cache (run_cache ?es 100)) ''a'' ''q'' []) = Inr (Some \<lparr>Value = ''v'', TTL = 3\<rparr>)"
    by code_simp
  obtain snap l where
    "Lookup ?get (\<lambda>_. 3) (local_cache (run_cache ?es 100)) ''a'' ''q'' [] = (Inr (Some \<lparr>Value = ''v'', TTL = 3\<rparr>), snap, l)"
    using h by (metis prod.collapse)
  moreover have "events_cost ?es + Suc (length []) < 2 ^ 64" by (simp add: events_cost_def own_deps_def)
  moreover have "(k, v) \<in> set (fills (run_cache ?es 100))" if "?get k = Some v" for k v
    using that by (simp add: f split: if_splits)
  ultimately show ?thesis using local_hit_fresh [of ?es "[]" ?get 100 "\<lambda>_. 3"] by fastforce
qed

end
