(* ===== verification/Redis_cache.thy ===== *)
theory Redis_cache
  imports Cache Gotime "HOL-Library.AList"
begin

text \<open>
  The shared query cache: token and value keys and the value framing (\<^verbatim>\<open>internal/cache/redis_codec.go\<close>), the
  circuit breaker (\<^verbatim>\<open>breaker.go\<close>), the bumps owed to the server (\<^verbatim>\<open>pending.go\<close>) and the operations of
  \<^verbatim>\<open>RedisCache\<close> (\<^verbatim>\<open>redis.go\<close>). The server and its client, the compressor, SHA-256 and the random tokens
  are arguments of the operations. Instants and durations are nanoseconds.
\<close>

section \<open>Token and value keys\<close>

definition tokenLen :: nat where "tokenLen = 8"
definition decodedFactor :: int where "decodedFactor = 8"
definition maxTokenKeys :: nat where "maxTokenKeys = 2 ^ 16 - 1"
definition headerLen :: nat where "headerLen = 12"

definition tenantTokenKey :: "string \<Rightarrow> string \<Rightarrow> string" where
  "tenantTokenKey pre tid = pre @ '':{'' @ tid @ ''}:T''"

definition tableTokenKey :: "string \<Rightarrow> string \<Rightarrow> string \<Rightarrow> string" where
  "tableTokenKey pre tid table = append_join (pre @ '':{'' @ tid @ ''}:B:'') (CHR '':'') [table]"

definition scopeTokenKey :: "string \<Rightarrow> string \<Rightarrow> string \<Rightarrow> string \<Rightarrow> string" where
  "scopeTokenKey pre tid table scope = append_join (pre @ '':{'' @ tid @ ''}:S:'') (CHR '':'') [table, scope]"

text \<open>\<^verbatim>\<open>slices.SortFunc\<close> by table, then scope, and \<^verbatim>\<open>slices.Compact\<close>. All dependencies of one lookup are of
  one tenant, so equal keys are equal values and the unstable sort has one result.\<close>

definition sortedDeps :: "Namespace list \<Rightarrow> Namespace list" where
  "sortedDeps deps = remdups_adj (sort_key (\<lambda>d. (Table d, Scope d)) deps)"

definition tokenKeys :: "string \<Rightarrow> string \<Rightarrow> Namespace list \<Rightarrow> string list" where
  "tokenKeys pre tid deps =
     tenantTokenKey pre tid #
       remdups_adj (sort (concat (map (\<lambda>d. [tableTokenKey pre tid (Table d), scopeTokenKey pre tid (Table d) (Scope d)])
         (sortedDeps deps))))"

definition bumpKeys :: "string \<Rightarrow> Namespace \<Rightarrow> string list" where
  "bumpKeys pre ns =
     (if Scope ns = '''' then [tableTokenKey pre (Tenant ns) (Table ns)]
      else [scopeTokenKey pre (Tenant ns) (Table ns) (Scope ns), scopeTokenKey pre (Tenant ns) (Table ns) ''''])"

text \<open>What is hashed, and the key; \<open>hexsum\<close> is the hexadecimal SHA-256.\<close>

definition value_input :: "string \<Rightarrow> Namespace list \<Rightarrow> string" where
  "value_input sha deps =
     AppendEscape [] sha @ [CHR 0x00] @
       concat (map (\<lambda>d. append_join [] (CHR '':'') [Table d, Scope d] @ [CHR 0x00]) (sortedDeps deps))"

definition valueKey :: "(string \<Rightarrow> string) \<Rightarrow> string \<Rightarrow> string \<Rightarrow> string \<Rightarrow> Namespace list \<Rightarrow> string" where
  "valueKey hexsum pre tid sha deps = pre @ '':q:'' @ tid @ '':'' @ hexsum (value_input sha deps)"

section \<open>Value framing\<close>

record codec =
  enc :: "bytes \<Rightarrow> bytes"
  dec :: "bytes \<Rightarrow> bytes option"
  compressMin :: int
  maxDecoded :: int

datatype codec_error = TooShort | BadFormat nat | BadPayload | DecodesTo nat | BadFlags nat

text \<open>The two's complement bits of a signed millisecond count.\<close>

definition millis_bits :: "int \<Rightarrow> nat" where
  "millis_bits ms = nat (ms mod 2 ^ 64)"

definition codec_encode :: "codec \<Rightarrow> bytes \<Rightarrow> int \<Rightarrow> bytes \<Rightarrow> bytes" where
  "codec_encode c tokens expiresMilli payload =
     (let (body, flags) =
        (if compressMin c > 0 \<and> int (length payload) \<ge> compressMin c then
           (let z = enc c payload in if length z < length payload then (z, 1) else (payload, 0))
         else (payload, 0)) in
      [CHR 0x01, char_of (flags :: nat)] @ put_be 8 (millis_bits expiresMilli) @
        put_be 2 (length tokens div tokenLen mod 2 ^ 16) @ tokens @ body)"

definition codec_decode :: "codec \<Rightarrow> bytes \<Rightarrow> codec_error + (bytes \<times> int \<times> bytes)" where
  "codec_decode c b =
     (if length b < headerLen then Inl TooShort
      else if b ! 0 \<noteq> CHR 0x01 then Inl (BadFormat (byte (b ! 0)))
      else (let flags = byte (b ! 1) :: nat;
                expiresMilli = wrap64 (int (get_be (take 8 (drop 2 b))));
                n = get_be (take 2 (drop 10 b)) * tokenLen in
            if length b < headerLen + n then Inl TooShort
            else (let tokens = take n (drop headerLen b); payload = drop (headerLen + n) b in
                  if flags = 0 then Inr (tokens, expiresMilli, payload)
                  else if flags = 1 then
                    (case dec c payload of
                       None \<Rightarrow> Inl BadPayload
                     | Some p \<Rightarrow>
                         (if int (length p) > maxDecoded c then Inl (DecodesTo (length p))
                          else Inr (tokens, expiresMilli, p)))
                  else Inl (BadFlags flags))))"

text \<open>\<^verbatim>\<open>jitter\<close>: Go's division truncates; the token's first eight bytes draw the spread.\<close>

definition jitter :: "int \<Rightarrow> bytes \<Rightarrow> int" where
  "jitter d token =
     (let span = (if d < 0 then - ((- d) div 5) else d div 5) in
      if span \<le> 0 then d
      else d - span div 2 + int (get_be (take 8 token)) mod span)"

section \<open>The circuit breaker\<close>

text \<open>\<^verbatim>\<open>time.Time.Sub\<close> saturates at the range of a duration.\<close>

definition time_sub :: "int \<Rightarrow> int \<Rightarrow> int" where
  "time_sub a b = max (- (2 ^ 63)) (min (2 ^ 63 - 1) (a - b))"

definition zero_time :: int where
  "zero_time = - 62135596800 * 10 ^ 9"

record breaker =
  threshold :: int
  openFor :: int
  failures :: int
  is_open :: bool
  openedAt :: int
  probing :: bool

definition newBreaker :: "int \<Rightarrow> int \<Rightarrow> breaker" where
  "newBreaker th d = \<lparr>threshold = th, openFor = d, failures = 0, is_open = False, openedAt = zero_time, probing = False\<rparr>"

definition allow :: "int \<Rightarrow> breaker \<Rightarrow> (bool \<times> bool) \<times> breaker" where
  "allow now b =
     (if \<not> is_open b then ((True, False), b)
      else if probing b \<or> time_sub now (openedAt b) < openFor b then ((False, False), b)
      else ((False, True), b\<lparr>probing := True\<rparr>))"

definition success :: "breaker \<Rightarrow> breaker" where
  "success b = (if is_open b \<and> \<not> probing b then b else b\<lparr>failures := 0, is_open := False, probing := False\<rparr>)"

datatype breaker_opening = unchanged | opened | reopened

definition openLocked :: "int \<Rightarrow> breaker \<Rightarrow> breaker_opening \<times> breaker" where
  "openLocked now b =
     (if \<not> is_open b then opened else if probing b then reopened else unchanged,
      b\<lparr>is_open := True, openedAt := now, probing := False\<rparr>)"

definition failure :: "int \<Rightarrow> breaker \<Rightarrow> breaker_opening \<times> breaker" where
  "failure now b =
     (let b = b\<lparr>failures := failures b + 1\<rparr> in
      if probing b \<or> failures b \<ge> threshold b then openLocked now b else (unchanged, b))"

definition trip :: "int \<Rightarrow> breaker \<Rightarrow> breaker_opening \<times> breaker" where
  "trip now b = openLocked now b"

definition untilProbe :: "int \<Rightarrow> breaker \<Rightarrow> int \<times> bool" where
  "untilProbe now b =
     (if \<not> is_open b then (0, False)
      else if probing b then (openFor b, True)
      else (time_sub (openedAt b + openFor b) now, True))"

section \<open>Bumps owed\<close>

record pendingKey =
  pk_tenant :: string
  pk_gen :: uint64

record pendingBumps =
  kprefix :: string
  pmax :: nat
  keys :: "(string \<times> pendingKey) list"
  pgen :: uint64

text \<open>The map \<^verbatim>\<open>keys\<close> is an association list with distinct keys; \<^verbatim>\<open>n\<close> is its length.\<close>

definition newPendingBumps :: "string \<Rightarrow> nat \<Rightarrow> pendingBumps" where
  "newPendingBumps pre m = \<lparr>kprefix = pre, pmax = m, keys = [], pgen = 0\<rparr>"

definition pending_add :: "string \<Rightarrow> string list \<Rightarrow> pendingBumps \<Rightarrow> pendingBumps" where
  "pending_add tid ks p =
     (let g = pgen p + 1;
          added = fold (\<lambda>k m. AList.update k \<lparr>pk_tenant = tid, pk_gen = g\<rparr> m) ks (keys p);
          added = (if length added > pmax p
                   then fold (\<lambda>(_, pk) m. AList.update (tenantTokenKey (kprefix p) (pk_tenant pk))
                     \<lparr>pk_tenant = pk_tenant pk, pk_gen = g\<rparr> m) added []
                   else added) in
      p\<lparr>pgen := g, keys := added\<rparr>)"

definition pending_owed :: "pendingBumps \<Rightarrow> (string \<times> pendingKey) list" where
  "pending_owed p = keys p"

definition pending_snapshot :: "pendingBumps \<Rightarrow> (string \<times> uint64) list" where
  "pending_snapshot p = map (\<lambda>(k, pk). (k, pk_gen pk)) (pending_owed p)"

definition pending_done :: "(string \<times> uint64) list \<Rightarrow> pendingBumps \<Rightarrow> pendingBumps" where
  "pending_done landed p =
     p\<lparr>keys := fold (\<lambda>(k, g) m. (case map_of m k of
          Some pk \<Rightarrow> if pk_gen pk = g then AList.delete k m else m
        | None \<Rightarrow> m)) landed (keys p)\<rparr>"

definition pending_len :: "pendingBumps \<Rightarrow> nat" where
  "pending_len p = length (keys p)"

definition owesAny :: "string list \<Rightarrow> pendingBumps \<Rightarrow> bool" where
  "owesAny ks p \<longleftrightarrow> pending_len p \<noteq> 0 \<and> list_ex (\<lambda>k. map_of (keys p) k \<noteq> None) ks"


section \<open>The cache operations\<close>

text \<open>An error of the client: a nil reply, an error reply by its text, a reply the code cannot use, or no
  reply (time-out, connection).\<close>

datatype rerr = RNil | RReply string | RMalformed | RNoReply

datatype rmsg = MNil | MString string | MOther

record RedisCache =
  KeyPrefix :: string
  MaxValueBytes :: int
  VersionTTL :: int
  connected :: bool
  r_breaker :: breaker
  r_pending :: pendingBumps
  wake :: bool

definition refusesWork :: "string \<Rightarrow> bool" where
  "refusesWork msg = (case cut_byte (CHR '' '') msg of (code, _) \<Rightarrow>
     code \<in> {''READONLY'', ''MASTERDOWN'', ''OOM'', ''NOREPLICAS'', ''MISCONF'', ''LOADING'', ''BUSY'', ''CLUSTERDOWN''})"

definition rejectsCredentials :: "string \<Rightarrow> bool" where
  "rejectsCredentials msg = (case cut_byte (CHR '' '') msg of (code, _) \<Rightarrow> code = ''WRONGPASS'' \<or> code = ''NOAUTH'')"

definition recordReply :: "int \<Rightarrow> string \<Rightarrow> RedisCache \<Rightarrow> RedisCache" where
  "recordReply now msg r =
     r\<lparr>r_breaker := (if rejectsCredentials msg \<or> refusesWork msg then snd (trip now (r_breaker r))
                     else success (r_breaker r))\<rparr>"

text \<open>\<open>gone\<close>: the caller's context is done.\<close>

definition record_outcome :: "int \<Rightarrow> bool \<Rightarrow> rerr option \<Rightarrow> RedisCache \<Rightarrow> RedisCache" where
  "record_outcome now gone err r =
     (case err of
        None \<Rightarrow> r\<lparr>r_breaker := success (r_breaker r)\<rparr>
      | Some RNil \<Rightarrow> r\<lparr>r_breaker := success (r_breaker r)\<rparr>
      | Some (RReply msg) \<Rightarrow> recordReply now msg r
      | Some RMalformed \<Rightarrow> r\<lparr>r_breaker := success (r_breaker r)\<rparr>
      | Some RNoReply \<Rightarrow> (if gone then r else r\<lparr>r_breaker := snd (failure now (r_breaker r))\<rparr>))"

text \<open>\<^verbatim>\<open>conn\<close>: whether to send, and whether this caller starts the probe.\<close>

definition conn :: "int \<Rightarrow> RedisCache \<Rightarrow> bool \<times> bool \<times> RedisCache" where
  "conn now r =
     (if \<not> connected r then (False, False, r)
      else (case allow now (r_breaker r) of ((ok, probe), b) \<Rightarrow> (ok, probe, r\<lparr>r_breaker := b\<rparr>)))"

definition bypassed :: "RedisCache \<Rightarrow> bool" where
  "bypassed r \<longleftrightarrow> \<not> connected r \<or> is_open (r_breaker r)"

definition nudge :: "RedisCache \<Rightarrow> RedisCache" where
  "nudge r = r\<lparr>wake := True\<rparr>"

text \<open>The outcome of a probe: of its first write, and of the repeat when the first was slow.\<close>

definition probe :: "int \<Rightarrow> bool \<Rightarrow> rerr option \<Rightarrow> bool \<Rightarrow> rerr option \<Rightarrow> RedisCache \<Rightarrow> RedisCache" where
  "probe now gone first slow again r =
     (let r = record_outcome now gone (if slow then again else first) r in
      if is_open (r_breaker r) then r else nudge r)"

text \<open>The tokens of an MGET reply, the indexes of missing keys and of those that hold no token.\<close>

fun read_tokens :: "nat \<Rightarrow> rmsg list \<Rightarrow> bytes \<times> nat list \<times> nat list" where
  "read_tokens i [] = ([], [], [])"
| "read_tokens i (m # ms) =
     (case read_tokens (Suc i) ms of (toks, missing, foreign) \<Rightarrow>
        (case m of
           MNil \<Rightarrow> (replicate tokenLen (CHR 0x00) @ toks, i # missing, foreign)
         | MString s \<Rightarrow>
             (if length s \<noteq> tokenLen then (replicate tokenLen (CHR 0x00) @ toks, missing, i # foreign)
              else (s @ toks, missing, foreign))
         | MOther \<Rightarrow> (replicate tokenLen (CHR 0x00) @ toks, missing, i # foreign)))"

definition readTokens :: "rerr + rmsg list \<Rightarrow> rerr + (bytes \<times> nat list \<times> nat list)" where
  "readTokens res = (case res of Inl _ \<Rightarrow> Inl RMalformed | Inr msgs \<Rightarrow> Inr (read_tokens 0 msgs))"

text \<open>The commands of a pipeline: set if missing, set, read. \<open>tok\<close> draws the random tokens by key and round.\<close>

datatype rcmd = SetNX string bytes int | SetEX string bytes int | MGet "string list"

definition bumpCmd :: "(string \<Rightarrow> bytes) \<Rightarrow> RedisCache \<Rightarrow> string \<Rightarrow> rcmd" where
  "bumpCmd tok r k = SetEX k (tok k) (jitter (VersionTTL r) (tok k))"

text \<open>\<open>multi\<close> is the client's \<^verbatim>\<open>DoMulti\<close> with the last reply read as an array: an error other than nil of
  any command, or the reply to the final MGET.\<close>

function (sequential) createTokens ::
  "(rcmd list \<Rightarrow> rerr option \<times> (rerr + rmsg list)) \<Rightarrow> (string \<Rightarrow> bytes) \<Rightarrow> RedisCache \<Rightarrow> string list \<Rightarrow>
     nat list \<Rightarrow> nat list \<Rightarrow> rerr + bytes" where
  "createTokens multi tok r ks missing foreign =
     (case multi (map (\<lambda>i. SetNX (ks ! i) (tok (ks ! i)) (jitter (VersionTTL r) (tok (ks ! i)))) missing @
          map (\<lambda>i. bumpCmd tok r (ks ! i)) foreign @ [MGet ks]) of
        (Some e, _) \<Rightarrow> Inl e
      | (None, reply) \<Rightarrow>
          (case readTokens reply of
             Inl e \<Rightarrow> Inl e
           | Inr (tokens, still, bad) \<Rightarrow>
               (if still = [] \<and> bad = [] then Inr tokens
                else if foreign = [] \<and> still \<noteq> [] then createTokens multi tok r ks [] still
                else Inl RMalformed)))"
  by pat_completeness auto
termination
  by (relation "measure (\<lambda>(_, _, _, _, _, foreign). if foreign = [] then 1 else 0)") auto

declare createTokens.simps [simp del]

record RSnapshot =
  skey :: string
  stokens :: bytes

definition zero_snap :: RSnapshot where
  "zero_snap = \<lparr>skey = '''', stokens = ''''\<rparr>"

datatype lookup_error = LForeign string string | LTooMany nat | LFailed rerr

text \<open>\<^verbatim>\<open>lookupFailed\<close>.\<close>

definition lookupFailed ::
  "int \<Rightarrow> bool \<Rightarrow> rerr \<Rightarrow> RedisCache \<Rightarrow> (lookup_error + Entry option) \<times> RSnapshot \<times> RedisCache" where
  "lookupFailed now gone e r = (Inl (LFailed e), zero_snap, record_outcome now gone (Some e) r)"

text \<open>The replies to a lookup: the tokens by MGET and the value by GET, \<^verbatim>\<open>AsBytes\<close> of which may fail.\<close>

record replies =
  mget :: "string list \<Rightarrow> rerr + rmsg list"
  get :: "string \<Rightarrow> rerr + rmsg"
  multi :: "rcmd list \<Rightarrow> rerr option \<times> (rerr + rmsg list)"

definition hit_entry ::
  "codec \<Rightarrow> int \<Rightarrow> bytes \<Rightarrow> bytes \<Rightarrow> Entry option" where
  "hit_entry c now tokens val =
     (case codec_decode c val of
        Inl _ \<Rightarrow> None
      | Inr (stored, expiresMilli, payload) \<Rightarrow>
          (let remaining = time_sub (expiresMilli * 10 ^ 6) now in
           if stored \<noteq> tokens \<or> remaining \<le> 0 then None else Some \<lparr>Value = payload, TTL = remaining\<rparr>))"

definition lookup_reply ::
  "codec \<Rightarrow> (string \<Rightarrow> bytes) \<Rightarrow> replies \<Rightarrow> int \<Rightarrow> bool \<Rightarrow> string list \<Rightarrow> string \<Rightarrow> RedisCache \<Rightarrow>
     (lookup_error + Entry option) \<times> RSnapshot \<times> RedisCache" where
  "lookup_reply c tok S now gone ks vkey r =
     (case mget S ks of
        Inl e \<Rightarrow> lookupFailed now gone e r
      | Inr msgs \<Rightarrow>
          (case get S vkey of
             Inl RMalformed \<Rightarrow> lookupFailed now gone RMalformed r
           | Inl RNoReply \<Rightarrow> lookupFailed now gone RNoReply r
           | g \<Rightarrow>
               (let r = record_outcome now gone None r in
                case (readTokens (Inr msgs), g) of
                  (Inl e, _) \<Rightarrow> lookupFailed now gone e r
                | (Inr _, Inr MNil) \<Rightarrow> lookupFailed now gone RMalformed r
                | (Inr _, Inr MOther) \<Rightarrow> lookupFailed now gone RMalformed r
                | (Inr (tokens, missing, foreign), _) \<Rightarrow>
                    (if missing \<noteq> [] \<or> foreign \<noteq> [] then
                       (case createTokens (multi S) tok r ks missing foreign of
                          Inl e \<Rightarrow> lookupFailed now gone e r
                        | Inr tokens \<Rightarrow> (Inr None, \<lparr>skey = vkey, stokens = tokens\<rparr>, r))
                     else
                       (Inr (case g of Inr (MString val) \<Rightarrow> hit_entry c now tokens val | _ \<Rightarrow> None),
                        \<lparr>skey = vkey, stokens = tokens\<rparr>, r)))))"

definition redis_Lookup ::
  "codec \<Rightarrow> (string \<Rightarrow> string) \<Rightarrow> (string \<Rightarrow> bytes) \<Rightarrow> replies \<Rightarrow> int \<Rightarrow> bool \<Rightarrow> RedisCache \<Rightarrow>
     string \<Rightarrow> string \<Rightarrow> Namespace list \<Rightarrow> (lookup_error + Entry option) \<times> RSnapshot \<times> RedisCache" where
  "redis_Lookup c hexsum tok S now gone r tid sha deps =
     (case List.find (\<lambda>d. Tenant d \<noteq> tid) deps of
        Some d \<Rightarrow> (Inl (LForeign (Tenant d) tid), zero_snap, r)
      | None \<Rightarrow>
          (let ks = tokenKeys (KeyPrefix r) tid deps in
           if length ks > maxTokenKeys then (Inl (LTooMany (length deps)), zero_snap, r)
           else if owesAny ks (r_pending r) then (Inr None, zero_snap, r)
           else (case conn now r of (ok, _, r) \<Rightarrow>
             (if \<not> ok then (Inr None, zero_snap, r)
              else lookup_reply c tok S now gone ks (valueKey hexsum (KeyPrefix r) tid sha deps) r))))"


text \<open>\<^verbatim>\<open>Set\<close>: the command it sends (key, value, time to live), if any; \<open>reply\<close> is the server's answer.\<close>

definition redis_Set ::
  "codec \<Rightarrow> (string \<times> bytes \<times> int \<Rightarrow> rerr option) \<Rightarrow> int \<Rightarrow> bool \<Rightarrow> RSnapshot \<Rightarrow> bytes \<Rightarrow> int \<Rightarrow> RedisCache \<Rightarrow>
     (string \<times> bytes \<times> int) option \<times> rerr option \<times> RedisCache" where
  "redis_Set c reply now gone snap val ttl r =
     (if skey snap = '''' \<or> ttl \<le> 0 then (None, None, r)
      else if int (length val) > maxDecoded c then (None, None, r)
      else (let b = codec_encode c (stokens snap) ((now + ttl) div 10 ^ 6) val in
            if int (length b) > MaxValueBytes r then (None, None, r)
            else (case conn now r of (ok, _, r) \<Rightarrow>
              (if \<not> ok then (None, None, r)
               else (let cmd = (skey snap, b, max ttl (10 ^ 6)) in
                     (Some cmd, reply cmd, record_outcome now gone (reply cmd) r))))))"

text \<open>\<^verbatim>\<open>deferBumps\<close>: the bumps owed, in the order of the map iteration; the first wakes the drain.\<close>

definition deferBumps :: "(string \<times> string) list \<Rightarrow> RedisCache \<Rightarrow> RedisCache" where
  "deferBumps owner r =
     (let first = (pending_len (r_pending r) = 0);
          r = r\<lparr>r_pending := fold (\<lambda>(k, tid) p. pending_add tid [k] p) owner (r_pending r)\<rparr> in
      if first then nudge r else r)"

text \<open>\<^verbatim>\<open>sendBumps\<close> sends one \<open>bumpCmd\<close> per key; \<open>send\<close> tells for each command of a batch its error, if any.\<close>

definition sendBumps ::
  "(rcmd list \<Rightarrow> rerr option list) \<Rightarrow> (string \<Rightarrow> bytes) \<Rightarrow> RedisCache \<Rightarrow> string list \<Rightarrow> bool list \<times> rerr option" where
  "sendBumps send tok r ks =
     (let errs = send (map (bumpCmd tok r) ks) in
      (map (\<lambda>e. e = None) errs, (case List.find (\<lambda>e. e \<noteq> None) errs of Some e \<Rightarrow> e | None \<Rightarrow> None)))"

text \<open>\<^verbatim>\<open>slices.Chunk\<close>.\<close>

function chunks :: "nat \<Rightarrow> 'a list \<Rightarrow> 'a list list" where
  "chunks n xs = (if n = 0 \<or> xs = [] then [] else take n xs # chunks n (drop n xs))"
  by pat_completeness auto
termination by (relation "measure (\<lambda>(n, xs). length xs)") auto

declare chunks.simps [simp del]

definition drainBatch :: nat where "drainBatch = 1000"

text \<open>The batches of a bump: the keys that did not land, and the first error; past an error nothing is sent.\<close>

fun send_batches ::
  "(rcmd list \<Rightarrow> rerr option list) \<Rightarrow> (string \<Rightarrow> bytes) \<Rightarrow> RedisCache \<Rightarrow> string list list \<Rightarrow> rerr option \<Rightarrow>
     string list \<times> rerr option" where
  "send_batches send tok r [] err = ([], err)"
| "send_batches send tok r (batch # bs) err =
     (case err of
        Some e \<Rightarrow> (case send_batches send tok r bs err of (failed, e') \<Rightarrow> (batch @ failed, e'))
      | None \<Rightarrow>
          (case sendBumps send tok r batch of (landed, err) \<Rightarrow>
             (case send_batches send tok r bs err of (failed, e') \<Rightarrow>
                (map fst (filter (\<lambda>(k, ok). \<not> ok) (zip batch landed)) @ failed, e'))))"

datatype bump_error = Bypassed nat | Deferred nat "rerr option"

definition bump ::
  "(rcmd list \<Rightarrow> rerr option list) \<Rightarrow> (string \<Rightarrow> bytes) \<Rightarrow> int \<Rightarrow> bool \<Rightarrow> (string \<times> string) list \<Rightarrow> RedisCache \<Rightarrow>
     bump_error option \<times> RedisCache" where
  "bump send tok now gone owner r =
     (if owner = [] then (None, r)
      else (case conn now r of (ok, _, r) \<Rightarrow>
        (if \<not> ok then (Some (Bypassed (length owner)), deferBumps owner r)
         else (case send_batches send tok r (chunks drainBatch (map fst owner)) None of (failed, err) \<Rightarrow>
           (let r = record_outcome now gone err r;
                failed = filter (\<lambda>(k, tid). k \<in> set failed) owner in
            if failed \<noteq> [] then (Some (Deferred (length failed) err), deferBumps failed r)
            else (None, r))))))"

text \<open>The map \<^verbatim>\<open>owner\<close> an invalidation builds.\<close>

definition bump_owner :: "string \<Rightarrow> Namespace list \<Rightarrow> (string \<times> string) list" where
  "bump_owner pre nss =
     fold (\<lambda>(k, tid) m. AList.update k tid m) (concat (map (\<lambda>ns. map (\<lambda>k. (k, Tenant ns)) (bumpKeys pre ns)) nss)) []"

definition redis_Invalidate ::
  "(rcmd list \<Rightarrow> rerr option list) \<Rightarrow> (string \<Rightarrow> bytes) \<Rightarrow> int \<Rightarrow> bool \<Rightarrow> Namespace list \<Rightarrow> RedisCache \<Rightarrow>
     nat \<times> bump_error option \<times> RedisCache" where
  "redis_Invalidate send tok now gone nss r = (length nss, bump send tok now gone (bump_owner (KeyPrefix r) nss) r)"

definition redis_InvalidateTenant ::
  "(rcmd list \<Rightarrow> rerr option list) \<Rightarrow> (string \<Rightarrow> bytes) \<Rightarrow> int \<Rightarrow> bool \<Rightarrow> string \<Rightarrow> RedisCache \<Rightarrow>
     bump_error option \<times> RedisCache" where
  "redis_InvalidateTenant send tok now gone tid r =
     bump send tok now gone [(tenantTokenKey (KeyPrefix r) tid, tid)] r"

text \<open>\<^verbatim>\<open>drain\<close>: batches of the keys owed, each through the client the breaker allows; a failed one ends it.\<close>

fun drain_batches ::
  "(rcmd list \<Rightarrow> rerr option list) \<Rightarrow> (string \<Rightarrow> bytes) \<Rightarrow> int \<Rightarrow> bool \<Rightarrow> (string \<times> pendingKey) list list \<Rightarrow> RedisCache \<Rightarrow>
     bool \<times> RedisCache" where
  "drain_batches send tok now gone [] r = (pending_len (r_pending r) = 0, r)"
| "drain_batches send tok now gone (batch # bs) r =
     (case conn now r of (ok, _, r) \<Rightarrow>
        (if \<not> ok then (False, r)
         else (case sendBumps send tok r (map fst batch) of (sent, err) \<Rightarrow>
           (let landed = map (\<lambda>((k, pk), ok). (k, pk_gen pk)) (filter snd (zip batch sent));
                r = record_outcome now gone err r;
                r = r\<lparr>r_pending := pending_done landed (r_pending r)\<rparr> in
            if err \<noteq> None then (False, r) else drain_batches send tok now gone bs r))))"

definition drain ::
  "(rcmd list \<Rightarrow> rerr option list) \<Rightarrow> (string \<Rightarrow> bytes) \<Rightarrow> int \<Rightarrow> bool \<Rightarrow> RedisCache \<Rightarrow> bool \<times> RedisCache" where
  "drain send tok now gone r = drain_batches send tok now gone (chunks drainBatch (pending_owed (r_pending r))) r"


section \<open>Token keys\<close>

text \<open>Every token key is the prefix, the tenant in braces and a tail that says which token it is.\<close>

definition token_key :: "string \<Rightarrow> string \<Rightarrow> string \<Rightarrow> string" where
  "token_key pre tid tail = pre @ '':{'' @ tid @ CHR ''}'' # tail"

lemma token_keys_eq:
  "tenantTokenKey pre tid = token_key pre tid '':T''"
  "tableTokenKey pre tid table = token_key pre tid ('':B:'' @ Escape table)"
  "scopeTokenKey pre tid table scope = token_key pre tid ('':S:'' @ join '':'' (map Escape [table, scope]))"
  by (simp_all add: token_key_def tenantTokenKey_def tableTokenKey_def scopeTokenKey_def append_join_eq)

lemma token_key_inject:
  assumes "tenant_Parse a = Inr a'" "tenant_Parse b = Inr b'"
  shows "token_key pre a s = token_key pre b t \<longleftrightarrow> a = b \<and> s = t"
proof -
  have "CHR ''}'' \<notin> set a" "CHR ''}'' \<notin> set b"
    using tenant_no_sep [OF assms(1), of "CHR ''}''"] tenant_no_sep [OF assms(2), of "CHR ''}''"] by (simp_all add: kept_def)
  then show ?thesis by (simp add: token_key_def append_first_sep)
qed

lemma scope_tail_inject:
  "join '':'' (map Escape [t, s]) = join '':'' (map Escape [t', s']) \<longleftrightarrow> t = t' \<and> s = s'"
  using keyenc.fields_inject [of "CHR '':''" "[t, s]" "[t', s']"] by (simp del: list.map)

lemma set_sortedDeps [simp]: "set (sortedDeps deps) = set deps"
  by (simp add: sortedDeps_def)

lemma set_tokenKeys:
  "set (tokenKeys pre tid deps) =
     insert (tenantTokenKey pre tid)
       (\<Union>d \<in> set deps. {tableTokenKey pre tid (Table d), scopeTokenKey pre tid (Table d) (Scope d)})"
  by (auto simp: tokenKeys_def)

lemma bumpKeys_meet:
  assumes "tenant_Parse tid = Inr tid" "tenant_Parse (Tenant ns) = Inr (Tenant ns)" "own_deps tid deps"
  shows "((\<exists>k \<in> set (bumpKeys pre ns). k \<in> set (tokenKeys pre tid deps)) \<longleftrightarrow> orphans (EInvalidate [ns]) tid deps) \<and>
    (tenantTokenKey pre (Tenant ns) \<in> set (tokenKeys pre tid deps) \<longleftrightarrow> orphans (EInvalidateTenant (Tenant ns)) tid deps)"
  using assms
  by (auto simp: set_tokenKeys bumpKeys_def token_keys_eq token_key_inject scope_tail_inject keyenc.esc_inject
      own_deps_def list_all_iff simp del: list.map; metis)

text \<open>C17. The shared cache and the local one agree on what a write invalidates: the tokens an
  invalidation of a namespace replaces meet those a lookup reads exactly when the local cache's index is
  bumped for one of its dependencies, and the tenant token is read by the lookups of that tenant alone.\<close>

theorem bumpKeys_lattice:
  assumes "tenant_Parse tid = Inr tid" "tenant_Parse (Tenant ns) = Inr (Tenant ns)" "own_deps tid deps"
  shows "((\<exists>k \<in> set (bumpKeys pre ns). k \<in> set (tokenKeys pre tid deps)) \<longleftrightarrow> orphans (EInvalidate [ns]) tid deps) \<and>
    (tenantTokenKey pre (Tenant ns) \<in> set (tokenKeys pre tid deps) \<longleftrightarrow> orphans (EInvalidateTenant (Tenant ns)) tid deps)"
  by (rule bumpKeys_meet [OF assms])

theorem bumpKeys_lattice_witness:
  "\<exists>k \<in> set (bumpKeys ''wh'' \<lparr>Tenant = ''a'', Table = ''t'', Scope = ''s''\<rparr>).
     k \<in> set (tokenKeys ''wh'' ''a'' [\<lparr>Tenant = ''a'', Table = ''t'', Scope = ''''\<rparr>])"
proof -
  have "tenant_Parse ''a'' = Inr ''a''" by code_simp
  then show ?thesis
    using bumpKeys_lattice [of "''a''" "\<lparr>Tenant = ''a'', Table = ''t'', Scope = ''s''\<rparr>"
        "[\<lparr>Tenant = ''a'', Table = ''t'', Scope = ''''\<rparr>]" "''wh''"] by (simp add: own_deps_def)
qed

section \<open>Framing\<close>

lemma millis_roundtrip:
  assumes "- (2 ^ 63) \<le> ms" "ms < 2 ^ 63"
  shows "wrap64 (int (get_be (put_be 8 (millis_bits ms)))) = ms"
proof -
  have "millis_bits ms < 256 ^ 8" by (simp add: millis_bits_def nat_less_iff)
  then have "int (get_be (put_be 8 (millis_bits ms))) = ms mod 2 ^ 64"
    by (simp add: get_put_be millis_bits_def)
  then have "wrap64 (int (get_be (put_be 8 (millis_bits ms)))) = wrap64 ms"
    by (simp add: wrap64_def mod_simps)
  then show ?thesis using wrap64_id assms by simp
qed

lemma encode_shape:
  obtains flags body where "codec_encode c tokens ms payload = [CHR 0x01, char_of (flags :: nat)] @ put_be 8 (millis_bits ms) @
      put_be 2 (length tokens div tokenLen mod 2 ^ 16) @ tokens @ body"
    "(flags = 0 \<and> body = payload) \<or> (flags = 1 \<and> body = enc c payload)"
proof (cases "compressMin c > 0 \<and> int (length payload) \<ge> compressMin c \<and> length (enc c payload) < length payload")
  case True
  then show thesis using that [of 1 "enc c payload"] by (simp add: codec_encode_def Let_def)
next
  case False
  then show thesis using that [of 0 payload] by (auto simp: codec_encode_def Let_def)
qed

lemma codec_roundtrip:
  assumes "\<And>p. dec c (enc c p) = Some p" "length tokens = tokenLen * n" "n \<le> maxTokenKeys"
    "- (2 ^ 63) \<le> ms" "ms < 2 ^ 63" "int (length payload) \<le> maxDecoded c"
  shows "codec_decode c (codec_encode c tokens ms payload) = Inr (tokens, ms, payload)"
proof -
  obtain flags body where e: "codec_encode c tokens ms payload = [CHR 0x01, char_of (flags :: nat)] @ put_be 8 (millis_bits ms) @
      put_be 2 (length tokens div tokenLen mod 2 ^ 16) @ tokens @ body"
    and f: "(flags = 0 \<and> body = payload) \<or> (flags = 1 \<and> body = enc c payload)" by (rule encode_shape)
  have n: "length tokens div tokenLen mod 2 ^ 16 = n" "n < 2 ^ 16" using assms(2,3) by (simp_all add: tokenLen_def maxTokenKeys_def)
  have g: "get_be (put_be 2 n) = n" using n(2) by (simp add: get_put_be)
  let ?b = "codec_encode c tokens ms payload"
  have h: "drop headerLen ?b = tokens @ body" unfolding e n(1) by (simp add: headerLen_def)
  have "drop (headerLen + n * tokenLen) ?b = drop (n * tokenLen) (drop headerLen ?b)" by (simp add: add.commute)
  then have t: "take (n * tokenLen) (drop headerLen ?b) = tokens" "drop (headerLen + n * tokenLen) ?b = body"
    unfolding h using assms(2) by (simp_all add: mult.commute)
  have parts: "length ?b = headerLen + length tokens + length body" "?b ! 0 = CHR 0x01" "?b ! 1 = char_of flags"
    "take 8 (drop 2 ?b) = put_be 8 (millis_bits ms)" "take 2 (drop 10 ?b) = put_be 2 n"
    unfolding e n(1) by (simp_all add: headerLen_def)
  show ?thesis unfolding codec_decode_def Let_def parts t millis_roundtrip [OF assms(4,5)] g t
    using f assms by (auto simp: headerLen_def mult.commute)
qed


section \<open>Hits\<close>

lemma read_tokens_all:
  "read_tokens i msgs = (toks, [], []) \<Longrightarrow>
   \<exists>ss. msgs = map MString ss \<and> list_all (\<lambda>s. length s = tokenLen) ss \<and> toks = concat ss"
proof (induction msgs arbitrary: i toks)
  case Nil
  then show ?case by simp
next
  case (Cons m ms)
  obtain t a b where r: "read_tokens (Suc i) ms = (t, a, b)" by (rule prod_cases3)
  with Cons.prems obtain s where s: "m = MString s" "length s = tokenLen" "toks = s @ t" "a = []" "b = []"
    by (auto split: rmsg.splits if_splits)
  from Cons.IH [of "Suc i" t] r s obtain ss where "ms = map MString ss" "list_all (\<lambda>s. length s = tokenLen) ss" "t = concat ss"
    by auto
  with s show ?case by (intro exI [of _ "s # ss"]) simp
qed

lemma lookup_reply_hit:
  assumes "lookup_reply c tok S now gone ks vkey r = (Inr (Some e), snap, r')"
  obtains ss val where "mget S ks = Inr (map MString ss)" "list_all (\<lambda>s. length s = tokenLen) ss"
    "get S vkey = Inr (MString val)" "hit_entry c now (concat ss) val = Some e"
    "snap = \<lparr>skey = vkey, stokens = concat ss\<rparr>"
proof -
  obtain msgs where m: "mget S ks = Inr msgs"
    using assms by (cases "mget S ks") (auto simp: lookup_reply_def lookupFailed_def)
  obtain t a b where t: "read_tokens 0 msgs = (t, a, b)" by (rule prod_cases3)
  show thesis
  proof (cases "get S vkey")
    case (Inl e')
    then show thesis using assms m t
      by (cases e') (auto simp: lookup_reply_def lookupFailed_def readTokens_def Let_def split: if_splits sum.splits)
  next
    case (Inr msg)
    then obtain val where v: "msg = MString val"
      using assms m t by (cases msg) (auto simp: lookup_reply_def lookupFailed_def readTokens_def Let_def)
    then have "a = [] \<and> b = [] \<and> hit_entry c now t val = Some e \<and> snap = \<lparr>skey = vkey, stokens = t\<rparr>"
      using assms m t Inr
      by (auto simp: lookup_reply_def lookupFailed_def readTokens_def Let_def split: if_splits sum.splits)
    moreover from this read_tokens_all [of 0 msgs t] t obtain ss where
      "msgs = map MString ss" "list_all (\<lambda>s. length s = tokenLen) ss" "t = concat ss" by auto
    ultimately show thesis using that [of ss val] m Inr v by simp
  qed
qed

lemma conn_ok: "conn now r = (True, p, r') \<Longrightarrow> connected r \<and> \<not> is_open (r_breaker r) \<and> r' = r"
  by (auto simp: conn_def allow_def split: if_splits)

lemma hit_entry_Some:
  "hit_entry c now toks val = Some e \<longleftrightarrow>
     (\<exists>ms. codec_decode c val = Inr (toks, ms, Value e) \<and> TTL e = time_sub (ms * 10 ^ 6) now \<and> 0 < TTL e)"
  by (cases e) (auto simp: hit_entry_def Let_def split: sum.splits if_splits)

text \<open>C18. A hit of the shared cache. The value returned is the one that was stored; it was stored under
  exactly the tokens the server holds now for every token key of the lookup (so no bump of the tenant or
  of a dependency has landed since the lookup that computed it), it has not expired, and this process
  owes the server no bump of any of those keys.\<close>

theorem redis_hit_current:
  assumes hit: "redis_Lookup c hexsum tok S now gone r tid sha deps = (Inr (Some e), snap, r')"
    and stored: "get S (valueKey hexsum (KeyPrefix r) tid sha deps) = Inr (MString (codec_encode c toks ms p))"
    and zstd: "\<And>p. dec c (enc c p) = Some p"
    and framed: "length toks = tokenLen * n" "n \<le> maxTokenKeys" "- (2 ^ 63) \<le> ms" "ms < 2 ^ 63" "int (length p) \<le> maxDecoded c"
  shows "Value e = p \<and> now < ms * 10 ^ 6 \<and> \<not> owesAny (tokenKeys (KeyPrefix r) tid deps) (r_pending r) \<and>
    (\<exists>ss. mget S (tokenKeys (KeyPrefix r) tid deps) = Inr (map MString ss) \<and>
       list_all (\<lambda>s. length s = tokenLen) ss \<and> concat ss = toks)"
proof -
  let ?ks = "tokenKeys (KeyPrefix r) tid deps" and ?v = "valueKey hexsum (KeyPrefix r) tid sha deps"
  obtain ok q r1 where cn: "conn now r = (ok, q, r1)" by (rule prod_cases3)
  have o: "\<not> owesAny ?ks (r_pending r)" and ok: ok
    using hit cn by (auto simp: redis_Lookup_def Let_def zero_snap_def split: option.splits if_splits)
  then have "r1 = r" using conn_ok [of now r q r1] cn by simp
  then have "lookup_reply c tok S now gone ?ks ?v r = (Inr (Some e), snap, r')"
    using hit cn o ok by (auto simp: redis_Lookup_def Let_def split: option.splits if_splits)
  then obtain ss val where m: "mget S ?ks = Inr (map MString ss)" "list_all (\<lambda>s. length s = tokenLen) ss"
    and v: "get S ?v = Inr (MString val)" "hit_entry c now (concat ss) val = Some e" by (rule lookup_reply_hit)
  have "codec_decode c val = Inr (toks, ms, p)"
    using v(1) stored codec_roundtrip [OF zstd framed] by simp
  then have "concat ss = toks" "Value e = p" "0 < time_sub (ms * 10 ^ 6) now" using v(2) by (auto simp: hit_entry_Some)
  then show ?thesis using o m by (auto simp: time_sub_def)
qed


text \<open>A concrete cache: a codec that does not compress, a closed breaker, a server that holds one token and a
  value stored under it.\<close>

definition sample_codec :: codec where
  "sample_codec = \<lparr>enc = id, dec = Some, compressMin = 0, maxDecoded = 100\<rparr>"

definition sample_cache :: RedisCache where
  "sample_cache = \<lparr>KeyPrefix = ''wh'', MaxValueBytes = 100, VersionTTL = 0, connected = True, r_breaker = newBreaker 5 5,
     r_pending = newPendingBumps ''wh'' 9, wake = False\<rparr>"

definition sample_server :: replies where
  "sample_server = \<lparr>mget = \<lambda>_. Inr [MString ''12345678''],
     get = \<lambda>_. Inr (MString (codec_encode sample_codec ''12345678'' 7 ''rows'')), multi = \<lambda>_. (None, Inr [])\<rparr>"

theorem redis_hit_current_witness:
  "fst (redis_Lookup sample_codec id id sample_server 3 False sample_cache ''a'' ''q'' []) =
     Inr (Some \<lparr>Value = ''rows'', TTL = 6999997\<rparr>) \<and>
   (\<exists>ss. mget sample_server (tokenKeys ''wh'' ''a'' []) = Inr (map MString ss) \<and> concat ss = ''12345678'')"
proof -
  have z: "dec sample_codec (enc sample_codec p) = Some p" for p by (simp add: sample_codec_def)
  have fr: "length ''12345678'' = tokenLen * 1" "1 \<le> maxTokenKeys" "- (2 ^ 63) \<le> (7::int)" "(7::int) < 2 ^ 63"
    "int (length ''rows'') \<le> maxDecoded sample_codec" by (simp_all add: tokenLen_def maxTokenKeys_def sample_codec_def)
  note d = codec_roundtrip [OF z fr]
  have "hit_entry sample_codec 3 ''12345678'' (codec_encode sample_codec ''12345678'' 7 ''rows'') =
      Some \<lparr>Value = ''rows'', TTL = 6999997\<rparr>"
    by (simp add: hit_entry_def d time_sub_def)
  then have "fst (redis_Lookup sample_codec id id sample_server 3 False sample_cache ''a'' ''q'' []) =
      Inr (Some \<lparr>Value = ''rows'', TTL = 6999997\<rparr>)"
    by (simp add: redis_Lookup_def Let_def tokenKeys_def sortedDeps_def maxTokenKeys_def owesAny_def pending_len_def
        newPendingBumps_def conn_def allow_def newBreaker_def lookup_reply_def readTokens_def tokenLen_def
        sample_server_def sample_cache_def)
  moreover from this obtain snap r' where
    hit: "redis_Lookup sample_codec id id sample_server 3 False sample_cache ''a'' ''q'' [] =
      (Inr (Some \<lparr>Value = ''rows'', TTL = 6999997\<rparr>), snap, r')" by (metis prod.collapse)
  have st: "get sample_server (valueKey id (KeyPrefix sample_cache) ''a'' ''q'' []) =
      Inr (MString (codec_encode sample_codec ''12345678'' 7 ''rows''))" by (simp add: sample_server_def)
  have "KeyPrefix sample_cache = ''wh''" by (simp add: sample_cache_def)
  with redis_hit_current [OF hit st z fr]
  have "\<exists>ss. mget sample_server (tokenKeys ''wh'' ''a'' []) = Inr (map MString ss) \<and> concat ss = ''12345678''" by auto
  ultimately show ?thesis by blast
qed

section \<open>Bumps owed are not lost\<close>

definition owned :: "string \<Rightarrow> string \<Rightarrow> string \<Rightarrow> bool" where
  "owned pre tid k \<longleftrightarrow> tenant_Parse tid = Inr tid \<and> (\<exists>tail. k = token_key pre tid tail)"

lemma owned_unique: "owned pre a k \<Longrightarrow> owned pre b k \<Longrightarrow> a = b"
  unfolding owned_def using token_key_inject by metis

lemma owned_token_keys:
  assumes "tenant_Parse tid = Inr tid"
  shows "owned pre tid (tenantTokenKey pre tid)" "owned pre tid (tableTokenKey pre tid t)" "owned pre tid (scopeTokenKey pre tid t s)"
  using assms by (auto simp: owned_def token_keys_eq)

text \<open>The invariant of the set: one entry per key, each of the key's own tenant and no newer than the
  last generation.\<close>

definition pending_ok :: "pendingBumps \<Rightarrow> bool" where
  "pending_ok p \<longleftrightarrow> distinct (map fst (keys p)) \<and>
     (\<forall>k pk. map_of (keys p) k = Some pk \<longrightarrow> owned (kprefix p) (pk_tenant pk) k \<and> unat (pk_gen pk) \<le> unat (pgen p))"

text \<open>A key of a tenant is owed a bump added at generation \<open>g\<close> or later, itself or through its tenant.\<close>

definition owes :: "pendingBumps \<Rightarrow> string \<Rightarrow> string \<Rightarrow> nat \<Rightarrow> bool" where
  "owes p tid k g \<longleftrightarrow> (\<exists>k' \<in> {k, tenantTokenKey (kprefix p) tid}. \<exists>pk. map_of (keys p) k' = Some pk \<and> g \<le> unat (pk_gen pk))"

lemma map_of_fold_update:
  "map_of (fold (\<lambda>k m. AList.update k v m) ks m) k = (if k \<in> set ks then Some v else map_of m k)"
  by (induction ks arbitrary: m) (auto simp: update_conv')

lemma distinct_fold_update: "distinct (map fst m) \<Longrightarrow> distinct (map fst (fold (\<lambda>k m. AList.update k v m) ks m))"
  by (induction ks arbitrary: m) (auto simp: distinct_update)

text \<open>The set before it is collapsed, and collapsed to one bump per tenant.\<close>

definition added :: "string \<Rightarrow> string list \<Rightarrow> pendingBumps \<Rightarrow> (string \<times> pendingKey) list" where
  "added tid ks p = fold (\<lambda>k m. AList.update k \<lparr>pk_tenant = tid, pk_gen = pgen p + 1\<rparr> m) ks (keys p)"

definition collapsed :: "string \<Rightarrow> uint64 \<Rightarrow> (string \<times> pendingKey) list \<Rightarrow> (string \<times> pendingKey) list \<Rightarrow> (string \<times> pendingKey) list" where
  "collapsed pre g xs m = fold (\<lambda>(_, pk) m. AList.update (tenantTokenKey pre (pk_tenant pk))
     \<lparr>pk_tenant = pk_tenant pk, pk_gen = g\<rparr> m) xs m"

lemma pending_add_keys:
  "keys (pending_add tid ks p) = (if length (added tid ks p) > pmax p then collapsed (kprefix p) (pgen p + 1) (added tid ks p) [] else added tid ks p)"
  "pgen (pending_add tid ks p) = pgen p + 1" "kprefix (pending_add tid ks p) = kprefix p" "pmax (pending_add tid ks p) = pmax p"
  by (simp_all add: pending_add_def added_def collapsed_def Let_def)

lemma map_of_collapsed:
  "map_of (collapsed pre g xs m) k =
     (if \<exists>x \<in> set xs. k = tenantTokenKey pre (pk_tenant (snd x))
      then Some \<lparr>pk_tenant = (THE t. k = tenantTokenKey pre t), pk_gen = g\<rparr> else map_of m k)"
proof (induction xs arbitrary: m)
  case Nil
  then show ?case by (simp add: collapsed_def)
next
  case (Cons x xs)
  have inj: "tenantTokenKey pre a = tenantTokenKey pre b \<longleftrightarrow> a = b" for a b by (simp add: tenantTokenKey_def)
  then have "(THE t. tenantTokenKey pre a = tenantTokenKey pre t) = a" for a by auto
  then show ?case using Cons by (cases x) (auto simp: collapsed_def update_conv' inj)
qed

lemma distinct_collapsed: "distinct (map fst m) \<Longrightarrow> distinct (map fst (collapsed pre g xs m))"
  by (induction xs arbitrary: m) (auto simp: collapsed_def distinct_update split: prod.splits)


lemma collapsed_Some:
  assumes "map_of (collapsed pre g xs []) k = Some pk"
  shows "k = tenantTokenKey pre (pk_tenant pk) \<and> pk_gen pk = g \<and> (\<exists>x \<in> set xs. pk_tenant pk = pk_tenant (snd x))"
proof -
  have inj: "tenantTokenKey pre a = tenantTokenKey pre b \<longleftrightarrow> a = b" for a b by (simp add: tenantTokenKey_def)
  from assms show ?thesis by (force simp: map_of_collapsed inj split: if_splits)
qed

lemma collapsed_present:
  "(k, pk) \<in> set xs \<Longrightarrow> \<exists>pk'. map_of (collapsed pre g xs []) (tenantTokenKey pre (pk_tenant pk)) = Some pk' \<and> pk_gen pk' = g"
  by (subst map_of_collapsed) force

lemma added_ok:
  assumes "pending_ok p" "unat (pgen p) < 2 ^ 64 - 1" "list_all (owned (kprefix p) tid) ks"
  shows "distinct (map fst (added tid ks p))"
    "map_of (added tid ks p) k = Some pk \<Longrightarrow> owned (kprefix p) (pk_tenant pk) k \<and> unat (pk_gen pk) \<le> Suc (unat (pgen p))"
    "map_of (keys p) k = Some pk \<Longrightarrow> \<exists>pk'. map_of (added tid ks p) k = Some pk' \<and> unat (pk_gen pk) \<le> unat (pk_gen pk')"
    "k \<in> set ks \<Longrightarrow> map_of (added tid ks p) k = Some \<lparr>pk_tenant = tid, pk_gen = pgen p + 1\<rparr>"
  using assms unat_Suc [OF assms(2)]
  by (auto simp: added_def pending_ok_def map_of_fold_update distinct_fold_update list_all_iff le_SucI split: if_splits)

lemma add_ok:
  assumes "pending_ok p" "unat (pgen p) < 2 ^ 64 - 1" "list_all (owned (kprefix p) tid) ks"
  shows "pending_ok (pending_add tid ks p)"
proof (cases "length (added tid ks p) > pmax p")
  case True
  have "owned (kprefix p) (pk_tenant pk) k \<and> unat (pk_gen pk) \<le> Suc (unat (pgen p))"
    if c: "map_of (collapsed (kprefix p) (pgen p + 1) (added tid ks p) []) k = Some pk" for k pk
  proof -
    from collapsed_Some [OF c] obtain k' pk' where "k = tenantTokenKey (kprefix p) (pk_tenant pk)" "pk_gen pk = pgen p + 1"
      "(k', pk') \<in> set (added tid ks p)" "pk_tenant pk = pk_tenant pk'" by auto
    moreover from this have "owned (kprefix p) (pk_tenant pk') k'"
      using added_ok(1,2) [OF assms] by (simp add: map_of_is_SomeI)
    ultimately show ?thesis using unat_Suc [OF assms(2)] owned_token_keys(1) by (simp add: owned_def)
  qed
  then show ?thesis
    using True distinct_collapsed [of "[]"] unat_Suc [OF assms(2)] by (auto simp: pending_ok_def pending_add_keys)
next
  case False
  then show ?thesis
    using added_ok(1,2) [OF assms] unat_Suc [OF assms(2)] by (auto simp: pending_ok_def pending_add_keys)
qed

lemma add_present:
  assumes "pending_ok p" "unat (pgen p) < 2 ^ 64 - 1" "list_all (owned (kprefix p) tid) ks"
    "map_of (added tid ks p) k' = Some pk" "k' \<in> {k, tenantTokenKey (kprefix p) t}" "owned (kprefix p) t k" "g \<le> unat (pk_gen pk)"
  shows "owes (pending_add tid ks p) t k g"
proof (cases "length (added tid ks p) > pmax p")
  case True
  have o: "owned (kprefix p) (pk_tenant pk) k'" "unat (pk_gen pk) \<le> Suc (unat (pgen p))"
    using added_ok(2) [OF assms(1-4)] by auto
  moreover have "owned (kprefix p) t k'" using assms(5,6) owned_token_keys(1) by (auto simp: owned_def)
  ultimately have t: "pk_tenant pk = t" using owned_unique by metis
  obtain pk' where "map_of (collapsed (kprefix p) (pgen p + 1) (added tid ks p) []) (tenantTokenKey (kprefix p) t) = Some pk'"
    "pk_gen pk' = pgen p + 1"
    using collapsed_present [OF map_of_SomeD [OF assms(4)]] t by blast
  then show ?thesis
    using True o(2) assms(7) unat_Suc [OF assms(2)] by (auto simp: owes_def pending_add_keys)
next
  case False
  then show ?thesis using assms(4,5,7) by (auto simp: owes_def pending_add_keys)
qed

lemma add_owes:
  assumes "pending_ok p" "unat (pgen p) < 2 ^ 64 - 1" "list_all (owned (kprefix p) tid) ks"
  shows "k \<in> set ks \<Longrightarrow> owes (pending_add tid ks p) tid k (Suc (unat (pgen p)))"
    and "owes p t k g \<Longrightarrow> owned (kprefix p) t k \<Longrightarrow> owes (pending_add tid ks p) t k g"
proof -
  show "owes (pending_add tid ks p) tid k (Suc (unat (pgen p)))" if "k \<in> set ks"
    using add_present [OF assms added_ok(4) [OF assms that], of k] assms(3) that unat_Suc [OF assms(2)]
    by (auto simp: list_all_iff)
  show "owes (pending_add tid ks p) t k g" if "owes p t k g" "owned (kprefix p) t k"
    using that added_ok(3) [OF assms] add_present [OF assms, of _ _ k t g] unfolding owes_def [of p] by (meson le_trans)
qed

subsection \<open>Landing bumps\<close>

definition discharges :: "(string \<times> uint64) list \<Rightarrow> string \<Rightarrow> string \<Rightarrow> string \<Rightarrow> nat \<Rightarrow> bool" where
  "discharges landed pre tid k g \<longleftrightarrow> (\<exists>k' \<in> {k, tenantTokenKey pre tid}. \<exists>g'. (k', g') \<in> set landed \<and> g \<le> unat g')"

definition drop_landed :: "(string \<times> uint64) list \<Rightarrow> (string \<times> pendingKey) list \<Rightarrow> (string \<times> pendingKey) list" where
  "drop_landed landed m = fold (\<lambda>(k, g) m. (case map_of m k of
        Some pk \<Rightarrow> if pk_gen pk = g then AList.delete k m else m | None \<Rightarrow> m)) landed m"

lemma drop_landed_map:
  "map_of (drop_landed landed m) k =
     (case map_of m k of Some pk \<Rightarrow> (if (k, pk_gen pk) \<in> set landed then None else Some pk) | None \<Rightarrow> None)"
proof (induction landed arbitrary: m)
  case Nil
  then show ?case by (simp add: drop_landed_def split: option.splits)
next
  case (Cons x xs)
  obtain a g where x: "x = (a, g)" by (cases x)
  have step: "drop_landed (x # xs) m = drop_landed xs (case map_of m a of Some pk \<Rightarrow> if pk_gen pk = g then AList.delete a m else m | None \<Rightarrow> m)"
    by (simp add: drop_landed_def x)
  show ?case unfolding step Cons by (auto simp: x delete_conv' split: option.splits if_splits)
qed

lemma drop_landed_distinct: "distinct (map fst m) \<Longrightarrow> distinct (map fst (drop_landed landed m))"
  by (induction landed arbitrary: m) (auto simp: drop_landed_def distinct_delete split: option.splits)

lemma pending_done_keys: "pending_done landed p = p\<lparr>keys := drop_landed landed (keys p)\<rparr>"
  by (simp add: pending_done_def drop_landed_def)

lemma done_ok: "pending_ok p \<Longrightarrow> pending_ok (pending_done landed p)"
  by (auto simp: pending_ok_def pending_done_keys drop_landed_distinct drop_landed_map split: option.splits if_splits)

lemma done_owes:
  assumes "owes p tid k g" "\<not> discharges landed (kprefix p) tid k g"
  shows "owes (pending_done landed p) tid k g"
  using assms unfolding owes_def discharges_def pending_done_keys by (fastforce simp: drop_landed_map)


datatype pending_event = PAdd string "string list" | PDone "(string \<times> uint64) list"

fun pending_step :: "pending_event \<Rightarrow> pendingBumps \<Rightarrow> pendingBumps" where
  "pending_step (PAdd tid ks) p = pending_add tid ks p"
| "pending_step (PDone landed) p = pending_done landed p"

fun well_owned :: "string \<Rightarrow> pending_event \<Rightarrow> bool" where
  "well_owned pre (PAdd tid ks) \<longleftrightarrow> list_all (owned pre tid) ks"
| "well_owned pre (PDone landed) \<longleftrightarrow> True"

definition adds :: "pending_event list \<Rightarrow> nat" where
  "adds es = length (filter (\<lambda>e. case e of PAdd _ _ \<Rightarrow> True | _ \<Rightarrow> False) es)"

lemma adds_simps [simp]: "adds [] = 0" "adds (PAdd t ks # es) = Suc (adds es)" "adds (PDone l # es) = adds es"
  "adds (xs @ ys) = adds xs + adds ys"
  by (simp_all add: adds_def)

lemma pending_run_ok:
  assumes "pending_ok p" "list_all (well_owned (kprefix p)) es" "unat (pgen p) + adds es < 2 ^ 64"
  shows "pending_ok (fold pending_step es p) \<and> kprefix (fold pending_step es p) = kprefix p \<and>
    unat (pgen (fold pending_step es p)) = unat (pgen p) + adds es \<and>
    (\<forall>tid k g. owes p tid k g \<longrightarrow> owned (kprefix p) tid k \<longrightarrow>
       (\<forall>landed. PDone landed \<in> set es \<longrightarrow> \<not> discharges landed (kprefix p) tid k g) \<longrightarrow>
       owes (fold pending_step es p) tid k g)"
  using assms
proof (induction es arbitrary: p)
  case Nil
  then show ?case by simp
next
  case (Cons e es)
  show ?case
  proof (cases e)
    case (PAdd tid ks)
    have g: "unat (pgen p) < 2 ^ 64 - 1" "unat (pgen p + 1) = Suc (unat (pgen p))"
      using Cons.prems(3) PAdd unat_Suc [of "pgen p"] by auto
    have o: "list_all (owned (kprefix p) tid) ks" using Cons.prems(2) PAdd by simp
    note A = add_ok [OF Cons.prems(1) g(1) o] and O = add_owes(2) [OF Cons.prems(1) g(1) o]
    have "pending_ok (fold pending_step es (pending_add tid ks p)) \<and> kprefix (fold pending_step es (pending_add tid ks p)) = kprefix p \<and>
      unat (pgen (fold pending_step es (pending_add tid ks p))) = Suc (unat (pgen p)) + adds es \<and>
      (\<forall>t k g. owes (pending_add tid ks p) t k g \<longrightarrow> owned (kprefix p) t k \<longrightarrow>
       (\<forall>landed. PDone landed \<in> set es \<longrightarrow> \<not> discharges landed (kprefix p) t k g) \<longrightarrow>
       owes (fold pending_step es (pending_add tid ks p)) t k g)"
      using Cons.IH [OF A] Cons.prems(2,3) PAdd g(2) by (simp add: pending_add_keys)
    then show ?thesis using PAdd O by auto
  next
    case (PDone landed)
    note A = done_ok [OF Cons.prems(1), of landed]
    have "kprefix (pending_done landed p) = kprefix p" "pgen (pending_done landed p) = pgen p" by (simp_all add: pending_done_keys)
    then show ?thesis using Cons.IH [OF A] Cons.prems(2,3) PDone done_owes [of p _ _ _ landed] by auto
  qed
qed

lemma pending_new_ok: "pending_ok (newPendingBumps pre m)"
  by (simp add: pending_ok_def newPendingBumps_def)

lemma owes_owesAny: "owes p tid k g \<Longrightarrow> k \<in> set ks \<Longrightarrow> tenantTokenKey (kprefix p) tid \<in> set ks \<Longrightarrow> owesAny ks p"
proof -
  assume "owes p tid k g" "k \<in> set ks" "tenantTokenKey (kprefix p) tid \<in> set ks"
  then obtain k' pk where "k' \<in> set ks" "map_of (keys p) k' = Some pk" by (auto simp: owes_def)
  moreover from this have "keys p \<noteq> []" by auto
  ultimately show ?thesis by (auto simp: owesAny_def pending_len_def list_ex_iff intro!: bexI [of _ k'])
qed

lemma pending_keeps:
  assumes "pending_ok p" "list_all (well_owned (kprefix p)) (before @ PAdd tid ks # after)"
    "unat (pgen p) + adds (before @ PAdd tid ks # after) < 2 ^ 64" "k \<in> set ks"
    "\<And>landed. PDone landed \<in> set after \<Longrightarrow> \<not> discharges landed (kprefix p) tid k (Suc (unat (pgen p) + adds before))"
  shows "owes (fold pending_step (before @ PAdd tid ks # after) p) tid k (Suc (unat (pgen p) + adds before))"
    "kprefix (fold pending_step (before @ PAdd tid ks # after) p) = kprefix p"
proof -
  let ?q = "fold pending_step before p" and ?g = "Suc (unat (pgen p) + adds before)"
  have q: "pending_ok ?q" "kprefix ?q = kprefix p" "unat (pgen ?q) = unat (pgen p) + adds before"
    using pending_run_ok [OF assms(1), of before] assms(2,3) by auto
  have o: "list_all (owned (kprefix ?q) tid) ks" "owned (kprefix p) tid k" using assms(2,4) q(2) by (auto simp: list_all_iff)
  have g: "unat (pgen ?q) < 2 ^ 64 - 1" "unat (pgen ?q + 1) = ?g" using assms(3) q(3) unat_Suc [of "pgen ?q"] by auto
  let ?r = "pending_add tid ks ?q"
  have r: "pending_ok ?r" "owes ?r tid k ?g" "kprefix ?r = kprefix p" "unat (pgen ?r) = ?g"
    using add_ok [OF q(1) g(1) o(1)] add_owes(1) [OF q(1) g(1) o(1) assms(4)] q g by (simp_all add: pending_add_keys)
  then show "owes (fold pending_step (before @ PAdd tid ks # after) p) tid k ?g"
    "kprefix (fold pending_step (before @ PAdd tid ks # after) p) = kprefix p"
    using pending_run_ok [OF r(1), of after] assms(2,3,5) o(2) by auto
qed

text \<open>A bump the server has not taken stays owed. Whatever is added and landed concurrently (a landing
  report carries the generations of the snapshot it was sent from) and however often the set collapses to
  tenant bumps, a key added stays owed, itself or through its tenant, until a report lands that key or
  that tenant's at the generation of the add or a later one.\<close>

theorem pending_no_loss:
  assumes "list_all (well_owned pre) (before @ PAdd tid ks # after)" "adds (before @ PAdd tid ks # after) < 2 ^ 64" "k \<in> set ks"
    "\<And>landed. PDone landed \<in> set after \<Longrightarrow> \<not> discharges landed pre tid k (Suc (adds before))"
  shows "owesAny [k, tenantTokenKey pre tid] (fold pending_step (before @ PAdd tid ks # after) (newPendingBumps pre m))"
proof -
  let ?p = "newPendingBumps pre m"
  have p: "kprefix ?p = pre" "unat (pgen ?p) = 0" by (simp_all add: newPendingBumps_def)
  note K = pending_keeps [OF pending_new_ok [of pre m], of before tid ks after k, unfolded p add_0]
  show ?thesis using K assms by (intro owes_owesAny [of _ tid k]) auto
qed

theorem pending_no_loss_witness:
  "owesAny [''wh:{a}:B:t'', ''wh:{a}:T'']
     (fold pending_step [PAdd ''a'' [''wh:{a}:B:u''], PAdd ''a'' [''wh:{a}:B:t''], PDone [(''wh:{a}:T'', 1)]] (newPendingBumps ''wh'' 1))"
proof -
  have "tenant_Parse ''a'' = Inr ''a''" by code_simp
  then have o: "owned ''wh'' ''a'' ''wh:{a}:B:t''" "owned ''wh'' ''a'' ''wh:{a}:B:u''" by (auto simp: owned_def token_key_def)
  show ?thesis
    using pending_no_loss [of "''wh''" "[PAdd ''a'' [''wh:{a}:B:u'']]" "''a''" "[''wh:{a}:B:t'']" "[PDone [(''wh:{a}:T'', 1)]]" "''wh:{a}:B:t''" 1] o
    by (simp add: discharges_def tenantTokenKey_def)
qed


section \<open>Invalidations reach the server or are owed\<close>

lemma chunks_concat: "0 < n \<Longrightarrow> concat (chunks n xs) = xs"
proof (induction n xs rule: chunks.induct)
  case (1 n xs)
  then show ?case by (subst chunks.simps) auto
qed

lemma sendBumps_landed:
  assumes "\<And>cmds. length (send cmds) = length cmds"
  shows "length (fst (sendBumps send tok r ks)) = length ks"
    "i < length ks \<Longrightarrow> fst (sendBumps send tok r ks) ! i \<longleftrightarrow> send (map (bumpCmd tok r) ks) ! i = None"
  using assms [of "map (bumpCmd tok r) ks"] by (auto simp: sendBumps_def Let_def)

text \<open>The server took a fresh token for the key in one of the batches.\<close>

definition accepted :: "(rcmd list \<Rightarrow> rerr option list) \<Rightarrow> (string \<Rightarrow> bytes) \<Rightarrow> RedisCache \<Rightarrow> string list list \<Rightarrow> string \<Rightarrow> bool" where
  "accepted send tok r bs k \<longleftrightarrow>
     (\<exists>batch i. batch \<in> set bs \<and> i < length batch \<and> batch ! i = k \<and> send (map (bumpCmd tok r) batch) ! i = None)"

lemma send_batches_failed:
  assumes "\<And>cmds. length (send cmds) = length cmds" "send_batches send tok r bs err = (failed, err')" "k \<in> set (concat bs)"
    "k \<notin> set failed"
  shows "accepted send tok r bs k"
  using assms(2-)
proof (induction bs arbitrary: err failed)
  case (Cons batch bs)
  obtain f e where rest: "send_batches send tok r bs (if err = None then snd (sendBumps send tok r batch) else err) = (f, e)"
    by (rule prod.exhaust)
  have tail: "accepted send tok r (batch # bs) k" if "k \<in> set (concat bs)" "k \<notin> set f"
  proof -
    have "e = err'" using rest Cons.prems(1) by (auto split: option.splits prod.splits)
    then show ?thesis using Cons.IH [OF _ that(1), of _ f] rest that(2) by (fastforce simp: accepted_def)
  qed
  show ?case
  proof (cases err)
    case None
    obtain landed e1 where sb: "sendBumps send tok r batch = (landed, e1)" by (rule prod.exhaust)
    have f: "failed = map fst (filter (\<lambda>(k, ok). \<not> ok) (zip batch landed)) @ f"
      using Cons.prems(1) rest None sb by (auto split: prod.splits)
    show ?thesis
    proof (cases "k \<in> set batch")
      case True
      then obtain i where i: "i < length batch" "batch ! i = k" by (auto simp: in_set_conv_nth)
      have l: "length landed = length batch" using sendBumps_landed(1) [OF assms(1), of tok r batch] sb by simp
      have "(k, landed ! i) \<in> set (zip batch landed)" using i l by (auto simp: in_set_zip)
      then have "landed ! i" using Cons.prems(3) f by force
      then have "send (map (bumpCmd tok r) batch) ! i = None"
        using sendBumps_landed(2) [OF assms(1), of i batch tok r] i sb by simp
      then show ?thesis using i by (auto simp: accepted_def)
    next
      case False
      then show ?thesis using tail Cons.prems(2,3) f by auto
    qed
  next
    case (Some x)
    then have "failed = batch @ f" using Cons.prems(1) rest by (auto split: prod.splits)
    then show ?thesis using tail Cons.prems(2,3) by auto
  qed
qed simp

lemma defer_owes:
  assumes "pending_ok (r_pending r)" "\<forall>(k, tid) \<in> set owner. owned (kprefix (r_pending r)) tid k"
    "unat (pgen (r_pending r)) + length owner < 2 ^ 64" "(k, tid) \<in> set owner"
  shows "\<exists>g. owes (r_pending (deferBumps owner r)) tid k g" "kprefix (r_pending (deferBumps owner r)) = kprefix (r_pending r)"
proof -
  obtain xs ys where o: "owner = xs @ (k, tid) # ys" using split_list [OF assms(4)] by blast
  let ?ev = "\<lambda>(k, tid). PAdd tid [k]"
  have f: "fold (\<lambda>(k, tid) p. pending_add tid [k] p) owner q = fold pending_step (map ?ev owner) q" for q
    by (induction owner arbitrary: q) auto
  have n: "adds (map ?ev zs) = length zs" for zs by (induction zs) auto
  have w: "list_all (well_owned (kprefix (r_pending r))) (map ?ev owner)" using assms(2) by (auto simp: list_all_iff)
  have d: "r_pending (deferBumps owner r) = fold pending_step (map ?ev owner) (r_pending r)"
    by (simp add: deferBumps_def Let_def nudge_def f)
  have "map ?ev owner = map ?ev xs @ PAdd tid [k] # map ?ev ys" by (simp add: o)
  note e = this
  have nd: "PDone l \<notin> set (map ?ev ys)" for l by auto
  show "\<exists>g. owes (r_pending (deferBumps owner r)) tid k g" "kprefix (r_pending (deferBumps owner r)) = kprefix (r_pending r)"
    unfolding d e using pending_keeps [OF assms(1), of "map ?ev xs" tid "[k]" "map ?ev ys" k] w n [of owner] assms(3) nd
    by (auto simp: e)
qed

lemma record_outcome_same [simp]:
  "r_pending (record_outcome now gone e r) = r_pending r" "KeyPrefix (record_outcome now gone e r) = KeyPrefix r"
  by (auto simp: record_outcome_def recordReply_def split: option.splits rerr.splits)

lemma conn_same:
  "conn now r = (ok, q, r') \<Longrightarrow> r_pending r' = r_pending r \<and> KeyPrefix r' = KeyPrefix r \<and> VersionTTL r' = VersionTTL r"
  by (auto simp: conn_def split: if_splits prod.splits)

lemma bump_covers:
  assumes "\<And>cmds. length (send cmds) = length cmds" "pending_ok (r_pending r)"
    "\<forall>(k, tid) \<in> set owner. owned (kprefix (r_pending r)) tid k"
    "unat (pgen (r_pending r)) + length owner < 2 ^ 64" "(k, tid) \<in> set owner" "bump send tok now gone owner r = (e, r')"
  shows "accepted send tok r (chunks drainBatch (map fst owner)) k \<or>
    e \<noteq> None \<and> (\<exists>g. owes (r_pending r') tid k g) \<and> kprefix (r_pending r') = kprefix (r_pending r)"
proof -
  obtain ok q r1 where c: "conn now r = (ok, q, r1)" by (rule prod_cases3)
  have s: "r_pending r1 = r_pending r" using conn_same [OF c] by simp
  show ?thesis
  proof (cases ok)
    case False
    then have "r' = deferBumps owner r1" "e \<noteq> None" using assms(5,6) c by (auto simp: bump_def split: if_splits)
    then show ?thesis using defer_owes [of r1 owner k tid] assms(2-5) s by auto
  next
    case True
    then have r1: "r1 = r" using conn_ok c by auto
    obtain failed err where sb: "send_batches send tok r (chunks drainBatch (map fst owner)) None = (failed, err)"
      by (rule prod.exhaust)
    show ?thesis
    proof (cases "k \<in> set failed")
      case True
      let ?f = "filter (\<lambda>(k, tid). k \<in> set failed) owner"
      have m: "(k, tid) \<in> set ?f" using True assms(5) by auto
      from m have "?f \<noteq> []" by (metis empty_iff empty_set)
      moreover from m have "owner \<noteq> []" by auto
      ultimately have "?f \<noteq> []" "owner \<noteq> []" .
      then have "r' = deferBumps ?f (record_outcome now gone err r)" "e \<noteq> None"
        using assms(6) c sb \<open>ok\<close> r1 by (simp_all add: bump_def Let_def) auto
      moreover have "unat (pgen (r_pending r)) + length ?f < 2 ^ 64"
        using length_filter_le [of "\<lambda>(k, tid). k \<in> set failed" owner] assms(4) by linarith
      ultimately show ?thesis
        using defer_owes [of "record_outcome now gone err r" ?f k tid] assms(2-4) m by auto
    next
      case False
      have "k \<in> set (concat (chunks drainBatch (map fst owner)))"
        using assms(5) by (subst chunks_concat) (auto simp: drainBatch_def intro: rev_image_eqI)
      then show ?thesis using send_batches_failed [OF assms(1) sb _ False] by blast
    qed
  qed
qed


lemma map_of_bump_owner:
  "map_of (fold (\<lambda>(k, tid) m. AList.update k tid m) xs m) k =
     (case map_of (rev xs) k of Some t \<Rightarrow> Some t | None \<Rightarrow> map_of m k)"
  by (induction xs arbitrary: m) (auto simp: update_conv' split: option.splits)

lemma length_bump_owner: "length (fold (\<lambda>(k, tid) m. AList.update k tid m) xs m) \<le> length xs + length m"
proof (induction xs arbitrary: m)
  case (Cons x xs)
  have "length (AList.update a b m) \<le> Suc (length m)" for a b by (induction m) auto
  then show ?case using Cons [of "AList.update (fst x) (snd x) m"] by (cases x) (fastforce intro: order_trans)
qed simp

lemma bump_owner_props:
  assumes "list_all (\<lambda>ns. tenant_Parse (Tenant ns) = Inr (Tenant ns)) nss"
  shows "\<forall>(k, tid) \<in> set (bump_owner pre nss). owned pre tid k"
    "ns \<in> set nss \<Longrightarrow> k \<in> set (bumpKeys pre ns) \<Longrightarrow> (k, Tenant ns) \<in> set (bump_owner pre nss)"
    "length (bump_owner pre nss) \<le> 2 * length nss"
proof -
  let ?xs = "concat (map (\<lambda>ns. map (\<lambda>k. (k, Tenant ns)) (bumpKeys pre ns)) nss)"
  have own: "owned pre (Tenant ns) k" if "ns \<in> set nss" "k \<in> set (bumpKeys pre ns)" for ns k
    using assms that owned_token_keys by (auto simp: bumpKeys_def list_all_iff split: if_splits)
  have d: "distinct (map fst (bump_owner pre nss))"
    unfolding bump_owner_def
    by (rule fold_invariant [where P = "\<lambda>m. distinct (map fst m)" and Q = "\<lambda>_. True"]) (auto simp: distinct_update)
  have m: "map_of (bump_owner pre nss) k = map_of (rev ?xs) k" for k
    by (simp add: bump_owner_def map_of_bump_owner split: option.splits)
  show "\<forall>(k, tid) \<in> set (bump_owner pre nss). owned pre tid k"
  proof clarify
    fix k tid assume "(k, tid) \<in> set (bump_owner pre nss)"
    then have "map_of (rev ?xs) k = Some tid" using map_of_is_SomeI [OF d] unfolding m by blast
    then have "(k, tid) \<in> set ?xs" using map_of_SomeD set_rev by metis
    then show "owned pre tid k" using own by auto
  qed
  show "(k, Tenant ns) \<in> set (bump_owner pre nss)" if "ns \<in> set nss" "k \<in> set (bumpKeys pre ns)"
  proof -
    have sx: "set ?xs = (\<Union>ns \<in> set nss. (\<lambda>k. (k, Tenant ns)) ` set (bumpKeys pre ns))" by simp
    have "(k, Tenant ns) \<in> set ?xs" unfolding sx using that by (intro UN_I [of ns] imageI)
    then have "k \<in> fst ` set (rev ?xs)" unfolding set_rev by (rule rev_image_eqI) simp
    then have "map_of (rev ?xs) k \<noteq> None" unfolding map_of_eq_None_iff by blast
    then obtain t where t: "map_of (rev ?xs) k = Some t" by (cases "map_of (rev ?xs) k") blast+
    then have "(k, t) \<in> set ?xs" using map_of_SomeD [OF t] by (simp only: set_rev)
    then obtain ns' where n: "ns' \<in> set nss" "k \<in> set (bumpKeys pre ns')" "t = Tenant ns'" by auto
    have "t = Tenant ns" unfolding n(3) by (rule owned_unique [OF own [OF n(1,2)] own [OF that]])
    then show ?thesis using map_of_SomeD [of "bump_owner pre nss" k t] unfolding m t by simp
  qed
  have "length ?xs \<le> 2 * length nss" by (induction nss) (auto simp: bumpKeys_def)
  then show "length (bump_owner pre nss) \<le> 2 * length nss"
    using length_bump_owner [of ?xs "[]"] by (simp add: bump_owner_def)
qed

text \<open>No hit, and the zero snapshot, under which nothing is stored.\<close>

definition bypasses :: "(lookup_error + Entry option) \<times> RSnapshot \<times> RedisCache \<Rightarrow> bool" where
  "bypasses res \<longleftrightarrow> (case res of (out, snap, _) \<Rightarrow> snap = zero_snap \<and> (case out of Inr (Some _) \<Rightarrow> False | _ \<Rightarrow> True))"

lemma owed_bypass:
  "own_deps tid deps \<Longrightarrow> owesAny (tokenKeys (KeyPrefix r) tid deps) (r_pending r) \<Longrightarrow>
   bypasses (redis_Lookup c hexsum tok S now gone r tid sha deps)"
  by (auto simp: bypasses_def redis_Lookup_def Let_def find_own split: option.splits)

lemma deferBumps_prefix [simp]: "KeyPrefix (deferBumps owner r) = KeyPrefix r"
  by (simp add: deferBumps_def nudge_def Let_def)

lemma bump_prefix: "bump send tok now gone owner r = (e, r') \<Longrightarrow> KeyPrefix r' = KeyPrefix r"
proof -
  obtain ok q r1 where c: "conn now r = (ok, q, r1)" by (rule prod_cases3)
  assume "bump send tok now gone owner r = (e, r')"
  then show ?thesis using c conn_same [OF c] by (auto simp: bump_def Let_def split: if_splits prod.splits)
qed

text \<open>C19. An invalidation is never lost to this process: for every lookup a write touches, either the
  server took a fresh token for one of the keys the lookup reads, or the call reports an error and the
  lookup bypasses the cache (no hit, and no snapshot to fill under) whatever the server answers.\<close>

theorem Invalidate_not_lost:
  assumes multi: "\<And>cmds. length (send cmds) = length cmds"
    and state: "pending_ok (r_pending r)" "kprefix (r_pending r) = KeyPrefix r" "unat (pgen (r_pending r)) + 2 * length nss < 2 ^ 64"
    and names: "list_all (\<lambda>ns. tenant_Parse (Tenant ns) = Inr (Tenant ns)) nss"
    and inv: "redis_Invalidate send tok now gone nss r = (cnt, err, r')"
    and touched: "ns \<in> set nss" "own_deps (Tenant ns) deps" "orphans (EInvalidate [ns]) (Tenant ns) deps"
  shows "(\<exists>k \<in> set (tokenKeys (KeyPrefix r) (Tenant ns) deps).
       accepted send tok r (chunks drainBatch (map fst (bump_owner (KeyPrefix r) nss))) k) \<or>
     err \<noteq> None \<and>
     (\<forall>c hexsum tok S now gone sha. bypasses (redis_Lookup c hexsum tok S now gone r' (Tenant ns) sha deps))"
proof -
  let ?ow = "bump_owner (KeyPrefix r) nss"
  have t: "tenant_Parse (Tenant ns) = Inr (Tenant ns)" using names touched(1) by (simp add: list_all_iff)
  obtain k where k: "k \<in> set (bumpKeys (KeyPrefix r) ns)" "k \<in> set (tokenKeys (KeyPrefix r) (Tenant ns) deps)"
    using bumpKeys_meet [OF t t touched(2)] touched(3) by blast
  note B = bump_owner_props [OF names, where pre = "KeyPrefix r"]
  have b: "bump send tok now gone ?ow r = (err, r')" using inv by (simp add: redis_Invalidate_def)
  have o: "\<forall>(k, tid) \<in> set ?ow. owned (kprefix (r_pending r)) tid k" using B(1) state(2) by simp
  have n: "unat (pgen (r_pending r)) + length ?ow < 2 ^ 64" using B(3) state(3) by simp
  consider "accepted send tok r (chunks drainBatch (map fst ?ow)) k"
    | g where "err \<noteq> None" "owes (r_pending r') (Tenant ns) k g" "kprefix (r_pending r') = KeyPrefix r"
    using bump_covers [OF multi state(1) o n B(2) [OF touched(1) k(1)] b] state(2) by metis
  then show ?thesis
  proof cases
    case 1
    then show ?thesis using k(2) by blast
  next
    case 2
    then have "owesAny (tokenKeys (KeyPrefix r') (Tenant ns) deps) (r_pending r')"
      using owes_owesAny [OF 2(2) k(2)] bump_prefix [OF b] by (simp add: set_tokenKeys)
    then show ?thesis using 2(1) owed_bypass touched(2) by blast
  qed
qed

theorem Invalidate_not_lost_witness:
  "bypasses (redis_Lookup sample_codec id id sample_server 3 False
     (snd (snd (redis_Invalidate (map (\<lambda>_. Some RNoReply)) id 0 False [\<lparr>Tenant = ''a'', Table = ''t'', Scope = ''''\<rparr>] sample_cache)))
     ''a'' ''q'' [\<lparr>Tenant = ''a'', Table = ''t'', Scope = ''''\<rparr>])"
proof -
  let ?ns = "\<lparr>Tenant = ''a'', Table = ''t'', Scope = ''''\<rparr>" and ?send = "map (\<lambda>_ :: rcmd. Some RNoReply)"
  obtain cnt err r' where i: "redis_Invalidate ?send id 0 False [?ns] sample_cache = (cnt, err, r')" by (rule prod_cases3)
  have t: "tenant_Parse ''a'' = Inr ''a''" by code_simp
  have p: "KeyPrefix sample_cache = ''wh''" "r_pending sample_cache = newPendingBumps ''wh'' 9" by (simp_all add: sample_cache_def)
  have q: "kprefix (newPendingBumps ''wh'' 9) = ''wh''" "pgen (newPendingBumps ''wh'' 9) = 0" by (simp_all add: newPendingBumps_def)
  have no: "\<not> accepted ?send id sample_cache bs k" for bs k by (auto simp: accepted_def)
  have "bypasses (redis_Lookup sample_codec id id sample_server 3 False r' ''a'' ''q'' [?ns])"
    using Invalidate_not_lost [OF _ _ _ _ _ i, of ?ns "[?ns]"] t no by (simp add: p q pending_new_ok own_deps_def)
  then show ?thesis unfolding i by simp
qed

section \<open>The breaker\<close>

datatype breaker_event = BAllow int | BSuccess | BFailure int | BTrip int

fun breaker_step :: "breaker_event \<Rightarrow> breaker \<Rightarrow> breaker" where
  "breaker_step (BAllow now) b = snd (allow now b)"
| "breaker_step BSuccess b = success b"
| "breaker_step (BFailure now) b = snd (failure now b)"
| "breaker_step (BTrip now) b = snd (trip now b)"

definition breaker_ok :: "int \<Rightarrow> int \<Rightarrow> breaker \<Rightarrow> bool" where
  "breaker_ok th d b \<longleftrightarrow> threshold b = th \<and> openFor b = d \<and> 0 \<le> failures b \<and> (probing b \<longrightarrow> is_open b) \<and>
     (\<not> is_open b \<longrightarrow> failures b < th)"

lemma breaker_step_ok: "0 < th \<Longrightarrow> breaker_ok th d b \<Longrightarrow> breaker_ok th d (breaker_step e b)"
  by (cases e) (auto simp: breaker_ok_def allow_def success_def failure_def trip_def openLocked_def Let_def)

lemma breaker_run_ok: "0 < th \<Longrightarrow> breaker_ok th d (fold breaker_step es (newBreaker th d))"
proof (induction es rule: rev_induct)
  case Nil
  then show ?case by (simp add: breaker_ok_def newBreaker_def)
next
  case (snoc e es)
  then show ?case by (simp add: breaker_step_ok)
qed

lemma failures_open:
  assumes "breaker_ok th d b" "\<not> is_open b"
  shows "is_open (fold breaker_step (map BFailure ts) b) \<longleftrightarrow> th \<le> failures b + int (length ts)"
  using assms
proof (induction ts arbitrary: b)
  case (Cons t ts)
  let ?b = "breaker_step (BFailure t) b"
  have np: "\<not> probing b" "0 < th" "threshold b = th" using Cons.prems by (auto simp: breaker_ok_def)
  have still: "is_open (fold breaker_step (map BFailure ts) c)" if "is_open c" for c
    using that by (induction ts arbitrary: c) (auto simp: failure_def openLocked_def Let_def)
  show ?case
  proof (cases "is_open ?b")
    case True
    then have "th \<le> failures b + 1" using np Cons.prems(2) by (auto simp: failure_def Let_def split: if_splits)
    then show ?thesis using still [OF True] by simp
  next
    case False
    then have "failures ?b = failures b + 1" using np by (auto simp: failure_def openLocked_def Let_def)
    then show ?thesis using Cons.IH [of ?b] False breaker_step_ok [OF np(2) Cons.prems(1), of "BFailure t"] by (simp add: add.assoc)
  qed
qed (auto simp: breaker_ok_def)

text \<open>The failures a history ends in, counted from its last recorded success.\<close>

definition consecutive_failures :: "breaker_event list \<Rightarrow> nat" where
  "consecutive_failures es =
     length (filter (\<lambda>e. case e of BFailure _ \<Rightarrow> True | _ \<Rightarrow> False) (takeWhile (\<lambda>e. e \<noteq> BSuccess) (rev es)))"

lemma closed_failures:
  "\<not> is_open (fold breaker_step es (newBreaker th d)) \<Longrightarrow> failures (fold breaker_step es (newBreaker th d)) = int (consecutive_failures es)"
proof (induction es rule: rev_induct)
  case Nil
  then show ?case by (simp add: consecutive_failures_def newBreaker_def)
next
  case (snoc e es)
  then show ?case
    by (cases e) (auto simp: consecutive_failures_def allow_def success_def failure_def trip_def openLocked_def Let_def split: if_splits)
qed

lemma probing_allows: "is_open b \<Longrightarrow> probing b \<Longrightarrow> fold breaker_step (map BAllow ts) b = b"
  by (induction ts) (auto simp: allow_def)

lemma probe_due:
  assumes "is_open b" "\<not> probing b" "openFor b < 2 ^ 63" "openedAt b + openFor b \<le> now"
  shows "fst (allow now b) = (False, True)"
  using assms by (auto simp: allow_def time_sub_def)



end
