(* ===== verification/Dedupe.thy ===== *)
theory Dedupe
  imports Keyenc Shard
begin

text \<open>
  Ingest deduplication: the stored keys (\<^verbatim>\<open>internal/dedupe/key.go\<close>), the embedded store (\<^verbatim>\<open>embedded.go\<close>), its
  sweep (\<^verbatim>\<open>sweep.go\<close>), the switch in front of any store (\<^verbatim>\<open>managed.go\<close>) and the stores by tenant
  (\<^verbatim>\<open>stores.go\<close>). Pebble, the key-value store below, is the map of what it holds, and which of its calls fail
  is an argument; SHA-256 is an argument. Instants and durations are nanoseconds.

  The locale \<open>deduplicator\<close> is the interface \<^verbatim>\<open>Deduplicator\<close> as \<^verbatim>\<open>Managed\<close> relies on it; it is interpreted on
  the embedded store.
\<close>

unbundle bit_operations_syntax

section \<open>Keys\<close>

record Key =
  Table :: string
  ID :: string

definition keySep :: char where "keySep = CHR ''/''"
definition hashedMark :: char where "hashedMark = CHR ''#''"
definition MaxIDBytes :: nat where "MaxIDBytes = 1024"
definition TableBuckets :: int where "TableBuckets = 256"

definition KeyPrefix :: "string \<Rightarrow> bytes" where
  "KeyPrefix tid = tid @ [keySep]"

definition Hashed :: "Key \<Rightarrow> bool" where
  "Hashed k =
     (if length (ID k) > MaxIDBytes then True
      else if 3 * length (ID k) \<le> MaxIDBytes then False
      else length (Escape (ID k)) > MaxIDBytes)"

text \<open>\<open>hexsum\<close> is the hexadecimal SHA-256.\<close>

definition appendHashedID :: "(string \<Rightarrow> string) \<Rightarrow> bytes \<Rightarrow> string \<Rightarrow> bytes" where
  "appendHashedID hexsum dst i = dst @ [hashedMark] @ hexsum i"

definition appendID :: "(string \<Rightarrow> string) \<Rightarrow> bytes \<Rightarrow> Key \<Rightarrow> bytes" where
  "appendID hexsum dst k = (if Hashed k then appendHashedID hexsum dst (ID k) else AppendEscape dst (ID k))"

definition AppendKey :: "(string \<Rightarrow> string) \<Rightarrow> bytes \<Rightarrow> bytes \<Rightarrow> Key \<Rightarrow> bytes" where
  "AppendKey hexsum dst pre k = appendID hexsum (append_join (dst @ pre) keySep [Table k] @ [keySep]) k"

text \<open>The bucket is a \<open>Jump\<close>, whose \<open>None\<close> is a loop that does not end.\<close>

definition PartitionedKey :: "(string \<Rightarrow> string) \<Rightarrow> string \<Rightarrow> Key \<Rightarrow> (string \<times> string) option" where
  "PartitionedKey hexsum tid k =
     (let s = appendID hexsum [] k;
          s = (if s = [] then appendHashedID hexsum s (ID k) else s) in
      case Jump (Mix (fnv64a s)) TableBuckets of
        None \<Rightarrow> None
      | Some b \<Rightarrow> Some (append_join (KeyPrefix tid) keySep [Table k] @ [keySep] @ itoa_int b, s))"

definition IdempotencyKey :: "(string \<Rightarrow> string) \<Rightarrow> string \<Rightarrow> Key \<Rightarrow> string" where
  "IdempotencyKey hexsum tid k = take 32 (hexsum (AppendKey hexsum [] (KeyPrefix tid) k))"

section \<open>Claims\<close>

datatype claim_status = Claimed | Duplicate | InFlight

record Claim =
  claim_key :: Key
  Status :: claim_status
  Token :: string

definition DefaultLease :: int where "DefaultLease = 30 * 10 ^ 9"

section \<open>The embedded store\<close>

record pending =
  token :: string
  expires :: int

record pendingShard =
  claims :: "string \<rightharpoonup> pending"
  nextSweep :: int

text \<open>The instance: what Pebble holds, the pending claims by shard, the token counter.\<close>

record Embedded =
  db :: "bytes \<rightharpoonup> bytes"
  shards :: "nat \<Rightarrow> pendingShard"
  tokens :: "64 word"

definition pendingShards :: nat where "pendingShards = 64"

text \<open>\<^verbatim>\<open>fnv.New32a\<close>, and the shard of a key.\<close>

definition fnv32a :: "string \<Rightarrow> 32 word" where
  "fnv32a s = foldl (\<lambda>h c. (h XOR of_nat (byte c)) * 16777619) 2166136261 s"

definition shard_of :: "bytes \<Rightarrow> nat" where
  "shard_of key = unat (fnv32a key) mod pendingShards"

text \<open>The zero instant of \<^verbatim>\<open>time.Time\<close> is before every clock reading; \<open>zero\<close> stands for it.\<close>

definition newEmbedded :: "int \<Rightarrow> (bytes \<rightharpoonup> bytes) \<Rightarrow> Embedded" where
  "newEmbedded zero held =
     \<lparr>db = held, shards = (\<lambda>_. \<lparr>claims = Map.empty, nextSweep = zero\<rparr>), tokens = 0\<rparr>"

definition shard_sweep :: "int \<Rightarrow> pendingShard \<Rightarrow> pendingShard" where
  "shard_sweep now sh =
     (if now < nextSweep sh then sh
      else \<lparr>claims = (\<lambda>k. case claims sh k of Some p \<Rightarrow> (if now < expires p then Some p else None) | None \<Rightarrow> None),
            nextSweep = now + DefaultLease\<rparr>)"

definition committedMark :: char where "committedMark = CHR 0x02"
definition valueLen :: nat where "valueLen = 9"

definition committedExpiry :: "bytes \<Rightarrow> int option" where
  "committedExpiry val =
     (if length val \<noteq> valueLen \<or> hd val \<noteq> committedMark then None else Some (wrap64 (int (get_be (tl val)))))"

definition committedLive :: "bytes \<Rightarrow> int \<Rightarrow> bool" where
  "committedLive val now = (case committedExpiry val of None \<Rightarrow> False | Some ex \<Rightarrow> ex = 0 \<or> now < ex)"

definition committedExpired :: "bytes \<Rightarrow> int \<Rightarrow> bool" where
  "committedExpired val now = (case committedExpiry val of None \<Rightarrow> False | Some ex \<Rightarrow> ex \<noteq> 0 \<and> now \<ge> ex)"

definition isCommit :: "bytes \<Rightarrow> bool" where
  "isCommit val \<longleftrightarrow> committedExpiry val \<noteq> None"

definition expiry :: "int \<Rightarrow> int \<Rightarrow> int" where
  "expiry now retention =
     (if retention \<le> 0 then 0
      else if retention > wrap64 (2 ^ 63 - 1 - now) then 2 ^ 63 - 1
      else now + retention)"

definition commit_value :: "int \<Rightarrow> bytes" where
  "commit_value ex = committedMark # put_be 8 (nat (ex mod 2 ^ 64))"

text \<open>\<^verbatim>\<open>strconv.FormatUint(n, 36)\<close>.\<close>

definition digit36 :: "nat \<Rightarrow> char" where
  "digit36 d = (if d < 10 then char_of (48 + d) else char_of (87 + d))"

fun itoa36 :: "nat \<Rightarrow> string" where
  "itoa36 n = (if n < 36 then [digit36 n] else itoa36 (n div 36) @ [digit36 (n mod 36)])"

declare itoa36.simps [simp del]

definition put_shard :: "bytes \<Rightarrow> pendingShard \<Rightarrow> Embedded \<Rightarrow> Embedded" where
  "put_shard key sh e = e\<lparr>shards := (shards e)(shard_of key := sh)\<rparr>"

datatype dedupe_error = ReadFailed | CommitFailed | ErrDisabled | ErrUnavailable | Miscounted nat nat

text \<open>One key under its shard's lock; \<open>fails\<close> tells whether the Pebble read of a key fails.\<close>

definition reserve_key ::
  "(bytes \<Rightarrow> bool) \<Rightarrow> bytes \<Rightarrow> Key \<Rightarrow> int \<Rightarrow> int \<Rightarrow> Embedded \<Rightarrow> (dedupe_error + Claim) \<times> Embedded" where
  "reserve_key fails key k now lease e =
     (let sh = shard_sweep now (shards e (shard_of key));
          e = put_shard key sh e in
      if (case claims sh key of Some p \<Rightarrow> now < expires p | None \<Rightarrow> False)
      then (Inr \<lparr>claim_key = k, Status = InFlight, Token = ''''\<rparr>, e)
      else if fails key then (Inl ReadFailed, e)
      else if (case db e key of Some val \<Rightarrow> committedLive val now | None \<Rightarrow> False)
      then (Inr \<lparr>claim_key = k, Status = Duplicate, Token = ''''\<rparr>, e)
      else (let t = tokens e + 1; tok = itoa36 (unat t);
                sh = sh\<lparr>claims := (claims sh)(key \<mapsto> \<lparr>token = tok, expires = now + lease\<rparr>)\<rparr> in
            (Inr \<lparr>claim_key = k, Status = Claimed, Token = tok\<rparr>, put_shard key sh (e\<lparr>tokens := t\<rparr>))))"

text \<open>A tenant's store is its key prefix over the instance. \<open>skey\<close> is the stored form of a key.\<close>

definition release_claim :: "(Key \<Rightarrow> bytes) \<Rightarrow> Claim \<Rightarrow> Embedded \<Rightarrow> Embedded" where
  "release_claim skey c e =
     (if Status c \<noteq> Claimed then e
      else (let key = skey (claim_key c); sh = shards e (shard_of key) in
            case claims sh key of
              Some p \<Rightarrow> (if token p = Token c then put_shard key (sh\<lparr>claims := (claims sh)(key := None)\<rparr>) e else e)
            | None \<Rightarrow> e))"

definition release_claims :: "(Key \<Rightarrow> bytes) \<Rightarrow> Claim list \<Rightarrow> Embedded \<Rightarrow> Embedded" where
  "release_claims skey cs e = fold (release_claim skey) cs e"

text \<open>\<^verbatim>\<open>Reserve\<close>: the keys in order; a failed read releases what was claimed before it.\<close>

fun reserve_keys ::
  "(bytes \<Rightarrow> bool) \<Rightarrow> (Key \<Rightarrow> bytes) \<Rightarrow> int \<Rightarrow> int \<Rightarrow> Claim list \<Rightarrow> Key list \<Rightarrow> Embedded \<Rightarrow>
     (dedupe_error + Claim list) \<times> Embedded" where
  "reserve_keys fails skey now lease acc [] e = (Inr acc, e)"
| "reserve_keys fails skey now lease acc (k # ks) e =
     (case reserve_key fails (skey k) k now lease e of
        (Inl err, e) \<Rightarrow> (Inl err, release_claims skey acc e)
      | (Inr c, e) \<Rightarrow> reserve_keys fails skey now lease (acc @ [c]) ks e)"

definition Reserve ::
  "(bytes \<Rightarrow> bool) \<Rightarrow> (Key \<Rightarrow> bytes) \<Rightarrow> int \<Rightarrow> Key list \<Rightarrow> int \<Rightarrow> Embedded \<Rightarrow> (dedupe_error + Claim list) \<times> Embedded" where
  "Reserve fails skey now ks lease e = reserve_keys fails skey now lease [] ks e"

text \<open>\<^verbatim>\<open>Commit\<close>: one batch, then the pending entries still owned; a failed batch changes nothing.\<close>

definition Commit ::
  "bool \<Rightarrow> (Key \<Rightarrow> bytes) \<Rightarrow> int \<Rightarrow> Claim list \<Rightarrow> int \<Rightarrow> Embedded \<Rightarrow> dedupe_error option \<times> Embedded" where
  "Commit fails skey now cs retention e =
     (let val = commit_value (expiry now retention) in
      if fails then (Some CommitFailed, e)
      else (None, release_claims skey cs (e\<lparr>db := fold (\<lambda>c m. m(skey (claim_key c) \<mapsto> val)) cs (db e)\<rparr>)))"

definition Release :: "(Key \<Rightarrow> bytes) \<Rightarrow> Claim list \<Rightarrow> Embedded \<Rightarrow> Embedded" where
  "Release skey cs e = release_claims skey cs e"

section \<open>The sweep\<close>

datatype sweep_reason = sweptNone | sweptExpired | sweptVersion0

definition sweepReason :: "bytes \<Rightarrow> int \<Rightarrow> sweep_reason" where
  "sweepReason val now =
     (if \<not> isCommit val then sweptVersion0 else if committedExpired val now then sweptExpired else sweptNone)"

definition sweepChunk_size :: nat where "sweepChunk_size = 1024"

text \<open>\<^verbatim>\<open>sweepCandidates\<close>: of the keys from \<open>from\<close> in order, the sweepable ones among the first chunk, and where
  the next chunk starts. The stored keys are given in their order.\<close>

definition sweepCandidates :: "(bytes \<times> bytes) list \<Rightarrow> bytes \<Rightarrow> int \<Rightarrow> bytes list \<times> bytes option" where
  "sweepCandidates held from now =
     (let rest = filter (\<lambda>(k, _). from \<le> k) held; chunk = take sweepChunk_size rest in
      (map fst (filter (\<lambda>(_, v). sweepReason v now \<noteq> sweptNone) chunk),
       (case drop sweepChunk_size rest of [] \<Rightarrow> None | (k, _) # _ \<Rightarrow> Some k)))"

text \<open>\<^verbatim>\<open>deleteSweepable\<close>: under the commit lock each candidate is read again and deleted if still sweepable.\<close>

definition sweepable_now :: "(bytes \<rightharpoonup> bytes) \<Rightarrow> int \<Rightarrow> bytes \<Rightarrow> sweep_reason" where
  "sweepable_now m now k = (case m k of None \<Rightarrow> sweptNone | Some val \<Rightarrow> sweepReason val now)"

definition deleteSweepable :: "bytes list \<Rightarrow> int \<Rightarrow> Embedded \<Rightarrow> nat \<times> nat \<times> Embedded" where
  "deleteSweepable candidates now e =
     (let del = filter (\<lambda>k. sweepable_now (db e) now k \<noteq> sweptNone) candidates in
      (length (filter (\<lambda>k. sweepable_now (db e) now k = sweptExpired) candidates),
       length (filter (\<lambda>k. sweepable_now (db e) now k = sweptVersion0) candidates),
       e\<lparr>db := fold (\<lambda>k m. m(k := None)) del (db e)\<rparr>))"


section \<open>The switch in front of a store\<close>

record 'b Managed =
  enabled :: bool
  backend :: "'b option"

definition NewManaged :: "'b Managed" where
  "NewManaged = \<lparr>enabled = False, backend = None\<rparr>"

definition settledLocked :: "bool \<Rightarrow> 'b Managed \<Rightarrow> bool" where
  "settledLocked on m \<longleftrightarrow> enabled m = on \<and> (\<not> on \<or> backend m \<noteq> None)"

text \<open>\<open>opened\<close> is what opening the store gives, \<open>closing\<close> the error of closing one, if any.\<close>

definition Apply :: "('e + 'b) \<Rightarrow> ('b \<Rightarrow> 'e option) \<Rightarrow> bool \<Rightarrow> 'b Managed \<Rightarrow> 'e option \<times> 'b Managed" where
  "Apply opened closing on m =
     (if settledLocked on m then (None, m)
      else (let m = m\<lparr>enabled := on\<rparr> in
            case backend m of
              None \<Rightarrow>
                (if on then (case opened of Inl e \<Rightarrow> (Some e, m) | Inr b \<Rightarrow> (None, m\<lparr>backend := Some b\<rparr>))
                 else (None, m))
            | Some b \<Rightarrow> (if \<not> on then (closing b, m\<lparr>backend := None\<rparr>) else (None, m))))"

definition usable :: "'b Managed \<Rightarrow> dedupe_error + 'b" where
  "usable m =
     (if \<not> enabled m then Inl ErrDisabled
      else case backend m of None \<Rightarrow> Inl ErrUnavailable | Some b \<Rightarrow> Inr b)"

definition claimedOnly :: "Claim list \<Rightarrow> Claim list" where
  "claimedOnly cs = filter (\<lambda>c. Status c = Claimed) cs"

text \<open>The distinct keys in the order of their first occurrence (\<^verbatim>\<open>first\<close>, \<^verbatim>\<open>unique\<close>).\<close>

fun unique_keys :: "Key list \<Rightarrow> Key list \<Rightarrow> Key list" where
  "unique_keys acc [] = acc"
| "unique_keys acc (k # ks) = unique_keys (if k \<in> set acc then acc else acc @ [k]) ks"

text \<open>The answers for the keys as given: the backend's for a first occurrence, \<open>Duplicate\<close> for a later one.\<close>

fun fan_out :: "(Key \<rightharpoonup> Claim) \<Rightarrow> Key list \<Rightarrow> Key list \<Rightarrow> Claim list" where
  "fan_out got answered [] = []"
| "fan_out got answered (k # ks) =
     (if k \<in> set answered then \<lparr>claim_key = k, Status = Duplicate, Token = ''''\<rparr> # fan_out got answered ks
      else (case got k of Some c \<Rightarrow> c # fan_out got (k # answered) ks | None \<Rightarrow> fan_out got (k # answered) ks))"

definition managed_Reserve ::
  "(Key list \<Rightarrow> int \<Rightarrow> 'b \<Rightarrow> (dedupe_error + Claim list) \<times> 'b) \<Rightarrow> (Claim list \<Rightarrow> 'b \<Rightarrow> 'b) \<Rightarrow>
     Key list \<Rightarrow> int \<Rightarrow> 'b Managed \<Rightarrow> (dedupe_error + Claim list) \<times> 'b Managed" where
  "managed_Reserve rsv rel ks lease m =
     (let lease = (if lease \<le> 0 then DefaultLease else lease) in
      case usable m of
        Inl e \<Rightarrow> (Inl e, m)
      | Inr b \<Rightarrow>
          (let uniq = unique_keys [] ks in
           case rsv uniq lease b of
             (Inl e, b) \<Rightarrow> (Inl e, m\<lparr>backend := Some b\<rparr>)
           | (Inr got, b) \<Rightarrow>
               (if length got \<noteq> length uniq then
                  (Inl (Miscounted (length got) (length uniq)),
                   m\<lparr>backend := Some (if claimedOnly got \<noteq> [] then rel (claimedOnly got) b else b)\<rparr>)
                else
                  (Inr (if length uniq = length ks then got else fan_out (map_of (zip uniq got)) [] ks),
                   m\<lparr>backend := Some b\<rparr>))))"

definition withClaimed ::
  "Claim list \<Rightarrow> (Claim list \<Rightarrow> 'b \<Rightarrow> dedupe_error option \<times> 'b) \<Rightarrow> 'b Managed \<Rightarrow> dedupe_error option \<times> 'b Managed" where
  "withClaimed cs act m =
     (if claimedOnly cs = [] then (None, m)
      else case usable m of
        Inl e \<Rightarrow> (Some e, m)
      | Inr b \<Rightarrow> (case act (claimedOnly cs) b of (e, b) \<Rightarrow> (e, m\<lparr>backend := Some b\<rparr>)))"

definition managed_Commit ::
  "(Claim list \<Rightarrow> int \<Rightarrow> 'b \<Rightarrow> dedupe_error option \<times> 'b) \<Rightarrow> Claim list \<Rightarrow> int \<Rightarrow> 'b Managed \<Rightarrow> dedupe_error option \<times> 'b Managed" where
  "managed_Commit com cs retention m = withClaimed cs (\<lambda>cs b. com cs retention b) m"

definition managed_Release ::
  "(Claim list \<Rightarrow> 'b \<Rightarrow> 'b) \<Rightarrow> Claim list \<Rightarrow> 'b Managed \<Rightarrow> dedupe_error option \<times> 'b Managed" where
  "managed_Release rel cs m = withClaimed cs (\<lambda>cs b. (None, rel cs b)) m"

section \<open>Stores by tenant\<close>

text \<open>\<^verbatim>\<open>For\<close>: a tenant's store, built closed on first use; \<^verbatim>\<open>Retain\<close>: the stores of tenants no longer served
  are closed and forgotten (given in id order, with the errors of their closes).\<close>

definition stores_For :: "(string \<Rightarrow> 'b Managed) \<Rightarrow> string \<Rightarrow> (string \<rightharpoonup> 'b Managed) \<Rightarrow> 'b Managed \<times> (string \<rightharpoonup> 'b Managed)" where
  "stores_For build tid byID =
     (case byID tid of Some m \<Rightarrow> (m, byID) | None \<Rightarrow> (build tid, byID(tid \<mapsto> build tid)))"

definition stores_Retain ::
  "(string \<Rightarrow> bool) \<Rightarrow> (string \<rightharpoonup> 'b Managed) \<Rightarrow> (string \<rightharpoonup> 'b Managed) \<times> (string \<rightharpoonup> 'b Managed)" where
  "stores_Retain keep byID =
     ((\<lambda>tid. if keep tid then None else byID tid), (\<lambda>tid. if keep tid then byID tid else None))"

section \<open>Stored keys are injective\<close>

lemma sep_slash [simp]: "checkSep keySep" "\<not> kept keySep" "keySep \<noteq> hashedMark" "\<not> kept hashedMark" "checkSep hashedMark"
  by (simp_all add: keySep_def hashedMark_def checkSep_def kept_def)

lemma AppendKey_eq:
  "AppendKey hexsum dst pre k = dst @ pre @ Escape (Table k) @ keySep # appendID hexsum [] k"
  by (simp add: AppendKey_def append_join_eq appendID_def appendHashedID_def AppendEscape_append [of "_ @ _"] Escape_eq
      AppendEscape_def)

lemma mark_not_Escape: "hashedMark # x \<noteq> Escape s"
  using checkSep_not_in_Escape [of hashedMark s] by (metis list.set_intros(1) sep_slash(5))

lemma appendID_inject:
  assumes "appendID hexsum [] k = appendID hexsum [] k'"
  shows "ID k = ID k' \<or> (Hashed k \<and> Hashed k' \<and> hexsum (ID k) = hexsum (ID k'))"
  using assms mark_not_Escape mark_not_Escape [symmetric] keyenc.esc_inject
  by (auto simp: appendID_def appendHashedID_def Escape_eq [symmetric] split: if_splits)

lemma kept_no_slash: "tenant_Parse t = Inr t' \<Longrightarrow> keySep \<notin> set t"
  using tenant_no_sep sep_slash(2) by blast

lemma AppendKey_inject:
  assumes "tenant_Parse t = Inr t" "tenant_Parse t' = Inr t'"
    "AppendKey hexsum [] (KeyPrefix t) k = AppendKey hexsum [] (KeyPrefix t') k'"
  shows "t = t' \<and> Table k = Table k' \<and> appendID hexsum [] k = appendID hexsum [] k'"
proof -
  have "t @ keySep # Escape (Table k) @ keySep # appendID hexsum [] k =
      t' @ keySep # Escape (Table k') @ keySep # appendID hexsum [] k'"
    using assms(3) by (simp add: AppendKey_eq KeyPrefix_def)
  then show ?thesis
    using kept_no_slash [OF assms(1)] kept_no_slash [OF assms(2)] checkSep_not_in_Escape [OF sep_slash(1)]
    by (simp add: append_first_sep keyenc.esc_inject)
qed

definition sort_key_of :: "(string \<Rightarrow> string) \<Rightarrow> Key \<Rightarrow> string" where
  "sort_key_of hexsum k = (if Hashed k \<or> ID k = [] then hashedMark # hexsum (ID k) else Escape (ID k))"

lemma PartitionedKey_eq:
  "\<exists>b. PartitionedKey hexsum t k =
     Some (t @ keySep # Escape (Table k) @ keySep # itoa_int b, sort_key_of hexsum k)"
proof -
  have "Escape s = [] \<longleftrightarrow> s = []" for s using keyenc.esc_inject [of s "[]"] by (simp add: Escape_def)
  then have s: "(let s = appendID hexsum [] k in if s = [] then appendHashedID hexsum s (ID k) else s) = sort_key_of hexsum k"
    by (simp add: appendID_def appendHashedID_def sort_key_of_def Escape_eq [symmetric])
  obtain b where "Jump (Mix (fnv64a (sort_key_of hexsum k))) TableBuckets = Some b"
    using Jump_result [of 256 "Mix (fnv64a (sort_key_of hexsum k))"] by (auto simp: TableBuckets_def)
  then show ?thesis using s by (intro exI [of _ b]) (simp add: PartitionedKey_def Let_def append_join_eq KeyPrefix_def)
qed

text \<open>C21. No two records share a stored dedupe key, in either layout: equal keys are of the same tenant and
  table, and of the same id, unless both ids are stored as their SHA-256 and those are equal. The
  partition of a record is always defined.\<close>

theorem stored_key_inject:
  assumes "tenant_Parse t = Inr t" "tenant_Parse t' = Inr t'"
  shows "(AppendKey hexsum [] (KeyPrefix t) k = AppendKey hexsum [] (KeyPrefix t') k' \<longrightarrow>
      t = t' \<and> Table k = Table k' \<and> (ID k = ID k' \<or> Hashed k \<and> Hashed k' \<and> hexsum (ID k) = hexsum (ID k'))) \<and>
    PartitionedKey hexsum t k \<noteq> None \<and>
    (PartitionedKey hexsum t k = PartitionedKey hexsum t' k' \<longrightarrow>
      t = t' \<and> Table k = Table k' \<and> (ID k = ID k' \<or> hexsum (ID k) = hexsum (ID k')))"
proof (intro conjI impI)
  assume "AppendKey hexsum [] (KeyPrefix t) k = AppendKey hexsum [] (KeyPrefix t') k'"
  note A = AppendKey_inject [OF assms this]
  then show "t = t'" "Table k = Table k'" "ID k = ID k' \<or> Hashed k \<and> Hashed k' \<and> hexsum (ID k) = hexsum (ID k')"
    using appendID_inject [of hexsum k k'] by auto
next
  show "PartitionedKey hexsum t k \<noteq> None" using PartitionedKey_eq [of hexsum t k] by auto
  assume e: "PartitionedKey hexsum t k = PartitionedKey hexsum t' k'"
  obtain b b' where "t @ keySep # Escape (Table k) @ keySep # itoa_int b = t' @ keySep # Escape (Table k') @ keySep # itoa_int b'"
    "sort_key_of hexsum k = sort_key_of hexsum k'"
    using e PartitionedKey_eq [of hexsum t k] PartitionedKey_eq [of hexsum t' k'] by (metis option.inject prod.inject)
  then show "t = t'" "Table k = Table k'" "ID k = ID k' \<or> hexsum (ID k) = hexsum (ID k')"
    using kept_no_slash [OF assms(1)] kept_no_slash [OF assms(2)] checkSep_not_in_Escape [OF sep_slash(1)] mark_not_Escape
      mark_not_Escape [symmetric]
    by (auto simp: append_first_sep keyenc.esc_inject sort_key_of_def split: if_splits)
qed

theorem stored_key_inject_witness:
  "AppendKey id [] (KeyPrefix ''a'') \<lparr>Table = ''t'', ID = ''x/y''\<rparr> \<noteq> AppendKey id [] (KeyPrefix ''a'') \<lparr>Table = ''t/x'', ID = ''y''\<rparr>"
proof -
  have "tenant_Parse ''a'' = Inr ''a''" by code_simp
  from stored_key_inject [OF this this, of id "\<lparr>Table = ''t'', ID = ''x/y''\<rparr>" "\<lparr>Table = ''t/x'', ID = ''y''\<rparr>"]
  show ?thesis by auto
qed


section \<open>Claims of the embedded store\<close>

definition entry :: "Embedded \<Rightarrow> bytes \<Rightarrow> pending option" where
  "entry e key = claims (shards e (shard_of key)) key"

lemma entry_simps [simp]:
  "entry (e\<lparr>db := m\<rparr>) key = entry e key" "entry (e\<lparr>tokens := t\<rparr>) key = entry e key"
  "db (put_shard k sh e) = db e" "tokens (put_shard k sh e) = tokens e"
  by (simp_all add: entry_def put_shard_def)

lemma entry_put_shard: "entry (put_shard k sh e) key = (if shard_of key = shard_of k then claims sh key else entry e key)"
  by (simp add: entry_def put_shard_def)

text \<open>The store after a shard's own sweep, and after one entry is written.\<close>

definition swept :: "int \<Rightarrow> bytes \<Rightarrow> Embedded \<Rightarrow> Embedded" where
  "swept now key e = put_shard key (shard_sweep now (shards e (shard_of key))) e"

definition put_entry :: "bytes \<Rightarrow> pending \<Rightarrow> Embedded \<Rightarrow> Embedded" where
  "put_entry key p e = put_shard key ((shards e (shard_of key))\<lparr>claims := (claims (shards e (shard_of key)))(key \<mapsto> p)\<rparr>) e"

definition live_entry :: "Embedded \<Rightarrow> bytes \<Rightarrow> int \<Rightarrow> bool" where
  "live_entry e key now = (case entry e key of Some p \<Rightarrow> now < expires p | None \<Rightarrow> False)"

definition live_commit :: "Embedded \<Rightarrow> bytes \<Rightarrow> int \<Rightarrow> bool" where
  "live_commit e key now = (case db e key of Some v \<Rightarrow> committedLive v now | None \<Rightarrow> False)"

lemma entry_swept:
  "entry (swept now k e) x =
     (case entry e x of
        Some p \<Rightarrow> if shard_of x = shard_of k \<and> nextSweep (shards e (shard_of k)) \<le> now \<and> expires p \<le> now then None else Some p
      | None \<Rightarrow> None)"
  by (auto simp: swept_def put_shard_def shard_sweep_def entry_def split: option.splits)

lemma swept_simps [simp]:
  "db (swept now k e) = db e" "tokens (swept now k e) = tokens e" "live_entry (swept now k e) x now = live_entry e x now"
  by (auto simp: swept_def live_entry_def entry_swept [unfolded swept_def] split: option.splits)

lemma entry_put_entry [simp]: "entry (put_entry key p e) x = (if x = key then Some p else entry e x)"
  by (auto simp: put_entry_def put_shard_def entry_def)

lemma put_entry_simps [simp]: "db (put_entry key p e) = db e"
  by (simp add: put_entry_def)

definition new_token :: "Embedded \<Rightarrow> string" where
  "new_token e = itoa36 (unat (tokens e + 1))"

abbreviation answer :: "Key \<Rightarrow> claim_status \<Rightarrow> string \<Rightarrow> Claim" where
  "answer k st tok \<equiv> \<lparr>claim_key = k, Status = st, Token = tok\<rparr>"

lemma claims_swept: "claims (shard_sweep now (shards e (shard_of key))) key = entry (swept now key e) key"
  by (simp add: swept_def entry_put_shard)

lemma reserve_key_eq:
  "reserve_key fails key k now lease e =
     (if live_entry e key now then (Inr (answer k InFlight ''''), swept now key e)
      else if fails key then (Inl ReadFailed, swept now key e)
      else if live_commit e key now then (Inr (answer k Duplicate ''''), swept now key e)
      else (Inr (answer k Claimed (new_token e)),
            put_entry key \<lparr>token = new_token e, expires = now + lease\<rparr> ((swept now key e)\<lparr>tokens := tokens e + 1\<rparr>)))"
proof -
  have l: "(case claims (shard_sweep now (shards e (shard_of key))) key of Some p \<Rightarrow> now < expires p | None \<Rightarrow> False) = live_entry e key now"
    unfolding claims_swept using swept_simps(3) [of now key e key] by (simp add: live_entry_def)
  have p: "put_shard key ((shard_sweep now (shards e (shard_of key)))\<lparr>claims := (claims (shard_sweep now (shards e (shard_of key))))(key \<mapsto> q)\<rparr>)
      ((swept now key e)\<lparr>tokens := t\<rparr>) = put_entry key q ((swept now key e)\<lparr>tokens := t\<rparr>)" for q t
    by (simp add: put_entry_def swept_def put_shard_def)
  show ?thesis unfolding reserve_key_def Let_def l p [unfolded swept_def]
    by (simp add: live_commit_def new_token_def swept_def p [unfolded swept_def])
qed

lemma live_entry_Some: "entry e x = Some p \<Longrightarrow> live_entry e x now \<longleftrightarrow> now < expires p"
  by (simp add: live_entry_def)

text \<open>A live entry survives a reserve and makes one of its key answer \<open>InFlight\<close>; a claim is answered only
  where there is neither a live entry nor a live commit, and then it is the entry.\<close>

lemma reserve_key_live:
  assumes "reserve_key fails key k now lease e = (r, e')" "entry e x = Some p" "now < expires p"
  shows "entry e' x = Some p" "x = key \<Longrightarrow> r = Inr (answer k InFlight '''')"
  using assms by (auto simp: reserve_key_eq live_entry_Some entry_swept split: if_splits)

lemma reserve_key_claimed:
  assumes "reserve_key fails key k now lease e = (Inr c, e')" "Status c = Claimed"
  shows "entry e' key = Some \<lparr>token = Token c, expires = now + lease\<rparr>" "\<not> live_commit e key now" "\<not> live_entry e key now"
  using assms by (auto simp: reserve_key_eq split: if_splits)

lemma reserve_key_key: "reserve_key fails key k now lease e = (Inr c, e') \<Longrightarrow> claim_key c = k"
  by (auto simp: reserve_key_eq split: if_splits)

lemma reserve_key_db: "reserve_key fails key k now lease e = (r, e') \<Longrightarrow> db e' = db e"
  by (auto simp: reserve_key_eq split: if_splits)

lemma reserve_key_entry:
  assumes "reserve_key fails key k now lease e = (r, e')" "entry e' x = Some p"
  shows "entry e x = Some p \<or> (x = key \<and> (\<exists>c. r = Inr c \<and> Status c = Claimed \<and> Token c = token p))"
  using assms by (auto simp: reserve_key_eq entry_swept split: if_splits option.splits)

lemma release_claim_entry:
  "entry (release_claim skey c e) x =
     (if Status c = Claimed \<and> x = skey (claim_key c) \<and> (\<exists>p. entry e x = Some p \<and> token p = Token c) then None else entry e x)"
  by (auto simp: release_claim_def Let_def put_shard_def entry_def split: option.splits)

lemma release_claims_entry:
  "entry (release_claims skey cs e) x =
     (if \<exists>c \<in> set cs. Status c = Claimed \<and> x = skey (claim_key c) \<and> (\<exists>p. entry e x = Some p \<and> token p = Token c)
      then None else entry e x)"
proof (induction cs arbitrary: e)
  case (Cons c cs)
  have "entry (release_claims skey (c # cs) e) x = entry (release_claims skey cs (release_claim skey c e)) x"
    by (simp add: release_claims_def)
  then show ?case unfolding Cons release_claim_entry by auto
qed (simp add: release_claims_def)

lemma release_claim_db [simp]: "db (release_claim skey c e) = db e"
  by (auto simp: release_claim_def Let_def split: option.splits)

lemma release_claims_db [simp]: "db (release_claims skey cs e) = db e"
  by (induction cs arbitrary: e) (simp_all add: release_claims_def)


subsection \<open>Batches\<close>

lemma reserve_keys_live:
  assumes "entry e x = Some p" "now < expires p"
    "\<forall>c \<in> set acc. Status c = Claimed \<longrightarrow> skey (claim_key c) = x \<longrightarrow> Token c \<noteq> token p"
    "reserve_keys fails skey now lease acc ks e = (r, e')"
  shows "entry e' x = Some p \<and>
    (\<forall>cs c. r = Inr cs \<longrightarrow> c \<in> set cs \<longrightarrow> c \<in> set acc \<or> skey (claim_key c) \<noteq> x \<or> Status c = InFlight)"
  using assms
proof (induction ks arbitrary: acc e)
  case (Cons k ks)
  obtain r1 e1 where k: "reserve_key fails (skey k) k now lease e = (r1, e1)" by (rule prod.exhaust)
  note L = reserve_key_live [OF k Cons.prems(1,2)]
  show ?case
  proof (cases r1)
    case (Inl err)
    then show ?thesis using Cons.prems(3,4) k L(1) by (auto simp: release_claims_entry; blast)
  next
    case (Inr c1)
    have c1: "claim_key c1 = k" "skey k = x \<Longrightarrow> Status c1 = InFlight"
      using L(2) Inr k reserve_key_key [of fails "skey k" k now lease e c1 e1] by auto
    then have a: "\<forall>c \<in> set (acc @ [c1]). Status c = Claimed \<longrightarrow> skey (claim_key c) = x \<longrightarrow> Token c \<noteq> token p"
      using Cons.prems(3) by auto
    have "reserve_keys fails skey now lease (acc @ [c1]) ks e1 = (r, e')" using Cons.prems(4) k Inr by simp
    from Cons.IH [OF L(1) Cons.prems(2) a this] c1 show ?thesis by auto
  qed
qed auto

lemma reserve_keys_answers:
  "reserve_keys fails skey now lease acc ks e = (Inr cs, e') \<Longrightarrow> \<exists>new. cs = acc @ new \<and> map claim_key new = ks"
proof (induction ks arbitrary: acc e)
  case (Cons k ks)
  then obtain c e1 where k: "reserve_key fails (skey k) k now lease e = (Inr c, e1)"
    "reserve_keys fails skey now lease (acc @ [c]) ks e1 = (Inr cs, e')" by (auto split: prod.splits sum.splits)
  from Cons.IH [OF k(2)] obtain new where "cs = acc @ [c] @ new" "map claim_key new = ks" by auto
  then show ?case using reserve_key_key [OF k(1)] by (intro exI [of _ "c # new"]) simp
qed simp

lemma reserve_keys_db: "reserve_keys fails skey now lease acc ks e = (r, e') \<Longrightarrow> db e' = db e"
proof (induction ks arbitrary: acc e)
  case (Cons k ks)
  obtain r1 e1 where k: "reserve_key fails (skey k) k now lease e = (r1, e1)" by (rule prod.exhaust)
  then show ?case using Cons reserve_key_db [OF k] by (cases r1) auto
qed simp

lemma reserve_keys_keeps:
  "reserve_keys fails skey now lease acc ks e = (Inr cs, e') \<Longrightarrow> entry e x = Some p \<Longrightarrow> now < expires p \<Longrightarrow> entry e' x = Some p"
proof (induction ks arbitrary: acc e)
  case (Cons k ks)
  from Cons.prems(1) obtain c1 e1 where k: "reserve_key fails (skey k) k now lease e = (Inr c1, e1)"
    and rest: "reserve_keys fails skey now lease (acc @ [c1]) ks e1 = (Inr cs, e')" by (auto split: prod.splits sum.splits)
  show ?case using Cons.IH [OF rest reserve_key_live(1) [OF k Cons.prems(2,3)] Cons.prems(3)] .
qed simp

text \<open>A claimed key is held at the end of the batch, was held by nobody before it, and had no live commit.\<close>

lemma reserve_keys_claimed:
  assumes "reserve_keys fails skey now lease acc ks e = (Inr cs, e')" "c \<in> set cs" "c \<notin> set acc" "Status c = Claimed" "0 < lease"
    "\<forall>c' \<in> set acc. Status c' = Claimed \<longrightarrow> entry e (skey (claim_key c')) = Some \<lparr>token = Token c', expires = now + lease\<rparr>"
  shows "entry e' (skey (claim_key c)) = Some \<lparr>token = Token c, expires = now + lease\<rparr> \<and> \<not> live_commit e (skey (claim_key c)) now"
  using assms
proof (induction ks arbitrary: acc e)
  case (Cons k ks)
  from Cons.prems(1) obtain c1 e1 where k: "reserve_key fails (skey k) k now lease e = (Inr c1, e1)"
    and rest: "reserve_keys fails skey now lease (acc @ [c1]) ks e1 = (Inr cs, e')" by (auto split: prod.splits sum.splits)
  have ck: "claim_key c1 = k" by (rule reserve_key_key [OF k])
  have keep: "entry e1 (skey (claim_key c')) = Some \<lparr>token = Token c', expires = now + lease\<rparr>"
    if "c' \<in> set acc" "Status c' = Claimed" for c'
    using reserve_key_live(1) [OF k] Cons.prems(5,6) that by auto
  then have a: "\<forall>c' \<in> set (acc @ [c1]). Status c' = Claimed \<longrightarrow>
      entry e1 (skey (claim_key c')) = Some \<lparr>token = Token c', expires = now + lease\<rparr>"
    using reserve_key_claimed(1) [OF k] ck by auto
  show ?case
  proof (cases "c = c1")
    case True
    then have "entry e1 (skey k) = Some \<lparr>token = Token c, expires = now + lease\<rparr>" "\<not> live_commit e (skey k) now"
      using reserve_key_claimed [OF k] Cons.prems(4) by auto
    moreover from this have "entry e' (skey k) = Some \<lparr>token = Token c, expires = now + lease\<rparr>"
      using reserve_keys_keeps [OF rest] Cons.prems(5) by simp
    ultimately show ?thesis using True ck by simp
  next
    case False
    then have "entry e' (skey (claim_key c)) = Some \<lparr>token = Token c, expires = now + lease\<rparr> \<and> \<not> live_commit e1 (skey (claim_key c)) now"
      using Cons.IH [OF rest Cons.prems(2) _ Cons.prems(4,5) a] Cons.prems(3) by auto
    then show ?thesis using reserve_key_db [OF k] by (simp add: live_commit_def)
  qed
qed simp


text \<open>A batch that fails leaves nothing it claimed behind.\<close>

lemma reserve_keys_failed:
  assumes "reserve_keys fails skey now lease acc ks e = (Inl err, e')" "entry e' x = Some p"
    "\<And>q. entry e x = Some q \<Longrightarrow> entry e0 x = Some q \<or> (\<exists>c \<in> set acc. Status c = Claimed \<and> skey (claim_key c) = x \<and> Token c = token q)"
  shows "entry e0 x = Some p"
  using assms
proof (induction ks arbitrary: acc e)
  case (Cons k ks)
  obtain r1 e1 where k: "reserve_key fails (skey k) k now lease e = (r1, e1)" by (rule prod.exhaust)
  show ?case
  proof (cases r1)
    case (Inl e2)
    then have e': "e' = release_claims skey acc e1" using Cons.prems(1) k by simp
    then have "entry e1 x = Some p" using Cons.prems(2) by (auto simp: release_claims_entry split: if_splits)
    then have "entry e x = Some p" using reserve_key_entry [OF k] Inl by auto
    then have "entry e0 x = Some p \<or> (\<exists>c \<in> set acc. Status c = Claimed \<and> skey (claim_key c) = x \<and> Token c = token p)"
      by (rule Cons.prems(3))
    then show ?thesis using Cons.prems(2) \<open>entry e1 x = Some p\<close> unfolding e' release_claims_entry by (auto split: if_splits)
  next
    case (Inr c1)
    have rest: "reserve_keys fails skey now lease (acc @ [c1]) ks e1 = (Inl err, e')" using Cons.prems(1) k Inr by simp
    have "entry e0 x = Some q \<or> (\<exists>c \<in> set (acc @ [c1]). Status c = Claimed \<and> skey (claim_key c) = x \<and> Token c = token q)"
      if "entry e1 x = Some q" for q
      using reserve_key_entry [OF k that] Cons.prems(3) Inr reserve_key_key [of fails "skey k" k now lease e c1 e1] k by auto
    from Cons.IH [OF rest Cons.prems(2) this] show ?thesis .
  qed
qed simp

lemma reserve_keys_entry:
  assumes "reserve_keys fails skey now lease acc ks e = (Inr cs, e')" "entry e' x = Some p"
  shows "entry e x = Some p \<or> (\<exists>c \<in> set cs. Status c = Claimed \<and> skey (claim_key c) = x \<and> Token c = token p)"
  using assms
proof (induction ks arbitrary: acc e)
  case (Cons k ks)
  from Cons.prems(1) obtain c1 e1 where k: "reserve_key fails (skey k) k now lease e = (Inr c1, e1)"
    and rest: "reserve_keys fails skey now lease (acc @ [c1]) ks e1 = (Inr cs, e')" by (auto split: prod.splits sum.splits)
  have "c1 \<in> set cs" using reserve_keys_answers [OF rest] by auto
  then show ?case
    using Cons.IH [OF rest Cons.prems(2)] reserve_key_entry [OF k] reserve_key_key [OF k] by auto
qed simp

section \<open>Histories of the embedded store\<close>

text \<open>What the tenants' stores and the sweep do to the instance, each event atomic as its locks make it (a
  batch's keys are claimed one by one, but a live claim is not affected by others' keys in between).\<close>

datatype dedupe_event =
    DReserve "bytes \<Rightarrow> bool" "Key \<Rightarrow> bytes" int "Key list" int
  | DCommit bool "Key \<Rightarrow> bytes" int "Claim list" int
  | DRelease "Key \<Rightarrow> bytes" "Claim list"
  | DSweep "bytes list" int

fun dedupe_step :: "dedupe_event \<Rightarrow> Embedded \<Rightarrow> Embedded" where
  "dedupe_step (DReserve fails skey now ks lease) e = snd (Reserve fails skey now ks lease e)"
| "dedupe_step (DCommit fails skey now cs retention) e = snd (Commit fails skey now cs retention e)"
| "dedupe_step (DRelease skey cs) e = Release skey cs e"
| "dedupe_step (DSweep cands now) e = snd (snd (deleteSweepable cands now e))"

text \<open>The event gives up the claim with this token, or reserves at or after its lease has ended.\<close>

fun ends_claim :: "bytes \<Rightarrow> string \<Rightarrow> int \<Rightarrow> dedupe_event \<Rightarrow> bool" where
  "ends_claim key tok until (DReserve fails skey now ks lease) \<longleftrightarrow> until \<le> now"
| "ends_claim key tok until (DCommit fails skey now cs retention) \<longleftrightarrow>
     (\<exists>c \<in> set cs. Status c = Claimed \<and> skey (claim_key c) = key \<and> Token c = tok)"
| "ends_claim key tok until (DRelease skey cs) \<longleftrightarrow>
     (\<exists>c \<in> set cs. Status c = Claimed \<and> skey (claim_key c) = key \<and> Token c = tok)"
| "ends_claim key tok until (DSweep cands now) \<longleftrightarrow> False"

lemma entry_db [simp]: "entry (e\<lparr>db := m\<rparr>) x = entry e x"
  by (simp add: entry_def)

lemma step_keeps_entry:
  assumes "entry e x = Some p" "\<not> ends_claim x (token p) (expires p) ev"
  shows "entry (dedupe_step ev e) x = Some p"
proof (cases ev)
  case (DReserve fails skey now ks lease)
  obtain r e' where r: "reserve_keys fails skey now lease [] ks e = (r, e')" by (rule prod.exhaust)
  have "entry e' x = Some p" using reserve_keys_live [OF assms(1) _ _ r] assms(2) DReserve by simp
  then show ?thesis by (simp add: DReserve Reserve_def r)
qed (use assms in \<open>auto simp: Commit_def Release_def release_claims_entry deleteSweepable_def Let_def\<close>)

lemma run_keeps_entry:
  assumes "entry e x = Some p" "list_all (\<lambda>ev. \<not> ends_claim x (token p) (expires p) ev) es"
  shows "entry (fold dedupe_step es e) x = Some p"
  using assms by (induction es arbitrary: e) (auto simp: step_keeps_entry)

text \<open>C22. At most one request holds a key. Once a \<^verbatim>\<open>Reserve\<close> has claimed a key, every later \<^verbatim>\<open>Reserve\<close> of it (of
  any tenant, in any batch) before the lease ends answers \<open>InFlight\<close>, whatever else happens in between,
  unless the claim itself was committed or released; and a claim is only ever given where no unexpired
  commit was stored.\<close>

theorem claim_exclusive:
  assumes "Reserve fails skey now ks lease e = (Inr cs, e1)" "c \<in> set cs" "Status c = Claimed" "0 < lease"
    "list_all (\<lambda>ev. \<not> ends_claim (skey (claim_key c)) (Token c) (now + lease) ev) es"
    "Reserve fails' skey' now' ks' lease' (fold dedupe_step es e1) = (Inr cs', e2)" "now' < now + lease"
    "c' \<in> set cs'" "skey' (claim_key c') = skey (claim_key c)"
  shows "Status c' = InFlight \<and> \<not> live_commit e (skey (claim_key c)) now"
proof -
  let ?x = "skey (claim_key c)" and ?p = "\<lparr>token = Token c, expires = now + lease\<rparr>"
  have r: "reserve_keys fails skey now lease [] ks e = (Inr cs, e1)" using assms(1) by (simp add: Reserve_def)
  have "entry e1 ?x = Some ?p" and l: "\<not> live_commit e ?x now"
    using reserve_keys_claimed [OF r assms(2) _ assms(3,4)] by auto
  then have k: "entry (fold dedupe_step es e1) ?x = Some ?p" using run_keeps_entry [of e1 ?x ?p es] assms(5) by simp
  have r': "reserve_keys fails' skey' now' lease' [] ks' (fold dedupe_step es e1) = (Inr cs', e2)"
    using assms(6) by (simp add: Reserve_def)
  have "Status c' = InFlight" using reserve_keys_live [OF k _ _ r'] assms(7-9) by auto
  then show ?thesis using l by simp
qed


lemma newEmbedded_simps: "entry (newEmbedded z m) x = None" "db (newEmbedded z m) = m" "tokens (newEmbedded z m) = 0"
  by (simp_all add: newEmbedded_def entry_def)

lemma reserve_fresh:
  "Reserve (\<lambda>_. False) ID now [\<lparr>Table = ''t'', ID = i\<rparr>] lease (newEmbedded z Map.empty) =
     (Inr [answer \<lparr>Table = ''t'', ID = i\<rparr> Claimed ''1''],
      put_entry i \<lparr>token = ''1'', expires = now + lease\<rparr> ((swept now i (newEmbedded z Map.empty))\<lparr>tokens := 1\<rparr>))"
proof -
  have "itoa36 1 = ''1''" by code_simp
  then show ?thesis
    by (simp add: Reserve_def reserve_key_eq live_entry_def live_commit_def newEmbedded_simps new_token_def)
qed

theorem claim_exclusive_witness:
  "fst (Reserve (\<lambda>_. False) ID 3 [\<lparr>Table = ''t'', ID = ''x''\<rparr>] 5
     (snd (Reserve (\<lambda>_. False) ID 0 [\<lparr>Table = ''t'', ID = ''x''\<rparr>] 5 (newEmbedded 0 Map.empty)))) =
   Inr [answer \<lparr>Table = ''t'', ID = ''x''\<rparr> InFlight '''']"
proof -
  let ?k = "\<lparr>Table = ''t'', ID = ''x''\<rparr>"
  let ?e = "put_entry ''x'' \<lparr>token = ''1'', expires = 0 + 5\<rparr> ((swept 0 ''x'' (newEmbedded 0 Map.empty))\<lparr>tokens := 1\<rparr>)"
  note r = reserve_fresh [of 0 "''x''" 5 0]
  have r': "Reserve (\<lambda>_. False) ID 3 [?k] 5 (fold dedupe_step [] ?e) = (Inr [answer ?k InFlight ''''], swept 3 ''x'' ?e)"
    by (simp add: Reserve_def reserve_key_eq live_entry_def)
  have "Status (answer ?k InFlight '''') = InFlight \<and> \<not> live_commit (newEmbedded 0 Map.empty) ''x'' 0"
    using claim_exclusive [OF r _ _ _ _ r', of "answer ?k Claimed ''1''" "answer ?k InFlight ''''"] by simp
  then show ?thesis using r r' by simp
qed

section \<open>Commits\<close>

lemma commit_value_expiry:
  assumes "0 \<le> ex" "ex < 2 ^ 63"
  shows "committedExpiry (commit_value ex) = Some ex"
proof -
  have "get_be (put_be 8 (nat (ex mod 2 ^ 64))) = nat ex" using assms by (simp add: get_put_be)
  then show ?thesis using assms by (simp add: committedExpiry_def commit_value_def valueLen_def wrap64_id)
qed

text \<open>A commit at \<open>now\<close> kept for \<open>retention\<close> is live exactly until its retention ends, or the last instant a
  64-bit nanosecond clock can name.\<close>

lemma commit_live:
  assumes "0 \<le> now" "now < 2 ^ 63 - 1"
  shows "committedLive (commit_value (expiry now retention)) t \<longleftrightarrow>
    retention \<le> 0 \<or> (t < now + retention \<and> t < 2 ^ 63 - 1)"
proof -
  have w: "wrap64 (2 ^ 63 - 1 - now) = 2 ^ 63 - 1 - now" using assms by (intro wrap64_id) auto
  have x: "0 \<le> expiry now retention" "expiry now retention < 2 ^ 63" unfolding expiry_def w using assms by auto
  have "committedLive (commit_value (expiry now retention)) t \<longleftrightarrow> expiry now retention = 0 \<or> t < expiry now retention"
    by (simp add: committedLive_def commit_value_expiry [OF x])
  then show ?thesis unfolding expiry_def w using assms by (auto split: if_splits)
qed

lemma committedLive_earlier: "committedLive v t \<Longrightarrow> s \<le> t \<Longrightarrow> committedLive v s"
  by (auto simp: committedLive_def split: option.splits)

lemma live_not_swept: "committedLive v t \<Longrightarrow> s \<le> t \<Longrightarrow> sweepReason v s = sweptNone"
  by (auto simp: sweepReason_def committedLive_def committedExpired_def isCommit_def split: option.splits)

text \<open>The event leaves a commit of the key live at \<open>t\<close>: it does not sweep past \<open>t\<close>, and a new commit of the key is live at \<open>t\<close>.\<close>

fun commit_safe :: "bytes \<Rightarrow> int \<Rightarrow> dedupe_event \<Rightarrow> bool" where
  "commit_safe key t (DCommit fails skey now cs retention) \<longleftrightarrow>
     committedLive (commit_value (expiry now retention)) t \<or> key \<notin> skey ` claim_key ` set cs"
| "commit_safe key t (DSweep cands now) \<longleftrightarrow> now \<le> t"
| "commit_safe key t _ \<longleftrightarrow> True"

lemma batch_db:
  "fold (\<lambda>c m. m(skey (claim_key c) \<mapsto> v)) cs m key = (if key \<in> skey ` claim_key ` set cs then Some v else m key)"
  by (induction cs arbitrary: m) auto

lemma sweep_db: "fold (\<lambda>k m. m(k := None)) ks m key = (if key \<in> set ks then None else m key)"
  by (induction ks arbitrary: m) auto

lemma step_keeps_commit:
  assumes "live_commit e key t" "commit_safe key t ev"
  shows "live_commit (dedupe_step ev e) key t"
proof (cases ev)
  case (DReserve fails skey now ks lease)
  obtain r e' where "reserve_keys fails skey now lease [] ks e = (r, e')" by (rule prod.exhaust)
  then show ?thesis using assms(1) reserve_keys_db [of fails skey now lease "[]" ks e r e']
    by (simp add: DReserve Reserve_def live_commit_def)
next
  case (DCommit fails skey now cs retention)
  then show ?thesis using assms by (auto simp: Commit_def Let_def live_commit_def batch_db)
next
  case (DRelease skey cs)
  then show ?thesis using assms(1) by (simp add: Release_def live_commit_def)
next
  case (DSweep cands now)
  obtain v where v: "db e key = Some v" "committedLive v t" using assms(1) by (auto simp: live_commit_def split: option.splits)
  then have "sweepable_now (db e) now key = sweptNone"
    using live_not_swept assms(2) DSweep by (simp add: sweepable_now_def)
  then show ?thesis using v DSweep by (simp add: deleteSweepable_def Let_def live_commit_def sweep_db)
qed

lemma run_keeps_commit:
  "live_commit e key t \<Longrightarrow> list_all (commit_safe key t) es \<Longrightarrow> live_commit (fold dedupe_step es e) key t"
  by (induction es arbitrary: e) (auto simp: step_keeps_commit)

lemma reserve_keys_committed:
  assumes "live_commit e x now" "reserve_keys fails skey now lease acc ks e = (Inr cs, e')" "c \<in> set cs" "c \<notin> set acc" "skey (claim_key c) = x"
  shows "Status c \<noteq> Claimed"
  using assms
proof (induction ks arbitrary: acc e)
  case (Cons k ks)
  from Cons.prems(2) obtain c1 e1 where k: "reserve_key fails (skey k) k now lease e = (Inr c1, e1)"
    and rest: "reserve_keys fails skey now lease (acc @ [c1]) ks e1 = (Inr cs, e')" by (auto split: prod.splits sum.splits)
  show ?case
  proof (cases "c = c1")
    case True
    then show ?thesis using reserve_key_claimed(2) [OF k] reserve_key_key [OF k] Cons.prems(1,5) by auto
  next
    case False
    have "live_commit e1 x now" using Cons.prems(1) reserve_key_db [OF k] by (simp add: live_commit_def)
    with Cons.IH [OF _ rest Cons.prems(3) _ Cons.prems(5)] False Cons.prems(4) show ?thesis by simp
  qed
qed simp

text \<open>A committed key stays a duplicate. After a successful \<^verbatim>\<open>Commit\<close>, and for as long as its retention
  lasts (for ever without one), no \<^verbatim>\<open>Reserve\<close> claims the key again, through any history of reservations,
  releases, sweeps running up to that instant and commits, provided a later commit of the same key does
  not itself end earlier.\<close>

theorem commit_is_duplicate:
  assumes "Commit fails skey now cs retention e = (None, e1)" "c \<in> set cs" "0 \<le> now" "now < 2 ^ 63 - 1"
    "retention \<le> 0 \<or> (now' < now + retention \<and> now' < 2 ^ 63 - 1)"
    "list_all (commit_safe (skey (claim_key c)) now') es"
    "Reserve fails' skey' now' ks' lease' (fold dedupe_step es e1) = (Inr cs', e2)"
    "c' \<in> set cs'" "skey' (claim_key c') = skey (claim_key c)"
  shows "Status c' = Duplicate \<or> Status c' = InFlight"
proof -
  let ?x = "skey (claim_key c)"
  have "live_commit e1 ?x now'"
    using assms(1,2) commit_live [OF assms(3,4)] assms(5) by (auto simp: Commit_def Let_def live_commit_def batch_db split: if_splits)
  then have "live_commit (fold dedupe_step es e1) ?x now'" by (rule run_keeps_commit [OF _ assms(6)])
  then have "Status c' \<noteq> Claimed"
    using reserve_keys_committed [of "fold dedupe_step es e1" ?x now'] assms(7-9) by (auto simp: Reserve_def)
  then show ?thesis by (cases "Status c'") auto
qed

theorem commit_is_duplicate_witness:
  "fst (Reserve (\<lambda>_. False) ID 9 [\<lparr>Table = ''t'', ID = ''x''\<rparr>] 5
     (snd (Commit False ID 3 [answer \<lparr>Table = ''t'', ID = ''x''\<rparr> Claimed ''1''] 0 (newEmbedded 0 Map.empty)))) =
   Inr [answer \<lparr>Table = ''t'', ID = ''x''\<rparr> Duplicate '''']"
proof -
  let ?k = "\<lparr>Table = ''t'', ID = ''x''\<rparr>"
  obtain oc e1 where c: "Commit False ID 3 [answer ?k Claimed ''1''] 0 (newEmbedded 0 Map.empty) = (oc, e1)" by (rule prod.exhaust)
  then have oc: "oc = None" and e1: "entry e1 ''x'' = None"
    by (auto simp: Commit_def Let_def release_claims_entry newEmbedded_simps)
  obtain r e2 where r: "Reserve (\<lambda>_. False) ID 9 [?k] 5 (fold dedupe_step [] e1) = (r, e2)" by (rule prod.exhaust)
  then obtain c' where c': "r = Inr [c']" "claim_key c' = ?k" "Status c' \<noteq> InFlight" "Status c' = Duplicate \<Longrightarrow> c' = answer ?k Duplicate ''''"
    using e1 by (auto simp: Reserve_def reserve_key_eq live_entry_def split: if_splits)
  have "Status c' = Duplicate \<or> Status c' = InFlight"
    using commit_is_duplicate [OF c [unfolded oc], of "answer ?k Claimed ''1''" 9 "[]" _ ID "[?k]" 5 "[c']" e2 c'] r c' by simp
  then show ?thesis using c' r c by simp
qed


section \<open>The Deduplicator interface\<close>

text \<open>What \<^verbatim>\<open>Managed\<close> relies on: one claim per key in input order, a claimed key is held with its token, a failed
  call leaves nothing behind, a release gives up what it is handed and takes nothing.\<close>

locale deduplicator =
  fixes rsv :: "Key list \<Rightarrow> int \<Rightarrow> 'b \<Rightarrow> (dedupe_error + Claim list) \<times> 'b"
    and rel :: "Claim list \<Rightarrow> 'b \<Rightarrow> 'b"
    and holds :: "'b \<Rightarrow> Key \<Rightarrow> string \<Rightarrow> bool"
  assumes rsv_keys: "rsv ks l b = (Inr cs, b') \<Longrightarrow> map claim_key cs = ks"
    and rsv_holds: "rsv ks l b = (Inr cs, b') \<Longrightarrow> 0 < l \<Longrightarrow> c \<in> set cs \<Longrightarrow> Status c = Claimed \<Longrightarrow> holds b' (claim_key c) (Token c)"
    and rsv_failed: "rsv ks l b = (Inl e, b') \<Longrightarrow> holds b' k t \<Longrightarrow> holds b k t"
    and rel_gives_up: "c \<in> set cs \<Longrightarrow> Status c = Claimed \<Longrightarrow> \<not> holds (rel cs b) (claim_key c) (Token c)"
    and rel_only: "holds (rel cs b) k t \<Longrightarrow> holds b k t"
begin

lemma unique_keys_props:
  "distinct acc \<Longrightarrow> distinct (unique_keys acc ks) \<and> set (unique_keys acc ks) = set acc \<union> set ks"
  by (induction acc ks rule: unique_keys.induct) auto

lemma unique_keys_length:
  assumes "length (unique_keys [] ks) = length ks"
  shows "distinct ks \<and> unique_keys [] ks = ks"
proof -
  have "card (set ks) = length ks" using unique_keys_props [of "[]" ks] assms by (metis distinct_card distinct.simps(1) empty_set sup_bot_left)
  then have d: "distinct ks" by (rule card_distinct)
  have "set acc \<inter> set xs = {} \<Longrightarrow> distinct xs \<Longrightarrow> unique_keys acc xs = acc @ xs" for acc xs
    by (induction xs arbitrary: acc) auto
  from this [of "[]" ks] d show ?thesis by simp
qed

lemma fan_out_keys:
  "\<forall>k \<in> set ks. \<exists>c. got k = Some c \<and> claim_key c = k \<Longrightarrow> map claim_key (fan_out got ans ks) = ks"
  by (induction got ans ks rule: fan_out.induct) auto

lemma fan_out_repeat:
  "\<forall>k \<in> set ks. \<exists>c. got k = Some c \<and> claim_key c = k \<Longrightarrow> i < length ks \<Longrightarrow>
   ks ! i \<in> set ans \<or> (\<exists>j < i. ks ! j = ks ! i) \<Longrightarrow> Status (fan_out got ans ks ! i) = Duplicate"
proof (induction ks arbitrary: i ans)
  case (Cons k ks)
  show ?case
  proof (cases i)
    case 0
    then show ?thesis using Cons.prems(3) by simp
  next
    case (Suc n)
    have "ks ! n \<in> set (k # ans) \<or> (\<exists>j < n. ks ! j = ks ! n)"
      using Cons.prems(3) by (auto simp: Suc less_Suc_eq_0_disj)
    then have "Status (fan_out got (k # ans) ks ! n) = Duplicate" "k \<in> set ans \<Longrightarrow> Status (fan_out got ans ks ! n) = Duplicate"
      using Cons.IH [of n "k # ans"] Cons.IH [of n ans] Cons.prems(1,2) by (auto simp: Suc)
    moreover obtain c where "got k = Some c" using Cons.prems(1) by auto
    ultimately show ?thesis by (simp add: Suc)
  qed
qed simp

lemma fan_out_from: "c \<in> set (fan_out got ans ks) \<Longrightarrow> Status c = Duplicate \<or> (\<exists>k. got k = Some c)"
  by (induction got ans ks rule: fan_out.induct) (auto split: if_splits option.splits)

text \<open>The answers of \<^verbatim>\<open>Managed.Reserve\<close>.\<close>

lemma managed_answers:
  assumes "managed_Reserve rsv rel ks lease m = (Inr cs, m')"
  shows "map claim_key cs = ks \<and> (\<forall>i j. i < j \<longrightarrow> j < length ks \<longrightarrow> ks ! i = ks ! j \<longrightarrow> Status (cs ! j) = Duplicate) \<and>
    (\<exists>b'. backend m' = Some b' \<and> (\<forall>c \<in> set cs. Status c = Claimed \<longrightarrow> holds b' (claim_key c) (Token c)))"
proof -
  let ?l = "if lease \<le> 0 then DefaultLease else lease" and ?u = "unique_keys [] ks"
  obtain b where u: "usable m = Inr b" using assms by (cases "usable m") (auto simp: managed_Reserve_def)
  obtain r b1 where r: "rsv ?u ?l b = (r, b1)" by (rule prod.exhaust)
  obtain got where got: "r = Inr got" using assms u r by (cases r) (auto simp: managed_Reserve_def Let_def)
  have len: "length got = length ?u" and m': "backend m' = Some b1"
    and cs: "cs = (if length ?u = length ks then got else fan_out (map_of (zip ?u got)) [] ks)"
    using assms u r got by (auto simp: managed_Reserve_def Let_def split: if_splits)
  have keys: "map claim_key got = ?u" using rsv_keys r got by blast
  have U: "distinct ?u" "set ?u = set ks" using unique_keys_props [of "[]" ks] by auto
  have h: "holds b1 (claim_key c) (Token c)" if "c \<in> set got" "Status c = Claimed" for c
    using rsv_holds [of ?u ?l b got b1 c] r got that by (auto simp: DefaultLease_def)
  show ?thesis
  proof (cases "length ?u = length ks")
    case True
    then have "distinct ks" "?u = ks" using unique_keys_length by auto
    then show ?thesis using cs True keys m' h by (auto simp: distinct_conv_nth)
  next
    case False
    let ?g = "map_of (zip ?u got)"
    have g: "\<exists>c. ?g k = Some c \<and> claim_key c = k \<and> c \<in> set got" if k: "k \<in> set ks" for k
    proof -
      obtain n where n: "n < length ?u" "?u ! n = k" using k U(2) by (metis in_set_conv_nth)
      then have "?g k = Some (got ! n)" using map_of_zip_nth [of ?u got n] U(1) len by simp
      moreover have "claim_key (got ! n) = k" using n keys len by (metis nth_map)
      ultimately show ?thesis using n len by auto
    qed
    then have g': "\<forall>k \<in> set ks. \<exists>c. ?g k = Some c \<and> claim_key c = k" by blast
    have "c \<in> set got" if "c \<in> set cs" "Status c = Claimed" for c
      using fan_out_from [of c ?g "[]" ks] that cs False len by (auto dest!: map_of_SomeD set_zip_rightD)
    moreover have "Status (cs ! j) = Duplicate" if "i < j" "j < length ks" "ks ! i = ks ! j" for i j
      using fan_out_repeat [OF g' that(2), of "[]"] that cs False by auto
    ultimately show ?thesis using fan_out_keys [OF g', of "[]"] cs False m' h by auto
  qed
qed

lemma managed_failed:
  assumes "managed_Reserve rsv rel ks lease m = (Inl e, m')" "backend m' = Some b'" "holds b' k t"
  shows "\<exists>b. backend m = Some b \<and> holds b k t"
proof -
  let ?l = "if lease \<le> 0 then DefaultLease else lease" and ?u = "unique_keys [] ks"
  show ?thesis
  proof (cases "usable m")
    case (Inl e')
    then show ?thesis using assms by (auto simp: managed_Reserve_def)
  next
    case (Inr b)
    then have b: "backend m = Some b" by (auto simp: usable_def split: if_splits option.splits)
    obtain r b1 where r: "rsv ?u ?l b = (r, b1)" by (rule prod.exhaust)
    show ?thesis
    proof (cases r)
      case (Inl e1)
      then show ?thesis using assms Inr r b rsv_failed [of ?u ?l b e1 b1 k t] by (auto simp: managed_Reserve_def Let_def)
    next
      case (Inr got)
      then have "length got = length ?u" using rsv_keys r by (metis length_map)
      then show ?thesis using assms(1) \<open>usable m = Inr b\<close> r Inr by (auto simp: managed_Reserve_def Let_def)
    qed
  qed
qed

end

text \<open>The embedded store provides the interface: a key is held by the token of its pending entry.\<close>

definition held_by :: "(Key \<Rightarrow> bytes) \<Rightarrow> Embedded \<Rightarrow> Key \<Rightarrow> string \<Rightarrow> bool" where
  "held_by skey e k tok = (case entry e (skey k) of Some p \<Rightarrow> token p = tok | None \<Rightarrow> False)"

interpretation embedded: deduplicator "\<lambda>ks lease e. Reserve fails skey now ks lease e" "release_claims skey" "held_by skey"
  for fails skey now
proof
  fix ks l b cs b' c e k t
  show "map claim_key cs = ks" if "Reserve fails skey now ks l b = (Inr cs, b')"
    using that reserve_keys_answers by (force simp: Reserve_def)
  show "held_by skey b' (claim_key c) (Token c)"
    if "Reserve fails skey now ks l b = (Inr cs, b')" "0 < l" "c \<in> set cs" "Status c = Claimed"
    using that reserve_keys_claimed [of fails skey now l "[]" ks b cs b' c] by (simp add: Reserve_def held_by_def)
  show "held_by skey b k t" if "Reserve fails skey now ks l b = (Inl e, b')" "held_by skey b' k t"
    using that reserve_keys_failed [of fails skey now l "[]" ks b e b' "skey k" _ b]
    by (auto simp: Reserve_def held_by_def split: option.splits)
  show "\<not> held_by skey (release_claims skey cs b) (claim_key c) (Token c)" if "c \<in> set cs" "Status c = Claimed"
    using that by (auto simp: held_by_def release_claims_entry split: option.splits if_splits)
  show "held_by skey b k t" if "held_by skey (release_claims skey cs b) k t"
    using that by (auto simp: held_by_def release_claims_entry split: option.splits if_splits)
qed

text \<open>C23. The switch over the embedded store: \<^verbatim>\<open>Reserve\<close> answers one claim per key in order, a key repeated in
  the call is claimed at most once (its later occurrences are duplicates), every claim it answers is held
  in the store under its token, and an error (disabled, unavailable, or a failed read part-way through)
  leaves no key held that was not held before.\<close>

theorem managed_Reserve_sound:
  "case managed_Reserve (\<lambda>ks lease e. Reserve fails skey now ks lease e) (release_claims skey) ks lease m of
     (Inr cs, m') \<Rightarrow> map claim_key cs = ks \<and>
       (\<forall>i j. i < j \<longrightarrow> j < length ks \<longrightarrow> ks ! i = ks ! j \<longrightarrow> Status (cs ! j) = Duplicate) \<and>
       (\<exists>b'. backend m' = Some b' \<and> (\<forall>c \<in> set cs. Status c = Claimed \<longrightarrow> held_by skey b' (claim_key c) (Token c)))
   | (Inl e, m') \<Rightarrow> \<forall>b' k t. backend m' = Some b' \<longrightarrow> held_by skey b' k t \<longrightarrow> (\<exists>b. backend m = Some b \<and> held_by skey b k t)"
  using embedded.managed_answers [of fails skey now ks lease m] embedded.managed_failed [of fails skey now ks lease m]
  by (auto split: prod.splits sum.splits)


theorem managed_Reserve_sound_witness:
  "\<exists>cs m'. managed_Reserve (\<lambda>ks lease e. Reserve (\<lambda>_. False) ID 0 ks lease e) (release_claims ID)
       [\<lparr>Table = ''t'', ID = ''x''\<rparr>, \<lparr>Table = ''t'', ID = ''x''\<rparr>] 5 \<lparr>enabled = True, backend = Some (newEmbedded 0 Map.empty)\<rparr> =
     (Inr cs, m') \<and> Status (cs ! 0) = Claimed \<and> Status (cs ! 1) = Duplicate"
proof -
  let ?k = "\<lparr>Table = ''t'', ID = ''x''\<rparr>" and ?m = "\<lparr>enabled = True, backend = Some (newEmbedded 0 Map.empty)\<rparr>"
  obtain cs m' where r: "managed_Reserve (\<lambda>ks lease e. Reserve (\<lambda>_. False) ID 0 ks lease e) (release_claims ID) [?k, ?k] 5 ?m = (Inr cs, m')"
    and c: "Status (cs ! 0) = Claimed"
    using reserve_fresh [of 0 "''x''" 5 0] by (simp add: managed_Reserve_def usable_def Let_def)
  have "Status (cs ! 1) = Duplicate"
    using managed_Reserve_sound [where fails = "\<lambda>_. False" and skey = ID and now = 0 and ks = "[?k, ?k]" and lease = 5 and m = ?m]
    unfolding r by force
  then show ?thesis using r c by blast
qed

end
