(* ===== verification/Assign.thy ===== *)
theory Assign
  imports Shard "HOL-Library.Product_Lexorder"
begin

text \<open>
  How the ingest processes share the units of the queue (\<^verbatim>\<open>internal/ingest/assign.go\<close>): rendezvous hashing
  capped at an even share.
\<close>

section \<open>Assignment\<close>

definition unitScore :: "string \<Rightarrow> int \<Rightarrow> 64 word" where
  "unitScore unit slot = Mix (fnv64a (unit @ [CHR 0x00] @ itoa_int slot))"

text \<open>The slots best score first, a tie by the smaller slot. Equal elements of the sort are equal slots, so the
  unstable sort has one result; likewise for the units.\<close>

definition slot_order :: "int list \<Rightarrow> string \<Rightarrow> int list" where
  "slot_order slots unit = sort_key (\<lambda>s. (- uint (unitScore unit s), s)) slots"

definition unit_order :: "int list \<Rightarrow> string list \<Rightarrow> string list" where
  "unit_order slots units = sort_key (\<lambda>u. (- uint (unitScore u (hd (slot_order slots u))), u)) units"

definition share_limit :: "nat \<Rightarrow> nat \<Rightarrow> nat" where
  "share_limit units slots = (units + slots - 1) div slots"

type_synonym assignment = "(string \<rightharpoonup> int) \<times> (int \<Rightarrow> nat)"

definition assign_unit :: "nat \<Rightarrow> int list \<Rightarrow> string \<Rightarrow> assignment \<Rightarrow> assignment" where
  "assign_unit limit slots unit = (\<lambda>(out, load).
     (case List.find (\<lambda>s. load s < limit) (slot_order slots unit) of
        None \<Rightarrow> (out, load)
      | Some s \<Rightarrow> (out(unit \<mapsto> s), load(s := load s + 1))))"

definition assignUnits :: "string list \<Rightarrow> int list \<Rightarrow> (string \<rightharpoonup> int)" where
  "assignUnits units slots =
     (if slots = [] then Map.empty
      else (let slots = sort slots; limit = share_limit (length units) (length slots) in
            fst (fold (assign_unit limit slots) (unit_order slots units) (Map.empty, \<lambda>_. 0))))"

section \<open>What it guarantees\<close>

lemma share_limit_enough: "0 < s \<Longrightarrow> n \<le> share_limit n s * s"
proof -
  assume "0 < s"
  then have "n + s - 1 < (share_limit n s + 1) * s"
    unfolding share_limit_def by (metis Suc_eq_plus1 dividend_less_div_times mult.commute mult_Suc_right add.commute)
  then show ?thesis by simp
qed

text \<open>After \<open>n\<close> units: each has a slot, the loads add up, and no slot is past the limit.\<close>

definition assigned :: "nat \<Rightarrow> int list \<Rightarrow> string list \<Rightarrow> assignment \<Rightarrow> bool" where
  "assigned limit slots xs a \<longleftrightarrow> (case a of (out, load) \<Rightarrow>
     dom out = set xs \<and> ran out \<subseteq> set slots \<and> (\<Sum>s \<in> set slots. load s) = length xs \<and>
     (\<forall>s. load s \<le> limit \<and> card {u. out u = Some s} \<le> load s))"

lemma slot_order_set [simp]: "set (slot_order slots u) = set slots"
  by (simp add: slot_order_def)

lemma free_slot:
  assumes "(\<Sum>s \<in> set slots. load s) < limit * length slots" "distinct slots"
  obtains s where "s \<in> set slots" "load s < (limit :: nat)"
proof -
  have "\<exists>s \<in> set slots. load s < limit"
  proof (rule ccontr)
    assume "\<not> (\<exists>s \<in> set slots. load s < limit)"
    then have "(\<Sum>s \<in> set slots. limit) \<le> (\<Sum>s \<in> set slots. load s)" by (intro sum_mono) (simp add: not_less)
    then show False using assms by (simp add: distinct_card mult.commute)
  qed
  then show thesis using that by blast
qed

lemma assign_unit_step:
  assumes "assigned limit slots xs a" "length xs < limit * length slots" "distinct slots"
  shows "assigned limit slots (xs @ [u]) (assign_unit limit slots u a)"
proof -
  obtain out load where a: "a = (out, load)" by (cases a)
  then have I: "dom out = set xs" "ran out \<subseteq> set slots" "(\<Sum>s \<in> set slots. load s) = length xs"
    "\<And>s. load s \<le> limit" "\<And>s. card {u. out u = Some s} \<le> load s"
    using assms(1) by (auto simp: assigned_def)
  obtain s0 where "s0 \<in> set slots" "load s0 < limit" using free_slot [OF _ assms(3), of load limit] I(3) assms(2) by auto
  then obtain s where f: "List.find (\<lambda>s. load s < limit) (slot_order slots u) = Some s"
    by (cases "List.find (\<lambda>s. load s < limit) (slot_order slots u)") (auto simp: find_None_iff)
  then have s: "s \<in> set slots" "load s < limit"
    by (auto simp: find_Some_iff) (metis nth_mem slot_order_set)
  have fin: "finite {v. out v = Some t}" for t
    by (rule finite_subset [of _ "set xs"]) (use I(1) in auto)
  have "card {v. (out(u \<mapsto> s)) v = Some t} \<le> (load(s := load s + 1)) t" for t
  proof (cases "t = s")
    case True
    have "{v. (out(u \<mapsto> s)) v = Some s} = insert u {v. out v = Some s}" by auto
    then show ?thesis using True I(5) [of s] card_insert_le_m1 fin [of s] card_insert_if [OF fin, of u s] by auto
  next
    case False
    then have "{v. (out(u \<mapsto> s)) v = Some t} \<subseteq> {v. out v = Some t}" by auto
    then have "card {v. (out(u \<mapsto> s)) v = Some t} \<le> card {v. out v = Some t}" by (rule card_mono [OF fin])
    also have "\<dots> \<le> (load(s := load s + 1)) t" using False I(5) [of t] by simp
    finally show ?thesis .
  qed
  moreover have "(\<Sum>t \<in> set slots. (load(s := load s + 1)) t) = length xs + 1"
  proof -
    have "(\<Sum>t \<in> set slots. (load(s := load s + 1)) t) = (\<Sum>t \<in> set slots. load t + (if t = s then 1 else 0))"
      by (intro sum.cong) auto
    then show ?thesis using s(1) I(3) by (simp add: sum.distrib)
  qed
  moreover have "ran (out(u \<mapsto> s)) \<subseteq> set slots" using I(2) s(1) by (auto simp: ran_def)
  ultimately show ?thesis
    using I s by (auto simp: a assign_unit_def f assigned_def)
qed

lemma assign_units:
  assumes "distinct slots" "length ys \<le> limit * length slots"
  shows "assigned limit slots ys (fold (assign_unit limit slots) ys (Map.empty, \<lambda>_. 0))"
  using assms(2)
proof (induction ys rule: rev_induct)
  case Nil
  then show ?case by (simp add: assigned_def)
next
  case (snoc u ys)
  then show ?case using assign_unit_step [of limit slots ys] assms(1) by simp
qed

lemma unit_order_perm: "mset (unit_order slots units) = mset units"
  by (simp add: unit_order_def)

lemma sort_key_pair_perm:
  fixes f :: "'a::linorder \<Rightarrow> 'b::linorder"
  assumes "mset xs = mset ys"
  shows "sort_key (\<lambda>x. (f x, x)) xs = sort_key (\<lambda>x. (f x, x)) ys"
proof (rule properties_for_sort_key)
  show "mset (sort_key (\<lambda>x. (f x, x)) ys) = mset xs" using assms by simp
  have "filter (\<lambda>x. (f k, k) = (f x, x)) zs = replicate (count (mset zs) k) k" for k zs
  proof -
    have "(\<lambda>x. (f k, k) = (f x, x)) = (HOL.eq k)" by auto
    then show ?thesis using replicate_count_mset_eq_filter_eq [of zs k] by simp
  qed
  then show "filter (\<lambda>x. (f k, k) = (f x, x)) (sort_key (\<lambda>x. (f x, x)) ys) = filter (\<lambda>x. (f k, k) = (f x, x)) xs" for k
    using assms by simp
qed simp

text \<open>C24. The assignment of units to live slots: every unit has exactly one owner, a live slot; no slot owns
  more than its even share, rounded up; and processes that see the same units and slots, in any order,
  derive the same owners.\<close>

theorem assignUnits_fair:
  assumes "slots \<noteq> []" "distinct slots"
  shows "dom (assignUnits units slots) = set units \<and> ran (assignUnits units slots) \<subseteq> set slots \<and>
    (\<forall>s. card {u. assignUnits units slots u = Some s} \<le> (length units + length slots - 1) div length slots) \<and>
    (\<forall>units' slots'. mset units' = mset units \<longrightarrow> mset slots' = mset slots \<longrightarrow>
       assignUnits units' slots' = assignUnits units slots)"
proof -
  let ?s = "sort slots" and ?n = "share_limit (length units) (length slots)"
  have "length units \<le> ?n * length slots" using share_limit_enough assms(1) by simp
  moreover obtain out load where f: "fold (assign_unit ?n ?s) (unit_order ?s units) (Map.empty, \<lambda>_. 0) = (out, load)"
    by (rule prod.exhaust)
  ultimately have "assigned ?n ?s (unit_order ?s units) (out, load)"
    using assign_units [of ?s "unit_order ?s units" ?n] assms(2) by (simp add: unit_order_def)
  then have a: "dom out = set units" "ran out \<subseteq> set slots" "\<And>s. load s \<le> ?n" "\<And>s. card {u. out u = Some s} \<le> load s"
    by (auto simp: assigned_def unit_order_def)
  have e: "assignUnits units slots = out" using assms(1) f by (simp add: assignUnits_def)
  have "dom (assignUnits units slots) = set units" "ran (assignUnits units slots) \<subseteq> set slots"
    "\<forall>s. card {u. assignUnits units slots u = Some s} \<le> ?n"
    unfolding e using a le_trans by blast+
  moreover have "assignUnits units' slots' = assignUnits units slots" if m: "mset units' = mset units" "mset slots' = mset slots"
    for units' slots'
  proof -
    have "sort slots' = sort slots" using m(2) by (metis properties_for_sort mset_sort sorted_sort)
    moreover have "unit_order ?s units' = unit_order ?s units" unfolding unit_order_def by (rule sort_key_pair_perm [OF m(1)])
    moreover have "length units' = length units" "length slots' = length slots" using m by (metis size_mset)+
    moreover have "slots' \<noteq> []" using m(2) assms(1) by auto
    ultimately show ?thesis using assms(1) by (simp add: assignUnits_def)
  qed
  ultimately show ?thesis unfolding share_limit_def by blast
qed

theorem assignUnits_fair_witness: "dom (assignUnits [''p0.s0'', ''p0.s1'', ''p1.s0''] [2, 0]) = {''p0.s0'', ''p0.s1'', ''p1.s0''}"
proof -
  have "[2, 0] \<noteq> ([] :: int list)" "distinct [2, 0 :: int]" by simp_all
  from conjunct1 [OF assignUnits_fair [OF this]] show ?thesis by (simp only: list.set)
qed

end
