(* ===== verification/Backoff.thy ===== *)
theory Backoff
  imports Prelude
begin

text \<open>
  The retry backoff of the ingest writers (\<^verbatim>\<open>internal/ingest/backoff.go\<close>): a breaker per ClickHouse pool and
  per table on it, whose windows tenants with different caps share. Instants and durations are
  nanoseconds; the random draw of a call is its argument \<open>jit\<close>, a number below the bound it is given.
\<close>

section \<open>One backoff\<close>

definition retryBase :: int where "retryBase = 10 ^ 9"
definition outageLogEvery :: int where "outageLogEvery = 30 * 10 ^ 9"

text \<open>The instant of Go's zero \<^verbatim>\<open>time.Time\<close>.\<close>

definition no_time :: int where "no_time = - 62135596800 * 10 ^ 9"

record backoff =
  failures :: int
  until :: int
  probing :: bool
  since :: int
  logged :: int
  ceiling :: int

definition new_backoff :: backoff where
  "new_backoff = \<lparr>failures = 0, until = no_time, probing = False, since = no_time, logged = no_time, ceiling = 0\<rparr>"

definition spread :: "(int \<Rightarrow> int) \<Rightarrow> int \<Rightarrow> int" where
  "spread jit d = (if d \<le> 0 then 0 else jit d)"

definition adopt :: "int \<Rightarrow> int \<Rightarrow> backoff \<Rightarrow> backoff" where
  "adopt now c b =
     (if c \<le> 0 then b
      else (let c = max c retryBase;
                b = (if ceiling b = 0 \<or> c < ceiling b then b\<lparr>ceiling := c\<rparr> else b);
                limit = now + ceiling b in
            if limit < until b then b\<lparr>until := limit\<rparr> else b))"

definition probeOut :: "(int \<Rightarrow> int) \<Rightarrow> int" where
  "probeOut jit = retryBase div 2 + spread jit (retryBase div 2)"

text \<open>\<^verbatim>\<open>allow\<close>: how long to stay away, and whether to try.\<close>

definition backoff_allow :: "(int \<Rightarrow> int) \<Rightarrow> int \<Rightarrow> int \<Rightarrow> backoff \<Rightarrow> (int \<times> bool) \<times> backoff" where
  "backoff_allow jit now c b =
     (if failures b = 0 then ((0, True), b)
      else (let b = adopt now c b in
            if now < until b then ((until b - now + spread jit retryBase, False), b)
            else if probing b then ((probeOut jit, False), b)
            else ((0, True), b\<lparr>probing := True\<rparr>)))"

definition backoff_release :: "backoff \<Rightarrow> backoff" where
  "backoff_release b = b\<lparr>probing := False\<rparr>"

definition backoff_waiting :: "(int \<Rightarrow> int) \<Rightarrow> int \<Rightarrow> int \<Rightarrow> backoff \<Rightarrow> (int \<times> bool) \<times> backoff" where
  "backoff_waiting jit now c b =
     (if failures b = 0 then ((0, False), b)
      else (let b = adopt now c b in
            if now < until b then ((until b - now + spread jit retryBase, True), b)
            else if probing b then ((probeOut jit, True), b)
            else ((0, False), b)))"

text \<open>\<^verbatim>\<open>fail\<close>: how long the failed rows stay away, whether it is the first of an outage, whether to log.
  The count of open backoffs belongs to the set and is kept by \<open>set_fail\<close>.\<close>

definition backoff_fail :: "(int \<Rightarrow> int) \<Rightarrow> int \<Rightarrow> int \<Rightarrow> backoff \<Rightarrow> (int \<times> bool \<times> bool) \<times> backoff" where
  "backoff_fail jit now c b =
     (if failures b > 0 \<and> now < until b then
        (let b = adopt now c b in ((until b - now + spread jit retryBase, False, False), b))
      else
        (let n = failures b + 1; first = (n = 1);
             b = b\<lparr>probing := False, failures := n, since := (if first then now else since b), ceiling := 0\<rparr>;
             b = adopt now c b;
             d = max (ceiling b) retryBase;
             d = (if n - 1 < 30 then min (retryBase * 2 ^ nat (n - 1)) d else d);
             d = d div 2 + spread jit (d div 2);
             b = b\<lparr>until := now + d\<rparr>;
             lg = (first \<or> now - logged b \<ge> outageLogEvery) in
         ((d, first, lg), if lg then b\<lparr>logged := now\<rparr> else b)))"

definition backoff_succeed :: "int \<Rightarrow> backoff \<Rightarrow> (bool \<times> int) \<times> backoff" where
  "backoff_succeed now b =
     (if failures b = 0 then ((False, 0), b)
      else ((True, now - since b), b\<lparr>failures := 0, probing := False, until := no_time, ceiling := 0\<rparr>))"

section \<open>The set of backoffs\<close>

record poolKey =
  url :: string
  user :: string
  database :: string
  pk_table :: string

record target =
  URL :: string
  Username :: string
  Database :: string

definition keyOf :: "target \<Rightarrow> string \<Rightarrow> poolKey" where
  "keyOf t table = \<lparr>url = URL t, user = Username t, database = Database t, pk_table = table\<rparr>"

text \<open>A backoff not used yet is created closed; \<open>open_count\<close> is the atomic counter.\<close>

record backoffs =
  by_key :: "poolKey \<rightharpoonup> backoff"
  open_count :: int

definition backoff_get :: "poolKey \<Rightarrow> backoffs \<Rightarrow> backoff" where
  "backoff_get k bs = (case by_key bs k of Some b \<Rightarrow> b | None \<Rightarrow> new_backoff)"

definition backoff_put :: "poolKey \<Rightarrow> backoff \<Rightarrow> backoffs \<Rightarrow> backoffs" where
  "backoff_put k b bs = bs\<lparr>by_key := (by_key bs)(k \<mapsto> b)\<rparr>"

definition set_fail :: "(int \<Rightarrow> int) \<Rightarrow> int \<Rightarrow> int \<Rightarrow> poolKey \<Rightarrow> backoffs \<Rightarrow> (int \<times> bool \<times> bool) \<times> backoffs" where
  "set_fail jit now c k bs =
     (case backoff_fail jit now c (backoff_get k bs) of ((w, first, lg), b) \<Rightarrow>
        ((w, first, lg), (backoff_put k b bs)\<lparr>open_count := open_count bs + (if first then 1 else 0)\<rparr>))"

definition set_succeed :: "int \<Rightarrow> poolKey \<Rightarrow> backoffs \<Rightarrow> (bool \<times> int) \<times> backoffs" where
  "set_succeed now k bs =
     (case backoff_succeed now (backoff_get k bs) of ((recovered, lasted), b) \<Rightarrow>
        ((recovered, lasted), (backoff_put k b bs)\<lparr>open_count := open_count bs - (if recovered then 1 else 0)\<rparr>))"

text \<open>\<^verbatim>\<open>waiting\<close> of the set: the pool's backoff, then the table's; nothing is consulted while none is open.\<close>

definition set_waiting ::
  "(int \<Rightarrow> int) \<Rightarrow> target \<Rightarrow> string \<Rightarrow> int \<Rightarrow> int \<Rightarrow> backoffs \<Rightarrow> (int \<times> bool) \<times> backoffs" where
  "set_waiting jit t table now c bs =
     (if open_count bs = 0 then ((0, False), bs)
      else (case backoff_waiting jit now c (backoff_get (keyOf t '''') bs) of ((w, ok), b) \<Rightarrow>
        (let bs = backoff_put (keyOf t '''') b bs in
         if ok then ((w, True), bs)
         else (case backoff_waiting jit now c (backoff_get (keyOf t table) bs) of ((w, ok), b) \<Rightarrow>
           ((w, ok), backoff_put (keyOf t table) b bs)))))"

section \<open>Histories of one backoff\<close>

datatype backoff_event =
    EvAllow "int \<Rightarrow> int" int int
  | EvRelease
  | EvWaiting "int \<Rightarrow> int" int int
  | EvFail "int \<Rightarrow> int" int int
  | EvSucceed int

fun backoff_step :: "backoff_event \<Rightarrow> backoff \<Rightarrow> backoff" where
  "backoff_step (EvAllow jit now c) b = snd (backoff_allow jit now c b)"
| "backoff_step EvRelease b = backoff_release b"
| "backoff_step (EvWaiting jit now c) b = snd (backoff_waiting jit now c b)"
| "backoff_step (EvFail jit now c) b = snd (backoff_fail jit now c b)"
| "backoff_step (EvSucceed now) b = snd (backoff_succeed now b)"

text \<open>A draw below its bound, as \<^verbatim>\<open>rand.Int64N\<close> gives.\<close>

definition draw :: "(int \<Rightarrow> int) \<Rightarrow> bool" where
  "draw jit \<longleftrightarrow> (\<forall>d > 0. 0 \<le> jit d \<and> jit d < d)"

definition backoff_ok :: "backoff \<Rightarrow> bool" where
  "backoff_ok b \<longleftrightarrow> 0 \<le> failures b \<and> (ceiling b = 0 \<or> retryBase \<le> ceiling b)"

lemma retryBase_pos: "0 < retryBase"
  by (simp add: retryBase_def)

lemma adopt_fields [simp]: "failures (adopt now c b) = failures b" "probing (adopt now c b) = probing b"
  by (simp_all add: adopt_def Let_def)

lemma adopt_ok: "backoff_ok b \<Longrightarrow> backoff_ok (adopt now c b)"
  by (auto simp: backoff_ok_def adopt_def Let_def)

text \<open>Adopting a cap bounds the window by it.\<close>

lemma adopt_cap: "0 < c \<Longrightarrow> backoff_ok b \<Longrightarrow> until (adopt now c b) \<le> now + max c retryBase"
  using retryBase_pos by (auto simp: adopt_def Let_def backoff_ok_def)

lemma adopt_lowers: "until (adopt now c b) \<le> until b"
  by (auto simp: adopt_def Let_def)

lemma adopt_later:
  assumes "backoff_ok b" "now < until b"
  shows "now < until (adopt now c b)"
proof (cases "c \<le> 0")
  case True
  then show ?thesis using assms(2) by (simp add: adopt_def)
next
  case False
  let ?m = "max c retryBase"
  have m: "0 < ?m" "ceiling b \<noteq> 0 \<longrightarrow> 0 < ceiling b" using retryBase_pos assms(1) by (auto simp: backoff_ok_def)
  have a: "adopt now c b = (let b = (if ceiling b = 0 \<or> ?m < ceiling b then b\<lparr>ceiling := ?m\<rparr> else b); limit = now + ceiling b in
    if limit < until b then b\<lparr>until := limit\<rparr> else b)" using False by (simp add: adopt_def Let_def)
  show ?thesis
  proof (cases "ceiling b = 0 \<or> ?m < ceiling b")
    case True
    then show ?thesis unfolding a using m assms(2) by (simp add: Let_def)
  next
    case other: False
    then show ?thesis unfolding a using m assms(2) by (simp add: Let_def)
  qed
qed

lemma adopt_ceiling: "ceiling (adopt now c b) =
    (if c \<le> 0 then ceiling b else if ceiling b = 0 \<or> max c retryBase < ceiling b then max c retryBase else ceiling b)"
  by (simp add: adopt_def Let_def)

lemma fail_fields:
  "failures (snd (backoff_fail jit now c b)) = (if failures b > 0 \<and> now < until b then failures b else failures b + 1)"
  "ceiling (snd (backoff_fail jit now c b)) =
     (if failures b > 0 \<and> now < until b then ceiling (adopt now c b) else if c \<le> 0 then 0 else max c retryBase)"
  by (simp_all add: backoff_fail_def Let_def adopt_ceiling)

lemma fail_ok:
  assumes "backoff_ok b"
  shows "backoff_ok (snd (backoff_fail jit now c b))"
proof (cases "failures b > 0 \<and> now < until b")
  case True
  then show ?thesis using adopt_ok [OF assms, of now c] unfolding backoff_ok_def fail_fields by simp
next
  case False
  then show ?thesis using assms unfolding backoff_ok_def fail_fields if_not_P [OF False] by simp
qed

lemma step_ok:
  assumes "backoff_ok b"
  shows "backoff_ok (backoff_step e b)"
proof (cases e)
  case (EvFail jit now c)
  then show ?thesis by (simp add: fail_ok assms)
qed (use assms in \<open>auto simp: backoff_allow_def backoff_waiting_def backoff_release_def backoff_succeed_def
    backoff_ok_def Let_def adopt_ceiling\<close>)

lemma run_ok: "backoff_ok (fold backoff_step es new_backoff)"
proof (induction es rule: rev_induct)
  case Nil
  then show ?case by (simp add: backoff_ok_def new_backoff_def)
next
  case (snoc e es)
  then show ?case by (simp add: step_ok)
qed

lemma draw_spread: "draw jit \<Longrightarrow> 0 \<le> spread jit d \<and> (0 < d \<longrightarrow> spread jit d < d)"
  by (auto simp: draw_def spread_def)

text \<open>The delay of a new window.\<close>

definition window :: "(int \<Rightarrow> int) \<Rightarrow> int \<Rightarrow> int \<Rightarrow> int" where
  "window jit n cap =
     (let d = max cap retryBase; d = (if n - 1 < 30 then min (retryBase * 2 ^ nat (n - 1)) d else d) in d div 2 + spread jit (d div 2))"

lemma window_bounds:
  assumes "draw jit" "0 < n"
  shows "retryBase div 2 \<le> window jit n cap" "window jit n cap < max cap retryBase"
proof -
  define d where "d = (if n - 1 < 30 then min (retryBase * 2 ^ nat (n - 1)) (max cap retryBase) else max cap retryBase)"
  have "retryBase * 1 \<le> retryBase * 2 ^ nat (n - 1)" using retryBase_pos by (intro mult_left_mono) auto
  then have d: "retryBase \<le> d" "d \<le> max cap retryBase" by (auto simp: d_def)
  have w: "window jit n cap = d div 2 + spread jit (d div 2)" by (simp add: window_def d_def Let_def)
  have "0 < d div 2" using d retryBase_def by simp
  then have s: "0 \<le> spread jit (d div 2)" "spread jit (d div 2) < d div 2" using draw_spread [OF assms(1)] by auto
  show "retryBase div 2 \<le> window jit n cap" unfolding w using s d(1) by (simp add: zdiv_mono1 add_increasing2)
  show "window jit n cap < max cap retryBase" unfolding w using s d(2) by linarith
qed

lemma fail_window:
  assumes "backoff_ok b" "\<not> (failures b > 0 \<and> now < until b)"
  shows "fst (fst (backoff_fail jit now c b)) = window jit (failures b + 1) (if 0 < c then max c retryBase else 0)"
    "until (snd (backoff_fail jit now c b)) = now + fst (fst (backoff_fail jit now c b))"
    "failures (snd (backoff_fail jit now c b)) = failures b + 1" "probing (snd (backoff_fail jit now c b)) = False"
  unfolding backoff_fail_def if_not_P [OF assms(2)] by (simp_all add: window_def Let_def adopt_ceiling)

text \<open>C25. The retry backoff, over every history of one pool shared by tenants with different caps: a closed one
  lets every flush try; every wait handed out, to rows turned away by \<^verbatim>\<open>allow\<close> or held back by \<^verbatim>\<open>waiting\<close> and to a
  flush whose failure lands inside the window, is positive and less than the asking tenant's own cap (or one second, if
  larger) plus the one-second spread, and leaves a window within that cap; a failure inside the window does not escalate;
  a new window is at least half a second and shorter than the failing tenant's cap; past the window one flush
  probes and the others keep waiting until it reports; a success closes it.\<close>

theorem backoff_bounds:
  assumes "b = fold backoff_step es new_backoff" "draw jit" "0 < c"
  shows "(failures b = 0 \<longrightarrow> fst (backoff_allow jit now c b) = (0, True)) \<and>
    (\<not> snd (fst (backoff_allow jit now c b)) \<longrightarrow>
       0 < fst (fst (backoff_allow jit now c b)) \<and> fst (fst (backoff_allow jit now c b)) < max c retryBase + retryBase) \<and>
    (snd (fst (backoff_waiting jit now c b)) \<longrightarrow>
       0 < fst (fst (backoff_waiting jit now c b)) \<and> fst (fst (backoff_waiting jit now c b)) < max c retryBase + retryBase) \<and>
    (failures b > 0 \<longrightarrow>
       until (snd (backoff_allow jit now c b)) \<le> now + max c retryBase \<and> until (snd (backoff_waiting jit now c b)) \<le> now + max c retryBase) \<and>
    (failures b > 0 \<and> now < until b \<longrightarrow>
       0 < fst (fst (backoff_fail jit now c b)) \<and> fst (fst (backoff_fail jit now c b)) < max c retryBase + retryBase \<and>
       until (snd (backoff_fail jit now c b)) \<le> min (until b) (now + max c retryBase) \<and>
       failures (snd (backoff_fail jit now c b)) = failures b) \<and>
    (\<not> (failures b > 0 \<and> now < until b) \<longrightarrow>
       retryBase div 2 \<le> fst (fst (backoff_fail jit now c b)) \<and> fst (fst (backoff_fail jit now c b)) < max c retryBase \<and>
       (\<forall>now' < now + fst (fst (backoff_fail jit now c b)). \<not> snd (fst (backoff_allow jit now' 0 (snd (backoff_fail jit now c b)))))) \<and>
    (failures b > 0 \<longrightarrow> snd (fst (backoff_allow jit now c b)) \<longrightarrow>
       (\<forall>now' c'. \<not> snd (fst (backoff_allow jit now' c' (snd (backoff_allow jit now c b)))))) \<and>
    failures (snd (backoff_succeed now b)) = 0"
proof (intro conjI impI allI)
  have ok: "backoff_ok b" using run_ok assms(1) by simp
  then have f: "0 \<le> failures b" by (simp add: backoff_ok_def)
  note S = draw_spread [OF assms(2)] and A = adopt_cap [OF assms(3) ok, of now]
  show "failures b = 0 \<Longrightarrow> fst (backoff_allow jit now c b) = (0, True)" by (simp add: backoff_allow_def)
  show "0 < fst (fst (backoff_allow jit now c b))" "fst (fst (backoff_allow jit now c b)) < max c retryBase + retryBase"
    if "\<not> snd (fst (backoff_allow jit now c b))"
    using that A S [of retryBase] S [of "retryBase div 2"] retryBase_pos
    by (auto simp: backoff_allow_def Let_def probeOut_def retryBase_def split: if_splits)
  show "0 < fst (fst (backoff_waiting jit now c b))" "fst (fst (backoff_waiting jit now c b)) < max c retryBase + retryBase"
    if "snd (fst (backoff_waiting jit now c b))"
    using that A S [of retryBase] S [of "retryBase div 2"] retryBase_pos
    by (auto simp: backoff_waiting_def Let_def probeOut_def retryBase_def split: if_splits)
  show "until (snd (backoff_allow jit now c b)) \<le> now + max c retryBase" "until (snd (backoff_waiting jit now c b)) \<le> now + max c retryBase"
    if "failures b > 0" using that A by (auto simp: backoff_allow_def backoff_waiting_def Let_def)
  show "0 < fst (fst (backoff_fail jit now c b))" "fst (fst (backoff_fail jit now c b)) < max c retryBase + retryBase"
    "until (snd (backoff_fail jit now c b)) \<le> min (until b) (now + max c retryBase)"
    "failures (snd (backoff_fail jit now c b)) = failures b"
    if "failures b > 0 \<and> now < until b"
    using that A S [of retryBase] retryBase_pos adopt_lowers [of now c b] adopt_later [OF ok, of now c] by (auto simp: backoff_fail_def Let_def)
  assume w: "\<not> (failures b > 0 \<and> now < until b)"
  note W = fail_window [OF ok w, of jit c]
  have n: "0 < failures b + 1" "max (max c retryBase) retryBase = max c retryBase" using f by auto
  show "retryBase div 2 \<le> fst (fst (backoff_fail jit now c b))" "fst (fst (backoff_fail jit now c b)) < max c retryBase"
    unfolding W using window_bounds [OF assms(2) n(1), of "max c retryBase"] assms(3) n(2) by auto
  show "\<not> snd (fst (backoff_allow jit now' 0 (snd (backoff_fail jit now c b))))"
    if "now' < now + fst (fst (backoff_fail jit now c b))" for now'
    using that W(2,3) f by (auto simp: backoff_allow_def adopt_def Let_def)
next
  assume "failures b > 0" "snd (fst (backoff_allow jit now c b))"
  then show "\<not> snd (fst (backoff_allow jit now' c' (snd (backoff_allow jit now c b))))" for now' c'
    by (auto simp: backoff_allow_def Let_def split: if_splits)
next
  show "failures (snd (backoff_succeed now b)) = 0" by (simp add: backoff_succeed_def)
qed

theorem backoff_bounds_witness:
  "fst (fst (backoff_fail (\<lambda>d. 0) 0 (5 * 10 ^ 9) new_backoff)) < 5 * 10 ^ 9"
proof -
  have "draw (\<lambda>d. 0)" by (simp add: draw_def)
  from backoff_bounds [of new_backoff "[]", OF _ this, of "5 * 10 ^ 9" 0] show ?thesis
    by (simp add: new_backoff_def retryBase_def)
qed

end
