(* ===== verification/Coord.thy ===== *)
theory Coord
  imports Prelude
begin

text \<open>
  The named leases of \<^verbatim>\<open>internal/coord\<close>: the in-process coordinator (\<^verbatim>\<open>local.go\<close>) and the election loop
  (\<^verbatim>\<open>elect.go\<close>). Terms and coordinators are pointers in the code, shared by several callers: here they are
  indices into the lists of allocated terms (\<open>heap\<close>) and of coordinators over one lease table (\<open>handles\<close>).
  The mutexes make every method one step. A context is the error it reports at the call.
\<close>

section \<open>The in-process coordinator\<close>

datatype coord_error = ErrHeld | ErrLost | ErrClosed | ContextEnded | OtherError string

record localTerm =
  owner :: nat
  term_name :: string
  token :: "64 word"
  done_closed :: bool
  term_err :: "coord_error option"

record Local =
  closed :: bool
  terms :: "nat list"

record coord_state =
  handles :: "Local list"
  held :: "string \<rightharpoonup> nat"
  tokens :: "string \<Rightarrow> 64 word"
  heap :: "localTerm list"

definition newLocal :: Local where
  "newLocal = \<lparr>closed = False, terms = []\<rparr>"

text \<open>\<^verbatim>\<open>NewLocal\<close>: a fresh table with one coordinator over it, handle 0.\<close>

definition NewLocal :: coord_state where
  "NewLocal = \<lparr>handles = [newLocal], held = (\<lambda>n. None), tokens = (\<lambda>n. 0), heap = []\<rparr>"

definition Peer :: "coord_state \<Rightarrow> nat \<times> coord_state" where
  "Peer s = (length (handles s), s\<lparr>handles := handles s @ [newLocal]\<rparr>)"

definition TryAcquire :: "coord_error option \<Rightarrow> nat \<Rightarrow> string \<Rightarrow> coord_state \<Rightarrow> (coord_error + nat) \<times> coord_state" where
  "TryAcquire ctx h name s =
     (case ctx of Some e \<Rightarrow> (Inl e, s)
      | None \<Rightarrow>
        (let l = handles s ! h in
         if closed l then (Inl ErrClosed, s)
         else if held s name \<noteq> None then (Inl ErrHeld, s)
         else (let k = tokens s name + 1; t = length (heap s) in
           (Inr t, s\<lparr>tokens := (tokens s)(name := k),
                     heap := heap s @ [\<lparr>owner = h, term_name = name, token = k, done_closed = False, term_err = None\<rparr>],
                     held := (held s)(name \<mapsto> t),
                     handles := (handles s)[h := l\<lparr>terms := terms l @ [t]\<rparr>]\<rparr>))))"

definition Held :: "coord_error option \<Rightarrow> string \<Rightarrow> coord_state \<Rightarrow> coord_error + bool" where
  "Held ctx name s = (case ctx of Some e \<Rightarrow> Inl e | None \<Rightarrow> Inr (held s name \<noteq> None))"

definition endLocked :: "nat \<Rightarrow> coord_error option \<Rightarrow> nat \<Rightarrow> coord_state \<Rightarrow> coord_state" where
  "endLocked h err t s =
     (let l = handles s ! h; r = heap s ! t in
      if t \<notin> set (terms l) then s
      else s\<lparr>handles := (handles s)[h := l\<lparr>terms := removeAll t (terms l)\<rparr>],
             held := (held s)(term_name r := None),
             heap := (heap s)[t := r\<lparr>term_err := err, done_closed := True\<rparr>]\<rparr>)"

text \<open>\<^verbatim>\<open>Close\<close> ranges over the set of terms; ending one does not touch another.\<close>

definition coord_Close :: "nat \<Rightarrow> coord_state \<Rightarrow> coord_state" where
  "coord_Close h s =
     (let l = handles s ! h in
      fold (endLocked h None) (terms l) (s\<lparr>handles := (handles s)[h := l\<lparr>closed := True\<rparr>]\<rparr>))"

definition Resign :: "nat \<Rightarrow> coord_state \<Rightarrow> coord_state" where
  "Resign t s = endLocked (owner (heap s ! t)) None t s"

section \<open>Reachable tables\<close>

inductive coord_step :: "coord_state \<Rightarrow> coord_state \<Rightarrow> bool" where
  step_Peer: "coord_step s (snd (Peer s))"
| step_TryAcquire: "h < length (handles s) \<Longrightarrow> coord_step s (snd (TryAcquire ctx h n s))"
| step_Close: "h < length (handles s) \<Longrightarrow> coord_step s (coord_Close h s)"
| step_Resign: "t < length (heap s) \<Longrightarrow> coord_step s (Resign t s)"

inductive_cases coord_stepE: "coord_step s s'"

definition reaches :: "coord_state \<Rightarrow> coord_state \<Rightarrow> bool" where
  "reaches = coord_step\<^sup>*\<^sup>*"

definition live :: "coord_state \<Rightarrow> nat \<Rightarrow> bool" where
  "live s t \<longleftrightarrow> t < length (heap s) \<and> \<not> done_closed (heap s ! t)"

text \<open>The invariant: the table lists exactly the live terms, each by its name and at its open owner, and the
  token of a term counts the acquisitions of its name so far.\<close>

definition coord_core :: "coord_state \<Rightarrow> bool" where
  "coord_core s \<longleftrightarrow>
     (\<forall>n t. held s n = Some t \<longleftrightarrow> live s t \<and> term_name (heap s ! t) = n) \<and>
     (\<forall>h < length (handles s). set (terms (handles s ! h)) = {t. live s t \<and> owner (heap s ! t) = h}) \<and>
     (\<forall>t < length (heap s). owner (heap s ! t) < length (handles s)) \<and>
     (\<forall>n. tokens s n = of_nat (count_list (map term_name (heap s)) n)) \<and>
     (\<forall>t < length (heap s). token (heap s ! t) = of_nat (count_list (map term_name (take (Suc t) (heap s))) (term_name (heap s ! t))))"


definition coord_ok :: "coord_state \<Rightarrow> bool" where
  "coord_ok s \<longleftrightarrow> coord_core s \<and> (\<forall>h < length (handles s). closed (handles s ! h) \<longrightarrow> terms (handles s ! h) = [])"

lemma coord_coreD:
  assumes "coord_core s"
  shows "held s n = Some t \<longleftrightarrow> live s t \<and> term_name (heap s ! t) = n"
    "h < length (handles s) \<Longrightarrow> t \<in> set (terms (handles s ! h)) \<longleftrightarrow> live s t \<and> owner (heap s ! t) = h"
    "t < length (heap s) \<Longrightarrow> owner (heap s ! t) < length (handles s)"
    "tokens s n = of_nat (count_list (map term_name (heap s)) n)"
    "t < length (heap s) \<Longrightarrow> token (heap s ! t) = of_nat (count_list (map term_name (take (Suc t) (heap s))) (term_name (heap s ! t)))"
  using assms unfolding coord_core_def by auto

lemma nth_update_keep: "f x = f (xs ! i) \<Longrightarrow> f (xs[i := x] ! j) = f (xs ! j)"
  by (cases "i < length xs"; cases "i = j") (auto simp: list_update_beyond)

text \<open>What ending a term leaves alone.\<close>

lemma endLocked_frame [simp]:
  "length (heap (endLocked h e t s)) = length (heap s)" "length (handles (endLocked h e t s)) = length (handles s)"
  "tokens (endLocked h e t s) = tokens s"
  by (simp_all add: endLocked_def Let_def)

lemma endLocked_heap [simp]:
  "term_name (heap (endLocked h e t s) ! p) = term_name (heap s ! p)" "owner (heap (endLocked h e t s) ! p) = owner (heap s ! p)"
  "token (heap (endLocked h e t s) ! p) = token (heap s ! p)"
  by (simp_all add: endLocked_def Let_def nth_update_keep)

lemma endLocked_names [simp]: "map term_name (take k (heap (endLocked h e t s))) = map term_name (take k (heap s))"
  by (rule nth_equalityI) simp_all

lemma endLocked_all_names [simp]: "map term_name (heap (endLocked h e t s)) = map term_name (heap s)"
  by (rule nth_equalityI) simp_all

lemma endLocked_closed [simp]: "closed (handles (endLocked h e t s) ! k) = closed (handles s ! k)"
  by (simp add: endLocked_def Let_def nth_update_keep)

lemma endLocked_live:
  assumes "coord_core s" "h < length (handles s)"
  shows "live (endLocked h e t s) p \<longleftrightarrow> live s p \<and> \<not> (p = t \<and> t \<in> set (terms (handles s ! h)))"
  using coord_coreD(2) [OF assms, of t] by (auto simp: live_def endLocked_def Let_def nth_list_update)

lemma endLocked_terms:
  assumes "h < length (handles s)" "k < length (handles s)"
  shows "set (terms (handles (endLocked h e t s) ! k)) = set (terms (handles s ! k)) - (if k = h then {t} else {})"
  using assms by (auto simp: endLocked_def Let_def nth_list_update)

lemma endLocked_held:
  "held (endLocked h e t s) n = (if t \<in> set (terms (handles s ! h)) \<and> n = term_name (heap s ! t) then None else held s n)"
  by (simp add: endLocked_def Let_def)

lemma endLocked_core:
  assumes c: "coord_core s" and h: "h < length (handles s)"
  shows "coord_core (endLocked h e t s)"
  unfolding coord_core_def
proof (intro conjI allI impI)
  note D = coord_coreD [OF c] and L = endLocked_live [OF c h]
  fix n p k
  show "held (endLocked h e t s) n = Some p \<longleftrightarrow> live (endLocked h e t s) p \<and> term_name (heap (endLocked h e t s) ! p) = n"
    by (cases "t \<in> set (terms (handles s ! h)) \<and> n = term_name (heap s ! t)")
      (use D(1) [of n p] D(1) [of n t] D(2) [OF h, of t] in \<open>auto simp: endLocked_held L\<close>)
  show "tokens (endLocked h e t s) n = of_nat (count_list (map term_name (heap (endLocked h e t s))) n)" by (simp add: D(4))
  {
    assume "k < length (handles (endLocked h e t s))"
    then have k: "k < length (handles s)" by simp
    show "set (terms (handles (endLocked h e t s) ! k)) = {p. live (endLocked h e t s) p \<and> owner (heap (endLocked h e t s) ! p) = k}"
      using D(2) [OF k] D(2) [OF h] by (auto simp: endLocked_terms [OF h k] L)
  }
  {
    assume "p < length (heap (endLocked h e t s))"
    then show "owner (heap (endLocked h e t s) ! p) < length (handles (endLocked h e t s))" using D(3) [of p] by simp
  }
  {
    assume "p < length (heap (endLocked h e t s))"
    then show "token (heap (endLocked h e t s) ! p) =
        of_nat (count_list (map term_name (take (Suc p) (heap (endLocked h e t s)))) (term_name (heap (endLocked h e t s) ! p)))"
      using D(5) [of p] by simp
  }
qed


lemma coord_ok_closed: "coord_ok s \<Longrightarrow> h < length (handles s) \<Longrightarrow> closed (handles s ! h) \<Longrightarrow> terms (handles s ! h) = []"
  by (simp add: coord_ok_def)

lemma endLocked_ok:
  assumes "coord_ok s" "h < length (handles s)"
  shows "coord_ok (endLocked h e t s)"
proof -
  have "terms (handles (endLocked h e t s) ! k) = []" if "k < length (handles s)" "closed (handles s ! k)" for k
    using endLocked_terms [OF assms(2) that(1), of e t] coord_ok_closed [OF assms(1) that] by auto
  then show ?thesis using assms endLocked_core by (auto simp: coord_ok_def)
qed

lemma end_all:
  assumes "coord_core s" "h < length (handles s)"
  shows "coord_core (fold (endLocked h None) ts s) \<and> length (handles (fold (endLocked h None) ts s)) = length (handles s) \<and>
    length (heap (fold (endLocked h None) ts s)) = length (heap s) \<and>
    (\<forall>k. closed (handles (fold (endLocked h None) ts s) ! k) = closed (handles s ! k)) \<and>
    (\<forall>k < length (handles s). set (terms (handles (fold (endLocked h None) ts s) ! k)) =
       set (terms (handles s ! k)) - (if k = h then set ts else {}))"
  using assms
proof (induction ts arbitrary: s)
  case (Cons t ts)
  have "coord_core (endLocked h None t s)" "h < length (handles (endLocked h None t s))"
    using Cons.prems endLocked_core by simp_all
  note IH = Cons.IH [OF this]
  with Cons.prems show ?case by (auto simp: endLocked_terms)
qed simp

text \<open>Marking a coordinator closed touches nothing else of it.\<close>

definition set_closed :: "nat \<Rightarrow> coord_state \<Rightarrow> coord_state" where
  "set_closed h s = s\<lparr>handles := (handles s)[h := (handles s ! h)\<lparr>closed := True\<rparr>]\<rparr>"

lemma set_closed_core: "coord_core s \<Longrightarrow> coord_core (set_closed h s)"
  by (simp add: coord_core_def set_closed_def live_def nth_update_keep)

lemma Close_fold: "coord_Close h s = fold (endLocked h None) (terms (handles s ! h)) (set_closed h s)"
  by (simp add: coord_Close_def set_closed_def Let_def)

lemma Close_facts:
  assumes "coord_ok s" "h < length (handles s)"
  shows "coord_ok (coord_Close h s)" "closed (handles (coord_Close h s) ! h)" "terms (handles (coord_Close h s) ! h) = []"
    "length (handles (coord_Close h s)) = length (handles s)" "length (heap (coord_Close h s)) = length (heap s)"
proof -
  have c: "coord_core (set_closed h s)" "h < length (handles (set_closed h s))"
    using assms by (auto simp: coord_ok_def intro: set_closed_core) (simp add: set_closed_def)
  have len: "length (handles (set_closed h s)) = length (handles s)" "length (heap (set_closed h s)) = length (heap s)"
    and tm: "terms (handles (set_closed h s) ! k) = terms (handles s ! k)"
    and cl: "closed (handles (set_closed h s) ! k) \<longleftrightarrow> k = h \<or> closed (handles s ! k)" for k
    using assms(2) by (auto simp: set_closed_def nth_update_keep nth_list_update)
  note E = end_all [OF c, of "terms (handles s ! h)", folded Close_fold, unfolded len tm cl]
  show cl': "closed (handles (coord_Close h s) ! h)" and tm': "terms (handles (coord_Close h s) ! h) = []"
    and l: "length (handles (coord_Close h s)) = length (handles s)" "length (heap (coord_Close h s)) = length (heap s)"
    using E assms(2) by auto
  have "terms (handles (coord_Close h s) ! k) = []" if "k < length (handles s)" "closed (handles (coord_Close h s) ! k)" for k
  proof (cases "k = h")
    case False
    with E that have "closed (handles s ! k)" "set (terms (handles (coord_Close h s) ! k)) = set (terms (handles s ! k))" by auto
    with coord_ok_closed [OF assms(1) that(1)] show ?thesis by simp
  qed (simp add: tm')
  with E l show "coord_ok (coord_Close h s)" by (auto simp: coord_ok_def)
qed

text \<open>A successful acquisition appends one live term.\<close>

definition acquired :: "nat \<Rightarrow> string \<Rightarrow> coord_state \<Rightarrow> coord_state" where
  "acquired h n s = snd (TryAcquire None h n s)"

lemma TryAcquire_cases:
  "fst (TryAcquire ctx h n s) = (case ctx of Some e \<Rightarrow> Inl e | None \<Rightarrow>
     if closed (handles s ! h) then Inl ErrClosed else if held s n \<noteq> None then Inl ErrHeld else Inr (length (heap s)))"
  "fst (TryAcquire ctx h n s) = Inl e \<Longrightarrow> snd (TryAcquire ctx h n s) = s"
  by (auto simp: TryAcquire_def Let_def split: option.splits if_splits)

lemma acquired_fields:
  assumes "\<not> closed (handles s ! h)" "held s n = None"
  shows "heap (acquired h n s) = heap s @ [\<lparr>owner = h, term_name = n, token = tokens s n + 1, done_closed = False, term_err = None\<rparr>]"
    "held (acquired h n s) = (held s)(n \<mapsto> length (heap s))" "tokens (acquired h n s) = (tokens s)(n := tokens s n + 1)"
    "handles (acquired h n s) = (handles s)[h := (handles s ! h)\<lparr>terms := terms (handles s ! h) @ [length (heap s)]\<rparr>]"
  using assms by (simp_all add: acquired_def TryAcquire_def Let_def)


lemma acquired_core:
  assumes c: "coord_core s" and h: "h < length (handles s)" and o: "\<not> closed (handles s ! h)" "held s n = None"
  shows "coord_core (acquired h n s)"
proof -
  note D = coord_coreD [OF c] and F = acquired_fields [OF o]
  let ?s = "acquired h n s" and ?t = "length (heap s)"
  have live: "live ?s p \<longleftrightarrow> live s p \<or> p = ?t" for p by (auto simp: live_def F(1) nth_append)
  have old: "heap ?s ! p = heap s ! p" if "p < ?t" for p using that by (simp add: F(1) nth_append)
  have new: "heap ?s ! ?t = \<lparr>owner = h, term_name = n, token = tokens s n + 1, done_closed = False, term_err = None\<rparr>"
    by (simp add: F(1))
  have lt: "live s p \<Longrightarrow> p < ?t" for p by (simp add: live_def)
  show ?thesis
    unfolding coord_core_def
  proof (intro conjI allI impI)
    fix m p k
    show "held ?s m = Some p \<longleftrightarrow> live ?s p \<and> term_name (heap ?s ! p) = m"
    proof (cases "p = ?t")
      case True
      with D(1) [of m p] lt [of p] new show ?thesis by (auto simp: F(2) live)
    next
      case False
      with D(1) [of m p] D(1) [of n p] o(2) lt [of p] old [of p] show ?thesis by (auto simp: F(2) live)
    qed
    show "tokens ?s m = of_nat (count_list (map term_name (heap ?s)) m)" by (simp add: F(1,3) D(4))
    {
      assume "k < length (handles ?s)"
      then have k: "k < length (handles s)" by (simp add: F(4))
      have "p \<in> set (terms (handles ?s ! k)) \<longleftrightarrow> p \<in> set (terms (handles s ! k)) \<or> (k = h \<and> p = ?t)" for p
        using h k by (auto simp: F(4) nth_list_update)
      then show "set (terms (handles ?s ! k)) = {p. live ?s p \<and> owner (heap ?s ! p) = k}"
        using D(2) [OF k] lt old new by (auto simp: live)
    }
    {
      assume "p < length (heap ?s)"
      then show "owner (heap ?s ! p) < length (handles ?s)" using D(3) [of p] h by (auto simp: F(1,4) nth_append)
    }
    {
      assume "p < length (heap ?s)"
      then show "token (heap ?s ! p) = of_nat (count_list (map term_name (take (Suc p) (heap ?s))) (term_name (heap ?s ! p)))"
        using D(5) [of p] D(4) [of n] by (cases "p < ?t") (auto simp: F(1) nth_append less_Suc_eq)
    }
  qed
qed

lemma acquired_ok:
  assumes "coord_ok s" "h < length (handles s)" "\<not> closed (handles s ! h)" "held s n = None"
  shows "coord_ok (acquired h n s)"
  using assms acquired_core by (auto simp: coord_ok_def acquired_fields nth_list_update)

lemma TryAcquire_ok:
  assumes "coord_ok s" "h < length (handles s)"
  shows "coord_ok (snd (TryAcquire ctx h n s))"
proof (cases "fst (TryAcquire ctx h n s)")
  case (Inl e)
  with assms TryAcquire_cases(2) show ?thesis by metis
next
  case (Inr t)
  then have "ctx = None" "\<not> closed (handles s ! h)" "held s n = None"
    by (auto simp: TryAcquire_cases(1) split: option.splits if_splits)
  with acquired_ok [OF assms] show ?thesis by (simp add: acquired_def)
qed

lemma Peer_ok: "coord_ok s \<Longrightarrow> coord_ok (snd (Peer s))"
  by (auto simp: coord_ok_def coord_core_def Peer_def newLocal_def live_def nth_append less_Suc_eq)

lemma coord_step_ok: "coord_step s s' \<Longrightarrow> coord_ok s \<Longrightarrow> coord_ok s'"
proof (induction rule: coord_step.induct)
  case (step_Resign t s)
  then show ?case by (simp add: Resign_def endLocked_ok coord_coreD(3) coord_ok_def [of s] endLocked_ok [unfolded coord_ok_def])
qed (simp_all add: Peer_ok TryAcquire_ok Close_facts)

lemma reaches_ok: "reaches s s' \<Longrightarrow> coord_ok s \<Longrightarrow> coord_ok s'"
  unfolding reaches_def by (induction rule: rtranclp_induct) (auto intro: coord_step_ok)

lemma NewLocal_ok: "coord_ok NewLocal"
  by (simp add: coord_ok_def coord_core_def NewLocal_def newLocal_def live_def)


text \<open>Along any run the allocated terms keep their owner, name and token, and an ended one stays ended.\<close>

definition extends :: "coord_state \<Rightarrow> coord_state \<Rightarrow> bool" where
  "extends s s' \<longleftrightarrow> length (heap s) \<le> length (heap s') \<and> length (handles s) \<le> length (handles s') \<and>
     (\<forall>t < length (heap s). owner (heap s' ! t) = owner (heap s ! t) \<and> term_name (heap s' ! t) = term_name (heap s ! t) \<and>
        token (heap s' ! t) = token (heap s ! t) \<and> (live s' t \<longrightarrow> live s t))"

lemma extends_refl: "extends s s"
  by (simp add: extends_def)

lemma extends_trans: "extends s s' \<Longrightarrow> extends s' s'' \<Longrightarrow> extends s s''"
  by (fastforce simp: extends_def)

lemma nth_update_cases: "xs[i := x] ! j = (if i = j \<and> j < length xs then x else xs ! j)"
  by (cases "i < length xs") (auto simp: list_update_beyond)

lemma endLocked_extends: "extends s (endLocked h e t s)"
  by (auto simp: extends_def live_def) (auto simp: endLocked_def Let_def nth_update_cases split: if_splits)

lemma end_all_extends: "extends s (fold (endLocked h None) ts s)"
  by (induction ts arbitrary: s) (auto intro: extends_refl extends_trans endLocked_extends)

lemma TryAcquire_extends: "extends s (snd (TryAcquire ctx h n s))"
  by (auto simp: extends_def TryAcquire_def live_def nth_append Let_def split: option.splits)

lemma coord_step_extends: "coord_step s s' \<Longrightarrow> extends s s'"
proof (induction rule: coord_step.induct)
  case (step_Peer s)
  then show ?case by (simp add: extends_def Peer_def live_def)
next
  case (step_Close h s)
  have "extends s (set_closed h s)" by (simp add: extends_def set_closed_def live_def)
  with end_all_extends extends_trans show ?case unfolding Close_fold by blast
qed (simp_all add: Resign_def endLocked_extends TryAcquire_extends)

lemma reaches_extends: "reaches s s' \<Longrightarrow> extends s s'"
  unfolding reaches_def by (induction rule: rtranclp_induct) (auto intro: extends_refl extends_trans coord_step_extends)

lemma held_live: "coord_core s \<Longrightarrow> held s n \<noteq> None \<longleftrightarrow> (\<exists>t. live s t \<and> term_name (heap s ! t) = n)"
  using coord_coreD(1) [of s n] by (metis not_None_eq)

lemma TryAcquire_live: "fst (TryAcquire ctx h n s) = Inr t \<Longrightarrow> live (snd (TryAcquire ctx h n s)) t \<and> \<not> live s t"
  by (auto simp: TryAcquire_def live_def Let_def split: option.splits if_splits)

lemma count_take_less:
  assumes "t < u" "u < length xs"
  shows "count_list (take (Suc t) xs) (xs ! u) < count_list (take (Suc u) xs) (xs ! u)"
proof -
  have "take (Suc u) xs = take (Suc t) xs @ take (u - Suc t) (drop (Suc t) xs) @ [xs ! u]"
    using assms take_add [of "Suc t" "u - Suc t" xs] by (simp add: take_Suc_conv_app_nth)
  then show ?thesis by simp
qed

lemma token_increasing:
  assumes c: "coord_core s" and l: "length (heap s) < 2 ^ 64" and tu: "t < u" "u < length (heap s)"
    and n: "term_name (heap s ! t) = term_name (heap s ! u)"
  shows "unat (token (heap s ! t)) < unat (token (heap s ! u))"
proof -
  define ns where "ns = map term_name (heap s)"
  have bound: "count_list (take k ns) m < 2 ^ 64" for k m
    using count_le_length [of "take k ns" m] l by (simp add: ns_def)
  have tok: "unat (token (heap s ! p)) = count_list (take (Suc p) ns) (term_name (heap s ! p))" if "p < length (heap s)" for p
    using coord_coreD(5) [OF c that] bound [of "Suc p"] by (simp add: ns_def take_map unat_of_nat)
  have "ns ! u = term_name (heap s ! u)" "u < length ns" using tu by (simp_all add: ns_def)
  with count_take_less [OF tu(1), of ns] show ?thesis using tok [of t] tok [of u] tu n by simp
qed

text \<open>C26. Leases of the in-process coordinator, for any number of coordinators over one table and any
  interleaving of their calls: a name has at most one live term, and \<^verbatim>\<open>Held\<close> reports exactly whether it
  has one; \<^verbatim>\<open>TryAcquire\<close> answers \<open>ErrClosed\<close> on a closed coordinator, \<open>ErrHeld\<close> when the name is live and a new
  live term otherwise; a closed coordinator owns no live term; a term once ended stays ended; and of two
  terms of one name the later has the greater token, up to \<open>2 ^ 64\<close> acquisitions.\<close>

theorem leases_exclusive:
  assumes "reaches NewLocal s" "h < length (handles s)"
  shows "(live s t \<and> live s u \<and> term_name (heap s ! t) = n \<and> term_name (heap s ! u) = n \<longrightarrow> t = u) \<and>
    Held None n s = Inr (\<exists>t. live s t \<and> term_name (heap s ! t) = n) \<and>
    fst (TryAcquire None h n s) = (if closed (handles s ! h) then Inl ErrClosed
      else if \<exists>t. live s t \<and> term_name (heap s ! t) = n then Inl ErrHeld else Inr (length (heap s))) \<and>
    (fst (TryAcquire None h n s) = Inr t \<longrightarrow> live (snd (TryAcquire None h n s)) t \<and> \<not> live s t) \<and>
    (closed (handles s ! h) \<and> live s t \<longrightarrow> owner (heap s ! t) \<noteq> h) \<and>
    (\<forall>s'. t < length (heap s) \<and> reaches s s' \<and> live s' t \<longrightarrow> live s t) \<and>
    (length (heap s) < 2 ^ 64 \<and> t < u \<and> u < length (heap s) \<and> term_name (heap s ! t) = term_name (heap s ! u) \<longrightarrow>
       unat (token (heap s ! t)) < unat (token (heap s ! u)))"
proof (intro conjI impI allI)
  have ok: "coord_ok s" using assms(1) NewLocal_ok reaches_ok by blast
  then have c: "coord_core s" by (simp add: coord_ok_def)
  note D = coord_coreD [OF c] and H = held_live [OF c, of n]
  show "t = u" if "live s t \<and> live s u \<and> term_name (heap s ! t) = n \<and> term_name (heap s ! u) = n"
    using that D(1) [of n t] D(1) [of n u] by simp
  show "Held None n s = Inr (\<exists>t. live s t \<and> term_name (heap s ! t) = n)" using H by (simp add: Held_def)
  show "fst (TryAcquire None h n s) = (if closed (handles s ! h) then Inl ErrClosed
      else if \<exists>t. live s t \<and> term_name (heap s ! t) = n then Inl ErrHeld else Inr (length (heap s)))"
    unfolding TryAcquire_cases(1) H by simp
  show "live (snd (TryAcquire None h n s)) t" "\<not> live s t" if "fst (TryAcquire None h n s) = Inr t"
    using TryAcquire_live [OF that] by simp_all
  show "owner (heap s ! t) \<noteq> h" if "closed (handles s ! h) \<and> live s t"
    using that coord_ok_closed [OF ok assms(2)] D(2) [OF assms(2), of t] by auto
  show "live s t" if "t < length (heap s) \<and> reaches s s' \<and> live s' t" for s'
    using that reaches_extends by (auto simp: extends_def)
  show "unat (token (heap s ! t)) < unat (token (heap s ! u))"
    if "length (heap s) < 2 ^ 64 \<and> t < u \<and> u < length (heap s) \<and> term_name (heap s ! t) = term_name (heap s ! u)"
    using that token_increasing [OF c] by blast
qed

theorem leases_exclusive_witness:
  "fst (TryAcquire None 0 ''sweeper'' (acquired 0 ''sweeper'' NewLocal)) = Inl ErrHeld \<and>
    fst (TryAcquire None 0 ''sweeper'' NewLocal) = Inr 0"
proof -
  have h: "0 < length (handles NewLocal)" by (simp add: NewLocal_def)
  have "coord_step NewLocal (acquired 0 ''sweeper'' NewLocal)"
    unfolding acquired_def by (rule step_TryAcquire [OF h])
  then have r: "reaches NewLocal (acquired 0 ''sweeper'' NewLocal)" "reaches NewLocal NewLocal"
    by (auto simp: reaches_def)
  have h': "0 < length (handles (acquired 0 ''sweeper'' NewLocal))"
    by (simp add: acquired_def NewLocal_def TryAcquire_def newLocal_def)
  have "live (acquired 0 ''sweeper'' NewLocal) 0 \<and> term_name (heap (acquired 0 ''sweeper'' NewLocal) ! 0) = ''sweeper''"
    "\<not> closed (handles (acquired 0 ''sweeper'' NewLocal) ! 0)" "\<not> closed (handles NewLocal ! 0)"
    by (simp_all add: acquired_def NewLocal_def TryAcquire_def newLocal_def live_def)
  with leases_exclusive [OF r(1) h', of 0 0 "''sweeper''"] leases_exclusive [OF r(2) h, of 0 0 "''sweeper''"]
  show ?thesis by (auto simp: NewLocal_def live_def)
qed


section \<open>The election loop\<close>

text \<open>
  One round of \<^verbatim>\<open>RunElected\<close> as the loop meets it: the error its context reports to \<^verbatim>\<open>TryAcquire\<close>; what \<^verbatim>\<open>fn\<close> does
  when called with a term (its error, whether its context had ended by then, and the state it leaves,
  with whatever other callers did meanwhile); whether the loop's context has ended when a failed campaign
  is looked at; and the wait for the next round, which reports whether the context ended first.
\<close>

record ('s, 't) round =
  ctx_err :: "coord_error option"
  work :: "'t \<Rightarrow> 's \<Rightarrow> coord_error option \<times> bool \<times> 's"
  ctx_ended :: bool
  pause :: "'s \<Rightarrow> bool \<times> 's"

definition serve :: "('t \<Rightarrow> 's \<Rightarrow> 's) \<Rightarrow> ('t \<Rightarrow> 's \<Rightarrow> coord_error option \<times> bool \<times> 's) \<Rightarrow> 't \<Rightarrow> 's \<Rightarrow> coord_error option \<times> 's" where
  "serve resign fn t s = (case fn t s of (err, stopped, s) \<Rightarrow> (if stopped then None else err, resign t s))"

text \<open>The loop over its rounds; the outer \<open>None\<close> is a loop still running when the rounds end, \<open>Some None\<close> a
  return with no error.\<close>

fun RunElected :: "(coord_error option \<Rightarrow> 's \<Rightarrow> (coord_error + 't) \<times> 's) \<Rightarrow> ('t \<Rightarrow> 's \<Rightarrow> 's) \<Rightarrow> ('s, 't) round list \<Rightarrow> 's
    \<Rightarrow> coord_error option option \<times> 's" where
  "RunElected acquire resign [] s = (None, s)"
| "RunElected acquire resign (r # rs) s =
     (let next = (\<lambda>s. case pause r s of (ended, s) \<Rightarrow> if ended then (Some None, s) else RunElected acquire resign rs s) in
      case acquire (ctx_err r) s of
        (Inr t, s) \<Rightarrow> (case serve resign (work r) t s of (Some e, s) \<Rightarrow> (Some (Some e), s) | (None, s) \<Rightarrow> next s)
      | (Inl e, s) \<Rightarrow>
          if ctx_ended r then (Some None, s)
          else if e = ErrHeld then next s
          else if e = ErrClosed then (Some (Some e), s)
          else next s)"

text \<open>The context reports its own end, never the coordinator's; work and waiting are steps of the environment.\<close>

definition behaved :: "('s \<Rightarrow> 's \<Rightarrow> bool) \<Rightarrow> ('s, 't) round \<Rightarrow> bool" where
  "behaved env r \<longleftrightarrow> ctx_err r \<noteq> Some ErrClosed \<and> (\<forall>t s. env s (snd (snd (work r t s))) \<and> env s (snd (pause r s)))"

text \<open>
  What the loop relies on of a coordinator: \<open>mine\<close> are the live terms of the lease under this coordinator,
  \<open>env\<close> what the other callers may do.
\<close>

locale coordinator =
  fixes acquire :: "coord_error option \<Rightarrow> 's \<Rightarrow> (coord_error + 't) \<times> 's"
    and resign :: "'t \<Rightarrow> 's \<Rightarrow> 's"
    and env :: "'s \<Rightarrow> 's \<Rightarrow> bool"
    and ok :: "'s \<Rightarrow> bool"
    and known :: "'t \<Rightarrow> 's \<Rightarrow> bool"
    and mine :: "'s \<Rightarrow> 't set"
    and shut :: "'s \<Rightarrow> bool"
  assumes acquire_ok: "ok s \<Longrightarrow> ok (snd (acquire c s))"
    and resign_ok: "ok s \<Longrightarrow> known t s \<Longrightarrow> ok (resign t s)"
    and env_ok: "ok s \<Longrightarrow> env s s' \<Longrightarrow> ok s'"
    and env_known: "ok s \<Longrightarrow> env s s' \<Longrightarrow> known t s \<Longrightarrow> known t s'"
    and env_mine: "ok s \<Longrightarrow> env s s' \<Longrightarrow> mine s' \<subseteq> mine s"
    and acquire_fail: "ok s \<Longrightarrow> fst (acquire c s) = Inl e \<Longrightarrow> mine (snd (acquire c s)) \<subseteq> mine s \<and> (e = ErrClosed \<longrightarrow> c = Some e \<or> shut (snd (acquire c s)))"
    and acquire_new: "ok s \<Longrightarrow> fst (acquire c s) = Inr t \<Longrightarrow> known t (snd (acquire c s)) \<and> mine (snd (acquire c s)) \<subseteq> insert t (mine s)"
    and resign_mine: "ok s \<Longrightarrow> known t s \<Longrightarrow> mine (resign t s) \<subseteq> mine s - {t}"
begin

lemma serve_ok:
  assumes "ok s" "known t s" "\<And>s. env s (snd (snd (fn t s)))"
  shows "ok (snd (serve resign fn t s))" "mine (snd (serve resign fn t s)) \<subseteq> mine s - {t}"
proof -
  obtain e b s' where f: "fn t s = (e, b, s')" by (cases "fn t s") auto
  with assms(3) [of s] have "env s s'" by simp
  with assms(1,2) have s': "ok s'" "known t s'" "mine s' \<subseteq> mine s" using env_ok env_known env_mine by blast+
  with f resign_ok resign_mine [OF s'(1,2)] show "ok (snd (serve resign fn t s))" "mine (snd (serve resign fn t s)) \<subseteq> mine s - {t}"
    by (auto simp: serve_def)
qed

text \<open>The pause and what follows, given what the rest of the loop does.\<close>

lemma elected:
  assumes "RunElected acquire resign rs s = (res, s')" "ok s" "mine s = {}" "\<forall>r \<in> set rs. behaved env r"
  shows "ok s' \<and> mine s' = {} \<and>
    (res = Some None \<longrightarrow> (\<exists>r \<in> set rs. ctx_ended r \<or> (\<exists>s. fst (pause r s)))) \<and>
    (\<forall>e. res = Some (Some e) \<longrightarrow> (e = ErrClosed \<and> shut s') \<or>
       (\<exists>r \<in> set rs. \<exists>t s s''. work r t s = (Some e, False, s'')))"
  using assms
proof (induction rs arbitrary: s)
  case (Cons r rs)
  have r: "behaved env r" "\<forall>r \<in> set rs. behaved env r" using Cons.prems(4) by auto
  let ?Q = "\<lambda>res s'. ok s' \<and> mine s' = {} \<and>
    (res = Some None \<longrightarrow> (\<exists>r \<in> set (r # rs). ctx_ended r \<or> (\<exists>s. fst (pause r s)))) \<and>
    (\<forall>e. res = Some (Some e) \<longrightarrow> (e = ErrClosed \<and> shut s') \<or> (\<exists>r \<in> set (r # rs). \<exists>t s s''. work r t s = (Some e, False, s'')))"
  have cont: "?Q res s'" if n: "(case pause r u of (ended, s) \<Rightarrow> if ended then (Some None, s) else RunElected acquire resign rs s) = (res, s')"
    and u: "ok u" "mine u = {}" for u
  proof -
    obtain b v where p: "pause r u = (b, v)" by (cases "pause r u")
    then have "env u v" using r(1) unfolding behaved_def by (metis snd_conv)
    then have v: "ok v" "mine v = {}" using u env_ok env_mine by blast+
    show ?thesis
    proof (cases b)
      case True
      with n p v have "res = Some None" "s' = v" by auto
      moreover have "fst (pause r u)" using p True by simp
      ultimately show ?thesis using v by auto
    next
      case False
      with n p have "RunElected acquire resign rs v = (res, s')" by simp
      from Cons.IH [OF this v r(2)] show ?thesis by auto
    qed
  qed
  obtain a u where a: "acquire (ctx_err r) s = (a, u)" by (cases "acquire (ctx_err r) s")
  with acquire_ok [OF Cons.prems(2)] have u: "ok u" by (metis snd_conv)
  show ?case
  proof (cases a)
    case (Inl e)
    with a acquire_fail [OF Cons.prems(2), of "ctx_err r"] Cons.prems(3) r(1)
    have m: "mine u = {}" "e = ErrClosed \<longrightarrow> shut u" by (auto simp: behaved_def)
    from Cons.prems(1) a Inl have "(if ctx_ended r then (Some None, u) else if e = ErrHeld then
        (case pause r u of (ended, s) \<Rightarrow> if ended then (Some None, s) else RunElected acquire resign rs s)
        else if e = ErrClosed then (Some (Some e), u)
        else (case pause r u of (ended, s) \<Rightarrow> if ended then (Some None, s) else RunElected acquire resign rs s)) = (res, s')" by simp
    with m u cont [OF _ u m(1)] show ?thesis by (auto split: if_splits)
  next
    case (Inr t)
    with a acquire_new [OF Cons.prems(2), of "ctx_err r"] Cons.prems(3) have k: "known t u" "mine u \<subseteq> {t}" by auto
    obtain f v where f: "serve resign (work r) t u = (f, v)" by (cases "serve resign (work r) t u")
    with serve_ok [OF u k(1), of "work r"] k(2) r(1) have v: "ok v" "mine v = {}" by (auto simp: behaved_def)
    show ?thesis
    proof (cases f)
      case None
      with Cons.prems(1) a Inr f cont [OF _ v] show ?thesis by simp
    next
      case (Some e)
      with Cons.prems(1) a Inr f have "res = Some (Some e)" "s' = v" by simp_all
      moreover have "\<exists>s''. work r t u = (Some e, False, s'')" using f Some by (auto simp: serve_def split: prod.splits if_splits)
      ultimately show ?thesis using v by fastforce
    qed
  qed
qed simp

end


section \<open>The loop over the in-process coordinator\<close>

text \<open>What others do while coordinator \<open>h\<close> runs for lease \<open>n\<close>: any calls but another campaign for \<open>n\<close> through \<open>h\<close>.\<close>

inductive others_step :: "nat \<Rightarrow> string \<Rightarrow> coord_state \<Rightarrow> coord_state \<Rightarrow> bool" for h n where
  others_Peer: "others_step h n s (snd (Peer s))"
| others_TryAcquire: "k < length (handles s) \<Longrightarrow> k \<noteq> h \<or> m \<noteq> n \<Longrightarrow> others_step h n s (snd (TryAcquire ctx k m s))"
| others_Close: "k < length (handles s) \<Longrightarrow> others_step h n s (coord_Close k s)"
| others_Resign: "t < length (heap s) \<Longrightarrow> others_step h n s (Resign t s)"

definition others :: "nat \<Rightarrow> string \<Rightarrow> coord_state \<Rightarrow> coord_state \<Rightarrow> bool" where
  "others h n = (others_step h n)\<^sup>*\<^sup>*"

definition terms_of :: "nat \<Rightarrow> string \<Rightarrow> coord_state \<Rightarrow> nat set" where
  "terms_of h n s = {t. live s t \<and> owner (heap s ! t) = h \<and> term_name (heap s ! t) = n}"

lemma others_step_is_step: "others_step h n s s' \<Longrightarrow> coord_step s s'"
  by (induction rule: others_step.induct) (auto intro: coord_step.intros)

lemma others_reaches: "others h n s s' \<Longrightarrow> reaches s s'"
  unfolding others_def reaches_def by (erule rtranclp_mono [THEN predicate2D, rotated]) (auto intro: others_step_is_step)

lemma live_lt: "live s t \<Longrightarrow> t < length (heap s)"
  by (simp add: live_def)

lemma extends_terms:
  assumes "extends s s'" "\<And>t. t \<in> terms_of h n s' \<Longrightarrow> t < length (heap s)"
  shows "terms_of h n s' \<subseteq> terms_of h n s"
proof
  fix t
  assume t: "t \<in> terms_of h n s'"
  from assms(1) assms(2) [OF t] t show "t \<in> terms_of h n s" by (simp add: terms_of_def extends_def)
qed

lemma TryAcquire_new:
  assumes "live (snd (TryAcquire ctx k m s)) t" "\<not> t < length (heap s)"
  shows "t = length (heap s)" "owner (heap (snd (TryAcquire ctx k m s)) ! t) = k" "term_name (heap (snd (TryAcquire ctx k m s)) ! t) = m"
    "fst (TryAcquire ctx k m s) = Inr t"
  using assms by (auto simp: TryAcquire_def live_def Let_def nth_append less_Suc_eq split: option.splits if_splits)

lemma fold_len: "length (heap (fold (endLocked k None) ts s)) = length (heap s)"
  by (induction ts arbitrary: s) simp_all

lemma Close_len: "length (heap (coord_Close k s)) = length (heap s)"
  unfolding Close_fold fold_len by (simp add: set_closed_def)

lemma others_step_terms:
  assumes "others_step h n s s'"
  shows "terms_of h n s' \<subseteq> terms_of h n s"
proof (rule extends_terms)
  show "extends s s'" using assms others_step_is_step coord_step_extends by blast
  show "t < length (heap s)" if "t \<in> terms_of h n s'" for t
    using assms
  proof cases
    case (others_TryAcquire k m ctx)
    from that have l: "live s' t" "owner (heap s' ! t) = h" "term_name (heap s' ! t) = n" by (simp_all add: terms_of_def)
    show ?thesis
    proof (rule ccontr)
      assume "\<not> t < length (heap s)"
      from TryAcquire_new(2,3) [OF l(1) [unfolded others_TryAcquire(1)] this] l(2,3) others_TryAcquire show False by simp
    qed
  qed (use that in \<open>auto dest!: live_lt simp: terms_of_def Peer_def Close_len Resign_def\<close>)
qed

lemma others_terms: "others h n s s' \<Longrightarrow> terms_of h n s' \<subseteq> terms_of h n s"
  unfolding others_def by (induction rule: rtranclp_induct) (use others_step_terms in blast)+

lemma Resign_terms:
  assumes "coord_ok s" "t < length (heap s)"
  shows "terms_of h n (Resign t s) \<subseteq> terms_of h n s - {t}"
proof -
  have c: "coord_core s" and o: "owner (heap s ! t) < length (handles s)"
    using assms coord_coreD(3) [of s t] by (simp_all add: coord_ok_def)
  have "\<not> live (Resign t s) t" using endLocked_live [OF c o, of None t t] coord_coreD(2) [OF c o, of t] by (auto simp: Resign_def)
  moreover have "terms_of h n (Resign t s) \<subseteq> terms_of h n s" using others_step_terms others_Resign assms(2) by blast
  ultimately show ?thesis by (auto simp: terms_of_def)
qed

lemma TryAcquire_terms:
  "terms_of h n (snd (TryAcquire c h n s)) \<subseteq> (case fst (TryAcquire c h n s) of Inl e \<Rightarrow> terms_of h n s | Inr t \<Rightarrow> insert t (terms_of h n s))"
proof (cases "fst (TryAcquire c h n s)")
  case (Inl e)
  then show ?thesis using TryAcquire_cases(2) [OF Inl] by simp
next
  case (Inr t)
  have "p = t" if "p \<in> terms_of h n (snd (TryAcquire c h n s))" "p \<notin> terms_of h n s" for p
  proof -
    have l: "live (snd (TryAcquire c h n s)) p" using that(1) by (simp add: terms_of_def)
    have "\<not> p < length (heap s)"
      using that TryAcquire_extends [of s c h n] by (auto simp: terms_of_def extends_def)
    from TryAcquire_new(4) [OF l this] Inr show ?thesis by simp
  qed
  with Inr show ?thesis by auto
qed

interpretation local: coordinator "\<lambda>c. TryAcquire c h n" Resign "others h n" "\<lambda>s. coord_ok s \<and> h < length (handles s)"
  "\<lambda>t s. t < length (heap s)" "terms_of h n" "\<lambda>s. closed (handles s ! h)" for h n
proof unfold_locales
  fix s s' :: coord_state and c e and t :: nat
  assume s: "coord_ok s \<and> h < length (handles s)"
  have len: "h < length (handles s')" if "extends s s'" for s' using s that by (auto simp: extends_def)
  show "coord_ok (snd (TryAcquire c h n s)) \<and> h < length (handles (snd (TryAcquire c h n s)))"
    using s TryAcquire_ok len TryAcquire_extends by blast
  show "terms_of h n (snd (TryAcquire c h n s)) \<subseteq> terms_of h n s \<and> (e = ErrClosed \<longrightarrow> c = Some e \<or> closed (handles (snd (TryAcquire c h n s)) ! h))"
    if "fst (TryAcquire c h n s) = Inl e"
    using that TryAcquire_terms [of h n c s] TryAcquire_cases(2) [OF that] TryAcquire_cases(1) [of c h n s]
    by (auto split: option.splits if_splits)
  show "t < length (heap (snd (TryAcquire c h n s))) \<and> terms_of h n (snd (TryAcquire c h n s)) \<subseteq> insert t (terms_of h n s)"
    if "fst (TryAcquire c h n s) = Inr t"
    using TryAcquire_live [OF that] TryAcquire_terms [of h n c s] that by (auto dest: live_lt)
  {
    assume t: "t < length (heap s)"
    then have "coord_step s (Resign t s)" by (rule step_Resign)
    then show "coord_ok (Resign t s) \<and> h < length (handles (Resign t s))"
      using s coord_step_ok len coord_step_extends by blast
    show "terms_of h n (Resign t s) \<subseteq> terms_of h n s - {t}" using s t Resign_terms by blast
  }
  assume e: "others h n s s'"
  note R = others_reaches [OF e]
  show "coord_ok s' \<and> h < length (handles s')" using s reaches_ok [OF R] len reaches_extends [OF R] by blast
  show "terms_of h n s' \<subseteq> terms_of h n s" by (rule others_terms [OF e])
  show "t < length (heap s')" if "t < length (heap s)" using that reaches_extends [OF R] by (simp add: extends_def)
qed

text \<open>C27. The election loop over the in-process coordinator: whatever the work it runs and the other callers do
  (short of campaigning for the same lease through the same coordinator), it never leaves a live term of
  the lease behind, it returns without an error only after its context ended, and an error it returns is
  either that the coordinator is closed or one its work returned while the context of its term was live.\<close>

theorem RunElected_outcome:
  assumes "RunElected (\<lambda>c. TryAcquire c h n) Resign rs s = (res, s')" "reaches NewLocal s" "h < length (handles s)"
    "terms_of h n s = {}" "\<forall>r \<in> set rs. behaved (others h n) r"
  shows "terms_of h n s' = {} \<and>
    (res = Some None \<longrightarrow> (\<exists>r \<in> set rs. ctx_ended r \<or> (\<exists>s. fst (pause r s)))) \<and>
    (\<forall>e. res = Some (Some e) \<longrightarrow> (e = ErrClosed \<and> closed (handles s' ! h)) \<or>
       (\<exists>r \<in> set rs. \<exists>t s s''. work r t s = (Some e, False, s'')))"
proof -
  have "coord_ok s \<and> h < length (handles s)" using assms(2,3) NewLocal_ok reaches_ok by blast
  from local.elected [OF assms(1) this assms(4,5)] assms(2) show ?thesis by blast
qed

theorem RunElected_outcome_witness:
  "terms_of 0 ''sweeper'' (snd (RunElected (\<lambda>c. TryAcquire c 0 ''sweeper'') Resign
     [\<lparr>ctx_err = None, work = (\<lambda>t s. (None, True, s)), ctx_ended = False, pause = (\<lambda>s. (False, s))\<rparr>,
      \<lparr>ctx_err = None, work = (\<lambda>t s. (Some (OtherError ''boom''), False, s)), ctx_ended = False, pause = (\<lambda>s. (False, s))\<rparr>]
     NewLocal)) = {}"
proof -
  let ?rs = "[\<lparr>ctx_err = None, work = (\<lambda>t s. (None, True, s)), ctx_ended = False, pause = (\<lambda>s. (False, s))\<rparr>,
      \<lparr>ctx_err = None, work = (\<lambda>t s. (Some (OtherError ''boom''), False, s)), ctx_ended = False, pause = (\<lambda>s. (False, s))\<rparr>]"
  have "reaches NewLocal NewLocal" by (simp add: reaches_def)
  moreover have "0 < length (handles NewLocal)" "terms_of 0 ''sweeper'' NewLocal = {}"
    by (simp_all add: NewLocal_def terms_of_def live_def)
  moreover have "\<forall>r \<in> set ?rs. behaved (others 0 ''sweeper'') r" by (simp add: behaved_def others_def)
  ultimately show ?thesis
    using RunElected_outcome [where h = 0 and n = "''sweeper''" and rs = ?rs and s = NewLocal, OF prod.collapse [symmetric]] by blast
qed

end
