(* ===== verification/Lease.thy ===== *)
theory Lease
  imports Coord
begin

text \<open>
  The coordinator over a NATS key-value bucket (\<^verbatim>\<open>internal/mq/lease.go\<close>). The bucket is a service: its answers are
  arguments of the operations below. \<open>natsLeases.mu\<close> is never held across a request, so \<^verbatim>\<open>TryAcquire\<close>, the renewal
  loop and \<^verbatim>\<open>Resign\<close> are given as the segments between their requests. Instants and durations are nanoseconds
  of one monotonic clock. A value in the bucket is its decoded record, since only coordinators write there.
\<close>

section \<open>Data\<close>

definition defaultLeaseDuration :: int where "defaultLeaseDuration = 15 * 10 ^ 9"
definition defaultRenewDeadline :: int where "defaultRenewDeadline = 10 * 10 ^ 9"
definition leaseKeyPrefix :: string where "leaseKeyPrefix = ''lease.''"

record leaseTimings =
  duration :: int
  renewDeadline :: int
  renewEvery :: int

record leaseValue =
  Holder :: string
  DurationMS :: int
  Session :: string
  Term :: string

record leaseSighting =
  revision :: nat
  since :: int

text \<open>A term; \<open>last\<close> is the renewal loop's own variable.\<close>

record natsTerm =
  name :: string
  val :: leaseValue
  fence :: nat
  rev :: nat
  last_sent :: int

record natsLeases =
  timings :: leaseTimings
  lease_value :: leaseValue
  lease_closed :: bool
  lease_held :: "string \<rightharpoonup> natsTerm"
  acquiring :: "string list"
  seen :: "string \<rightharpoonup> leaseSighting"

definition newNATSLeases :: "leaseTimings \<Rightarrow> string \<Rightarrow> string \<Rightarrow> natsLeases" where
  "newNATSLeases t holder session =
     \<lparr>timings = t, lease_value = \<lparr>Holder = holder, DurationMS = duration t div 10 ^ 6, Session = session, Term = ''''\<rparr>,
      lease_closed = False, lease_held = (\<lambda>n. None), acquiring = [], seen = (\<lambda>n. None)\<rparr>"

definition defaultTimings :: leaseTimings where
  "defaultTimings = \<lparr>duration = defaultLeaseDuration, renewDeadline = defaultRenewDeadline, renewEvery = 2 * 10 ^ 9\<rparr>"

text \<open>The bucket's errors the code tells apart.\<close>

datatype kv_error = KeyNotFound | KeyExists | KeyRevisionMismatch | WrongLastSequence | WrongLastSequenceConstant | KVError string

definition casConflict :: "kv_error \<Rightarrow> bool" where
  "casConflict e \<longleftrightarrow> e \<in> {KeyExists, KeyRevisionMismatch, WrongLastSequence, WrongLastSequenceConstant}"

section \<open>Taking a lease\<close>

text \<open>\<^verbatim>\<open>TryAcquire\<close> up to the campaign: the error, or the value the campaign writes.\<close>

definition acquire_begin :: "coord_error option \<Rightarrow> string \<Rightarrow> string \<Rightarrow> natsLeases \<Rightarrow> (coord_error + leaseValue) \<times> natsLeases" where
  "acquire_begin ctx n nuid l =
     (case ctx of Some e \<Rightarrow> (Inl e, l)
      | None \<Rightarrow>
        if lease_closed l then (Inl ErrClosed, l)
        else if lease_held l n \<noteq> None \<or> n \<in> set (acquiring l) then (Inl ErrHeld, l)
        else (Inr ((lease_value l)\<lparr>Term := nuid\<rparr>), l\<lparr>acquiring := n # acquiring l\<rparr>))"

definition lease_expired :: "string \<Rightarrow> nat \<Rightarrow> leaseValue \<Rightarrow> int \<Rightarrow> natsLeases \<Rightarrow> bool \<times> natsLeases" where
  "lease_expired n r cur now l =
     (case seen l n of
        Some s \<Rightarrow>
          if revision s \<noteq> r then (False, l\<lparr>seen := (seen l)(n \<mapsto> \<lparr>revision = r, since = now\<rparr>)\<rparr>)
          else (let d = (if DurationMS cur > 0 then DurationMS cur * 10 ^ 6 else duration (timings l)) in
                (now - since s \<ge> d, l))
      | None \<Rightarrow> (False, l\<lparr>seen := (seen l)(n \<mapsto> \<lparr>revision = r, since = now\<rparr>)\<rparr>))"

text \<open>\<^verbatim>\<open>campaign\<close> once \<^verbatim>\<open>Get\<close> has answered: which write to send, if any.\<close>

datatype campaign_write = DoCreate | DoUpdate nat | NoWrite coord_error

definition campaign_decide :: "string \<Rightarrow> kv_error + (nat \<times> leaseValue) \<Rightarrow> int \<Rightarrow> natsLeases \<Rightarrow> campaign_write \<times> natsLeases" where
  "campaign_decide n reply now l =
     (case reply of
        Inl e \<Rightarrow> (if e = KeyNotFound then DoCreate else if casConflict e then NoWrite ErrHeld else NoWrite (OtherError ''coord lease''), l)
      | Inr (r, cur) \<Rightarrow>
          if Session cur = Session (lease_value l) then (DoUpdate r, l)
          else (case lease_expired n r cur now l of (ex, l) \<Rightarrow> if ex then (DoUpdate r, l) else (NoWrite ErrHeld, l)))"

definition campaign_result :: "kv_error + nat \<Rightarrow> coord_error + nat" where
  "campaign_result reply =
     (case reply of Inr r \<Rightarrow> Inr r | Inl e \<Rightarrow> Inl (if casConflict e then ErrHeld else OtherError ''coord lease''))"

text \<open>The deferred removal of the campaign's mark, and the end of \<^verbatim>\<open>TryAcquire\<close> for a campaign that won; a
  coordinator closed meanwhile hands the lease straight back (the caller deletes the key at \<open>r\<close>).\<close>

definition acquire_over :: "string \<Rightarrow> natsLeases \<Rightarrow> natsLeases" where
  "acquire_over n l = l\<lparr>acquiring := removeAll n (acquiring l)\<rparr>"

definition acquire_finish :: "string \<Rightarrow> leaseValue \<Rightarrow> int \<Rightarrow> nat \<Rightarrow> natsLeases \<Rightarrow> (coord_error + natsTerm) \<times> natsLeases" where
  "acquire_finish n v sent r l =
     (if lease_closed l then (Inl ErrClosed, acquire_over n l)
      else (let t = \<lparr>name = n, val = v, fence = r, rev = r, last_sent = sent\<rparr> in
            (Inr t, acquire_over n (l\<lparr>seen := (seen l)(n := None), lease_held := (lease_held l)(n \<mapsto> t)\<rparr>))))"

definition nats_Held :: "string \<Rightarrow> kv_error + (nat \<times> leaseValue) \<Rightarrow> int \<Rightarrow> natsLeases \<Rightarrow> (coord_error + bool) \<times> natsLeases" where
  "nats_Held n reply now l =
     (if lease_held l n \<noteq> None then (Inr True, l)
      else (case reply of
        Inl e \<Rightarrow> (if e = KeyNotFound then Inr False else Inl (OtherError ''coord lease''), l)
      | Inr (r, cur) \<Rightarrow>
          if Session cur = Session (lease_value l) then (Inr False, l)
          else (case lease_expired n r cur now l of (ex, l) \<Rightarrow> (Inr (\<not> ex), l))))"

section \<open>Keeping and ending it\<close>

text \<open>\<^verbatim>\<open>end\<close>: whether the term was still held; a term is recognised by its own id.\<close>

definition term_end :: "natsTerm \<Rightarrow> natsLeases \<Rightarrow> bool \<times> natsLeases" where
  "term_end t l =
     (case lease_held l (name t) of
        Some u \<Rightarrow> if val u = val t then (True, l\<lparr>lease_held := (lease_held l)(name t := None)\<rparr>) else (False, l)
      | None \<Rightarrow> (False, l))"

text \<open>The renewal loop: the deadline, a stored renewal, and \<^verbatim>\<open>adoptLostReply\<close> once its \<^verbatim>\<open>Get\<close> has answered.\<close>

definition deadline_passed :: "int \<Rightarrow> natsLeases \<Rightarrow> natsTerm \<Rightarrow> bool" where
  "deadline_passed now l t \<longleftrightarrow> last_sent t + renewDeadline (timings l) \<le> now"

definition renew_stored :: "int \<Rightarrow> nat \<Rightarrow> natsTerm \<Rightarrow> natsTerm" where
  "renew_stored sent r t = t\<lparr>rev := r, last_sent := sent\<rparr>"

datatype adopt_reply = AdoptUpdate nat | AdoptError | AdoptLost

definition adoptLostReply :: "kv_error + (nat \<times> leaseValue) \<Rightarrow> natsTerm \<Rightarrow> adopt_reply" where
  "adoptLostReply reply t =
     (case reply of
        Inl e \<Rightarrow> if e = KeyNotFound then AdoptLost else AdoptError
      | Inr (r, cur) \<Rightarrow> if r > rev t \<and> cur = val t then AdoptUpdate r else AdoptLost)"

text \<open>\<^verbatim>\<open>Resign\<close> after a delete refused for its revision: the revision to delete instead, if any.\<close>

definition resign_retry :: "kv_error + (nat \<times> leaseValue) \<Rightarrow> natsTerm \<Rightarrow> nat option" where
  "resign_retry reply t =
     (case reply of Inr (r, cur) \<Rightarrow> if r > rev t \<and> cur = val t then Some r else None | Inl e \<Rightarrow> None)"

definition nats_Close :: "natsLeases \<Rightarrow> natsLeases" where
  "nats_Close l = l\<lparr>lease_closed := True\<rparr>"

end
