(* ===== verification/Lease_protocol.thy ===== *)
theory Lease_protocol
  imports Lease
begin

text \<open>
  The lease protocol of \<^verbatim>\<open>internal/mq/lease.go\<close>: any number of coordinators over one bucket, their campaigns,
  renewals and resignations interleaved segment by segment, with requests that arrive late or never and
  answers that are lost. The bucket is a parameter: \<open>look\<close> reads the revision and the value of a key,
  \<open>srv\<close> answers one write; \<open>kv_laws\<close> is what JetStream documents of them.
\<close>

section \<open>The bucket\<close>

datatype request = Create string leaseValue | Update string leaseValue nat | Delete string nat

fun req_key :: "request \<Rightarrow> string" where
  "req_key (Create n v) = n"
| "req_key (Update n v r) = n"
| "req_key (Delete n r) = n"

fun req_value :: "request \<Rightarrow> leaseValue option" where
  "req_value (Create n v) = Some v"
| "req_value (Update n v r) = Some v"
| "req_value (Delete n r) = None"

text \<open>Which state of a key a write needs: no value for a create, the expected revision for the others.\<close>

fun admissible :: "nat \<times> leaseValue option \<Rightarrow> request \<Rightarrow> bool" where
  "admissible e (Create n v) = (snd e = None)"
| "admissible e (Update n v r) = (fst e = r)"
| "admissible e (Delete n r) = (fst e = r)"

definition kv_laws :: "('kv \<Rightarrow> string \<Rightarrow> nat \<times> leaseValue option) \<Rightarrow> ('kv \<Rightarrow> request \<Rightarrow> (kv_error + nat) \<times> 'kv) \<Rightarrow> bool" where
  "kv_laws look srv \<longleftrightarrow>
     (\<forall>kv q r kv'. srv kv q = (Inr r, kv') \<longrightarrow>
        admissible (look kv (req_key q)) q \<and> look kv' (req_key q) = (r, req_value q) \<and> fst (look kv (req_key q)) < r \<and>
        (\<forall>k. k \<noteq> req_key q \<longrightarrow> look kv' k = look kv k)) \<and>
     (\<forall>kv q e kv'. srv kv q = (Inl e, kv') \<longrightarrow> look kv' = look kv)"

definition get_reply :: "nat \<times> leaseValue option \<Rightarrow> kv_error + (nat \<times> leaseValue)" where
  "get_reply e = (case snd e of Some v \<Rightarrow> Inr (fst e, v) | None \<Rightarrow> Inl KeyNotFound)"

section \<open>The world\<close>

text \<open>Where a campaign of a coordinator is: its value, when it set out, and what the bucket last answered.\<close>

datatype phase =
    Reading leaseValue int
  | Judging leaseValue int "kv_error + (nat \<times> leaseValue)"
  | Writing leaseValue int
  | Answered leaseValue int "kv_error + nat"

text \<open>Requests under way: a campaign's write, a renewal (its instant, and whether it is the second try after a
  conflict), a delete.\<close>

datatype letter =
    LAcquire nat leaseValue request
  | LRenew nat leaseValue nat int bool
  | LDelete nat "natsTerm option"

fun letter_req :: "string \<Rightarrow> letter \<Rightarrow> request" where
  "letter_req n (LAcquire c v q) = q"
| "letter_req n (LRenew c v r s again) = Update n v r"
| "letter_req n (LDelete r t) = Delete n r"

text \<open>Answers on their way back to a renewal loop, a resignation or an observer.\<close>

datatype report =
    NStored nat leaseValue int nat
  | NConflict nat leaseValue int
  | NRead nat leaseValue int "kv_error + (nat \<times> leaseValue)"
  | NDelete natsTerm
  | NObserve nat "kv_error + (nat \<times> leaseValue)"

text \<open>One lease's world. \<open>stamp\<close> (when the current revision was stored), \<open>issued\<close> (which campaign made a value) and
  \<open>stored\<close> (the values ever stored) record history for the proof; no step reads them.\<close>

record 'kv world =
  clock :: int
  kv :: 'kv
  coords :: "nat \<Rightarrow> natsLeases"
  camp :: "nat \<rightharpoonup> phase"
  mail :: "letter set"
  reports :: "report set"
  stamp :: int
  issued :: "leaseValue \<rightharpoonup> nat"
  stored :: "leaseValue set"

text \<open>What a delivered request leaves behind: the campaign that still waits for it, or the report to its sender.\<close>

fun answer_camp :: "letter \<Rightarrow> kv_error + nat \<Rightarrow> (nat \<rightharpoonup> phase) \<Rightarrow> (nat \<rightharpoonup> phase)" where
  "answer_camp (LAcquire c v q) reply m =
     (case m c of Some (Writing u s) \<Rightarrow> if u = v then m(c \<mapsto> Answered v s reply) else m | _ \<Rightarrow> m)"
| "answer_camp l reply m = m"

fun answer_reports :: "letter \<Rightarrow> kv_error + nat \<Rightarrow> report set" where
  "answer_reports (LAcquire c v q) reply = {}"
| "answer_reports (LRenew c v r s again) (Inr r') = {NStored c v s r'}"
| "answer_reports (LRenew c v r s again) (Inl e) = (if casConflict e \<and> \<not> again then {NConflict c v s} else {})"
| "answer_reports (LDelete r t) (Inr r') = {}"
| "answer_reports (LDelete r t) (Inl e) = (case t of Some t \<Rightarrow> if casConflict e then {NDelete t} else {} | None \<Rightarrow> {})"

definition deliver :: "('kv \<Rightarrow> request \<Rightarrow> (kv_error + nat) \<times> 'kv) \<Rightarrow> string \<Rightarrow> letter \<Rightarrow> 'kv world \<Rightarrow> 'kv world" where
  "deliver srv n l w =
     (case srv (kv w) (letter_req n l) of (reply, kv') \<Rightarrow>
        w\<lparr>kv := kv', mail := mail w - {l}, camp := answer_camp l reply (camp w), reports := reports w \<union> answer_reports l reply,
          stamp := (if isl reply then stamp w else clock w),
          stored := stored w \<union> (if isl reply then {} else set_option (req_value (letter_req n l)))\<rparr>)"

text \<open>One coordinator's state replaced.\<close>

definition put :: "nat \<Rightarrow> natsLeases \<Rightarrow> 'kv world \<Rightarrow> 'kv world" where
  "put c l w = w\<lparr>coords := (coords w)(c := l)\<rparr>"

text \<open>What calls on other names do to a coordinator: nothing at \<open>n\<close>.\<close>

definition same_at :: "string \<Rightarrow> natsLeases \<Rightarrow> natsLeases \<Rightarrow> bool" where
  "same_at n l l' \<longleftrightarrow> timings l' = timings l \<and> lease_value l' = lease_value l \<and> lease_held l' n = lease_held l n \<and>
     seen l' n = seen l n \<and> (n \<in> set (acquiring l') \<longleftrightarrow> n \<in> set (acquiring l))"

fun write_of :: "string \<Rightarrow> leaseValue \<Rightarrow> campaign_write \<Rightarrow> request option" where
  "write_of n v DoCreate = Some (Create n v)"
| "write_of n v (DoUpdate r) = Some (Update n v r)"
| "write_of n v (NoWrite e) = None"

inductive lease_step :: "('kv \<Rightarrow> string \<Rightarrow> nat \<times> leaseValue option) \<Rightarrow> ('kv \<Rightarrow> request \<Rightarrow> (kv_error + nat) \<times> 'kv) \<Rightarrow> string
    \<Rightarrow> 'kv world \<Rightarrow> 'kv world \<Rightarrow> bool" for look srv n where
  tick: "clock w \<le> t \<Longrightarrow> lease_step look srv n w (w\<lparr>clock := t\<rparr>)"
| elsewhere: "same_at n (coords w c) l \<Longrightarrow> look kv' n = look (kv w) n \<Longrightarrow> lease_step look srv n w ((put c l w)\<lparr>kv := kv'\<rparr>)"
| begin_campaign: "acquire_begin None n nuid (coords w c) = (Inr v, l) \<Longrightarrow> issued w v = None \<Longrightarrow>
    lease_step look srv n w ((put c l w)\<lparr>camp := (camp w)(c \<mapsto> Reading v (clock w)), issued := (issued w)(v \<mapsto> c)\<rparr>)"
| read: "camp w c = Some (Reading v s) \<Longrightarrow>
    lease_step look srv n w (w\<lparr>camp := (camp w)(c \<mapsto> Judging v s (get_reply (look (kv w) n)))\<rparr>)"
| judge_write: "camp w c = Some (Judging v s reply) \<Longrightarrow> campaign_decide n reply (clock w) (coords w c) = (d, l) \<Longrightarrow>
    write_of n v d = Some q \<Longrightarrow>
    lease_step look srv n w ((put c l w)\<lparr>camp := (camp w)(c \<mapsto> Writing v s), mail := insert (LAcquire c v q) (mail w)\<rparr>)"
| judge_held: "camp w c = Some (Judging v s reply) \<Longrightarrow> campaign_decide n reply (clock w) (coords w c) = (NoWrite e, l) \<Longrightarrow>
    lease_step look srv n w ((put c (acquire_over n l) w)\<lparr>camp := (camp w)(c := None)\<rparr>)"
| give_up: "camp w c = Some p \<Longrightarrow>
    lease_step look srv n w ((put c (acquire_over n (coords w c)) w)\<lparr>camp := (camp w)(c := None)\<rparr>)"
| deliver: "l \<in> mail w \<Longrightarrow> lease_step look srv n w (deliver srv n l w)"
| lose: "lease_step look srv n w (w\<lparr>mail := mail w - M, reports := reports w - N\<rparr>)"
| acquired: "camp w c = Some (Answered v s reply) \<Longrightarrow> campaign_result reply = Inr r \<Longrightarrow>
    acquire_finish n v s r (coords w c) = (res, l) \<Longrightarrow>
    lease_step look srv n w ((put c l w)\<lparr>camp := (camp w)(c := None),
      mail := mail w \<union> (if isl res then {LDelete r None} else {})\<rparr>)"
| renew: "lease_held (coords w c) n = Some t \<Longrightarrow>
    lease_step look srv n w (w\<lparr>mail := insert (LRenew c (val t) (rev t) (clock w) False) (mail w)\<rparr>)"
| renewed: "NStored c v s r \<in> reports w \<Longrightarrow> lease_held (coords w c) n = Some t \<Longrightarrow> val t = v \<Longrightarrow>
    lease_step look srv n w (put c ((coords w c)\<lparr>lease_held := (lease_held (coords w c))(n \<mapsto> renew_stored s r t)\<rparr>) w)"
| conflict_read: "NConflict c v s \<in> reports w \<Longrightarrow>
    lease_step look srv n w (w\<lparr>reports := insert (NRead c v s (get_reply (look (kv w) n))) (reports w)\<rparr>)"
| adopt_lost_reply: "NRead c v s reply \<in> reports w \<Longrightarrow> lease_held (coords w c) n = Some t \<Longrightarrow> val t = v \<Longrightarrow>
    adoptLostReply reply t = AdoptUpdate r \<Longrightarrow>
    lease_step look srv n w (w\<lparr>mail := insert (LRenew c v r s True) (mail w)\<rparr>)"
| term_ends: "lease_held (coords w c) n = Some t \<Longrightarrow>
    lease_step look srv n w (put c (snd (term_end t (coords w c))) w)"
| resign_delete: "lease_held (coords w c) n = Some t \<Longrightarrow>
    lease_step look srv n w ((put c (snd (term_end t (coords w c))) w)\<lparr>mail := insert (LDelete (rev t) (Some t)) (mail w)\<rparr>)"
| resign_again: "NDelete t \<in> reports w \<Longrightarrow> resign_retry (get_reply (look (kv w) n)) t = Some r \<Longrightarrow>
    lease_step look srv n w (w\<lparr>mail := insert (LDelete r None) (mail w)\<rparr>)"
| observe_read: "lease_step look srv n w (w\<lparr>reports := insert (NObserve c (get_reply (look (kv w) n))) (reports w)\<rparr>)"
| observe: "NObserve c reply \<in> reports w \<Longrightarrow>
    lease_step look srv n w (put c (snd (nats_Held n reply (clock w) (coords w c))) w)"
| close: "lease_step look srv n w (put c (nats_Close (coords w c)) w)"

text \<open>A term is in force while it is held and its renew deadline has not passed.\<close>

definition in_force :: "string \<Rightarrow> 'kv world \<Rightarrow> nat \<Rightarrow> natsTerm \<Rightarrow> bool" where
  "in_force n w c t \<longleftrightarrow> lease_held (coords w c) n = Some t \<and> \<not> deadline_passed (clock w) (coords w c) t"


section \<open>The invariant\<close>

text \<open>Sessions tell coordinators apart, and a holder steps down before its advertised duration is over.\<close>

definition config_ok :: "(nat \<Rightarrow> leaseTimings) \<Rightarrow> (nat \<Rightarrow> leaseValue) \<Rightarrow> bool" where
  "config_ok tim lv \<longleftrightarrow> (\<forall>c d. Session (lv c) = Session (lv d) \<longrightarrow> c = d) \<and>
     (\<forall>c. 0 < DurationMS (lv c) \<and> renewDeadline (tim c) \<le> DurationMS (lv c) * 10 ^ 6)"

abbreviation held_at :: "string \<Rightarrow> 'kv world \<Rightarrow> nat \<Rightarrow> natsTerm option" where
  "held_at n w c \<equiv> lease_held (coords w c) n"

fun phase_value :: "phase \<Rightarrow> leaseValue" where
  "phase_value (Reading v s) = v"
| "phase_value (Judging v s e) = v"
| "phase_value (Writing v s) = v"
| "phase_value (Answered v s r) = v"

fun phase_sent :: "phase \<Rightarrow> int" where
  "phase_sent (Reading v s) = s"
| "phase_sent (Judging v s e) = s"
| "phase_sent (Writing v s) = s"
| "phase_sent (Answered v s r) = s"

fun unwritten :: "phase \<Rightarrow> bool" where
  "unwritten (Answered v s r) = False"
| "unwritten p = True"

fun unmailed :: "phase \<Rightarrow> bool" where
  "unmailed (Reading v s) = True"
| "unmailed (Judging v s e) = True"
| "unmailed p = False"

text \<open>A value whose term is held or may still come to be held.\<close>

definition alive :: "string \<Rightarrow> 'kv world \<Rightarrow> leaseValue \<Rightarrow> bool" where
  "alive n w v \<longleftrightarrow> (\<exists>c t. held_at n w c = Some t \<and> val t = v) \<or> (\<exists>c p. camp w c = Some p \<and> phase_value p = v)"

definition dead :: "string \<Rightarrow> 'kv world \<Rightarrow> leaseValue \<Rightarrow> bool" where
  "dead n w v \<longleftrightarrow> v \<in> stored w \<and> \<not> alive n w v"

text \<open>\<open>v\<close> was the value at revision \<open>r\<close>, as far as the current entry \<open>e\<close> still shows.\<close>

definition agrees :: "nat \<times> leaseValue option \<Rightarrow> nat \<Rightarrow> leaseValue \<Rightarrow> bool" where
  "agrees e r v \<longleftrightarrow> r \<le> fst e \<and> (r = fst e \<longrightarrow> snd e = Some v)"

fun agrees_reply :: "nat \<times> leaseValue option \<Rightarrow> kv_error + (nat \<times> leaseValue) \<Rightarrow> bool" where
  "agrees_reply e (Inr (r, v)) = agrees e r v"
| "agrees_reply e (Inl x) = True"

text \<open>Terms held, and terms about to be: the campaign was answered with a revision.\<close>

definition holding :: "string \<Rightarrow> 'kv world \<Rightarrow> nat \<Rightarrow> leaseValue \<Rightarrow> nat \<Rightarrow> int \<Rightarrow> bool" where
  "holding n w c v tok s \<longleftrightarrow>
     (\<exists>t. held_at n w c = Some t \<and> val t = v \<and> fence t = tok \<and> last_sent t = s) \<or> camp w c = Some (Answered v s (Inr tok))"

text \<open>A renewal sent at \<open>s\<close> of a value that is current was sent before it was stored; of a value that is not, its
  deadline has passed.\<close>

definition covered :: "nat \<times> leaseValue option \<Rightarrow> (nat \<Rightarrow> leaseTimings) \<Rightarrow> 'kv world \<Rightarrow> nat \<Rightarrow> leaseValue \<Rightarrow> int \<Rightarrow> bool" where
  "covered e tim w c v s \<longleftrightarrow> (if snd e = Some v then s \<le> stamp w else s + renewDeadline (tim c) \<le> clock w)"

text \<open>Each thing of the world on its own: a letter, a report, a campaign, a term, a sighting.\<close>

fun takeover_ok :: "nat \<times> leaseValue option \<Rightarrow> string \<Rightarrow> 'kv world \<Rightarrow> request \<Rightarrow> bool" where
  "takeover_ok e n w (Update m v r) =
     (\<exists>u. agrees e r u \<and> (fst e = r \<longrightarrow> dead n w u \<or> stamp w + DurationMS u * 10 ^ 6 \<le> clock w))"
| "takeover_ok e n w (Create m v) = True"
| "takeover_ok e n w (Delete m r) = False"

fun letter_ok :: "nat \<times> leaseValue option \<Rightarrow> string \<Rightarrow> 'kv world \<Rightarrow> letter \<Rightarrow> bool" where
  "letter_ok e n w (LAcquire c v q) =
     (issued w v = Some c \<and> v \<notin> stored w \<and> req_key q = n \<and> req_value q = Some v \<and> takeover_ok e n w q)"
| "letter_ok e n w (LRenew c v r s a) = (issued w v = Some c \<and> v \<in> stored w \<and> agrees e r v \<and> s \<le> clock w)"
| "letter_ok e n w (LDelete r t) = ((\<exists>v. agrees e r v \<and> dead n w v) \<and> (\<forall>u. t = Some u \<longrightarrow> dead n w (val u)))"

fun report_ok :: "nat \<times> leaseValue option \<Rightarrow> (nat \<Rightarrow> leaseTimings) \<Rightarrow> string \<Rightarrow> 'kv world \<Rightarrow> report \<Rightarrow> bool" where
  "report_ok e tim n w (NStored c v s r) =
     (issued w v = Some c \<and> v \<in> stored w \<and> agrees e r v \<and> (dead n w v \<or> covered e tim w c v s))"
| "report_ok e tim n w (NConflict c v s) = (s \<le> clock w)"
| "report_ok e tim n w (NRead c v s reply) = (agrees_reply e reply \<and> s \<le> clock w)"
| "report_ok e tim n w (NDelete t) = dead n w (val t)"
| "report_ok e tim n w (NObserve c reply) = agrees_reply e reply"

fun phase_ok :: "nat \<times> leaseValue option \<Rightarrow> (nat \<Rightarrow> leaseTimings) \<Rightarrow> 'kv world \<Rightarrow> nat \<Rightarrow> phase \<Rightarrow> bool" where
  "phase_ok e tim w c (Reading v s) = (issued w v = Some c \<and> s \<le> clock w \<and> v \<notin> stored w)"
| "phase_ok e tim w c (Judging v s reply) = (issued w v = Some c \<and> s \<le> clock w \<and> v \<notin> stored w \<and> agrees_reply e reply)"
| "phase_ok e tim w c (Writing v s) = (issued w v = Some c \<and> s \<le> clock w \<and> v \<notin> stored w)"
| "phase_ok e tim w c (Answered v s (Inr r)) = (issued w v = Some c \<and> v \<in> stored w \<and> agrees e r v \<and> covered e tim w c v s)"
| "phase_ok e tim w c (Answered v s (Inl x)) = (issued w v = Some c)"

definition term_ok :: "nat \<times> leaseValue option \<Rightarrow> (nat \<Rightarrow> leaseTimings) \<Rightarrow> string \<Rightarrow> 'kv world \<Rightarrow> nat \<Rightarrow> natsTerm \<Rightarrow> bool" where
  "term_ok e tim n w c t \<longleftrightarrow> name t = n \<and> issued w (val t) = Some c \<and> val t \<in> stored w \<and> agrees e (rev t) (val t) \<and>
     fence t \<le> fst e \<and> covered e tim w c (val t) (last_sent t)"

definition sight_ok :: "nat \<times> leaseValue option \<Rightarrow> 'kv world \<Rightarrow> leaseSighting \<Rightarrow> bool" where
  "sight_ok e w x \<longleftrightarrow> since x \<le> clock w \<and> revision x \<le> fst e \<and> (revision x = fst e \<longrightarrow> stamp w \<le> since x)"

text \<open>The whole: the coordinators keep their configuration; a value is issued to one of them; a coordinator has one
  campaign, or one term, or neither; a campaign has at most one write under way; and the term whose value is
  current has the greatest fencing token.\<close>

definition conf_ok :: "(nat \<Rightarrow> leaseTimings) \<Rightarrow> (nat \<Rightarrow> leaseValue) \<Rightarrow> string \<Rightarrow> 'kv world \<Rightarrow> bool" where
  "conf_ok tim lv n w \<longleftrightarrow>
     (\<forall>c. timings (coords w c) = tim c \<and> lease_value (coords w c) = lv c) \<and>
     (\<forall>v c. issued w v = Some c \<longrightarrow> Session v = Session (lv c) \<and> DurationMS v = DurationMS (lv c)) \<and>
     (\<forall>c. camp w c \<noteq> None \<longleftrightarrow> n \<in> set (acquiring (coords w c))) \<and>
     (\<forall>c. camp w c \<noteq> None \<longrightarrow> held_at n w c = None)"

definition mail_ok :: "'kv world \<Rightarrow> bool" where
  "mail_ok w \<longleftrightarrow>
     (\<forall>c v q q'. LAcquire c v q \<in> mail w \<longrightarrow> LAcquire c v q' \<in> mail w \<longrightarrow> q = q') \<and>
     (\<forall>c v q p. LAcquire c v q \<in> mail w \<longrightarrow> camp w c = Some p \<longrightarrow> unmailed p \<longrightarrow> phase_value p \<noteq> v)"

definition tokens_ok :: "nat \<times> leaseValue option \<Rightarrow> string \<Rightarrow> 'kv world \<Rightarrow> bool" where
  "tokens_ok e n w \<longleftrightarrow>
     (\<forall>c v tok s d u tok' s'. holding n w c v tok s \<longrightarrow> holding n w d u tok' s' \<longrightarrow> snd e = Some v \<longrightarrow> u \<noteq> v \<longrightarrow> tok' < tok)"

definition base_ok :: "nat \<times> leaseValue option \<Rightarrow> 'kv world \<Rightarrow> bool" where
  "base_ok e w \<longleftrightarrow> stamp w \<le> clock w \<and> (\<forall>v. snd e = Some v \<longrightarrow> v \<in> stored w) \<and> (\<forall>v \<in> stored w. issued w v \<noteq> None)"

definition lease_inv :: "(nat \<Rightarrow> leaseTimings) \<Rightarrow> (nat \<Rightarrow> leaseValue) \<Rightarrow> nat \<times> leaseValue option \<Rightarrow> string \<Rightarrow> 'kv world \<Rightarrow> bool" where
  "lease_inv tim lv e n w \<longleftrightarrow> conf_ok tim lv n w \<and> base_ok e w \<and> mail_ok w \<and> tokens_ok e n w \<and>
     (\<forall>l \<in> mail w. letter_ok e n w l) \<and> (\<forall>x \<in> reports w. report_ok e tim n w x) \<and>
     (\<forall>c p. camp w c = Some p \<longrightarrow> phase_ok e tim w c p) \<and> (\<forall>c t. held_at n w c = Some t \<longrightarrow> term_ok e tim n w c t) \<and>
     (\<forall>c x. seen (coords w c) n = Some x \<longrightarrow> sight_ok e w x)"

section \<open>What the segments do at one name\<close>

lemma acquire_beginD:
  assumes "acquire_begin None n nuid l = (Inr v, l')"
  shows "v = (lease_value l)\<lparr>Term := nuid\<rparr>" "lease_held l n = None" "n \<notin> set (acquiring l)" "n \<in> set (acquiring l')"
    "timings l' = timings l" "lease_value l' = lease_value l" "lease_held l' = lease_held l" "seen l' = seen l"
  using assms by (auto simp: acquire_begin_def split: if_splits)

lemma acquire_over_at [simp]:
  "timings (acquire_over n l) = timings l" "lease_value (acquire_over n l) = lease_value l"
  "lease_held (acquire_over n l) = lease_held l" "seen (acquire_over n l) = seen l" "n \<notin> set (acquiring (acquire_over n l))"
  by (simp_all add: acquire_over_def)

lemma lease_expired_at:
  assumes "lease_expired n r cur now l = (ex, l')"
  shows "timings l' = timings l" "lease_value l' = lease_value l" "lease_held l' = lease_held l" "acquiring l' = acquiring l"
    "seen l' n = seen l n \<or> seen l' n = Some \<lparr>revision = r, since = now\<rparr>"
    "ex \<Longrightarrow> 0 < DurationMS cur \<Longrightarrow> \<exists>x. seen l n = Some x \<and> revision x = r \<and> since x + DurationMS cur * 10 ^ 6 \<le> now"
  using assms by (auto simp: lease_expired_def Let_def split: option.splits if_splits)

lemma campaign_decide_at:
  assumes "campaign_decide n reply now l = (d, l')"
  shows "timings l' = timings l" "lease_value l' = lease_value l" "lease_held l' = lease_held l" "acquiring l' = acquiring l"
    "seen l' n = seen l n \<or> (\<exists>r cur. reply = Inr (r, cur) \<and> seen l' n = Some \<lparr>revision = r, since = now\<rparr>)"
    "d = DoUpdate r \<Longrightarrow> \<exists>cur. reply = Inr (r, cur) \<and> (Session cur = Session (lease_value l) \<or>
       (0 < DurationMS cur \<longrightarrow> (\<exists>x. seen l n = Some x \<and> revision x = r \<and> since x + DurationMS cur * 10 ^ 6 \<le> now)))"
  using assms lease_expired_at [of n _ _ now l]
  by (auto simp: campaign_decide_def split: sum.splits prod.splits if_splits)

lemma nats_Held_at:
  "timings (snd (nats_Held n reply now l)) = timings l" "lease_value (snd (nats_Held n reply now l)) = lease_value l"
  "lease_held (snd (nats_Held n reply now l)) = lease_held l" "acquiring (snd (nats_Held n reply now l)) = acquiring l"
  "seen (snd (nats_Held n reply now l)) n = seen l n \<or>
     (\<exists>r cur. reply = Inr (r, cur) \<and> seen (snd (nats_Held n reply now l)) n = Some \<lparr>revision = r, since = now\<rparr>)"
  using lease_expired_at [of n _ _ now l]
  by (auto simp: nats_Held_def split: sum.splits prod.splits if_splits)

lemma acquire_finish_at:
  assumes "acquire_finish n v s r l = (res, l')"
  shows "timings l' = timings l" "lease_value l' = lease_value l" "n \<notin> set (acquiring l')"
    "lease_held l' n = (if isl res then lease_held l n else Some \<lparr>name = n, val = v, fence = r, rev = r, last_sent = s\<rparr>)"
    "seen l' n = seen l n \<or> seen l' n = None"
  using assms by (auto simp: acquire_finish_def Let_def split: if_splits)

lemma term_end_at:
  assumes "lease_held l n = Some t" "name t = n"
  shows "timings (snd (term_end t l)) = timings l" "lease_value (snd (term_end t l)) = lease_value l"
    "lease_held (snd (term_end t l)) n = None" "seen (snd (term_end t l)) = seen l" "acquiring (snd (term_end t l)) = acquiring l"
  using assms by (simp_all add: term_end_def)


section \<open>Steps that do not write to the bucket\<close>

lemma coords_put [simp]: "coords (put c l w) d = (if d = c then l else coords w d)"
  by (simp add: put_def)

lemma put_frame [simp]:
  "clock (put c l w) = clock w" "kv (put c l w) = kv w" "camp (put c l w) = camp w" "mail (put c l w) = mail w"
  "reports (put c l w) = reports w" "stamp (put c l w) = stamp w" "issued (put c l w) = issued w" "stored (put c l w) = stored w"
  by (simp_all add: put_def)

text \<open>A quiet step: time may pass, values may be issued, terms and campaigns may end or move on, but none appears
  that was not there.\<close>

definition quiet :: "string \<Rightarrow> 'kv world \<Rightarrow> 'kv world \<Rightarrow> bool" where
  "quiet n w w' \<longleftrightarrow> clock w \<le> clock w' \<and> stamp w' = stamp w \<and> stored w' = stored w \<and>
     (\<forall>v c. issued w v = Some c \<longrightarrow> issued w' v = Some c) \<and> (\<forall>v. alive n w' v \<longrightarrow> v \<in> stored w \<longrightarrow> alive n w v) \<and>
     (\<forall>c v tok s. holding n w' c v tok s \<longrightarrow> (\<exists>s'. holding n w c v tok s'))"

lemma quietD:
  assumes "quiet n w w'"
  shows "clock w \<le> clock w'" "stamp w' = stamp w" "stored w' = stored w" "issued w v = Some c \<Longrightarrow> issued w' v = Some c"
    "dead n w v \<Longrightarrow> dead n w' v" "holding n w' c v tok s \<Longrightarrow> \<exists>s'. holding n w c v tok s'"
    "covered e tim w c v s \<Longrightarrow> covered e tim w' c v s"
  using assms by (auto simp: quiet_def dead_def covered_def split: if_splits) blast

lemma quiet_letter: "quiet n w w' \<Longrightarrow> letter_ok e n w l \<Longrightarrow> letter_ok e n w' l"
proof (induction l)
  case (LAcquire c v q)
  note Q = quietD [OF LAcquire(1)]
  have "takeover_ok e n w q \<Longrightarrow> takeover_ok e n w' q"
    by (cases q) (use Q(1,2) Q(5) in \<open>auto intro: order_trans\<close>)
  with LAcquire(2) Q(3,4) show ?case by simp
next
  case (LRenew c v r s a)
  then show ?case using quietD(1,3,4) [OF LRenew(1)] by (auto intro: order_trans)
next
  case (LDelete r t)
  then show ?case using quietD(5) [OF LDelete(1)] by auto
qed

lemma quiet_report: "quiet n w w' \<Longrightarrow> report_ok e tim n w x \<Longrightarrow> report_ok e tim n w' x"
  by (cases x) (auto dest: quietD intro: order_trans)

lemma quiet_phase: "quiet n w w' \<Longrightarrow> phase_ok e tim w c p \<Longrightarrow> phase_ok e tim w' c p"
  by (cases "(e, tim, w, c, p)" rule: phase_ok.cases) (auto dest: quietD intro: order_trans)

lemma quiet_term: "quiet n w w' \<Longrightarrow> term_ok e tim n w c t \<Longrightarrow> term_ok e tim n w' c t"
  by (auto simp: term_ok_def dest: quietD)

lemma quiet_sight: "quiet n w w' \<Longrightarrow> sight_ok e w x \<Longrightarrow> sight_ok e w' x"
  by (auto simp: sight_ok_def dest: quietD intro: order_trans)

lemma quiet_inv:
  assumes inv: "lease_inv tim lv e n w" and q: "quiet n w w'" and c: "conf_ok tim lv n w'" "mail_ok w'"
    and i: "\<And>v. issued w v \<noteq> None \<Longrightarrow> issued w' v \<noteq> None"
    and new: "\<And>l. l \<in> mail w' \<Longrightarrow> l \<notin> mail w \<Longrightarrow> letter_ok e n w' l"
      "\<And>x. x \<in> reports w' \<Longrightarrow> x \<notin> reports w \<Longrightarrow> report_ok e tim n w' x"
      "\<And>c p. camp w' c = Some p \<Longrightarrow> camp w c \<noteq> Some p \<Longrightarrow> phase_ok e tim w' c p"
      "\<And>c t. held_at n w' c = Some t \<Longrightarrow> held_at n w c \<noteq> Some t \<Longrightarrow> term_ok e tim n w' c t"
      "\<And>c x. seen (coords w' c) n = Some x \<Longrightarrow> seen (coords w c) n \<noteq> Some x \<Longrightarrow> sight_ok e w' x"
  shows "lease_inv tim lv e n w'"
proof -
  note Q = quietD [OF q]
  have t: "tokens_ok e n w'" unfolding tokens_ok_def
    using inv Q(6) unfolding lease_inv_def tokens_ok_def by meson
  have b: "base_ok e w'" using inv Q(1,2,3) i unfolding lease_inv_def base_ok_def by auto
  show ?thesis
    unfolding lease_inv_def
  proof (intro conjI ballI allI impI c b t)
    show "letter_ok e n w' l" if "l \<in> mail w'" for l
      using new(1) [OF that] quiet_letter [OF q] inv that unfolding lease_inv_def by blast
    show "report_ok e tim n w' x" if "x \<in> reports w'" for x
      using new(2) [OF that] quiet_report [OF q] inv that unfolding lease_inv_def by blast
    show "phase_ok e tim w' c p" if "camp w' c = Some p" for c p
      using new(3) [OF that] quiet_phase [OF q] inv that unfolding lease_inv_def by blast
    show "term_ok e tim n w' c t" if "held_at n w' c = Some t" for c t
      using new(4) [OF that] quiet_term [OF q] inv that unfolding lease_inv_def by blast
    show "sight_ok e w' x" if "seen (coords w' c) n = Some x" for c x
      using new(5) [OF that] quiet_sight [OF q] inv that unfolding lease_inv_def by blast
  qed
qed

lemma quietI:
  assumes "clock w \<le> clock w'" "stamp w' = stamp w" "stored w' = stored w" "\<And>v c. issued w v = Some c \<Longrightarrow> issued w' v = Some c"
    and h: "\<And>c t. held_at n w' c = Some t \<Longrightarrow> (\<exists>u. held_at n w c = Some u \<and> val u = val t \<and> fence u = fence t) \<or>
      (\<exists>s. camp w c = Some (Answered (val t) s (Inr (fence t))))"
    and p: "\<And>c p. camp w' c = Some p \<Longrightarrow> phase_value p \<notin> stored w \<or> (\<exists>q. camp w c = Some q \<and> phase_value q = phase_value p)"
    and a: "\<And>c v s r. camp w' c = Some (Answered v s (Inr r)) \<Longrightarrow> camp w c = Some (Answered v s (Inr r))"
  shows "quiet n w w'"
  unfolding quiet_def
proof (intro conjI allI impI assms(1-4))
  fix v
  assume "alive n w' v" "v \<in> stored w"
  then show "alive n w v" unfolding alive_def by (metis h p phase_value.simps(4))
next
  fix c v tok s
  assume "holding n w' c v tok s"
  then show "\<exists>s'. holding n w c v tok s'" unfolding holding_def using h a by metis
qed

lemma invD:
  assumes "lease_inv tim lv e n w"
  shows "conf_ok tim lv n w" "base_ok e w" "mail_ok w" "l \<in> mail w \<Longrightarrow> letter_ok e n w l" "x \<in> reports w \<Longrightarrow> report_ok e tim n w x"
    "camp w c = Some p \<Longrightarrow> phase_ok e tim w c p" "held_at n w c = Some t \<Longrightarrow> term_ok e tim n w c t"
    "seen (coords w c) n = Some y \<Longrightarrow> sight_ok e w y"
  using assms unfolding lease_inv_def by blast+

lemma mail_unsent: "mail_ok w \<Longrightarrow> camp w c = Some p \<Longrightarrow> unmailed p \<Longrightarrow> LAcquire c (phase_value p) q \<notin> mail w"
  unfolding mail_ok_def by blast

lemma tick_inv:
  assumes inv: "lease_inv tim lv e n w" and "clock w \<le> t"
  shows "lease_inv tim lv e n (w\<lparr>clock := t\<rparr>)"
  by (rule quiet_inv [OF inv quietI]) (use assms invD(1,3) [OF inv] in \<open>auto simp: conf_ok_def mail_ok_def\<close>)

lemma elsewhere_inv:
  assumes inv: "lease_inv tim lv e n w" and s: "same_at n (coords w c) l"
  shows "lease_inv tim lv e n ((put c l w)\<lparr>kv := k\<rparr>)"
  by (rule quiet_inv [OF inv quietI])
    (use s invD(1,3) [OF inv] in \<open>auto simp: conf_ok_def mail_ok_def same_at_def dest!: sym [of "Some _"] split: if_splits\<close>)

lemma phase_value_fresh: "phase_ok e tim w c p \<Longrightarrow> unwritten p \<Longrightarrow> phase_value p \<notin> stored w"
  by (cases p) auto

lemma begin_inv:
  assumes inv: "lease_inv tim lv e n w" and b: "acquire_begin None n nuid (coords w c) = (Inr v, l)" and f: "issued w v = None"
  shows "lease_inv tim lv e n ((put c l w)\<lparr>camp := (camp w)(c \<mapsto> Reading v (clock w)), issued := (issued w)(v \<mapsto> c)\<rparr>)"
proof -
  note B = acquire_beginD [OF b] and I = invD [OF inv]
  have v: "v \<notin> stored w" using I(2) f by (auto simp: base_ok_def)
  show ?thesis
  proof (rule quiet_inv [OF inv quietI])
    show "conf_ok tim lv n ((put c l w)\<lparr>camp := (camp w)(c \<mapsto> Reading v (clock w)), issued := (issued w)(v \<mapsto> c)\<rparr>)"
      using I(1) B by (auto simp: conf_ok_def)
    show "mail_ok ((put c l w)\<lparr>camp := (camp w)(c \<mapsto> Reading v (clock w)), issued := (issued w)(v \<mapsto> c)\<rparr>)"
      using I(3) I(4) f by (fastforce simp: mail_ok_def)
  qed (use B f v in \<open>auto split: if_splits\<close>)
qed

lemma read_inv:
  assumes inv: "lease_inv tim lv e n w" and c: "camp w c = Some (Reading v s)" and r: "agrees_reply e reply"
  shows "lease_inv tim lv e n (w\<lparr>camp := (camp w)(c \<mapsto> Judging v s reply)\<rparr>)"
proof -
  note I = invD [OF inv]
  from I(6) [OF c] have v: "issued w v = Some c" "s \<le> clock w" "v \<notin> stored w" by auto
  have m: "LAcquire c v q \<notin> mail w" for q using mail_unsent [OF I(3) c] by simp
  show ?thesis
  proof (rule quiet_inv [OF inv quietI])
    show "conf_ok tim lv n (w\<lparr>camp := (camp w)(c \<mapsto> Judging v s reply)\<rparr>)" using I(1) c by (auto simp: conf_ok_def)
    show "mail_ok (w\<lparr>camp := (camp w)(c \<mapsto> Judging v s reply)\<rparr>)" using I(3) m by (auto simp: mail_ok_def)
  qed (use v r in \<open>auto split: if_splits\<close>)
qed

text \<open>A read never shows more than the bucket holds.\<close>

lemma get_reply_agrees: "agrees_reply e (get_reply e)"
  by (auto simp: get_reply_def agrees_def split: option.splits)

lemma sight_now: "base_ok e w \<Longrightarrow> agrees_reply e (Inr (r, cur)) \<Longrightarrow> sight_ok e w \<lparr>revision = r, since = clock w\<rparr>"
  by (simp add: sight_ok_def base_ok_def agrees_def)

text \<open>An own value a campaign finds in the bucket belongs to a term that is over.\<close>

lemma own_value_dead:
  assumes inv: "lease_inv tim lv e n w" and cf: "config_ok tim lv" and c: "camp w c = Some p" "unwritten p"
    and e: "snd e = Some u" "Session u = Session (lv c)"
  shows "dead n w u"
proof -
  note I = invD [OF inv]
  have u: "u \<in> stored w" using I(2) e(1) by (simp add: base_ok_def)
  then obtain d where d: "issued w u = Some d" using I(2) by (auto simp: base_ok_def)
  with I(1) e(2) cf have dc: "d = c" by (auto simp: conf_ok_def config_ok_def)
  have "val t \<noteq> u" if "held_at n w k = Some t" for k t
    using I(7) [OF that] d dc I(1) c(1) that by (auto simp: term_ok_def conf_ok_def)
  moreover have "phase_value q \<noteq> u" if "camp w k = Some q" for k q
  proof
    assume q: "phase_value q = u"
    have "issued w (phase_value q) = Some k" using I(6) [OF that] by (cases "(e, tim, w, k, q)" rule: phase_ok.cases) auto
    with q d dc have "k = c" by simp
    with that c phase_value_fresh [OF I(6) [OF c(1)] c(2)] q u show False by simp
  qed
  ultimately show ?thesis using u by (auto simp: dead_def alive_def)
qed

lemma judge_takeover:
  assumes inv: "lease_inv tim lv e n w" and cf: "config_ok tim lv" and c: "camp w c = Some (Judging v s reply)"
    and d: "campaign_decide n reply (clock w) (coords w c) = (d, l)" "write_of n v d = Some q"
  shows "takeover_ok e n w q"
proof (cases d)
  case (DoUpdate r)
  note I = invD [OF inv]
  from campaign_decide_at(6) [OF d(1) DoUpdate] obtain cur where r: "reply = Inr (r, cur)"
    and o: "Session cur = Session (lv c) \<or> (0 < DurationMS cur \<longrightarrow>
      (\<exists>x. seen (coords w c) n = Some x \<and> revision x = r \<and> since x + DurationMS cur * 10 ^ 6 \<le> clock w))"
    using I(1) by (auto simp: conf_ok_def)
  from I(6) [OF c] r have a: "agrees e r cur" by simp
  have "dead n w cur \<or> stamp w + DurationMS cur * 10 ^ 6 \<le> clock w" if f: "fst e = r"
  proof -
    have e: "snd e = Some cur" using a f by (simp add: agrees_def)
    then have "issued w cur \<noteq> None" using I(2) by (auto simp: base_ok_def)
    then have D: "0 < DurationMS cur" using I(1) cf by (auto simp: conf_ok_def config_ok_def)
    show ?thesis
    proof (cases "Session cur = Session (lv c)")
      case True
      with own_value_dead [OF inv cf c _ e] show ?thesis by simp
    next
      case False
      with o D obtain x where x: "seen (coords w c) n = Some x" "revision x = r" "since x + DurationMS cur * 10 ^ 6 \<le> clock w" by blast
      with I(8) [OF x(1)] f show ?thesis by (simp add: sight_ok_def)
    qed
  qed
  with a d(2) DoUpdate show ?thesis by (auto intro!: exI [of _ cur])
qed (use d(2) in auto)

lemma judge_write_inv:
  assumes inv: "lease_inv tim lv e n w" and cf: "config_ok tim lv" and c: "camp w c = Some (Judging v s reply)"
    and d: "campaign_decide n reply (clock w) (coords w c) = (d, l)" "write_of n v d = Some q"
  shows "lease_inv tim lv e n ((put c l w)\<lparr>camp := (camp w)(c \<mapsto> Writing v s), mail := insert (LAcquire c v q) (mail w)\<rparr>)"
    (is "lease_inv tim lv e n ?w")
proof -
  note I = invD [OF inv] and D = campaign_decide_at [OF d(1)]
  from I(6) [OF c] have v: "issued w v = Some c" "s \<le> clock w" "v \<notin> stored w" "agrees_reply e reply" by auto
  have m: "LAcquire c v q \<notin> mail w" for q using mail_unsent [OF I(3) c] by simp
  have q: "req_key q = n" "req_value q = Some v" using d(2) by (cases d; auto)+
  have Q: "quiet n w ?w" by (rule quietI) (use v D(3) c in \<open>auto split: if_splits\<close>)
  have L: "letter_ok e n ?w (LAcquire c v q)"
    by (rule quiet_letter [OF Q]) (use v q judge_takeover [OF inv cf c d] in simp)
  show ?thesis
  proof (rule quiet_inv [OF inv Q])
    show "conf_ok tim lv n ?w" using I(1) c D by (auto simp: conf_ok_def)
    show "mail_ok ?w" using I(3) m by (auto simp: mail_ok_def)
    show "sight_ok e ?w x" if "seen (coords ?w k) n = Some x" "seen (coords w k) n \<noteq> Some x" for k x
      using that D(5) sight_now [OF I(2)] v(4) by (auto simp: sight_ok_def split: if_splits)
  qed (use v D(3) L in \<open>auto split: if_splits\<close>)
qed

text \<open>Everything a step may do to one coordinator without leaving anything new behind: end its campaign, end its
  term, look at the bucket.\<close>

lemma shrink_inv:
  assumes inv: "lease_inv tim lv e n w" and l: "timings l = timings (coords w c)" "lease_value l = lease_value (coords w c)"
    and h: "lease_held l n = lease_held (coords w c) n \<or> lease_held l n = None"
    and p: "m = camp w c \<or> m = None" "m \<noteq> None \<longleftrightarrow> n \<in> set (acquiring l)"
    and x: "\<And>y. seen l n = Some y \<Longrightarrow> seen (coords w c) n = Some y \<or> sight_ok e w y"
    and ml: "M \<subseteq> mail w" "N \<subseteq> reports w"
  shows "lease_inv tim lv e n ((put c l w)\<lparr>camp := (camp w)(c := m), mail := M, reports := N\<rparr>)" (is "lease_inv tim lv e n ?w")
proof -
  note I = invD [OF inv]
  have Q: "quiet n w ?w" by (rule quietI) (use h p in \<open>auto dest!: sym [of "Some _"] split: if_splits\<close>)
  show ?thesis
  proof (rule quiet_inv [OF inv Q])
    show "conf_ok tim lv n ?w" using I(1) l h p by (auto simp: conf_ok_def)
    show "mail_ok ?w" using I(3) p ml unfolding mail_ok_def by (auto split: if_splits; blast)
    show "sight_ok e ?w y" if "seen (coords ?w k) n = Some y" "seen (coords w k) n \<noteq> Some y" for k y
      using that x quiet_sight [OF Q] by (auto split: if_splits)
  qed (use ml h p in \<open>auto split: if_splits\<close>)
qed

lemma same_mail [simp]: "(put c l w)\<lparr>camp := m, mail := mail w, reports := reports w\<rparr> = (put c l w)\<lparr>camp := m\<rparr>"
  by (simp add: put_def)

lemma conf_slot: "conf_ok tim lv n w \<Longrightarrow> camp w c \<noteq> None \<longleftrightarrow> n \<in> set (acquiring (coords w c))"
  by (simp add: conf_ok_def)

lemma give_up_inv:
  assumes inv: "lease_inv tim lv e n w"
  shows "lease_inv tim lv e n ((put c (acquire_over n (coords w c)) w)\<lparr>camp := (camp w)(c := None)\<rparr>)"
  using shrink_inv [OF inv, of "acquire_over n (coords w c)" c None "mail w" "reports w"] by simp

lemma judge_held_inv:
  assumes inv: "lease_inv tim lv e n w" and c: "camp w c = Some (Judging v s reply)"
    and d: "campaign_decide n reply (clock w) (coords w c) = (d, l)"
  shows "lease_inv tim lv e n ((put c (acquire_over n l) w)\<lparr>camp := (camp w)(c := None)\<rparr>)"
proof -
  note I = invD [OF inv] and D = campaign_decide_at [OF d]
  have "seen (coords w c) n = Some y \<or> sight_ok e w y" if "seen l n = Some y" for y
    using that D(5) sight_now [OF I(2)] I(6) [OF c] by auto
  then show ?thesis using shrink_inv [OF inv, of "acquire_over n l" c None "mail w" "reports w"] D by simp
qed

lemma lose_inv: "lease_inv tim lv e n w \<Longrightarrow> lease_inv tim lv e n (w\<lparr>mail := mail w - M, reports := reports w - N\<rparr>)"
  using shrink_inv [of tim lv e n w "coords w 0" 0 "camp w 0" "mail w - M" "reports w - N"] conf_slot [OF invD(1), of tim lv e n w 0]
  by (simp add: put_def)

lemma observe_inv:
  assumes inv: "lease_inv tim lv e n w" and x: "NObserve c reply \<in> reports w"
  shows "lease_inv tim lv e n (put c (snd (nats_Held n reply (clock w) (coords w c))) w)"
proof -
  note I = invD [OF inv] and D = nats_Held_at [of n reply "clock w" "coords w c"]
  have "seen (coords w c) n = Some y \<or> sight_ok e w y" if "seen (snd (nats_Held n reply (clock w) (coords w c))) n = Some y" for y
    using that D(5) sight_now [OF I(2)] I(5) [OF x] by auto
  then show ?thesis
    using shrink_inv [OF inv, of "snd (nats_Held n reply (clock w) (coords w c))" c "camp w c" "mail w" "reports w"] D I(1)
    by (simp add: put_def conf_ok_def)
qed

lemma close_inv: "lease_inv tim lv e n w \<Longrightarrow> lease_inv tim lv e n (put c (nats_Close (coords w c)) w)"
  using shrink_inv [of tim lv e n w "nats_Close (coords w c)" c "camp w c" "mail w" "reports w"] conf_slot [OF invD(1), of tim lv e n w c]
  by (simp add: put_def nats_Close_def)

lemma term_ends_inv:
  assumes inv: "lease_inv tim lv e n w" and t: "held_at n w c = Some t"
  shows "lease_inv tim lv e n (put c (snd (term_end t (coords w c))) w)"
proof -
  note I = invD [OF inv]
  have "name t = n" using I(7) [OF t] by (simp add: term_ok_def)
  note D = term_end_at [OF t this]
  show ?thesis
    using shrink_inv [OF inv, of "snd (term_end t (coords w c))" c "camp w c" "mail w" "reports w"] D I(1)
    by (auto simp: put_def conf_ok_def)
qed

lemma add_letter_inv:
  assumes inv: "lease_inv tim lv e n w" and l: "letter_ok e n w l" "\<And>c v q. l \<noteq> LAcquire c v q"
  shows "lease_inv tim lv e n (w\<lparr>mail := insert l (mail w)\<rparr>)" (is "lease_inv tim lv e n ?w")
proof -
  have Q: "quiet n w ?w" by (rule quietI) auto
  have "LAcquire c v q \<in> mail ?w \<longleftrightarrow> LAcquire c v q \<in> mail w" for c v q using l(2) [of c v q] by auto
  then have "mail_ok ?w" using invD(3) [OF inv] unfolding mail_ok_def by simp
  then show ?thesis
    by (intro quiet_inv [OF inv Q]) (use quiet_letter [OF Q l(1)] invD(1) [OF inv] in \<open>auto simp: conf_ok_def\<close>)
qed

lemma add_report_inv:
  assumes inv: "lease_inv tim lv e n w" and x: "report_ok e tim n w x"
  shows "lease_inv tim lv e n (w\<lparr>reports := insert x (reports w)\<rparr>)" (is "lease_inv tim lv e n ?w")
proof -
  have Q: "quiet n w ?w" by (rule quietI) auto
  show ?thesis
    by (rule quiet_inv [OF inv Q]) (use quiet_report [OF Q x] invD(1,3) [OF inv] in \<open>auto simp: conf_ok_def mail_ok_def\<close>)
qed

text \<open>A value belongs to one coordinator, and there to its term or its campaign.\<close>

lemma alive_owner:
  assumes inv: "lease_inv tim lv e n w" and v: "issued w v = Some c" "alive n w v"
  shows "(\<exists>t. held_at n w c = Some t \<and> val t = v) \<or> (\<exists>p. camp w c = Some p \<and> phase_value p = v)"
proof -
  note I = invD [OF inv]
  have "issued w (phase_value p) = Some k" if "camp w k = Some p" for k p
    using I(6) [OF that] by (cases "(e, tim, w, k, p)" rule: phase_ok.cases) auto
  moreover have "issued w (val t) = Some k" if "held_at n w k = Some t" for k t using I(7) [OF that] by (simp add: term_ok_def)
  ultimately show ?thesis using v unfolding alive_def by (metis option.inject)
qed

lemma ended_dead:
  assumes inv: "lease_inv tim lv e n w" and t: "held_at n w c = Some t"
  shows "dead n (put c (snd (term_end t (coords w c))) w) (val t)"
proof -
  note I = invD [OF inv] and T = term_ends_inv [OF inv t]
  have k: "name t = n" "issued w (val t) = Some c" "val t \<in> stored w" using I(7) [OF t] by (simp_all add: term_ok_def)
  have "camp w c = None" using I(1) t unfolding conf_ok_def by (metis option.distinct(1))
  with alive_owner [OF T, of "val t" c] k term_end_at(3) [OF t k(1)] show ?thesis by (auto simp: dead_def)
qed

lemma resign_delete_inv:
  assumes inv: "lease_inv tim lv e n w" and t: "held_at n w c = Some t"
  shows "lease_inv tim lv e n ((put c (snd (term_end t (coords w c))) w)\<lparr>mail := insert (LDelete (rev t) (Some t)) (mail w)\<rparr>)"
  using add_letter_inv [OF term_ends_inv [OF inv t], of "LDelete (rev t) (Some t)"] ended_dead [OF inv t] invD(7) [OF inv t]
  by (auto simp: term_ok_def)

lemma resign_again_inv:
  assumes inv: "lease_inv tim lv e n w" and x: "NDelete t \<in> reports w" and r: "resign_retry (get_reply e) t = Some r"
  shows "lease_inv tim lv e n (w\<lparr>mail := insert (LDelete r None) (mail w)\<rparr>)"
proof -
  have "agrees e r (val t)" using r get_reply_agrees [of e] by (auto simp: resign_retry_def split: sum.splits prod.splits if_splits)
  with add_letter_inv [OF inv, of "LDelete r None"] invD(5) [OF inv x] show ?thesis by auto
qed

lemma renew_inv:
  assumes inv: "lease_inv tim lv e n w" and t: "held_at n w c = Some t"
  shows "lease_inv tim lv e n (w\<lparr>mail := insert (LRenew c (val t) (rev t) (clock w) False) (mail w)\<rparr>)"
  using add_letter_inv [OF inv, of "LRenew c (val t) (rev t) (clock w) False"] invD(7) [OF inv t] by (simp add: term_ok_def)

lemma adopt_inv:
  assumes inv: "lease_inv tim lv e n w" and t: "held_at n w c = Some t" and x: "NRead c (val t) s reply \<in> reports w"
    and r: "adoptLostReply reply t = AdoptUpdate r"
  shows "lease_inv tim lv e n (w\<lparr>mail := insert (LRenew c (val t) r s True) (mail w)\<rparr>)"
proof -
  have "agrees e r (val t)" "s \<le> clock w"
    using r invD(5) [OF inv x] by (auto simp: adoptLostReply_def split: sum.splits prod.splits if_splits)
  with add_letter_inv [OF inv, of "LRenew c (val t) r s True"] invD(7) [OF inv t] show ?thesis by (simp add: term_ok_def)
qed

lemma renewed_inv:
  assumes inv: "lease_inv tim lv e n w" and t: "held_at n w c = Some t" and x: "NStored c (val t) s r \<in> reports w"
  shows "lease_inv tim lv e n (put c ((coords w c)\<lparr>lease_held := (lease_held (coords w c))(n \<mapsto> renew_stored s r t)\<rparr>) w)"
    (is "lease_inv tim lv e n ?w")
proof -
  note I = invD [OF inv]
  have Q: "quiet n w ?w" by (rule quietI) (use t in \<open>auto simp: renew_stored_def split: if_splits\<close>)
  have "alive n w (val t)" using t by (auto simp: alive_def)
  with I(5) [OF x] have "agrees e r (val t)" "covered e tim w c (val t) s" by (auto simp: dead_def)
  with I(7) [OF t] have T: "term_ok e tim n w c (renew_stored s r t)" by (simp add: term_ok_def renew_stored_def)
  show ?thesis
    by (rule quiet_inv [OF inv Q])
      (use I(1,3) t quiet_term [OF Q T] in \<open>auto simp: conf_ok_def mail_ok_def split: if_splits\<close>)
qed

lemma acquired_inv:
  assumes inv: "lease_inv tim lv e n w" and c: "camp w c = Some (Answered v s (Inr r))"
    and f: "acquire_finish n v s r (coords w c) = (res, l)"
  shows "lease_inv tim lv e n ((put c l w)\<lparr>camp := (camp w)(c := None), mail := mail w \<union> (if isl res then {LDelete r None} else {})\<rparr>)"
proof -
  note I = invD [OF inv] and F = acquire_finish_at [OF f]
  let ?w = "(put c l w)\<lparr>camp := (camp w)(c := None)\<rparr>"
  let ?t = "\<lparr>name = n, val = v, fence = r, rev = r, last_sent = s\<rparr>"
  from I(6) [OF c] have v: "issued w v = Some c" "v \<in> stored w" "agrees e r v" "covered e tim w c v s" by auto
  have h: "held_at n w c = None" using I(1) c by (auto simp: conf_ok_def)
  have Q: "quiet n w ?w" by (rule quietI) (use F(4) h c in \<open>auto split: if_splits\<close>)
  have T: "term_ok e tim n w c ?t" using v by (simp add: term_ok_def agrees_def)
  have W: "lease_inv tim lv e n ?w"
    by (rule quiet_inv [OF inv Q])
      (use I(1,3) F h quiet_term [OF Q T] in \<open>auto simp: conf_ok_def mail_ok_def split: if_splits\<close>)
  have "dead n ?w v" if "isl res" using alive_owner [OF W, of v c] v F(4) h that by (auto simp: dead_def)
  with W add_letter_inv [OF W, of "LDelete r None"] v(3) show ?thesis by (auto simp: put_def)
qed

section \<open>Deliveries\<close>

text \<open>A write the bucket accepted: the entry moves from \<open>e\<close> to \<open>(r, x)\<close>. It replaces a value only when its term is
  over or its duration has passed, and makes a value current only when it was, or was never stored.\<close>

definition replaces :: "string \<Rightarrow> 'kv world \<Rightarrow> nat \<times> leaseValue option \<Rightarrow> leaseValue option \<Rightarrow> bool" where
  "replaces n w e x \<longleftrightarrow>
     (\<forall>v. snd e = Some v \<longrightarrow> x \<noteq> Some v \<longrightarrow> dead n w v \<or> stamp w + DurationMS v * 10 ^ 6 \<le> clock w) \<and>
     (\<forall>v. x = Some v \<longrightarrow> v \<notin> stored w \<or> snd e = Some v)"

lemma accepted_replaces:
  assumes "letter_ok e n w l" "admissible e (letter_req n l)"
  shows "replaces n w e (req_value (letter_req n l))"
proof (cases l)
  case (LAcquire c v q)
  with assms show ?thesis by (cases q) (auto simp: replaces_def agrees_def)
qed (use assms in \<open>auto simp: replaces_def agrees_def\<close>)

lemma agrees_later: "agrees e r v \<Longrightarrow> fst e < r' \<Longrightarrow> agrees (r', x) r v"
  by (simp add: agrees_def)

lemma agrees_reply_later: "agrees_reply e y \<Longrightarrow> fst e < r' \<Longrightarrow> agrees_reply (r', x) y"
  by (cases "(e, y)" rule: agrees_reply.cases) (auto intro: agrees_later)

lemma covered_later:
  assumes "covered e tim w c v s" "replaces n w e x" "\<not> dead n w v" "v \<in> stored w" "stamp w \<le> clock w"
    "renewDeadline (tim c) \<le> DurationMS v * 10 ^ 6"
  shows "covered (r, x) tim (w\<lparr>stamp := clock w\<rparr>) c v s"
  using assms by (auto simp: covered_def replaces_def split: if_splits)

lemma answer_camp_cases:
  assumes "answer_camp l reply m c = Some p"
  shows "m c = Some p \<and> (\<forall>v s q. p = Writing v s \<longrightarrow> l \<noteq> LAcquire c v q) \<or>
    (\<exists>v s q. l = LAcquire c v q \<and> m c = Some (Writing v s) \<and> p = Answered v s reply)"
  using assms by (cases l) (auto split: option.splits phase.splits if_splits)

lemma answer_camp_none: "answer_camp l reply m c \<noteq> None \<longleftrightarrow> m c \<noteq> None"
  by (cases l) (auto split: option.splits phase.splits)

lemma answer_camp_keep: "m c = Some p \<Longrightarrow> \<exists>q. answer_camp l reply m c = Some q \<and> phase_value q = phase_value p"
  by (cases l) (auto split: option.splits phase.splits)

text \<open>The world after an accepted write, field by field.\<close>

definition written :: "string \<Rightarrow> letter \<Rightarrow> nat \<Rightarrow> 'kv world \<Rightarrow> 'kv world \<Rightarrow> bool" where
  "written n l r w w' \<longleftrightarrow> clock w' = clock w \<and> stamp w' = clock w \<and> coords w' = coords w \<and> issued w' = issued w \<and>
     stored w' = stored w \<union> set_option (req_value (letter_req n l)) \<and> mail w' = mail w - {l} \<and>
     camp w' = answer_camp l (Inr r) (camp w) \<and> reports w' = reports w \<union> answer_reports l (Inr r)"

lemma writtenD:
  assumes "written n l r w w'"
  shows "clock w' = clock w" "stamp w' = clock w" "coords w' = coords w" "issued w' = issued w"
    "stored w' = stored w \<union> set_option (req_value (letter_req n l))" "mail w' = mail w - {l}"
    "camp w' = answer_camp l (Inr r) (camp w)" "reports w' = reports w \<union> answer_reports l (Inr r)"
  using assms by (simp_all add: written_def)

lemma written_alive:
  assumes "written n l r w w'"
  shows "alive n w' v = alive n w v"
proof -
  note W = writtenD [OF assms]
  have "(\<exists>c p. camp w' c = Some p \<and> phase_value p = v) = (\<exists>c p. camp w c = Some p \<and> phase_value p = v)"
  proof
    assume "\<exists>c p. camp w' c = Some p \<and> phase_value p = v"
    then obtain c p where "answer_camp l (Inr r) (camp w) c = Some p" "phase_value p = v" using W(7) by auto
    then show "\<exists>c p. camp w c = Some p \<and> phase_value p = v" using answer_camp_cases [of l "Inr r" "camp w" c p] by force
  next
    assume "\<exists>c p. camp w c = Some p \<and> phase_value p = v"
    then show "\<exists>c p. camp w' c = Some p \<and> phase_value p = v" using W(7) answer_camp_keep by metis
  qed
  then show ?thesis by (simp add: alive_def W(3))
qed

lemma written_dead: "written n l r w w' \<Longrightarrow> dead n w v \<Longrightarrow> dead n w' v"
  by (simp add: dead_def written_alive writtenD(5))

lemma written_covered:
  assumes inv: "lease_inv tim lv e n w" and cf: "config_ok tim lv" and l: "l \<in> mail w" "admissible e (letter_req n l)"
    and W: "written n l r w w'" and v: "issued w v = Some c" "v \<in> stored w" "\<not> dead n w v" and s: "covered e tim w c v s"
  shows "covered (r, req_value (letter_req n l)) tim w' c v s"
proof -
  note I = invD [OF inv]
  have "renewDeadline (tim c) \<le> DurationMS v * 10 ^ 6" using I(1) cf v(1) by (simp add: conf_ok_def config_ok_def)
  moreover have "stamp w \<le> clock w" using I(2) by (simp add: base_ok_def)
  ultimately have "covered (r, req_value (letter_req n l)) tim (w\<lparr>stamp := clock w\<rparr>) c v s"
    using covered_later [OF s accepted_replaces [OF I(4) [OF l(1)] l(2)] v(3,2)] by blast
  then show ?thesis by (simp add: covered_def writtenD(1,2) [OF W] split: if_splits)
qed

text \<open>A value the write makes current is not one that still waits to be written elsewhere.\<close>

lemma written_value:
  assumes inv: "lease_inv tim lv e n w" and l: "l \<in> mail w" and v: "req_value (letter_req n l) = Some v" "v \<notin> stored w"
  shows "\<exists>c q. l = LAcquire c v q \<and> issued w v = Some c"
  using invD(4) [OF inv l] v by (cases l) auto

lemma written_letter:
  assumes inv: "lease_inv tim lv e n w" and l: "l \<in> mail w" and r: "fst e < r" and W: "written n l r w w'"
    and k: "k \<in> mail w" "k \<noteq> l"
  shows "letter_ok (r, x) n w' k"
proof (cases k)
  case (LAcquire c v q)
  note I = invD [OF inv]
  have v: "issued w v = Some c" "v \<notin> stored w" "req_key q = n" "req_value q = Some v" "takeover_ok e n w q"
    using I(4) [OF k(1)] LAcquire by auto
  have "req_value (letter_req n l) \<noteq> Some v"
  proof
    assume "req_value (letter_req n l) = Some v"
    with written_value [OF inv l _ v(2)] v(1) obtain q' where "l = LAcquire c v q'" by auto
    with I(3) k l LAcquire show False by (auto simp: mail_ok_def)
  qed
  moreover have "takeover_ok (r, x) n w' q" using v(5) r by (cases q) (auto simp: agrees_def)
  ultimately show ?thesis using v LAcquire writtenD [OF W] by auto
next
  case (LRenew c v p s a)
  then show ?thesis using invD(4) [OF inv k(1)] writtenD [OF W] agrees_later [OF _ r] by auto
next
  case (LDelete p t)
  then show ?thesis using invD(4) [OF inv k(1)] written_dead [OF W] agrees_later [OF _ r] by (auto; blast)
qed

lemma written_report:
  assumes inv: "lease_inv tim lv e n w" and cf: "config_ok tim lv" and l: "l \<in> mail w" "admissible e (letter_req n l)"
    and r: "fst e < r" and W: "written n l r w w'" and x: "x \<in> reports w'"
  shows "report_ok (r, req_value (letter_req n l)) tim n w' x"
proof (cases "x \<in> reports w")
  case True
  note R = invD(5) [OF inv True] and D = writtenD [OF W]
  show ?thesis
  proof (cases x)
    case (NStored c v s p)
    have "dead n w v \<or> covered (r, req_value (letter_req n l)) tim w' c v s"
      using R NStored written_covered [OF inv cf l W, of v c s] by auto
    then show ?thesis using R NStored D written_dead [OF W] agrees_later [OF _ r] by auto
  qed (use R D written_dead [OF W] agrees_reply_later [OF _ r] in auto)
next
  case False
  with x writtenD(8) [OF W] have "x \<in> answer_reports l (Inr r)" by auto
  then obtain c v p s a where L: "l = LRenew c v p s a" "x = NStored c v s r" by (cases l) auto
  with invD(4) [OF inv l(1)] writtenD [OF W] show ?thesis by (auto simp: agrees_def covered_def)
qed

lemma written_phase:
  assumes inv: "lease_inv tim lv e n w" and cf: "config_ok tim lv" and l: "l \<in> mail w" "admissible e (letter_req n l)"
    and r: "fst e < r" and W: "written n l r w w'" and p: "camp w' c = Some p"
  shows "phase_ok (r, req_value (letter_req n l)) tim w' c p"
proof -
  note I = invD [OF inv] and D = writtenD [OF W]
  from answer_camp_cases [of l "Inr r" "camp w" c p] p D(7)
  consider (old) "camp w c = Some p" "\<forall>v s q. p = Writing v s \<longrightarrow> l \<noteq> LAcquire c v q"
    | (new) v s q where "l = LAcquire c v q" "camp w c = Some (Writing v s)" "p = Answered v s (Inr r)" by auto
  then show ?thesis
  proof cases
    case old
    note P = I(6) [OF old(1)]
    have fresh: "req_value (letter_req n l) \<noteq> Some (phase_value p)" if "unwritten p"
    proof
      assume v: "req_value (letter_req n l) = Some (phase_value p)"
      have i: "issued w (phase_value p) = Some c" using P by (cases "(e, tim, w, c, p)" rule: phase_ok.cases) auto
      with written_value [OF inv l(1) v phase_value_fresh [OF P that]] obtain q where q: "l = LAcquire c (phase_value p) q" by auto
      with mail_unsent [OF I(3) old(1)] l(1) have "\<not> unmailed p" by auto
      with that old(2) q show False by (cases p) auto
    qed
    have alive: "\<not> dead n w (phase_value p)" using old(1) by (auto simp: dead_def alive_def)
    show ?thesis
    proof (cases "(e, tim, w, c, p)" rule: phase_ok.cases)
      case (4 e' tim' w0 c' v s k)
      then show ?thesis using P D agrees_later [OF _ r] written_covered [OF inv cf l W, of v c s] alive by auto
    qed (use P D fresh agrees_reply_later [OF _ r] in auto)
  next
    case new
    with I(6) [OF new(2)] I(4) [OF l(1)] D show ?thesis by (auto simp: agrees_def covered_def)
  qed
qed

lemma written_term:
  assumes inv: "lease_inv tim lv e n w" and cf: "config_ok tim lv" and l: "l \<in> mail w" "admissible e (letter_req n l)"
    and r: "fst e < r" and W: "written n l r w w'" and t: "held_at n w' c = Some t"
  shows "term_ok (r, req_value (letter_req n l)) tim n w' c t"
proof -
  note D = writtenD [OF W]
  have t': "held_at n w c = Some t" using t D(3) by simp
  then have "\<not> dead n w (val t)" by (auto simp: dead_def alive_def)
  with invD(7) [OF inv t'] D agrees_later [OF _ r] written_covered [OF inv cf l W, of "val t" c "last_sent t"] r
  show ?thesis by (auto simp: term_ok_def)
qed

lemma holding_facts:
  assumes inv: "lease_inv tim lv e n w" and h: "holding n w c v tok s"
  shows "tok \<le> fst e" "v \<in> stored w"
  using h invD(6) [OF inv, of c "Answered v s (Inr tok)"] invD(7) [OF inv, of c] by (auto simp: holding_def term_ok_def agrees_def)

lemma written_tokens:
  assumes inv: "lease_inv tim lv e n w" and l: "l \<in> mail w" "admissible e (letter_req n l)"
    and r: "fst e < r" and W: "written n l r w w'"
  shows "tokens_ok (r, req_value (letter_req n l)) n w'"
  unfolding tokens_ok_def
proof (intro allI impI)
  note I = invD [OF inv] and D = writtenD [OF W]
  have cases: "holding n w c v tok s \<or> (tok = r \<and> req_value (letter_req n l) = Some v)" if h: "holding n w' c v tok s" for c v tok s
  proof (cases "camp w' c = Some (Answered v s (Inr tok))")
    case True
    with answer_camp_cases [of l "Inr r" "camp w" c "Answered v s (Inr tok)"] D(7) I(4) [OF l(1)] show ?thesis
      by (auto simp: holding_def)
  next
    case False
    with h D(3) show ?thesis by (auto simp: holding_def)
  qed
  fix c v tok s d u tok' s'
  assume a: "holding n w' c v tok s" "holding n w' d u tok' s'" "snd (r, req_value (letter_req n l)) = Some v" "u \<noteq> v"
  from cases [OF a(2)] a(3,4) have u: "holding n w d u tok' s'" by auto
  from cases [OF a(1)] show "tok' < tok"
  proof
    assume v: "holding n w c v tok s"
    have "snd e = Some v" using accepted_replaces [OF I(4) [OF l(1)] l(2)] a(3) holding_facts(2) [OF inv v] by (auto simp: replaces_def)
    with inv v u a(4) show ?thesis unfolding lease_inv_def tokens_ok_def by blast
  next
    assume "tok = r \<and> req_value (letter_req n l) = Some v"
    with holding_facts(1) [OF inv u] r show ?thesis by simp
  qed
qed

lemma written_inv:
  assumes inv: "lease_inv tim lv e n w" and cf: "config_ok tim lv" and l: "l \<in> mail w" "admissible e (letter_req n l)"
    and r: "fst e < r" and W: "written n l r w w'"
  shows "lease_inv tim lv (r, req_value (letter_req n l)) n w'"
  unfolding lease_inv_def
proof (intro conjI ballI allI impI)
  note I = invD [OF inv] and D = writtenD [OF W]
  show "conf_ok tim lv n w'" using I(1) D answer_camp_none [of l "Inr r" "camp w"] by (simp add: conf_ok_def)
  show "base_ok (r, req_value (letter_req n l)) w'"
    using I(2) D I(4) [OF l(1)] by (cases l) (auto simp: base_ok_def)
  have "camp w c = Some p" if "camp w' c = Some p" "unmailed p" for c p
    using that answer_camp_cases [of l "Inr r" "camp w" c p] D(7) by auto
  with I(3) D(6) show "mail_ok w'" unfolding mail_ok_def by blast
  show "tokens_ok (r, req_value (letter_req n l)) n w'" by (rule written_tokens [OF inv l r W])
  show "letter_ok (r, req_value (letter_req n l)) n w' k" if "k \<in> mail w'" for k
    using that D(6) written_letter [OF inv l(1) r W] by auto
  show "report_ok (r, req_value (letter_req n l)) tim n w' x" if "x \<in> reports w'" for x
    by (rule written_report [OF inv cf l r W that])
  show "phase_ok (r, req_value (letter_req n l)) tim w' c p" if "camp w' c = Some p" for c p
    by (rule written_phase [OF inv cf l r W that])
  show "term_ok (r, req_value (letter_req n l)) tim n w' c t" if "held_at n w' c = Some t" for c t
    by (rule written_term [OF inv cf l r W that])
  show "sight_ok (r, req_value (letter_req n l)) w' x" if "seen (coords w' c) n = Some x" for c x
    using I(8) [of c x] that D r by (auto simp: sight_ok_def)
qed

lemma refused_inv:
  fixes w w' :: "'kv world"
  assumes inv: "lease_inv tim lv e n w" and l: "l \<in> mail w"
    and W: "clock w' = clock w" "stamp w' = stamp w" "coords w' = coords w" "issued w' = issued w" "stored w' = stored w"
      "mail w' = mail w - {l}" "camp w' = answer_camp l (Inl x) (camp w)" "reports w' = reports w \<union> answer_reports l (Inl x)"
  shows "lease_inv tim lv e n w'"
proof -
  note I = invD [OF inv]
  have c: "camp w c = Some p \<or> (\<exists>v s. camp w c = Some (Writing v s) \<and> p = Answered v s (Inl x))" if "camp w' c = Some p" for c p
    using that answer_camp_cases [of l "Inl x" "camp w" c p] W(7) by auto
  have Q: "quiet n w w'"
  proof (rule quietI)
    show "phase_value p \<notin> stored w \<or> (\<exists>q. camp w k = Some q \<and> phase_value q = phase_value p)" if "camp w' k = Some p" for k p
      using c [OF that] by force
    show "camp w k = Some (Answered v s (Inr r))" if "camp w' k = Some (Answered v s (Inr r))" for k v s r
      using c [OF that] by auto
  qed (use W in auto)
  show ?thesis
  proof (rule quiet_inv [OF inv Q])
    show "conf_ok tim lv n w'" using I(1) W answer_camp_none [of l "Inl x" "camp w"] by (simp add: conf_ok_def)
    have "camp w k = Some p" if "camp w' k = Some p" "unmailed p" for k p using c [OF that(1)] that(2) by auto
    with I(3) W(6) show "mail_ok w'" unfolding mail_ok_def by blast
    show "phase_ok e tim w' k p" if "camp w' k = Some p" "camp w k \<noteq> Some p" for k p
      using c [OF that(1)] that(2) I(6) [of k] W(4) by auto
    show "report_ok e tim n w' y" if y: "y \<in> reports w'" "y \<notin> reports w" for y
    proof -
      have "y \<in> answer_reports l (Inl x)" using y W(8) by auto
      with I(4) [OF l] have "report_ok e tim n w y" by (cases l) (auto split: if_splits option.splits)
      with quiet_report [OF Q] show ?thesis .
    qed
  qed (use W in auto)
qed

lemma deliver_inv:
  assumes inv: "lease_inv tim lv (look (kv w) n) n w" and cf: "config_ok tim lv" and kv: "kv_laws look srv" and l: "l \<in> mail w"
  shows "lease_inv tim lv (look (kv (deliver srv n l w)) n) n (deliver srv n l w)"
proof -
  obtain reply k where S: "srv (kv w) (letter_req n l) = (reply, k)" by (cases "srv (kv w) (letter_req n l)")
  have key: "req_key (letter_req n l) = n" using invD(4) [OF inv l] by (cases l) auto
  show ?thesis
  proof (cases reply)
    case (Inl x)
    with S kv have "look k = look (kv w)" unfolding kv_laws_def by blast
    with refused_inv [OF inv l, of "deliver srv n l w"] S Inl show ?thesis by (simp add: deliver_def)
  next
    case (Inr r)
    with S kv key have K: "admissible (look (kv w) n) (letter_req n l)" "look k n = (r, req_value (letter_req n l))"
      "fst (look (kv w) n) < r" unfolding kv_laws_def by metis+
    have "written n l r w (deliver srv n l w)" using S Inr by (simp add: written_def deliver_def)
    from written_inv [OF inv cf l K(1,3) this] S K(2) show ?thesis by (simp add: deliver_def)
  qed
qed

lemma step_inv:
  assumes "lease_step look srv n w w'" "config_ok tim lv" "kv_laws look srv" "lease_inv tim lv (look (kv w) n) n w"
  shows "lease_inv tim lv (look (kv w') n) n w'"
  using assms
proof (induction rule: lease_step.induct)
  case (read w c v s)
  then show ?case using read_inv get_reply_agrees by fastforce
next
  case (acquired w c v s reply r res l)
  have "reply = Inr r" using acquired.hyps(2) by (auto simp: campaign_result_def split: sum.splits)
  with acquired show ?case using acquired_inv by fastforce
next
  case (adopt_lost_reply c v s reply w t r)
  then show ?case using adopt_inv [of tim lv "look (kv w) n" n w c t s reply r] by simp
next
  case (conflict_read c v s w)
  have "report_ok (look (kv w) n) tim n w (NRead c v s (get_reply (look (kv w) n)))"
    using invD(5) [OF conflict_read.prems(3) conflict_read.hyps] get_reply_agrees by simp
  with add_report_inv [OF conflict_read.prems(3)] show ?case by simp
next
  case (observe_read w c)
  then show ?case using add_report_inv [of tim lv "look (kv w) n" n w] get_reply_agrees by simp
qed (simp_all add: tick_inv elsewhere_inv begin_inv judge_write_inv judge_held_inv give_up_inv deliver_inv lose_inv renew_inv
    renewed_inv adopt_inv term_ends_inv resign_delete_inv resign_again_inv observe_inv close_inv)

section \<open>Exclusion\<close>

text \<open>A start: coordinators fresh from \<^verbatim>\<open>newNATSLeases\<close>, nothing under way, no value at the lease's key.\<close>

definition lease_start :: "(nat \<Rightarrow> leaseTimings) \<Rightarrow> (nat \<Rightarrow> string) \<Rightarrow> (nat \<Rightarrow> string) \<Rightarrow> int \<Rightarrow> 'kv \<Rightarrow> 'kv world" where
  "lease_start tim holder session t0 k =
     \<lparr>clock = t0, kv = k, coords = (\<lambda>c. newNATSLeases (tim c) (holder c) (session c)), camp = (\<lambda>c. None), mail = {}, reports = {},
      stamp = t0, issued = (\<lambda>v. None), stored = {}\<rparr>"

text \<open>Sessions are unique; durations are whole milliseconds at least, and no shorter than the renew deadline.\<close>

definition timings_ok :: "(nat \<Rightarrow> leaseTimings) \<Rightarrow> (nat \<Rightarrow> string) \<Rightarrow> bool" where
  "timings_ok tim session \<longleftrightarrow> inj session \<and>
     (\<forall>c. 10 ^ 6 \<le> duration (tim c) \<and> renewDeadline (tim c) \<le> duration (tim c) div 10 ^ 6 * 10 ^ 6)"

lemma start_inv:
  fixes holder :: "nat \<Rightarrow> string"
  assumes "timings_ok tim session" "snd (look k n) = None"
  defines "lv \<equiv> (\<lambda>c. lease_value (newNATSLeases (tim c) (holder c) (session c)))"
  shows "config_ok tim lv" "lease_inv tim lv (look k n) n (lease_start tim holder session t0 k)"
proof -
  show "config_ok tim lv"
    using assms(1) by (auto simp: config_ok_def timings_ok_def lv_def newNATSLeases_def pos_imp_zdiv_pos_iff dest: injD)
  show "lease_inv tim lv (look k n) n (lease_start tim holder session t0 k)"
    using assms(2) by (simp add: lease_inv_def lease_start_def conf_ok_def base_ok_def mail_ok_def tokens_ok_def holding_def lv_def
      newNATSLeases_def)
qed

lemma reach_inv:
  assumes "(lease_step look srv n)\<^sup>*\<^sup>* w0 w" "config_ok tim lv" "kv_laws look srv" "lease_inv tim lv (look (kv w0) n) n w0"
  shows "lease_inv tim lv (look (kv w) n) n w"
  using assms(1) by (induction rule: rtranclp_induct) (use assms(2-4) step_inv in blast)+

lemma in_force_current:
  assumes inv: "lease_inv tim lv e n w" and f: "in_force n w c t"
  shows "snd e = Some (val t)" "issued w (val t) = Some c"
proof -
  note I = invD [OF inv]
  from f have t: "held_at n w c = Some t" "clock w < last_sent t + renewDeadline (tim c)"
    using I(1) by (auto simp: in_force_def deadline_passed_def conf_ok_def)
  with I(7) [OF t(1)] show "snd e = Some (val t)" "issued w (val t) = Some c" by (auto simp: term_ok_def covered_def split: if_splits)
qed

text \<open>C28. The leases over the bucket, for any number of processes and any interleaving of campaigns, renewals,
  resignations, late or lost requests and lost answers: at no instant are two terms of a lease in force (held,
  with the renew deadline not passed), whatever their processes; the term in force is the one whose value the
  bucket holds; and its fencing token is greater than that of every other term still held anywhere. The
  bucket only has to compare revisions as documented; a process's own clock is enough.\<close>

theorem lease_exclusive:
  assumes "kv_laws look srv" "timings_ok tim session" "snd (look k n) = None"
    "(lease_step look srv n)\<^sup>*\<^sup>* (lease_start tim holder session t0 k) w" "in_force n w c t"
  shows "snd (look (kv w) n) = Some (val t) \<and>
    (\<forall>d u. in_force n w d u \<longrightarrow> d = c \<and> u = t) \<and>
    (\<forall>d u. lease_held (coords w d) n = Some u \<longrightarrow> d \<noteq> c \<longrightarrow> fence u < fence t)"
proof -
  define lv where "lv = (\<lambda>c. lease_value (newNATSLeases (tim c) (holder c) (session c)))"
  note S = start_inv(1) [where look = look and k = k and n = n and holder = holder, OF assms(2,3), folded lv_def]
    start_inv(2) [where look = look and k = k and n = n and holder = holder, OF assms(2,3), of t0, folded lv_def]
  have "look (kv (lease_start tim holder session t0 k)) n = look k n" by (simp add: lease_start_def)
  with reach_inv [OF assms(4) S(1) assms(1)] S(2) have inv: "lease_inv tim lv (look (kv w) n) n w" by simp
  note C = in_force_current [OF inv assms(5)]
  have "d = c \<and> u = t" if u: "in_force n w d u" for d u
  proof -
    have "issued w (val t) = Some d" using in_force_current [OF inv u] C by simp
    with C u assms(5) show ?thesis by (simp add: in_force_def)
  qed
  moreover have "fence u < fence t" if u: "held_at n w d = Some u" "d \<noteq> c" for d u
  proof -
    have "issued w (val u) = Some d" using invD(7) [OF inv u(1)] by (simp add: term_ok_def)
    with C u(2) have "val u \<noteq> val t" by auto
    moreover have "holding n w c (val t) (fence t) (last_sent t)" "holding n w d (val u) (fence u) (last_sent u)"
      using assms(5) u(1) by (auto simp: holding_def in_force_def)
    ultimately show ?thesis using inv C(1) unfolding lease_inv_def tokens_ok_def by blast
  qed
  ultimately show ?thesis using C(1) by blast
qed

text \<open>A bucket that keeps the laws, and a run on it in which the first of two processes takes a lease.\<close>

definition plain_srv :: "(string \<Rightarrow> nat \<times> leaseValue option) \<Rightarrow> request \<Rightarrow> (kv_error + nat) \<times> (string \<Rightarrow> nat \<times> leaseValue option)" where
  "plain_srv k q =
     (let e = k (req_key q) in
      if admissible e q then (Inr (fst e + 1), k(req_key q := (fst e + 1, req_value q))) else (Inl KeyRevisionMismatch, k))"

lemma plain_laws: "kv_laws (\<lambda>k. k) plain_srv"
  by (auto simp: kv_laws_def plain_srv_def Let_def)

lemma default_timings_ok: "timings_ok (\<lambda>c. defaultTimings) (\<lambda>c. replicate c CHR ''x'')"
  by (auto simp: timings_ok_def inj_def defaultTimings_def defaultLeaseDuration_def defaultRenewDeadline_def)

definition run_start :: "(string \<Rightarrow> nat \<times> leaseValue option) world" where
  "run_start = lease_start (\<lambda>c. defaultTimings) (\<lambda>c. ''host'') (\<lambda>c. replicate c CHR ''x'') 0 (\<lambda>n. (0, None))"

lemma acquire_run:
  "\<exists>w t. (lease_step (\<lambda>k. k) plain_srv ''slot'')\<^sup>*\<^sup>* run_start w \<and> in_force ''slot'' w 0 t"
proof -
  let ?S = "lease_step (\<lambda>k. k) plain_srv ''slot''"
  let ?l = "newNATSLeases defaultTimings ''host'' []"
  let ?v = "(lease_value ?l)\<lparr>Term := ''t1''\<rparr>"
  define w1 where "w1 = (put 0 (?l\<lparr>acquiring := [''slot'']\<rparr>) run_start)\<lparr>camp := (camp run_start)(0 \<mapsto> Reading ?v 0), issued := (issued run_start)(?v \<mapsto> 0)\<rparr>"
  have s1: "?S run_start w1"
    using begin_campaign [of "''slot''" "''t1''" run_start 0 ?v "?l\<lparr>acquiring := [''slot'']\<rparr>"]
    by (simp add: w1_def run_start_def lease_start_def acquire_begin_def newNATSLeases_def)
  define w2 where "w2 = w1\<lparr>camp := (camp w1)(0 \<mapsto> Judging ?v 0 (Inl KeyNotFound))\<rparr>"
  have s2: "?S w1 w2"
    using read [of w1 0 ?v 0 "\<lambda>k. k" plain_srv "''slot''"] by (simp add: w2_def w1_def run_start_def lease_start_def get_reply_def)
  define w3 where "w3 = (put 0 (coords w2 0) w2)\<lparr>camp := (camp w2)(0 \<mapsto> Writing ?v 0), mail := insert (LAcquire 0 ?v (Create ''slot'' ?v)) (mail w2)\<rparr>"
  have s3: "?S w2 w3"
    using judge_write [of w2 0 ?v 0 "Inl KeyNotFound" "''slot''" DoCreate "coords w2 0" "Create ''slot'' ?v"]
    by (simp add: w3_def w2_def campaign_decide_def)
  define w4 where "w4 = deliver plain_srv ''slot'' (LAcquire 0 ?v (Create ''slot'' ?v)) w3"
  have s4: "?S w3 w4" unfolding w4_def by (rule lease_step.deliver) (simp add: w3_def)
  have c4: "camp w4 0 = Some (Answered ?v 0 (Inr 1))" "coords w4 0 = ?l\<lparr>acquiring := [''slot'']\<rparr>" "clock w4 = 0"
    by (simp_all add: w4_def deliver_def w3_def w2_def w1_def run_start_def lease_start_def plain_srv_def)
  let ?t = "\<lparr>name = ''slot'', val = ?v, fence = 1, rev = 1, last_sent = 0\<rparr>"
  let ?f = "snd (acquire_finish ''slot'' ?v 0 1 (coords w4 0))"
  define w5 where "w5 = (put 0 ?f w4)\<lparr>camp := (camp w4)(0 := None), mail := mail w4 \<union> {}\<rparr>"
  have f: "acquire_finish ''slot'' ?v 0 1 (coords w4 0) = (Inr ?t, ?f)"
    by (simp add: c4 acquire_finish_def newNATSLeases_def Let_def)
  have s5: "?S w4 w5"
    using lease_step.acquired [OF c4(1) _ f] by (simp add: campaign_result_def w5_def)
  have "in_force ''slot'' w5 0 ?t"
    by (simp add: in_force_def w5_def c4 acquire_finish_def acquire_over_def deadline_passed_def newNATSLeases_def defaultTimings_def
      defaultRenewDeadline_def Let_def)
  moreover have "?S\<^sup>*\<^sup>* run_start w5"
    by (rule converse_rtranclp_into_rtranclp, rule s1, rule converse_rtranclp_into_rtranclp, rule s2,
        rule converse_rtranclp_into_rtranclp, rule s3, rule converse_rtranclp_into_rtranclp, rule s4, rule r_into_rtranclp, rule s5)
  ultimately show ?thesis by blast
qed

theorem lease_exclusive_witness:
  "\<exists>(w :: (string \<Rightarrow> nat \<times> leaseValue option) world) t. in_force ''slot'' w 0 t \<and> snd (kv w ''slot'') = Some (val t) \<and> \<not> (\<exists>u. in_force ''slot'' w 1 u)"
proof -
  obtain w t where w: "(lease_step (\<lambda>k. k) plain_srv ''slot'')\<^sup>*\<^sup>* run_start w" "in_force ''slot'' w 0 t"
    using acquire_run by blast
  have "snd ((\<lambda>n. (0, None)) ''slot'') = None" by simp
  from lease_exclusive [where look = "\<lambda>k. k", OF plain_laws default_timings_ok this w(1) [unfolded run_start_def] w(2)]
  have "snd (kv w ''slot'') = Some (val t)" "\<not> in_force ''slot'' w 1 u" for u by auto
  with w(2) show ?thesis by blast
qed

end
