(* ===== verification/Stream.thy ===== *)
theory Stream
  imports Claims
begin

text \<open>
  The outbound side of live streams: one connection's queue (\<^verbatim>\<open>internal/stream/subscriber.go\<close>), sets of
  connections (\<^verbatim>\<open>bucket.go\<close>) and the keepalive wheel (\<^verbatim>\<open>heartbeat.go\<close>). Connections and buckets are shared by
  reference, so they are numbered: a connection is its index in a heap of subscribers, a bucket its index in the
  heap of buckets. The counters of dropped frames are the list of what was counted.
\<close>

section \<open>Frames and subscribers\<close>

datatype frame_kind = KindKeepalive | KindSchema | KindEvent | KindReplay

datatype drop_reason = DropBufferFull | DropClientGone | DropStreamClosed

record Frame =
  frame_kind :: frame_kind
  Data :: string

record Subscriber =
  out :: "Frame list"
  capacity :: nat
  sub_claims :: claims
  evict :: bool
  sub_table :: string
  full :: nat
  peak :: nat
  dropped :: bool
  closed_for :: "drop_reason option"
  lastSchema :: string
  counted :: "(frame_kind \<times> drop_reason) list"

definition defaultSubscriberQueue :: nat where
  "defaultSubscriberQueue = 64"

definition newSubscriber :: "nat \<Rightarrow> Subscriber" where
  "newSubscriber n =
     \<lparr>out = [], capacity = n, sub_claims = [], evict = False, sub_table = '''', full = 0, peak = 0,
      dropped = False, closed_for = None, lastSchema = '''', counted = []\<rparr>"

text \<open>Claims are values here, so the deep copy of them is the value itself.\<close>

definition NewTableSubscriber :: "string \<Rightarrow> claims \<Rightarrow> int \<Rightarrow> Subscriber" where
  "NewTableSubscriber table claims queue =
     (newSubscriber (if queue \<le> 0 then defaultSubscriberQueue else nat queue))\<lparr>sub_table := table, sub_claims := claims\<rparr>"

definition NewSubscriber :: "claims \<Rightarrow> Subscriber" where
  "NewSubscriber claims = NewTableSubscriber '''' claims 0"

definition needsSchema :: "string \<Rightarrow> Subscriber \<Rightarrow> bool" where
  "needsSchema sig s \<longleftrightarrow> lastSchema s \<noteq> sig"

definition recordSchema :: "string \<Rightarrow> Subscriber \<Rightarrow> Subscriber" where
  "recordSchema sig s = s\<lparr>lastSchema := sig\<rparr>"

definition notePeak :: "nat \<Rightarrow> Subscriber \<Rightarrow> Subscriber" where
  "notePeak depth s = (if depth \<le> peak s then s else s\<lparr>peak := depth\<rparr>)"

definition count_drop :: "frame_kind \<Rightarrow> drop_reason \<Rightarrow> Subscriber \<Rightarrow> Subscriber" where
  "count_drop kind reason s = s\<lparr>counted := counted s @ [(kind, reason)]\<rparr>"

definition drop_frame :: "frame_kind \<Rightarrow> Subscriber \<Rightarrow> Subscriber" where
  "drop_frame kind s =
     (case closed_for s of
        Some r \<Rightarrow> count_drop kind r s
      | None \<Rightarrow>
          (let s = count_drop kind DropBufferFull s;
               s = notePeak (capacity s) (s\<lparr>full := full s + 1\<rparr>) in
           s\<lparr>dropped := True\<rparr>))"

text \<open>Draining the queue, counting every frame.\<close>

fun discard_frames :: "Frame list \<Rightarrow> drop_reason \<Rightarrow> Subscriber \<Rightarrow> Subscriber" where
  "discard_frames [] reason s = s\<lparr>out := []\<rparr>"
| "discard_frames (f # fs) reason s = discard_frames fs reason (count_drop (frame_kind f) reason s)"

definition discard :: "drop_reason \<Rightarrow> Subscriber \<Rightarrow> nat \<times> Subscriber" where
  "discard reason s = (length (out s), discard_frames (out s) reason s)"

text \<open>\<^verbatim>\<open>Send\<close> up to the queue, and the second look at \<^verbatim>\<open>closed\<close> after it: \<^verbatim>\<open>Close\<close> may run between the two.\<close>

definition send_offer :: "Frame \<Rightarrow> Subscriber \<Rightarrow> bool \<times> Subscriber" where
  "send_offer f s =
     (if closed_for s \<noteq> None then (False, drop_frame (frame_kind f) s)
      else if length (out s) < capacity s
      then (True, notePeak (length (out s) + 1) (s\<lparr>out := out s @ [f]\<rparr>))
      else (False, drop_frame (frame_kind f) s))"

definition send_recheck :: "Subscriber \<Rightarrow> Subscriber" where
  "send_recheck s = (case closed_for s of Some r \<Rightarrow> snd (discard r s) | None \<Rightarrow> s)"

definition Send :: "Frame \<Rightarrow> Subscriber \<Rightarrow> bool \<times> Subscriber" where
  "Send f s = (case send_offer f s of (ok, s) \<Rightarrow> (ok, if ok then send_recheck s else s))"

definition sub_Close :: "drop_reason \<Rightarrow> Subscriber \<Rightarrow> nat \<times> Subscriber" where
  "sub_Close reason s = discard reason (s\<lparr>closed_for := Some reason\<rparr>)"

definition QueueStats :: "Subscriber \<Rightarrow> nat \<times> nat \<times> nat \<times> nat" where
  "QueueStats s = (full s, length (out s), peak s, capacity s)"

definition Evict :: "Subscriber \<Rightarrow> Subscriber" where
  "Evict s = s\<lparr>evict := True\<rparr>"

text \<open>The handler takes the frame at the front of the queue (\<^verbatim>\<open>Frames\<close>).\<close>

definition take_frame :: "Subscriber \<Rightarrow> (Frame \<times> Subscriber) option" where
  "take_frame s = (case out s of [] \<Rightarrow> None | f # fs \<Rightarrow> Some (f, s\<lparr>out := fs\<rparr>))"

section \<open>Buckets\<close>

text \<open>A bucket is a list of connections without repetition; its order is the order the map is ranged over.\<close>

type_synonym bucket = "nat list"

definition bucket_Add :: "nat \<Rightarrow> bucket \<Rightarrow> bucket" where
  "bucket_Add sub b = List.insert sub b"

definition bucket_Remove :: "nat \<Rightarrow> bucket \<Rightarrow> bucket" where
  "bucket_Remove sub b = removeAll sub b"

definition bucket_Snapshot :: "bucket \<Rightarrow> nat list" where
  "bucket_Snapshot b = b"

type_synonym subscribers = "nat \<Rightarrow> Subscriber"

definition send_to :: "Frame \<Rightarrow> nat \<Rightarrow> subscribers \<Rightarrow> subscribers" where
  "send_to f i subs = subs(i := snd (Send f (subs i)))"

definition Push :: "Frame \<Rightarrow> bucket \<Rightarrow> subscribers \<Rightarrow> subscribers" where
  "Push f b subs = fold (send_to f) (bucket_Snapshot b) subs"

section \<open>The keepalive wheel\<close>

definition second :: int where "second = 1000000000"

definition defaultKeepaliveInterval :: int where
  "defaultKeepaliveInterval = 30 * second"

definition defaultKeepaliveBuckets :: int where
  "defaultKeepaliveBuckets = 3"

record Heartbeater =
  comment :: string
  tickInterval :: int
  heap :: "bucket list"
  ring :: "nat list"
  hand :: nat
  retick :: bool
  bucket_of :: "nat \<Rightarrow> nat option"

definition wheelShape :: "int \<Rightarrow> int \<Rightarrow> int \<times> nat" where
  "wheelShape period buckets =
     (let buckets = (if buckets < 1 then defaultKeepaliveBuckets else buckets);
          period = (if period \<le> 0 then defaultKeepaliveInterval else period);
          buckets = (if period < buckets then 1 else buckets);
          tick = period div buckets;
          tick = (if tick \<le> 0 then period else tick) in
      (tick, nat buckets))"

text \<open>\<open>n\<close> new buckets at the end of the heap, and the ring of them.\<close>

definition newRing :: "nat \<Rightarrow> bucket list \<Rightarrow> bucket list \<times> nat list" where
  "newRing n hp = (hp @ replicate n [], [length hp ..< length hp + n])"

definition NewHeartbeater :: "int \<Rightarrow> int \<Rightarrow> Heartbeater" where
  "NewHeartbeater period buckets =
     (case wheelShape period buckets of (tick, n) \<Rightarrow>
      case newRing n [] of (hp, r) \<Rightarrow>
        \<lparr>comment = '':'' @ [CHR 0x0A, CHR 0x0A], tickInterval = tick, heap = hp, ring = r, hand = 0, retick = False,
         bucket_of = (\<lambda>_. None)\<rparr>)"

definition put_in :: "nat \<Rightarrow> nat \<Rightarrow> Heartbeater \<Rightarrow> Heartbeater" where
  "put_in b sub hb = hb\<lparr>heap := (heap hb)[b := bucket_Add sub (heap hb ! b)], bucket_of := (bucket_of hb)(sub := Some b)\<rparr>"

text \<open>Round robin over the new ring.\<close>

fun redistribute :: "nat list \<Rightarrow> nat \<Rightarrow> nat list \<Rightarrow> Heartbeater \<Rightarrow> Heartbeater" where
  "redistribute r i [] hb = hb"
| "redistribute r i (sub # subs) hb = redistribute r (i + 1) subs (put_in (r ! (i mod length r)) sub hb)"

definition wheel_Reconfigure :: "int \<Rightarrow> int \<Rightarrow> Heartbeater \<Rightarrow> Heartbeater" where
  "wheel_Reconfigure period buckets hb =
     (case wheelShape period buckets of (tick, n) \<Rightarrow>
        if tick = tickInterval hb \<and> n = length (ring hb) then hb
        else (let hb = hb\<lparr>tickInterval := tick\<rparr>;
                  hb = (if n \<noteq> length (ring hb) then
                     (case newRing n (heap hb) of (hp, r) \<Rightarrow>
                        (redistribute r 0 (concat (map (\<lambda>b. bucket_Snapshot (heap hb ! b)) (ring hb))) (hb\<lparr>heap := hp\<rparr>))
                          \<lparr>ring := r, hand := 0\<rparr>)
                   else hb) in
              hb\<lparr>retick := True\<rparr>))"

definition wheel_Add :: "nat \<Rightarrow> Heartbeater \<Rightarrow> Heartbeater" where
  "wheel_Add sub hb =
     (let last = ring hb ! ((hand hb + length (ring hb) - 1) mod length (ring hb)) in put_in last sub hb)"

definition wheel_Remove :: "nat \<Rightarrow> Heartbeater \<Rightarrow> Heartbeater" where
  "wheel_Remove sub hb =
     (case bucket_of hb sub of
        None \<Rightarrow> hb
      | Some b \<Rightarrow> hb\<lparr>heap := (heap hb)[b := bucket_Remove sub (heap hb ! b)]\<rparr>)"

definition wheel_Len :: "Heartbeater \<Rightarrow> nat" where
  "wheel_Len hb = sum_list (map (\<lambda>b. length (heap hb ! b)) (ring hb))"

text \<open>One tick: the bucket under the hand is written, the hand moves on.\<close>

definition tick_front :: "Heartbeater \<Rightarrow> bucket" where
  "tick_front hb = heap hb ! (ring hb ! hand hb)"

definition tick :: "Heartbeater \<Rightarrow> subscribers \<Rightarrow> Heartbeater \<times> subscribers" where
  "tick hb subs =
     (hb\<lparr>hand := (hand hb + 1) mod length (ring hb)\<rparr>,
      Push \<lparr>frame_kind = KindKeepalive, Data = comment hb\<rparr> (tick_front hb) subs)"


section \<open>The wheel turns\<close>

lemma Push_apply: "distinct b \<Longrightarrow> Push f b subs i = (if i \<in> set b then snd (Send f (subs i)) else subs i)"
  unfolding Push_def bucket_Snapshot_def by (induction b arbitrary: subs) (auto simp: send_to_def)

definition ring_ok :: "nat list \<Rightarrow> nat set \<Rightarrow> Heartbeater \<Rightarrow> bool" where
  "ring_ok r live hb \<longleftrightarrow>
     r \<noteq> [] \<and> distinct r \<and> (\<forall>b \<in> set r. b < length (heap hb)) \<and>
     (\<forall>b \<in> set r. distinct (heap hb ! b) \<and> set (heap hb ! b) = {s \<in> live. bucket_of hb s = Some b}) \<and>
     (\<forall>s \<in> live. \<exists>b \<in> set r. bucket_of hb s = Some b)"

definition wheel_ok :: "nat set \<Rightarrow> Heartbeater \<Rightarrow> bool" where
  "wheel_ok live hb \<longleftrightarrow>
     ring_ok (ring hb) live hb \<and> hand hb < length (ring hb) \<and> 0 < tickInterval hb \<and>
     (\<forall>s b. bucket_of hb s = Some b \<longrightarrow> b < length (heap hb))"

lemma put_in_ok:
  assumes "ring_ok r live hb" "b \<in> set r" "s \<notin> live"
  shows "ring_ok r (insert s live) (put_in b s hb)"
proof -
  have b: "b < length (heap hb)" using assms(1,2) by (auto simp: ring_ok_def)
  have s: "s \<notin> set (heap hb ! b)" using assms by (auto simp: ring_ok_def)
  show ?thesis using assms b s unfolding ring_ok_def
    by (auto simp: put_in_def bucket_Add_def nth_list_update split: if_splits)
qed

lemma redistribute_ok:
  assumes "ring_ok r live hb" "distinct subs" "set subs \<inter> live = {}"
  shows "ring_ok r (live \<union> set subs) (redistribute r i subs hb)"
  using assms
proof (induction subs arbitrary: i live hb)
  case (Cons s subs)
  have "r ! (i mod length r) \<in> set r" using Cons.prems(1) by (simp add: ring_ok_def)
  with Cons.prems have "ring_ok r (insert s live) (put_in (r ! (i mod length r)) s hb)" by (intro put_in_ok) auto
  then show ?case using Cons.prems Cons.IH [of "insert s live"] by simp
qed simp

lemma redistribute_pointers:
  assumes "\<forall>s b. bucket_of hb s = Some b \<longrightarrow> b < length (heap hb)" "\<forall>b \<in> set r. b < length (heap hb)" "r \<noteq> []"
  shows "(\<forall>s b. bucket_of (redistribute r i subs hb) s = Some b \<longrightarrow> b < length (heap (redistribute r i subs hb))) \<and>
    tickInterval (redistribute r i subs hb) = tickInterval hb"
  using assms
proof (induction subs arbitrary: i hb)
  case (Cons s subs)
  have "r ! (i mod length r) \<in> set r" using assms(3) by simp
  then show ?case using Cons by (auto simp: put_in_def split: if_splits)
qed simp

lemma ring_members:
  assumes "ring_ok r live hb"
  shows "distinct (concat (map (\<lambda>b. bucket_Snapshot (heap hb ! b)) r))" "set (concat (map (\<lambda>b. bucket_Snapshot (heap hb ! b)) r)) = live"
proof -
  have r: "distinct r" "\<forall>b \<in> set r. distinct (heap hb ! b) \<and> set (heap hb ! b) = {s \<in> live. bucket_of hb s = Some b}"
    using assms by (auto simp: ring_ok_def)
  then show "distinct (concat (map (\<lambda>b. bucket_Snapshot (heap hb ! b)) r))"
    by (induction r) (auto simp: bucket_Snapshot_def)
  show "set (concat (map (\<lambda>b. bucket_Snapshot (heap hb ! b)) r)) = live"
    using assms r(2) by (auto simp: ring_ok_def bucket_Snapshot_def)
qed

lemma zdiv_zmod_le: "0 < (c::int) \<Longrightarrow> p div c * c \<le> p"
  using div_mult_mod_eq [of p c] pos_mod_sign [of c p] by linarith

lemma wheelShape_pos:
  assumes "wheelShape period buckets = (t, n)"
  shows "0 < t" "0 < n" "t * int n \<le> (if period \<le> 0 then defaultKeepaliveInterval else period)"
proof -
  define b p where "b = (if buckets < 1 then defaultKeepaliveBuckets else buckets)" and "p = (if period \<le> 0 then defaultKeepaliveInterval else period)"
  define c where "c = (if p < b then 1 else b)"
  have bp: "0 < b" "0 < p" by (auto simp: b_def p_def defaultKeepaliveBuckets_def defaultKeepaliveInterval_def second_def)
  then have c: "0 < c" "c \<le> p" by (auto simp: c_def)
  then have q: "0 < p div c" by (simp add: pos_imp_zdiv_pos_iff)
  then have "(t, n) = (p div c, nat c)"
    using assms unfolding wheelShape_def Let_def b_def [symmetric] p_def [symmetric] c_def [symmetric] by simp
  then show "0 < t" "0 < n" "t * int n \<le> (if period \<le> 0 then defaultKeepaliveInterval else period)"
    using q c zdiv_zmod_le [of c p] unfolding p_def [symmetric] by auto
qed

lemma newRing_ok:
  assumes "0 < n" "newRing n (heap hb) = (hp, r)"
  shows "ring_ok r {} (hb\<lparr>heap := hp\<rparr>)" "\<forall>b \<in> set r. b < length hp" "r \<noteq> []" "length r = n" "length (heap hb) \<le> length hp"
  using assms by (auto simp: newRing_def ring_ok_def nth_append)

lemma ring_ok_cong: "heap hb' = heap hb \<Longrightarrow> bucket_of hb' = bucket_of hb \<Longrightarrow> ring_ok r live hb' = ring_ok r live hb"
  by (simp add: ring_ok_def)

lemma Reconfigure_ok:
  assumes "wheel_ok live hb"
  shows "wheel_ok live (wheel_Reconfigure period buckets hb)"
proof -
  obtain t n where ts: "wheelShape period buckets = (t, n)" by (cases "wheelShape period buckets")
  note T = wheelShape_pos [OF ts]
  show ?thesis
  proof (cases "n = length (ring hb)")
    case True
    then show ?thesis using assms T(1) unfolding wheel_Reconfigure_def ts wheel_ok_def
      by (auto simp: Let_def cong: ring_ok_cong) (simp_all add: ring_ok_def)
  next
    case False
    obtain hp r where nr: "newRing n (heap hb) = (hp, r)" by (cases "newRing n (heap hb)")
    define hb0 subs where "hb0 = hb\<lparr>tickInterval := t, heap := hp\<rparr>" and "subs = concat (map (\<lambda>b. bucket_Snapshot (heap hb ! b)) (ring hb))"
    note M = ring_members [of "ring hb" live hb, folded subs_def]
    note N = newRing_ok [OF T(2) nr]
    have ok: "ring_ok (ring hb) live hb" using assms by (simp add: wheel_ok_def)
    have "ring_ok r {} hb0" using N(1) by (simp add: hb0_def ring_ok_def)
    then have R: "ring_ok r live (redistribute r 0 subs hb0)" using redistribute_ok [of r "{}" hb0 subs 0] M [OF ok] by simp
    have P: "(\<forall>s b. bucket_of (redistribute r 0 subs hb0) s = Some b \<longrightarrow> b < length (heap (redistribute r 0 subs hb0))) \<and>
        tickInterval (redistribute r 0 subs hb0) = t"
    proof -
      have "\<forall>s b. bucket_of hb0 s = Some b \<longrightarrow> b < length (heap hb0)" using assms N(5) by (auto simp: hb0_def wheel_ok_def) fastforce
      moreover have "\<forall>b \<in> set r. b < length (heap hb0)" "tickInterval hb0 = t" using N(2) by (simp_all add: hb0_def)
      ultimately show ?thesis using redistribute_pointers [of hb0 r 0 subs] N(3) by simp
    qed
    have e: "wheel_Reconfigure period buckets hb = (redistribute r 0 subs hb0)\<lparr>ring := r, hand := 0, retick := True\<rparr>"
      using False unfolding wheel_Reconfigure_def ts by (simp add: Let_def nr hb0_def subs_def)
    show ?thesis unfolding e wheel_ok_def using R P N T(1,2) by (simp add: ring_ok_def)
  qed
qed

lemma Add_ok:
  assumes "wheel_ok live hb" "s \<notin> live"
  shows "wheel_ok (insert s live) (wheel_Add s hb)"
proof -
  let ?b = "ring hb ! ((hand hb + length (ring hb) - 1) mod length (ring hb))"
  have b: "?b \<in> set (ring hb)" using assms(1) by (auto simp: wheel_ok_def ring_ok_def)
  have "ring_ok (ring hb) (insert s live) (put_in ?b s hb)" using assms b by (intro put_in_ok) (auto simp: wheel_ok_def)
  moreover have "?b < length (heap hb)" using assms(1) b by (auto simp: wheel_ok_def ring_ok_def)
  moreover have "wheel_Add s hb = put_in ?b s hb" by (simp add: wheel_Add_def Let_def)
  ultimately show ?thesis using assms(1) unfolding wheel_ok_def by (auto simp: put_in_def)
qed

lemma Remove_ok:
  assumes "wheel_ok live hb"
  shows "wheel_ok (live - {s}) (wheel_Remove s hb)"
proof (cases "bucket_of hb s")
  case None
  then have "s \<notin> live" using assms by (auto simp: wheel_ok_def ring_ok_def)
  then show ?thesis using None assms by (simp add: wheel_Remove_def)
next
  case (Some b)
  then have "b < length (heap hb)" using assms by (auto simp: wheel_ok_def)
  then show ?thesis using assms Some unfolding wheel_ok_def ring_ok_def
    by (auto simp: wheel_Remove_def bucket_Remove_def nth_list_update distinct_removeAll)
qed

lemma tick_ok: "wheel_ok live hb \<Longrightarrow> wheel_ok live (fst (tick hb subs))"
  by (auto simp: wheel_ok_def tick_def ring_ok_def)

lemma New_ok: "wheel_ok {} (NewHeartbeater period buckets)"
proof -
  obtain t n where ts: "wheelShape period buckets = (t, n)" by (cases "wheelShape period buckets")
  then show ?thesis using wheelShape_pos [OF ts]
    by (auto simp: NewHeartbeater_def newRing_def wheel_ok_def ring_ok_def)
qed

text \<open>Histories: connections come and go, the settings change, the timer fires.\<close>

datatype wheel_op = WAdd nat | WRemove nat | WReconfigure int int | WTick

fun wheel_step :: "wheel_op \<Rightarrow> Heartbeater \<times> subscribers \<Rightarrow> Heartbeater \<times> subscribers" where
  "wheel_step (WAdd s) (hb, subs) = (wheel_Add s hb, subs)"
| "wheel_step (WRemove s) (hb, subs) = (wheel_Remove s hb, subs)"
| "wheel_step (WReconfigure p b) (hb, subs) = (wheel_Reconfigure p b hb, subs)"
| "wheel_step WTick (hb, subs) = tick hb subs"

text \<open>The connections registered after a history; \<open>None\<close> when one is registered twice.\<close>

fun registered :: "wheel_op list \<Rightarrow> nat set \<Rightarrow> nat set option" where
  "registered [] live = Some live"
| "registered (WAdd s # ops) live = (if s \<in> live then None else registered ops (insert s live))"
| "registered (WRemove s # ops) live = registered ops (live - {s})"
| "registered (_ # ops) live = registered ops live"

lemma history_ok:
  "wheel_ok live hb \<Longrightarrow> registered ops live = Some l \<Longrightarrow> wheel_ok l (fst (fold wheel_step ops (hb, subs)))"
proof (induction ops arbitrary: live hb subs)
  case (Cons op ops)
  show ?case
  proof (cases op)
    case (WAdd s)
    then show ?thesis using Cons.IH [OF Add_ok [OF Cons.prems(1), of s]] Cons.prems(2) by (auto split: if_splits)
  next
    case (WRemove s)
    then show ?thesis using Cons.IH [OF Remove_ok [OF Cons.prems(1), of s]] Cons.prems(2) by simp
  next
    case (WReconfigure p b)
    then show ?thesis using Cons.IH [OF Reconfigure_ok [OF Cons.prems(1)]] Cons.prems(2) by simp
  next
    case WTick
    then show ?thesis using Cons tick_ok [of live hb subs] by (cases "tick hb subs") auto
  qed
qed simp

definition wheel_turn :: "Heartbeater \<Rightarrow> Heartbeater" where
  "wheel_turn hb = hb\<lparr>hand := (hand hb + 1) mod length (ring hb)\<rparr>"

lemma turns: "0 < length (ring hb) \<Longrightarrow> hand hb < length (ring hb) \<Longrightarrow>
  (wheel_turn ^^ k) hb = hb\<lparr>hand := (hand hb + k) mod length (ring hb)\<rparr>"
  by (induction k) (auto simp: wheel_turn_def mod_Suc_eq)

lemma unique_slot:
  fixes h j n :: nat
  assumes "h < n" "j < n"
  shows "\<exists>!k. k < n \<and> (h + k) mod n = j"
proof
  show "(j + n - h) mod n < n \<and> (h + (j + n - h) mod n) mod n = j" using assms by (simp add: mod_add_right_eq)
  fix k
  assume k: "k < n \<and> (h + k) mod n = j"
  show "k = (j + n - h) mod n"
  proof (cases "h + k < n")
    case True
    then have "j = h + k" using k by simp
    then show ?thesis using k by simp
  next
    case False
    then have "(h + k) mod n = (h + k - n) mod n" by (simp add: le_mod_geq)
    moreover have "h + k - n < n" using k assms by linarith
    ultimately have "j = h + k - n" using k by simp
    then show ?thesis using k assms False by simp
  qed
qed

lemma front_unique:
  assumes "wheel_ok live hb" "s \<in> live"
  shows "\<exists>!k. k < length (ring hb) \<and> s \<in> set (tick_front ((wheel_turn ^^ k) hb))"
proof -
  let ?n = "length (ring hb)"
  have n: "0 < ?n" "hand hb < ?n" using assms(1) by (auto simp: wheel_ok_def)
  obtain j where j: "j < ?n" "bucket_of hb s = Some (ring hb ! j)"
    using assms by (auto simp: wheel_ok_def ring_ok_def in_set_conv_nth) (metis in_set_conv_nth)
  have "s \<in> set (tick_front ((wheel_turn ^^ k) hb)) \<longleftrightarrow> (hand hb + k) mod ?n = j" for k
  proof -
    have m: "(hand hb + k) mod ?n < ?n" using n by simp
    have "s \<in> set (heap hb ! (ring hb ! ((hand hb + k) mod ?n))) \<longleftrightarrow> ring hb ! ((hand hb + k) mod ?n) = ring hb ! j"
      using assms j m by (auto simp: wheel_ok_def ring_ok_def)
    also have "\<dots> \<longleftrightarrow> (hand hb + k) mod ?n = j"
      using assms(1) m j(1) by (auto simp: wheel_ok_def ring_ok_def nth_eq_iff_index_eq)
    finally show ?thesis using turns [OF n] by (simp add: tick_front_def)
  qed
  then show ?thesis using unique_slot [OF n(2) j(1)] by simp
qed


lemma redistribute_tick [simp]: "tickInterval (redistribute r i subs hb) = tickInterval hb"
  by (induction r i subs hb rule: redistribute.induct) (simp_all add: put_in_def)

lemma Reconfigure_ring:
  assumes "wheelShape p b = (t, n)"
  shows "tickInterval (wheel_Reconfigure p b hb) = t \<and> length (ring (wheel_Reconfigure p b hb)) = n"
  using assms by (auto simp: wheel_Reconfigure_def Let_def newRing_def split: prod.split)

lemma Reconfigure_shape:
  "tickInterval (wheel_Reconfigure p b hb) * int (length (ring (wheel_Reconfigure p b hb))) \<le> (if p \<le> 0 then defaultKeepaliveInterval else p)"
proof -
  obtain t n where ts: "wheelShape p b = (t, n)" by (cases "wheelShape p b")
  show ?thesis using Reconfigure_ring [OF ts, of hb] wheelShape_pos(3) [OF ts] by simp
qed

lemma first_keepalive:
  assumes "wheel_ok live hb" "s \<notin> live" "k < length (ring hb)"
  shows "s \<in> set (tick_front ((wheel_turn ^^ k) (wheel_Add s hb))) \<longleftrightarrow> k = length (ring hb) - 1"
proof -
  let ?n = "length (ring hb)" and ?hb = "wheel_Add s hb"
  have n: "0 < ?n" "hand hb < ?n" using assms(1) by (auto simp: wheel_ok_def)
  have f: "ring ?hb = ring hb" "hand ?hb = hand hb" "bucket_of ?hb s = Some (ring hb ! ((hand hb + ?n - 1) mod ?n))"
    by (simp_all add: wheel_Add_def put_in_def Let_def)
  note ok = Add_ok [OF assms(1,2)]
  have a: "s \<in> set (tick_front ((wheel_turn ^^ (?n - 1)) ?hb))"
  proof -
    let ?j = "(hand hb + ?n - 1) mod ?n"
    have "ring hb ! ?j \<in> set (ring ?hb)" using n f by simp
    then have "s \<in> set (heap ?hb ! (ring hb ! ?j))" using ok f by (auto simp: wheel_ok_def ring_ok_def)
    moreover have "tick_front ((wheel_turn ^^ (?n - 1)) ?hb) = heap ?hb ! (ring hb ! ?j)"
      using turns [of ?hb "?n - 1"] n f by (simp add: tick_front_def)
    ultimately show ?thesis by simp
  qed
  have "\<exists>!k. k < length (ring ?hb) \<and> s \<in> set (tick_front ((wheel_turn ^^ k) ?hb))" by (rule front_unique [OF ok]) simp
  with a n assms(3) show ?thesis unfolding f by (metis diff_less zero_less_one)
qed


text \<open>C31. The keepalive wheel over every history of connections coming and going (each registered once at a time),
  settings reloads and ticks: the tick is positive and one turn of the ring fits the configured period; every
  registered connection is in exactly one bucket of the current ring, none is lost by a reload, and nobody else
  is in one; in one turn of the ring each registered connection is written exactly once, and one just added is
  written by the last tick of the turn, so it gets a full period first. A tick sends every connection of its
  bucket one keepalive and touches no other.\<close>

theorem wheel_period:
  assumes "registered ops {} = Some live"
    "(hb, subs) = fold wheel_step ops (NewHeartbeater period buckets, start)"
  shows "0 < tickInterval hb \<and>
    (\<forall>p b. tickInterval (wheel_Reconfigure p b hb) * int (length (ring (wheel_Reconfigure p b hb)))
       \<le> (if p \<le> 0 then defaultKeepaliveInterval else p)) \<and>
    (\<forall>s. (\<exists>b \<in> set (ring hb). s \<in> set (heap hb ! b)) \<longleftrightarrow> s \<in> live) \<and>
    wheel_Len hb = card live \<and>
    (\<forall>s \<in> live. \<exists>!k. k < length (ring hb) \<and> s \<in> set (tick_front ((wheel_turn ^^ k) hb))) \<and>
    (\<forall>s k. s \<notin> live \<longrightarrow> k < length (ring hb) \<longrightarrow>
       (s \<in> set (tick_front ((wheel_turn ^^ k) (wheel_Add s hb))) \<longleftrightarrow> k = length (ring hb) - 1)) \<and>
    fst (tick hb subs) = wheel_turn hb \<and>
    (\<forall>s. snd (tick hb subs) s =
       (if s \<in> set (tick_front hb) then snd (Send \<lparr>frame_kind = KindKeepalive, Data = comment hb\<rparr> (subs s)) else subs s))"
proof -
  have "wheel_ok live (fst (hb, subs))" unfolding assms(2) by (rule history_ok [OF New_ok assms(1)])
  then have ok: "wheel_ok live hb" by simp
  have r: "ring_ok (ring hb) live hb" "0 < length (ring hb)" "hand hb < length (ring hb)" using ok by (auto simp: wheel_ok_def)
  have len: "wheel_Len hb = card live"
    using ring_members [OF r(1)] distinct_card [of "concat (map (\<lambda>b. bucket_Snapshot (heap hb ! b)) (ring hb))"]
    by (simp add: wheel_Len_def bucket_Snapshot_def length_concat comp_def)
  have front: "ring hb ! hand hb \<in> set (ring hb)" using r by simp
  then have d: "distinct (tick_front hb)" using r(1) by (auto simp: ring_ok_def tick_front_def)
  have mem: "(\<exists>b \<in> set (ring hb). s \<in> set (heap hb ! b)) \<longleftrightarrow> s \<in> live" for s using r(1) by (auto simp: ring_ok_def)
  have "0 < tickInterval hb" using ok by (simp add: wheel_ok_def)
  then show ?thesis
    using len mem front_unique [OF ok] first_keepalive [OF ok] Reconfigure_shape Push_apply [OF d]
    by (simp add: tick_def wheel_turn_def)
qed

theorem wheel_period_witness:
  "\<exists>!k. k < length (ring (fst (fold wheel_step [WAdd 7, WAdd 8, WTick, WReconfigure second 2, WRemove 8] (NewHeartbeater (30 * second) 3, \<lambda>_. newSubscriber 4)))) \<and>
    7 \<in> set (tick_front ((wheel_turn ^^ k) (fst (fold wheel_step [WAdd 7, WAdd 8, WTick, WReconfigure second 2, WRemove 8] (NewHeartbeater (30 * second) 3, \<lambda>_. newSubscriber 4)))))"
proof -
  let ?ops = "[WAdd 7, WAdd 8, WTick, WReconfigure second 2, WRemove 8]"
  obtain hb subs where e: "(hb, subs) = fold wheel_step ?ops (NewHeartbeater (30 * second) 3, \<lambda>_. newSubscriber 4)"
    by (metis surj_pair)
  have "registered ?ops {} = Some {7}" by auto
  from wheel_period [OF this e] have "\<exists>!k. k < length (ring hb) \<and> 7 \<in> set (tick_front ((wheel_turn ^^ k) hb))" by simp
  then show ?thesis unfolding e [symmetric] by simp
qed

end
