(* ===== verification/Discovery.thy ===== *)
theory Discovery
  imports Rowfilter Gotime
begin

text \<open>
  Table schemas and the checks on ingested rows (\<^verbatim>\<open>internal/discovery/discovery.go\<close> and \<^verbatim>\<open>validation.go\<close>): columns,
  which of them a row may carry, type compatibility, and the storage model of a numeric column read off the
  text of its ClickHouse type. Reading the schema from ClickHouse is not part of the model.
\<close>

section \<open>Schemas\<close>

text \<open>A zone is how it reads a civil time: seconds since the epoch as the clock on the wall has them, to Unix
  seconds.\<close>

type_synonym zone = "int \<Rightarrow> int"

record timestampSpec =
  precision :: nat
  isDT64 :: bool
  loc :: "zone option"

record SchemaColumn =
  Name :: string
  ch_Type :: string
  IsNullable :: bool
  HasDefault :: bool
  DefaultKind :: string
  DefaultExpression :: string
  Position :: int
  tsSpec :: "timestampSpec option"

record TableSchema =
  table_Name :: string
  Columns :: "SchemaColumn list"
  DDL :: string

definition columnNames :: "SchemaColumn list \<Rightarrow> string list" where
  "columnNames cols = map Name cols"

definition ColumnNames :: "TableSchema \<Rightarrow> string list" where
  "ColumnNames ts = columnNames (Columns ts)"

definition IsInsertable :: "SchemaColumn \<Rightarrow> bool" where
  "IsInsertable c \<longleftrightarrow> DefaultKind c \<noteq> ''MATERIALIZED'' \<and> DefaultKind c \<noteq> ''ALIAS''"

definition computeInsertable :: "SchemaColumn list \<Rightarrow> SchemaColumn list" where
  "computeInsertable cols = filter IsInsertable cols"

text \<open>The memo \<^verbatim>\<open>cacheInsertable\<close> fills is what is computed without it.\<close>

definition InsertableColumns :: "TableSchema \<Rightarrow> SchemaColumn list" where
  "InsertableColumns ts = computeInsertable (Columns ts)"

definition InsertableColumnNames :: "TableSchema \<Rightarrow> string list" where
  "InsertableColumnNames ts = columnNames (InsertableColumns ts)"

definition schema_Lookup :: "string \<Rightarrow> TableSchema \<Rightarrow> SchemaColumn option" where
  "schema_Lookup name ts = List.find (\<lambda>c. Name c = name) (Columns ts)"

definition isNullable :: "string \<Rightarrow> bool" where
  "isNullable chType \<longleftrightarrow> length chType > 9 \<and> take 9 chType = ''Nullable(''"

text \<open>What a refresh noticed: tables new, gone and changed, each sorted.\<close>

definition sameColumn :: "SchemaColumn \<Rightarrow> SchemaColumn \<Rightarrow> bool" where
  "sameColumn a b \<longleftrightarrow> Name a = Name b \<and> ch_Type a = ch_Type b \<and> DefaultKind a = DefaultKind b \<and>
     DefaultExpression a = DefaultExpression b \<and> Position a = Position b"

definition schemaChanges :: "(string \<times> TableSchema) list \<Rightarrow> (string \<times> TableSchema) list \<Rightarrow> string list \<times> string list \<times> string list" where
  "schemaChanges prev nxt =
     (sort (map fst (filter (\<lambda>(n, ts). map_of prev n = None) nxt)),
      sort (map fst (filter (\<lambda>(n, ts). map_of nxt n = None) prev)),
      sort (map fst (filter (\<lambda>(n, ts). case map_of prev n of
          None \<Rightarrow> False
        | Some old \<Rightarrow> \<not> list_all2 sameColumn (Columns old) (Columns ts) \<or>
            (DDL old \<noteq> '''' \<and> DDL ts \<noteq> '''' \<and> DDL old \<noteq> DDL ts)) nxt)))"

definition clampBackoff :: "int \<Rightarrow> int \<Rightarrow> int \<times> int" where
  "clampBackoff initial mx = (let initial = (if initial \<le> 0 then 10 ^ 9 else initial) in (initial, max mx initial))"

section \<open>Reading ClickHouse types\<close>

text \<open>\<^verbatim>\<open>unwrapType\<close>: the loop shortens the text each time round.\<close>

definition wrapped :: "string \<Rightarrow> string \<Rightarrow> bool" where
  "wrapped p s \<longleftrightarrow> prefix p s \<and> suffix '')'' s"

function unwrapType :: "string \<Rightarrow> string" where
  "unwrapType s =
     (if wrapped ''Nullable('' s then unwrapType (take (length s - 10) (drop 9 s))
      else if wrapped ''LowCardinality('' s then unwrapType (take (length s - 16) (drop 15 s))
      else s)"
  by pat_completeness auto
termination
  by (relation "measure length") (auto simp: wrapped_def prefix_def)

declare unwrapType.simps [simp del]

definition isNumericType :: "string \<Rightarrow> bool" where
  "isNumericType t \<longleftrightarrow>
     t \<in> {''UInt8'', ''UInt16'', ''UInt32'', ''UInt64'', ''UInt128'', ''UInt256''} \<or>
     t \<in> {''Int8'', ''Int16'', ''Int32'', ''Int64'', ''Int128'', ''Int256''} \<or>
     t \<in> {''Float32'', ''Float64''} \<or> prefix ''Decimal'' t"

definition IsNumericType :: "string \<Rightarrow> bool" where
  "IsNumericType t = isNumericType (unwrapType t)"

definition IsStringType :: "string \<Rightarrow> bool" where
  "IsStringType t \<longleftrightarrow> unwrapType t = ''String''"

definition isTimestampType :: "string \<Rightarrow> bool" where
  "isTimestampType t \<longleftrightarrow> prefix ''DateTime'' (unwrapType t)"

fun is_string :: "jvalue \<Rightarrow> bool" where
  "is_string (VString s) = True" | "is_string _ = False"
fun is_number :: "jvalue \<Rightarrow> bool" where
  "is_number (VFloat f) = True" | "is_number (VNumber s) = True" | "is_number _ = False"
fun is_bool :: "jvalue \<Rightarrow> bool" where
  "is_bool (VBool b) = True" | "is_bool _ = False"
fun is_array :: "jvalue \<Rightarrow> bool" where
  "is_array (VArray xs) = True" | "is_array _ = False"
fun is_object :: "jvalue \<Rightarrow> bool" where
  "is_object (VMap m) = True" | "is_object _ = False"

definition isTypeCompatible :: "string \<Rightarrow> jvalue \<Rightarrow> bool" where
  "isTypeCompatible chType v =
     (let t = unwrapType chType in
      if t = ''String'' \<or> prefix ''FixedString('' t \<or> t = ''UUID'' then is_string v \<or> is_number v \<or> is_bool v
      else if prefix ''DateTime'' t \<or> prefix ''Date'' t then is_string v \<or> is_number v
      else if prefix ''Enum8('' t \<or> prefix ''Enum16('' t then is_string v \<or> is_number v
      else if t = ''IPv4'' \<or> t = ''IPv6'' then is_string v \<or> is_number v
      else if t = ''Bool'' then is_bool v \<or> is_number v \<or> is_string v
      else if isNumericType t then is_number v \<or> is_string v
      else if prefix ''Array('' t then is_array v
      else if prefix ''Map('' t then is_object v
      else if prefix ''Tuple('' t then is_array v \<or> is_object v
      else True)"

section \<open>Validation\<close>

datatype row_error =
    UnknownColumn string
  | NotInsertable string
  | MissingColumn string
  | NullValue string
  | TypeMismatch string

definition check_key :: "TableSchema \<Rightarrow> string \<Rightarrow> row_error option" where
  "check_key schema key =
     (case map_of (map (\<lambda>c. (Name c, c)) (rev (Columns schema))) key of
        None \<Rightarrow> Some (UnknownColumn key)
      | Some col \<Rightarrow> if \<not> IsInsertable col then Some (NotInsertable key) else None)"

definition check_value_of :: "row \<Rightarrow> SchemaColumn \<Rightarrow> row_error option" where
  "check_value_of data col =
     (case map_of data (Name col) of
        None \<Rightarrow> if \<not> IsNullable col \<and> \<not> HasDefault col then Some (MissingColumn (Name col)) else None
      | Some VNil \<Rightarrow> if \<not> IsNullable col \<and> \<not> HasDefault col then Some (NullValue (Name col)) else None
      | Some v \<Rightarrow> if \<not> isTypeCompatible (ch_Type col) v then Some (TypeMismatch (Name col)) else None)"

text \<open>The first failure of a list of checks.\<close>

fun first_failure :: "'e option list \<Rightarrow> 'e option" where
  "first_failure [] = None"
| "first_failure (Some e # xs) = Some e"
| "first_failure (None # xs) = first_failure xs"

definition Validate_row :: "TableSchema \<Rightarrow> row \<Rightarrow> row_error option" where
  "Validate_row schema data =
     first_failure (map (check_key schema \<circ> fst) data @ map (check_value_of data) (Columns schema))"

section \<open>Storage of numeric columns\<close>

record NumericStorage =
  Integer :: bool
  IntBits :: int
  st_Unsigned :: bool
  FloatBits :: int
  st_Precision :: int
  st_Scale :: int

definition zero_storage :: NumericStorage where
  "zero_storage = \<lparr>Integer = False, IntBits = 0, st_Unsigned = False, FloatBits = 0, st_Precision = 0, st_Scale = 0\<rparr>"

definition integerWidth :: "string \<Rightarrow> (int \<times> bool) option" where
  "integerWidth t =
     (let (rest, unsigned) = (case cut_prefix ''UInt'' t of
          Some r \<Rightarrow> (Some r, True)
        | None \<Rightarrow> (cut_prefix ''Int'' t, False)) in
      case rest of
        None \<Rightarrow> None
      | Some r \<Rightarrow>
          (case atoi r of
             None \<Rightarrow> None
           | Some bits \<Rightarrow> if bits \<in> {8, 16, 32, 64, 128, 256} then Some (bits, unsigned) else None))"

definition decimalParams :: "string \<Rightarrow> (int \<times> int) option" where
  "decimalParams t =
     (if CHR ''('' \<notin> set t \<or> \<not> suffix '')'' t then None
      else
        (let pre = takeWhile (\<lambda>c. c \<noteq> CHR ''('') t;
             inner = drop (length pre + 1) t;
             args = split_at (CHR '','') (take (length inner - 1) inner) in
         case atoi (trim_space (last args)) of
           None \<Rightarrow> None
         | Some scale \<Rightarrow>
             (case (if pre = ''Decimal32'' then Some 9
                    else if pre = ''Decimal64'' then Some 18
                    else if pre = ''Decimal128'' then Some 38
                    else if pre = ''Decimal256'' then Some 76
                    else if pre = ''Decimal'' then (if length args \<noteq> 2 then None else atoi (trim_space (args ! 0)))
                    else None) of
                None \<Rightarrow> None
              | Some p \<Rightarrow> if p < 1 \<or> p > 76 \<or> scale < 0 \<or> scale > p then None else Some (p, scale))))"

definition NumericStorageOf :: "string \<Rightarrow> NumericStorage option" where
  "NumericStorageOf chType =
     (let t = unwrapType chType in
      if \<not> isNumericType t then None
      else if t = ''Float32'' then Some (zero_storage\<lparr>FloatBits := 32\<rparr>)
      else if t = ''Float64'' then Some (zero_storage\<lparr>FloatBits := 64\<rparr>)
      else if prefix ''Decimal'' t then
        map_option (\<lambda>(p, s). zero_storage\<lparr>st_Precision := p, st_Scale := s\<rparr>) (decimalParams t)
      else map_option (\<lambda>(b, u). zero_storage\<lparr>Integer := True, IntBits := b, st_Unsigned := u\<rparr>) (integerWidth t))"

text \<open>The storage as the policy evaluator takes it (\<^verbatim>\<open>stream.NumericSpecOf\<close>).\<close>

definition NumericSpecOf :: "NumericStorage \<Rightarrow> NumericSpec" where
  "NumericSpecOf st =
     (if Integer st then \<lparr>Family = NumericInteger, Bits = IntBits st, Unsigned = st_Unsigned st, Precision = 0, Scale = 0\<rparr>
      else if FloatBits st \<noteq> 0 then \<lparr>Family = NumericFloat, Bits = FloatBits st, Unsigned = False, Precision = 0, Scale = 0\<rparr>
      else \<lparr>Family = NumericDecimal, Bits = 0, Unsigned = False, Precision = st_Precision st, Scale = st_Scale st\<rparr>)"

section \<open>Types and their text\<close>

text \<open>The column types validation tells apart, and the text \<^verbatim>\<open>system.columns\<close> has for them. The string of a \<open>ChDateTime\<close> or
  \<open>ChDateTime64\<close> is its arguments with their parentheses, that of an enum its members.\<close>

datatype ch_type =
    ChInt int bool
  | ChFloat int
  | ChDecimal int int
  | ChString
  | ChFixedString nat
  | ChUUID
  | ChDateTime string
  | ChDateTime64 string
  | ChDate
  | ChDate32
  | ChEnum8 string
  | ChEnum16 string
  | ChIPv4
  | ChIPv6
  | ChBool
  | ChArray ch_type
  | ChMap ch_type ch_type
  | ChTuple "ch_type list"
  | ChNullable ch_type
  | ChLowCardinality ch_type

fun ch_render :: "ch_type \<Rightarrow> string" where
  "ch_render (ChInt bits u) = (if u then ''UInt'' else ''Int'') @ itoa (nat bits)"
| "ch_render (ChFloat bits) = ''Float'' @ itoa (nat bits)"
| "ch_render (ChDecimal p s) = ''Decimal('' @ itoa (nat p) @ '', '' @ itoa (nat s) @ '')''"
| "ch_render ChString = ''String''"
| "ch_render (ChFixedString n) = ''FixedString('' @ itoa n @ '')''"
| "ch_render ChUUID = ''UUID''"
| "ch_render (ChDateTime args) = ''DateTime'' @ args"
| "ch_render (ChDateTime64 args) = ''DateTime64'' @ args"
| "ch_render ChDate = ''Date''"
| "ch_render ChDate32 = ''Date32''"
| "ch_render (ChEnum8 members) = ''Enum8('' @ members @ '')''"
| "ch_render (ChEnum16 members) = ''Enum16('' @ members @ '')''"
| "ch_render ChIPv4 = ''IPv4''"
| "ch_render ChIPv6 = ''IPv6''"
| "ch_render ChBool = ''Bool''"
| "ch_render (ChArray t) = ''Array('' @ ch_render t @ '')''"
| "ch_render (ChMap k v) = ''Map('' @ ch_render k @ '', '' @ ch_render v @ '')''"
| "ch_render (ChTuple ts) = ''Tuple('' @ join '', '' (map ch_render ts) @ '')''"
| "ch_render (ChNullable t) = ''Nullable('' @ ch_render t @ '')''"
| "ch_render (ChLowCardinality t) = ''LowCardinality('' @ ch_render t @ '')''"

fun ch_wf :: "ch_type \<Rightarrow> bool" where
  "ch_wf (ChInt bits u) = (bits \<in> {8, 16, 32, 64, 128, 256})"
| "ch_wf (ChFloat bits) = (bits \<in> {32, 64})"
| "ch_wf (ChDecimal p s) = (1 \<le> p \<and> p \<le> 76 \<and> 0 \<le> s \<and> s \<le> p)"
| "ch_wf (ChNullable t) = ch_wf t"
| "ch_wf (ChLowCardinality t) = ch_wf t"
| "ch_wf _ = True"

fun ch_storage :: "ch_type \<Rightarrow> NumericStorage option" where
  "ch_storage (ChInt bits u) = Some (zero_storage\<lparr>Integer := True, IntBits := bits, st_Unsigned := u\<rparr>)"
| "ch_storage (ChFloat bits) = Some (zero_storage\<lparr>FloatBits := bits\<rparr>)"
| "ch_storage (ChDecimal p s) = Some (zero_storage\<lparr>st_Precision := p, st_Scale := s\<rparr>)"
| "ch_storage (ChNullable t) = ch_storage t"
| "ch_storage (ChLowCardinality t) = ch_storage t"
| "ch_storage _ = None"

text \<open>The JSON kinds a column of each type takes.\<close>

fun ch_takes :: "ch_type \<Rightarrow> jvalue \<Rightarrow> bool" where
  "ch_takes (ChNullable t) v = ch_takes t v"
| "ch_takes (ChLowCardinality t) v = ch_takes t v"
| "ch_takes ChString v = (is_string v \<or> is_number v \<or> is_bool v)"
| "ch_takes (ChFixedString n) v = (is_string v \<or> is_number v \<or> is_bool v)"
| "ch_takes ChUUID v = (is_string v \<or> is_number v \<or> is_bool v)"
| "ch_takes ChBool v = (is_string v \<or> is_number v \<or> is_bool v)"
| "ch_takes (ChArray t) v = is_array v"
| "ch_takes (ChMap k t) v = is_object v"
| "ch_takes (ChTuple ts) v = (is_array v \<or> is_object v)"
| "ch_takes _ v = (is_string v \<or> is_number v)"

fun ch_core :: "ch_type \<Rightarrow> ch_type" where
  "ch_core (ChNullable t) = ch_core t"
| "ch_core (ChLowCardinality t) = ch_core t"
| "ch_core t = t"

text \<open>A storage model the comparison can work with.\<close>

definition spec_sound :: "NumericSpec \<Rightarrow> bool" where
  "spec_sound n \<longleftrightarrow> (case Family n of
      NumericInteger \<Rightarrow> intBounds (Bits n) \<noteq> None
    | NumericFloat \<Rightarrow> Bits n \<in> {32, 64}
    | NumericDecimal \<Rightarrow> 1 \<le> Precision n \<and> Precision n \<le> 76 \<and> 0 \<le> Scale n \<and> Scale n \<le> Precision n
    | NumericNone \<Rightarrow> False)"

lemma unwrap_Nullable: "unwrapType (''Nullable('' @ s @ '')'') = unwrapType s"
  by (subst unwrapType.simps) (simp add: wrapped_def suffix_def)

lemma unwrap_LowCardinality: "unwrapType (''LowCardinality('' @ s @ '')'') = unwrapType s"
  by (subst unwrapType.simps) (simp add: wrapped_def suffix_def)

lemma unwrap_base: "\<not> prefix ''N'' s \<Longrightarrow> \<not> prefix ''L'' s \<Longrightarrow> unwrapType s = s"
  by (subst unwrapType.simps) (auto simp: wrapped_def prefix_def)

lemma space_runes_no_digit: "list_all (\<lambda>e. e \<noteq> [] \<and> \<not> is_digit (hd e) \<and> \<not> is_digit (last e)) space_runes"
  by code_simp

lemma trim_left_digit:
  assumes "is_digit c"
  shows "trim_left_space (c # cs) = c # cs"
proof -
  have "\<not> prefix e (c # cs)" if "e \<in> set space_runes" for e
  proof -
    have "e \<noteq> []" "\<not> is_digit (hd e)" using that space_runes_no_digit unfolding list_all_iff by blast+
    then show ?thesis using assms by (cases e) auto
  qed
  then show ?thesis by (subst trim_left_space.simps) (simp add: find_None_iff [THEN iffD2])
qed

lemma trim_right_digit:
  assumes "s \<noteq> []" "is_digit (last s)"
  shows "trim_right_space s = s"
proof -
  have "\<not> suffix e s" if "e \<in> set space_runes" for e
    using that space_runes_no_digit assms by (auto simp: list_all_iff suffix_def)
  then show ?thesis by (subst trim_right_space.simps) (simp add: find_None_iff [THEN iffD2])
qed

lemma trim_left_blank: "trim_left_space (CHR '' '' # s) = trim_left_space s"
proof -
  have "List.find (\<lambda>e. prefix e (CHR '' '' # s)) space_runes = Some '' ''" by (simp add: space_runes_def)
  then show ?thesis by (subst trim_left_space.simps) simp
qed

lemma itoa_last_digit: "is_digit (last (itoa n))"
  using itoa_digits [of n] by (simp add: list_all_iff)

lemma trim_itoa [simp]: "trim_space (itoa n) = itoa n" "trim_space (CHR '' '' # itoa n) = itoa n"
proof -
  obtain c cs where i: "itoa n = c # cs" by (cases "itoa n") auto
  then have "is_digit c" using itoa_digits [of n] by simp
  then show "trim_space (itoa n) = itoa n" "trim_space (CHR '' '' # itoa n) = itoa n"
    using trim_left_digit [of c cs] trim_right_digit [of "itoa n"] itoa_last_digit [of n] i
    by (simp_all add: trim_space_def trim_left_blank)
qed

lemma split_at_plain: "c \<notin> set a \<Longrightarrow> split_at c a = [a]"
  by (induction a) auto


lemma itoa_no_byte: "\<not> is_digit c \<Longrightarrow> c \<notin> set (itoa n)"
  using itoa_digit_set by blast

lemma atoi_itoa: "n < 2 ^ 63 \<Longrightarrow> atoi (itoa n) = Some (int n)"
proof -
  obtain c cs where i: "itoa n = c # cs" by (cases "itoa n") auto
  have d: "is_digit c" using itoa_digits [of n] i by simp
  then have "c \<noteq> CHR ''-''" "c \<noteq> CHR ''+''" by (auto simp: is_digit_def)
  then have "set_string (itoa n) = Some (int n)"
    using itoa_digits [of n] digits_val_itoa [of n] i by (simp add: set_string_def parse_digits_def)
  then show "n < 2 ^ 63 \<Longrightarrow> atoi (itoa n) = Some (int n)" by (simp add: atoi_def)
qed

lemma decimal_read:
  assumes "1 \<le> p" "p \<le> 76" "0 \<le> s" "s \<le> p"
  shows "decimalParams (ch_render (ChDecimal p s)) = Some (p, s)"
proof -
  define body where "body = itoa (nat p) @ CHR '','' # CHR '' '' # itoa (nat s)"
  have t: "ch_render (ChDecimal p s) = ''Decimal'' @ CHR ''('' # body @ '')''" by (simp add: body_def)
  have pre: "takeWhile (\<lambda>c. c \<noteq> CHR ''('') (''Decimal'' @ CHR ''('' # body @ '')'') = ''Decimal''" by simp
  have args: "split_at (CHR '','') body = [itoa (nat p), CHR '' '' # itoa (nat s)]"
    unfolding body_def using split_at_append [OF itoa_no_byte [of "CHR '',''" "nat p"]]
      split_at_plain [of "CHR '',''" "CHR '' '' # itoa (nat s)"] itoa_no_byte [of "CHR '',''" "nat s"]
    by (simp add: is_digit_def)
  have a: "atoi (itoa (nat p)) = Some p" "atoi (itoa (nat s)) = Some s" using assms atoi_itoa [of "nat p"] atoi_itoa [of "nat s"] by simp_all
  show ?thesis
    unfolding t decimalParams_def Let_def pre using assms by (simp add: args a suffix_def)
qed

lemma int_text: "bits \<in> {8, 16, 32, 64, 128, 256} \<Longrightarrow> unwrapType (ch_render (ChInt bits u)) = ch_render (ChInt bits u) \<and>
    isNumericType (ch_render (ChInt bits u)) \<and> integerWidth (ch_render (ChInt bits u)) = Some (bits, u)"
  by (cases u; elim insertE; simp add: unwrap_base; code_simp)


lemma float_text: "bits \<in> {32, 64} \<Longrightarrow> isNumericType (unwrapType (ch_render (ChFloat bits))) \<and>
    NumericStorageOf (ch_render (ChFloat bits)) = ch_storage (ChFloat bits)"
proof -
  have i: "itoa 32 = ''32''" "itoa 64 = ''64''" by code_simp+
  show "bits \<in> {32, 64} \<Longrightarrow> isNumericType (unwrapType (ch_render (ChFloat bits))) \<and>
    NumericStorageOf (ch_render (ChFloat bits)) = ch_storage (ChFloat bits)"
    using i by (auto simp: unwrap_base NumericStorageOf_def isNumericType_def)
qed

lemma decimal_not_other:
  "prefix ''Decimal'' t \<Longrightarrow> isNumericType t \<and> t \<noteq> ''Float32'' \<and> t \<noteq> ''Float64'' \<and> unwrapType t = t"
  by (auto simp: isNumericType_def prefix_def unwrap_base)

lemma core_bare [simp]: "ch_core t \<noteq> ChNullable x" "ch_core t \<noteq> ChLowCardinality x"
  by (induction t) simp_all

lemma other_text:
  assumes "ch_storage t = None" "ch_core t = t"
  shows "unwrapType (ch_render t) = ch_render t \<and> \<not> isNumericType (ch_render t)"
  using assms by (cases t) (simp_all add: unwrap_base isNumericType_def)

lemma other_storage: "ch_storage t = None \<Longrightarrow> ch_core t = t \<Longrightarrow> NumericStorageOf (ch_render t) = None"
  using other_text [of t] by (simp add: NumericStorageOf_def)

lemma numeric_unwrap: "isNumericType s \<Longrightarrow> unwrapType s = s"
  unfolding isNumericType_def by (elim disjE insertE emptyE; auto simp: unwrap_base prefix_def)

lemma render_core: "ch_wf t \<Longrightarrow> unwrapType (ch_render t) = ch_render (ch_core t) \<and> ch_wf (ch_core t) \<and>
    ch_storage (ch_core t) = ch_storage t \<and> ch_core (ch_core t) = ch_core t \<and> ch_takes (ch_core t) = ch_takes t"
proof (induction t)
  case (ChInt bits u)
  then show ?case using int_text by (simp del: ch_render.simps)
next
  case (ChFloat bits)
  then show ?case by (auto simp: unwrap_base)
next
  case (ChDecimal p s)
  then show ?case by (simp add: unwrap_base)
next
  case (ChNullable t)
  then show ?case by (simp add: unwrap_Nullable fun_eq_iff del: append_Cons append_Nil)
next
  case (ChLowCardinality t)
  then show ?case by (simp add: unwrap_LowCardinality fun_eq_iff del: append_Cons append_Nil)
qed (use other_text in \<open>simp_all del: ch_render.simps\<close>)

lemma render_unwrap: "ch_wf t \<Longrightarrow> NumericStorageOf (ch_render t) = ch_storage t \<and> (isNumericType (unwrapType (ch_render t)) \<longleftrightarrow> ch_storage t \<noteq> None)"
proof (induction t)
  case (ChInt bits u)
  then have i: "unwrapType (ch_render (ChInt bits u)) = ch_render (ChInt bits u)" "isNumericType (ch_render (ChInt bits u))"
    "integerWidth (ch_render (ChInt bits u)) = Some (bits, u)" using int_text by auto
  have "ch_render (ChInt bits u) \<noteq> ''Float32''" "ch_render (ChInt bits u) \<noteq> ''Float64''" "\<not> prefix ''Decimal'' (ch_render (ChInt bits u))"
    by (cases u; simp)+
  with i show ?case unfolding NumericStorageOf_def Let_def by simp
next
  case (ChFloat bits)
  with float_text [of bits] show ?case by simp
next
  case (ChDecimal p s)
  have "prefix ''Decimal'' (ch_render (ChDecimal p s))" by simp
  with decimal_not_other [OF this] decimal_read [of p s] ChDecimal show ?case by (simp only: NumericStorageOf_def Let_def) simp
next
  case (ChNullable t)
  then show ?case by (simp add: unwrap_Nullable NumericStorageOf_def del: append_Cons append_Nil)
next
  case (ChLowCardinality t)
  then show ?case by (simp add: unwrap_LowCardinality NumericStorageOf_def del: append_Cons append_Nil)
qed (use other_text other_storage in \<open>simp_all del: ch_render.simps\<close>)

lemma decimalParams_bounds: "decimalParams t = Some (p, s) \<Longrightarrow> 1 \<le> p \<and> p \<le> 76 \<and> 0 \<le> s \<and> s \<le> p"
  by (auto simp: decimalParams_def Let_def split: if_splits option.splits)

lemma integerWidth_bits: "integerWidth t = Some (b, u) \<Longrightarrow> b \<in> {8, 16, 32, 64, 128, 256}"
  by (auto simp: integerWidth_def Let_def split: if_splits option.splits prod.splits)

lemma NumericStorageOf_sound: "NumericStorageOf s = Some st \<Longrightarrow> spec_sound (NumericSpecOf st)"
  by (auto simp: NumericStorageOf_def Let_def spec_sound_def NumericSpecOf_def zero_storage_def intBounds_def
      dest!: decimalParams_bounds integerWidth_bits split: if_splits)

lemma first_failure_None: "first_failure xs = None \<longleftrightarrow> (\<forall>x \<in> set xs. x = None)"
  by (induction xs rule: first_failure.induct) auto

lemma Validate_row_None:
  "Validate_row schema data = None \<longleftrightarrow> (\<forall>(k, v) \<in> set data. check_key schema k = None) \<and> (\<forall>c \<in> set (Columns schema). check_value_of data c = None)"
  by (simp add: Validate_row_def first_failure_None ball_Un split_def)

lemma check_key_None: "check_key schema k = None \<Longrightarrow> \<exists>c \<in> set (Columns schema). Name c = k \<and> IsInsertable c"
  by (auto simp: check_key_def dest!: map_of_SomeD split: option.splits if_splits)

lemma numeric_distinct:
  assumes "isNumericType s"
  shows "s \<noteq> ''String'' \<and> s \<noteq> ''UUID'' \<and> s \<noteq> ''IPv4'' \<and> s \<noteq> ''IPv6'' \<and> s \<noteq> ''Bool''"
    "\<not> prefix ''FixedString('' s \<and> \<not> prefix ''DateTime'' s \<and> \<not> prefix ''Date'' s \<and> \<not> prefix ''Enum8('' s \<and> \<not> prefix ''Enum16('' s"
  using assms unfolding isNumericType_def by (elim disjE insertE emptyE; auto simp: prefix_def)+

lemma numeric_takes: "ch_storage t = Some st \<Longrightarrow> ch_takes t v \<longleftrightarrow> is_string v \<or> is_number v"
  by (induction t) simp_all

lemma compatible_core:
  assumes "ch_storage t = None" "ch_core t = t" "unwrapType s = ch_render t"
  shows "isTypeCompatible s v \<longleftrightarrow> ch_takes t v"
  using assms by (cases t) (auto simp: isTypeCompatible_def isNumericType_def)

lemma compatible_kinds:
  assumes "ch_wf t"
  shows "isTypeCompatible (ch_render t) v \<longleftrightarrow> ch_takes t v"
proof (cases "ch_storage t")
  case None
  with render_core [OF assms] compatible_core [of "ch_core t" "ch_render t" v] show ?thesis by simp
next
  case (Some st)
  then have n: "isNumericType (unwrapType (ch_render t))" using render_unwrap [OF assms] by simp
  with numeric_distinct [OF n] numeric_takes [OF Some] show ?thesis by (auto simp: isTypeCompatible_def Let_def)
qed


text \<open>C29. Rows and column types. The storage model read off the text of a column type is the type's own, however
  \<^verbatim>\<open>Nullable\<close> and \<^verbatim>\<open>LowCardinality\<close> are nested around it, and any text a model is read off at all gives one the
  comparison can work with. In a row that passes validation every key is a column the table lets a
  record carry; the value of a column, of any type of \<open>ch_type\<close>, is null or of a JSON kind the type takes (\<open>ch_takes\<close>:
  numbers and strings for numeric, date, enum and address types, booleans too for \<^verbatim>\<open>String\<close>, \<^verbatim>\<open>FixedString\<close>, \<^verbatim>\<open>UUID\<close> and
  \<^verbatim>\<open>Bool\<close>, arrays, objects or either for \<^verbatim>\<open>Array\<close>, \<^verbatim>\<open>Map\<close> and \<^verbatim>\<open>Tuple\<close>); and a value is absent or null only where its
  column, of whatever type, is nullable or has a default.\<close>

theorem Validate_types:
  assumes "ch_wf t" "col \<in> set (Columns schema)" "ch_Type col = ch_render t" "Validate_row schema data = None"
  shows "NumericStorageOf (ch_Type col) = ch_storage t \<and> (IsNumericType (ch_Type col) \<longleftrightarrow> ch_storage t \<noteq> None) \<and>
    (\<forall>s st. NumericStorageOf s = Some st \<longrightarrow> spec_sound (NumericSpecOf st)) \<and>
    (\<forall>(k, v) \<in> set data. \<exists>c \<in> set (Columns schema). Name c = k \<and> IsInsertable c) \<and>
    (\<forall>v. map_of data (Name col) = Some v \<longrightarrow> v \<noteq> VNil \<longrightarrow> ch_takes t v) \<and>
    (\<forall>c \<in> set (Columns schema). map_of data (Name c) \<in> {None, Some VNil} \<longrightarrow> IsNullable c \<or> HasDefault c)"
proof -
  from assms(4) have keys: "\<forall>(k, v) \<in> set data. check_key schema k = None" and v: "check_value_of data col = None"
    and vs: "\<forall>c \<in> set (Columns schema). check_value_of data c = None"
    using assms(2) by (auto simp: Validate_row_None)
  have "isTypeCompatible (ch_Type col) v" if "map_of data (Name col) = Some v" "v \<noteq> VNil" for v
    using \<open>check_value_of data col = None\<close> that by (cases v) (auto simp: check_value_of_def split: if_splits)
  with compatible_kinds [OF assms(1)] assms(3)
  have "\<forall>v. map_of data (Name col) = Some v \<longrightarrow> v \<noteq> VNil \<longrightarrow> ch_takes t v" by auto
  moreover have "\<forall>c \<in> set (Columns schema). map_of data (Name c) \<in> {None, Some VNil} \<longrightarrow> IsNullable c \<or> HasDefault c"
    using vs by (fastforce simp: check_value_of_def split: if_splits option.splits)
  moreover have "\<forall>(k, v) \<in> set data. \<exists>c \<in> set (Columns schema). Name c = k \<and> IsInsertable c" using keys check_key_None by blast
  ultimately show ?thesis using render_unwrap [OF assms(1)] NumericStorageOf_sound assms(3) by (simp add: IsNumericType_def)
qed

theorem Validate_types_witness:
  "NumericStorageOf ''LowCardinality(Nullable(Decimal(9, 2)))'' = Some (zero_storage\<lparr>st_Precision := 9, st_Scale := 2\<rparr>)"
proof -
  let ?t = "ChLowCardinality (ChNullable (ChDecimal 9 2))"
  have r: "ch_render ?t = ''LowCardinality(Nullable(Decimal(9, 2)))''" by code_simp
  define col where "col = \<lparr>Name = ''price'', ch_Type = ch_render ?t, IsNullable = True, HasDefault = False, DefaultKind = [],
    DefaultExpression = [], Position = 1, tsSpec = None\<rparr>"
  define schema where "schema = \<lparr>table_Name = ''t'', Columns = [col], DDL = []\<rparr>"
  have c: "ch_wf ?t" "col \<in> set (Columns schema)" "ch_Type col = ch_render ?t" by (simp_all add: schema_def col_def)
  have "Validate_row schema [(''price'', VNil)] = None"
    by (simp add: Validate_row_def check_key_def check_value_of_def schema_def col_def IsInsertable_def)
  from Validate_types [OF c this, THEN conjunct1] show ?thesis unfolding c(3) r by simp
qed

end
