(* ===== verification/Timestamp.thy ===== *)
theory Timestamp
  imports Discovery
begin

text \<open>
  Timestamps of ingested rows (\<^verbatim>\<open>internal/discovery/timestamp.go\<close>): which spellings are read, as which instant, and
  the canonical form they are rewritten to before the row is published. Time zones are arguments: a zone is
  a function from civil to Unix seconds, \<open>load\<close> the zone database.
\<close>

section \<open>Columns\<close>

datatype ts_error = NoPrecision | BadPrecision | UnknownZone

definition loadLocation :: "(string \<Rightarrow> zone option) \<Rightarrow> string \<Rightarrow> zone option" where
  "loadLocation load name =
     (if name = ''Etc/UTC'' then Some (\<lambda>s. s)
      else if name = '''' \<or> name = ''Local'' then None
      else load name)"

definition trim_quotes :: "string \<Rightarrow> string" where
  "trim_quotes s = rev (dropWhile (\<lambda>c. c = CHR 0x27) (rev (dropWhile (\<lambda>c. c = CHR 0x27) s)))"

definition type_args :: "string \<Rightarrow> string \<times> string list" where
  "type_args t =
     (if CHR ''('' \<in> set t \<and> suffix '')'' t then
        (let pre = takeWhile (\<lambda>c. c \<noteq> CHR ''('') t; inner = drop (length pre + 1) t in
         (pre, map trim_space (split_at (CHR '','') (take (length inner - 1) inner))))
      else (t, []))"

definition resolveTimestampSpec :: "(string \<Rightarrow> zone option) \<Rightarrow> string \<Rightarrow> zone option \<Rightarrow> ts_error + timestampSpec" where
  "resolveTimestampSpec load chType serverTZ =
     (case type_args (unwrapType chType) of (t, args) \<Rightarrow>
       (let finish = (\<lambda>p dt args.
              if args = [] then Inr \<lparr>precision = p, isDT64 = dt, loc = serverTZ\<rparr>
              else case loadLocation load (trim_quotes (hd args)) of
                None \<Rightarrow> Inl UnknownZone
              | Some z \<Rightarrow> Inr \<lparr>precision = p, isDT64 = dt, loc = Some z\<rparr>) in
        if t = ''DateTime64'' then
          (if args = [] then Inl NoPrecision
           else case atoi (hd args) of
             None \<Rightarrow> Inl BadPrecision
           | Some p \<Rightarrow> if p < 0 \<or> p > 9 then Inl BadPrecision else finish (nat p) True (tl args))
        else finish 0 False args))"

definition resolveTimestampSpecs :: "(string \<Rightarrow> zone option) \<Rightarrow> zone option \<Rightarrow> TableSchema \<Rightarrow> TableSchema" where
  "resolveTimestampSpecs load serverTZ ts =
     ts\<lparr>Columns := map (\<lambda>col.
        if \<not> isTimestampType (ch_Type col) then col
        else case resolveTimestampSpec load (ch_Type col) serverTZ of
          Inl e \<Rightarrow> col
        | Inr spec \<Rightarrow> col\<lparr>tsSpec := Some spec\<rparr>) (Columns ts)\<rparr>"

section \<open>Reading\<close>

definition dtMin :: int where "dtMin = 0"
definition dtMax :: int where "dtMax = (4294967295 - 86400) * 10 ^ 9"
definition dt64Min :: int where "dt64Min = days_from_civil 1900 1 2 * 86400 * 10 ^ 9"
definition dt64Max :: int where "dt64Max = (days_from_civil 2299 12 30 * 86400 + 86399) * 10 ^ 9"
definition ns64Max :: int where "ns64Max = (days_from_civil 2262 4 10 * 86400 + 86399) * 10 ^ 9"

definition rewritable :: "timestampSpec \<Rightarrow> int \<Rightarrow> bool" where
  "rewritable s t =
     (let lo = (if isDT64 s then dt64Min else dtMin);
          hi = (if isDT64 s then (if precision s \<ge> 7 then ns64Max else dt64Max) else dtMax) in
      lo \<le> t \<and> t \<le> hi)"

definition isDigits :: "string \<Rightarrow> bool" where
  "isDigits s = list_all is_digit s"

definition unixNumber :: "int \<Rightarrow> timestampSpec \<Rightarrow> int option" where
  "unixNumber n spec =
     (if n < 0 then None
      else if \<not> isDT64 spec then Some (n * 10 ^ 9)
      else (let scale = 10 ^ precision spec in Some (n div scale * 10 ^ 9 + n mod scale * (10 ^ 9 div scale))))"

definition parseUnixDigits :: "string \<Rightarrow> bool \<Rightarrow> int option" where
  "parseUnixDigits s dt64 =
     (case cut_byte (CHR ''.'') s of (intPart, fracPart, hasFrac) \<Rightarrow>
       (if length intPart < 9 \<or> length intPart > 10 \<or> \<not> isDigits intPart then None
        else if hasFrac \<and> (\<not> dt64 \<or> fracPart = '''' \<or> \<not> isDigits fracPart) then None
        else (let f = take 9 fracPart in
              Some (int (digits_val intPart) * 10 ^ 9 + (if hasFrac then int (digits_val f) * 10 ^ (9 - length f) else 0)))))"

text \<open>\<^verbatim>\<open>time.ParseInLocation\<close> with the three zone-less layouts: a separator and a clock after the date, or nothing.\<close>

definition parse_local :: "zone \<Rightarrow> char option \<Rightarrow> string \<Rightarrow> int option" where
  "parse_local z sep s =
     Option.bind (get_date s) (\<lambda>(y, mo, d, r).
       (if \<not> (1 \<le> mo \<and> mo \<le> 12 \<and> 1 \<le> d \<and> d \<le> days_in mo y) then None
        else case sep of
          None \<Rightarrow> if r = [] then Some (z (days_from_civil y mo d * 86400) * 10 ^ 9) else None
        | Some c \<Rightarrow>
            Option.bind (expect c r) (\<lambda>r.
            Option.bind (get_clock r) (\<lambda>(h, mi, sec, r).
              (case get_fraction r of (ns, r) \<Rightarrow>
                 if r = [] \<and> h < 24 \<and> mi < 60 \<and> sec < 60
                 then Some (z (((days_from_civil y mo d * 24 + h) * 60 + mi) * 60 + sec) * 10 ^ 9 + ns)
                 else None)))))"

fun first_some :: "'a option list \<Rightarrow> 'a option" where
  "first_some [] = None"
| "first_some (Some x # xs) = Some x"
| "first_some (None # xs) = first_some xs"

definition parse_text :: "timestampSpec \<Rightarrow> string \<Rightarrow> int option" where
  "parse_text spec x =
     (if CHR '','' \<in> set x then None
      else first_some
        ([parse_rfc3339 x] @
         (case loc spec of
            Some z \<Rightarrow> [parse_local z (Some (CHR '' '')) x, parse_local z (Some (CHR ''T'')) x, parse_local z None x]
          | None \<Rightarrow> []) @
         [parseUnixDigits x (isDT64 spec)]))"

fun parseTimestamp :: "timestampSpec \<Rightarrow> jvalue \<Rightarrow> int option" where
  "parseTimestamp spec (VString x) = parse_text spec x"
| "parseTimestamp spec (VFloat f) =
     (case float_of_bits f of
        Finite neg q \<Rightarrow>
          if q \<noteq> of_int \<lfloor>q\<rfloor> \<or> q > 2 ^ 53 then None else unixNumber ((if neg then - 1 else 1) * \<lfloor>q\<rfloor>) spec
      | _ \<Rightarrow> None)"
| "parseTimestamp spec (VNumber s) =
     (if \<not> isDigits s then None
      else case parse_digits s of
        None \<Rightarrow> None
      | Some n \<Rightarrow> if int n < 2 ^ 63 then unixNumber (int n) spec else None)"
| "parseTimestamp spec v = None"

section \<open>The canonical form\<close>

definition unit_of :: "nat \<Rightarrow> int" where
  "unit_of p = 10 ^ 9 div 10 ^ p"

text \<open>\<^verbatim>\<open>t.UTC().Format(time.RFC3339Nano)\<close>.\<close>

definition format_rfc3339 :: "int \<Rightarrow> string" where
  "format_rfc3339 t =
     (let secs = t div 10 ^ 9; ns = t mod 10 ^ 9; sod = secs mod 86400; fr = strip_zeros (pad 9 ns) in
      case civil_from_days (secs div 86400) of (y, m, d) \<Rightarrow>
        pad 4 y @ ''-'' @ pad 2 m @ ''-'' @ pad 2 d @ ''T'' @
        pad 2 (sod div 3600) @ '':'' @ pad 2 (sod div 60 mod 60) @ '':'' @ pad 2 (sod mod 60) @
        (if fr = [] then '''' else ''.'' @ fr) @ ''Z'')"

definition canonicalTimestamp :: "int \<Rightarrow> nat \<Rightarrow> string" where
  "canonicalTimestamp t p = format_rfc3339 (time_truncate t (unit_of p))"

definition TimeParser :: "SchemaColumn \<Rightarrow> (jvalue \<Rightarrow> int option) option" where
  "TimeParser c =
     (case tsSpec c of
        None \<Rightarrow> None
      | Some spec \<Rightarrow> Some (\<lambda>v. case parseTimestamp spec v of
            None \<Rightarrow> None
          | Some t \<Rightarrow> if \<not> rewritable spec t then None else Some (time_truncate t (unit_of (precision spec)))))"

text \<open>A map assignment: the value of a key that is present.\<close>

definition assign :: "string \<Rightarrow> jvalue \<Rightarrow> row \<Rightarrow> row" where
  "assign k v data = map (\<lambda>(k', v'). (k', if k' = k then v else v')) data"

definition canonicalize_column :: "SchemaColumn \<Rightarrow> row \<Rightarrow> row" where
  "canonicalize_column col data =
     (case tsSpec col of
        None \<Rightarrow> data
      | Some spec \<Rightarrow>
          (case map_of data (Name col) of
             None \<Rightarrow> data
           | Some v \<Rightarrow>
               (if v = VNil then data
                else case parseTimestamp spec v of
                  None \<Rightarrow> data
                | Some t \<Rightarrow>
                    if \<not> rewritable spec t then data
                    else assign (Name col) (VString (canonicalTimestamp t (precision spec))) data)))"

definition CanonicalizeTimestamps :: "TableSchema \<Rightarrow> row \<Rightarrow> row" where
  "CanonicalizeTimestamps schema data = fold canonicalize_column (Columns schema) data"

section \<open>The calendar\<close>

text \<open>The years of one 400-year era, counted from March: where each starts, and that the quotient formula finds it.\<close>

definition year_start :: "int \<Rightarrow> int" where
  "year_start q = 365 * q + q div 4 - q div 100"

definition year_end :: "int \<Rightarrow> int" where
  "year_end q = (if q = 399 then 146097 else year_start (q + 1))"

definition year_num :: "int \<Rightarrow> int" where
  "year_num x = x - x div 1460 + x div 36524 - x div 146096"

lemma year_table:
  "list_all (\<lambda>q. year_num (year_start q) div 365 = q \<and> year_num (year_end q - 1) div 365 = q \<and>
     year_end q - year_start q = (if leap (q + 1) then 366 else 365)) [0..399]"
  by code_simp

lemma year_tableD:
  assumes "0 \<le> q" "q \<le> 399"
  shows "year_num (year_start q) div 365 = q" "year_num (year_end q - 1) div 365 = q"
    "year_end q - year_start q = (if leap (q + 1) then 366 else 365)"
  using year_table assms unfolding list_all_iff by auto

lemma month_table:
  "list_all (\<lambda>doy. let mp = (5 * doy + 2) div 153; d = doy - (153 * mp + 2) div 5 + 1; m = (if mp < 10 then mp + 3 else mp - 9) in
     1 \<le> m \<and> m \<le> 12 \<and> (m + 9) mod 12 = mp \<and> 1 \<le> d \<and> d \<le> (if m = 2 then (if doy = 365 then 29 else 28) else days_in m 1)) [0..365]"
  by code_simp

lemma year_num_mono: "0 \<le> x \<Longrightarrow> x \<le> y \<Longrightarrow> y < 146097 \<Longrightarrow> year_num x \<le> year_num y"
proof (induction "nat (y - x)" arbitrary: y)
  case (Suc k)
  have "year_num x \<le> year_num (y - 1)" using Suc by (intro Suc.hyps(1)) auto
  also have "year_num (y - 1) \<le> year_num y"
  proof (cases "y = 146096")
    case True
    then show ?thesis by (simp add: year_num_def)
  next
    case False
    have y: "0 < y" "y < 146096" using Suc False by auto
    then have "y div 146096 = 0" "(y - 1) div 146096 = 0" by (auto intro: div_pos_pos_trivial)
    moreover have "y div 1460 \<le> (y - 1) div 1460 + 1" by linarith
    moreover have "(y - 1) div 36524 \<le> y div 36524" by (simp add: zdiv_mono1)
    ultimately show ?thesis unfolding year_num_def by linarith
  qed
  finally show ?case .
qed simp


lemma year_exists: "0 \<le> x \<Longrightarrow> x < 146097 \<Longrightarrow> \<exists>q. 0 \<le> q \<and> q \<le> 399 \<and> year_start q \<le> x \<and> x < year_end q"
proof -
  assume x: "0 \<le> x" "x < 146097"
  define q where "q = (GREATEST k. k \<le> (399::nat) \<and> year_start (int k) \<le> x)"
  have z: "(0::nat) \<le> 399 \<and> year_start (int 0) \<le> x" using x by (simp add: year_start_def)
  have q: "q \<le> 399 \<and> year_start (int q) \<le> x"
    unfolding q_def by (rule GreatestI_nat [where b = 399]) (use z in auto)
  have "x < year_end (int q)"
  proof (cases "q = 399")
    case False
    have "\<not> (q + 1 \<le> 399 \<and> year_start (int (q + 1)) \<le> x)"
      using Greatest_le_nat [of "\<lambda>k. k \<le> 399 \<and> year_start (int k) \<le> x" "q + 1" 399] unfolding q_def by auto
    then show ?thesis using q False by (simp add: year_end_def add.commute)
  qed (use x in \<open>simp add: year_end_def\<close>)
  then show ?thesis using q by (intro exI [of _ "int q"]) auto
qed

lemma year_found:
  assumes "0 \<le> x" "x < 146097"
  defines "q \<equiv> year_num x div 365"
  shows "0 \<le> q" "q \<le> 399" "year_start q \<le> x" "x < year_end q"
proof -
  from year_exists [OF assms(1,2)] obtain k where k: "0 \<le> k" "k \<le> 399" "year_start k \<le> x" "x < year_end k" by blast
  have s: "0 \<le> year_start k" using k by (simp add: year_start_def)
  have e: "year_end k - 1 < 146097"
  proof (cases "k = 399")
    case False
    then have "(k + 1) div 4 \<le> 100" "0 \<le> (k + 1) div 100" using k by linarith+
    then show ?thesis using k False unfolding year_end_def year_start_def by simp
  qed (simp add: year_end_def)
  have "year_num (year_start k) \<le> year_num x" "year_num x \<le> year_num (year_end k - 1)"
    using year_num_mono [OF s k(3) assms(2)] year_num_mono [OF assms(1) _ e] k(4) by auto
  then have "year_num (year_start k) div 365 \<le> q" "q \<le> year_num (year_end k - 1) div 365"
    unfolding q_def by (auto intro: zdiv_mono1)
  with year_tableD [OF k(1,2)] have "q = k" by simp
  with k show "0 \<le> q" "q \<le> 399" "year_start q \<le> x" "x < year_end q" by simp_all
qed

lemma leap_era: "leap (y + era * 400) = leap y"
proof -
  have "(y + era * 400) mod 4 = (y + (era * 100) * 4) mod 4" "(y + era * 400) mod 100 = (y + (era * 4) * 100) mod 100" by (simp_all add: mult.commute)
  then show ?thesis unfolding leap_def mod_mult_self1 by (simp only:)
qed

text \<open>A day count and its civil date.\<close>

lemma civil_days:
  assumes "civil_from_days z = (y, m, d)"
  shows "1 \<le> m" "m \<le> 12" "1 \<le> d" "d \<le> days_in m y" "days_from_civil y m d = z"
    "(z + 719468) div 146097 * 400 \<le> y" "y \<le> (z + 719468) div 146097 * 400 + 400"
proof -
  define era doe where "era = (z + 719468) div 146097" and "doe = (z + 719468) mod 146097"
  have ez: "era * 146097 + doe = z + 719468" by (simp add: era_def doe_def)
  have doe: "0 \<le> doe" "doe < 146097" by (simp_all add: doe_def)
  define q where "q = year_num doe div 365"
  note Y = year_found [OF doe, folded q_def]
  define doy where "doy = doe - year_start q"
  define mp where "mp = (5 * doy + 2) div 153"
  have len: "year_end q - year_start q = (if leap (q + 1) then 366 else 365)" using year_tableD(3) Y by blast
  then have doy: "0 \<le> doy" "doy \<le> 365" "doy = 365 \<Longrightarrow> leap (q + 1)" using Y by (auto simp: doy_def split: if_splits)
  have c: "y = q + era * 400 + (if m \<le> 2 then 1 else 0)" "m = (if mp < 10 then mp + 3 else mp - 9)" "d = doy - (153 * mp + 2) div 5 + 1"
    using assms unfolding civil_from_days_def Let_def era_def [symmetric] doe_def [symmetric] year_num_def [symmetric] q_def [symmetric]
      doy_def mp_def year_start_def by auto
  have M: "1 \<le> m \<and> m \<le> 12 \<and> (m + 9) mod 12 = mp \<and> 1 \<le> d \<and> d \<le> (if m = 2 then (if doy = 365 then 29 else 28) else days_in m 1)"
    using month_table doy(1,2) unfolding list_all_iff Let_def c(2,3) mp_def by auto
  then show "1 \<le> m" "m \<le> 12" "1 \<le> d" by auto
  show "d \<le> days_in m y"
  proof (cases "m = 2")
    case True
    then have "y = (q + 1) + era * 400" using c(1) by simp
    then have "leap y = leap (q + 1)" by (simp only: leap_era)
    with M True doy(3) show ?thesis by (auto simp: days_in_def split: if_splits)
  next
    case False
    with M show ?thesis by (simp add: days_in_def)
  qed
  have y': "(if m \<le> 2 then y - 1 else y) = q + era * 400" using c(1) by simp
  have "(q + era * 400) div 400 = era" "(q + era * 400) mod 400 = q" using Y(1,2) by auto
  then show "days_from_civil y m d = z"
    using M ez c(3) unfolding days_from_civil_def Let_def y' by (simp add: doy_def year_start_def)
  show "(z + 719468) div 146097 * 400 \<le> y" "y \<le> (z + 719468) div 146097 * 400 + 400"
    using c(1) Y(1,2) unfolding era_def [symmetric] by auto
qed


section \<open>The canonical form reads back\<close>

lemma itoa_length: "n < 10 ^ w \<Longrightarrow> 0 < w \<Longrightarrow> length (itoa n) \<le> w"
proof (induction w arbitrary: n)
  case (Suc w)
  show ?case
  proof (cases "n < 10")
    case False
    then have "0 < w" using Suc.prems(1) by (cases w) auto
    moreover have "n div 10 < 10 ^ w" using Suc.prems(1) by (simp add: div_less_iff_less_mult mult.commute)
    ultimately show ?thesis using Suc.IH False by (subst itoa.simps) simp
  qed (subst itoa.simps, simp)
qed simp

lemma pad_digits:
  assumes "0 \<le> n" "n < 10 ^ w" "0 < w"
  shows "length (pad w n) = w" "list_all is_digit (pad w n)" "int (digits_val (pad w n)) = n"
proof -
  have "nat n < 10 ^ w" using assms by (simp add: nat_less_iff)
  then have "length (itoa (nat n)) \<le> w" using assms(3) by (rule itoa_length)
  with assms(1) show "length (pad w n) = w" "list_all is_digit (pad w n)" "int (digits_val (pad w n)) = n"
    by (simp_all add: pad_def Let_def digits_val_append)
qed

lemma two_digits: "length p = 2 \<Longrightarrow> \<exists>a b. p = [a, b]"
  by (cases p; cases "tl p") auto

lemma getnum_two:
  assumes "length p = 2" "list_all is_digit p"
  shows "getnum2 (p @ r) = Some (int (digits_val p), r)" "getnum (p @ r) = Some (int (digits_val p), r)"
  using two_digits [OF assms(1)] assms(2) by (auto simp: getnum2_def getnum_def)

lemma getnum_pad:
  assumes "0 \<le> n" "n < 100"
  shows "getnum2 (pad 2 n @ r) = Some (n, r)" "getnum (pad 2 n @ r) = Some (n, r)"
  using getnum_two [of "pad 2 n" r] pad_digits [of n 2] assms by simp_all

lemma get_date_pad:
  assumes "0 \<le> y" "y < 10000" "0 \<le> m" "m < 100" "0 \<le> d" "d < 100"
  shows "get_date (pad 4 y @ CHR ''-'' # pad 2 m @ CHR ''-'' # pad 2 d @ r) = Some (y, m, d, r)"
  using pad_digits [of y 4] getnum_pad(1) [OF assms(3,4)] getnum_pad(1) [OF assms(5,6)] assms(1,2)
  by (simp add: get_date_def expect_def)

lemma get_clock_pad:
  assumes "0 \<le> h" "h < 100" "0 \<le> m" "m < 100" "0 \<le> s" "s < 100"
  shows "get_clock (pad 2 h @ CHR '':'' # pad 2 m @ CHR '':'' # pad 2 s @ r) = Some (h, m, s, r)"
  using getnum_pad(2) [OF assms(1,2)] getnum_pad(1) [OF assms(3,4)] getnum_pad(1) [OF assms(5,6)]
  by (simp add: get_clock_def expect_def)

lemma strip_zeros_append: "\<exists>k. s = strip_zeros s @ replicate k (CHR ''0'')"
proof (induction s rule: strip_zeros.induct)
  case (1 s)
  show ?case
  proof (cases "s \<noteq> [] \<and> last s = CHR ''0''")
    case True
    with 1 obtain k where "butlast s = strip_zeros (butlast s) @ replicate k (CHR ''0'')" by blast
    then have "s = strip_zeros (butlast s) @ replicate (Suc k) (CHR ''0'')"
      using True append_butlast_last_id [of s] by (metis append.assoc replicate_Suc replicate_append_same)
    with True show ?thesis by (subst strip_zeros.simps) (auto simp del: replicate_Suc)
  next
    case False
    then have "strip_zeros s = s" by (subst strip_zeros.simps) auto
    then show ?thesis by (intro exI [of _ 0]) simp
  qed
qed

lemma get_fraction_digits:
  assumes "list_all is_digit f" "f \<noteq> []" "length f \<le> 9" "\<not> is_digit c"
  shows "get_fraction (CHR ''.'' # f @ c # r) = (int (digits_val f) * 10 ^ (9 - length f), c # r)"
proof -
  obtain a g where f: "f = a # g" using assms(2) by (cases f) auto
  have "takeWhile is_digit (f @ c # r) = f \<and> dropWhile is_digit (f @ c # r) = c # r"
    using takeWhile_digits [OF assms(1), of "c # r"] assms(4) by simp
  then show ?thesis using assms(1,3) unfolding get_fraction_def f by (simp add: Let_def)
qed

lemma stripped_fraction:
  assumes "0 \<le> ns" "ns < 10 ^ 9"
  defines "f \<equiv> strip_zeros (pad 9 ns)"
  shows "get_fraction ((if f = [] then [] else CHR ''.'' # f) @ ''Z'') = (ns, ''Z'')"
    "list_all is_digit f"
proof -
  obtain k where k: "pad 9 ns = f @ replicate k (CHR ''0'')" using strip_zeros_append unfolding f_def by blast
  have p: "length (pad 9 ns) = 9" "list_all is_digit (pad 9 ns)" "int (digits_val (pad 9 ns)) = ns"
    using pad_digits [of ns 9] assms(1,2) by simp_all
  with k have "length f + k = 9" and d: "list_all is_digit f" by (metis length_append length_replicate, simp)
  then have l: "k = 9 - length f" "length f \<le> 9" by simp_all
  have v: "ns = int (digits_val f) * 10 ^ (9 - length f)" using p(3) unfolding k l(1) by (simp add: digits_val_append)
  show "get_fraction ((if f = [] then [] else CHR ''.'' # f) @ ''Z'') = (ns, ''Z'')"
  proof (cases "f = []")
    case True
    then show ?thesis using v by (simp add: get_fraction_def)
  next
    case False
    then show ?thesis using get_fraction_digits [OF d False l(2), of "CHR ''Z''" "[]"] v by (simp add: is_digit_def)
  qed
  show "list_all is_digit f" by (rule d)
qed

lemma clock_parts:
  fixes s :: int
  shows "(s div 3600 * 60 + s div 60 mod 60) * 60 + s mod 60 = s"
proof -
  have "s div 3600 = s div 60 div 60" using zdiv_zmult2_eq [of 60 s 60] by simp
  then have "s div 3600 * 60 + s div 60 mod 60 = s div 60" by simp
  then show ?thesis by simp
qed

lemma parse_parts:
  assumes "get_date s = Some (y, m, d, CHR ''T'' # r)" "get_clock r = Some (h, mi, se, r2)" "get_fraction r2 = (ns, ''Z'')"
    "1 \<le> m" "m \<le> 12" "1 \<le> d" "d \<le> days_in m y" "h < 24" "mi < 60" "se < 60"
  shows "parse_rfc3339 s = Some ((((days_from_civil y m d * 24 + h) * 60 + mi) * 60 + se) * 1000000000 + ns)"
  using assms by (simp add: parse_rfc3339_def expect_def get_zone_def)

lemma parse_format:
  assumes "civil_from_days (t div 10 ^ 9 div 86400) = (y, m, d)" "0 \<le> y" "y < 10000"
  shows "parse_rfc3339 (format_rfc3339 t) = Some t" "CHR '','' \<notin> set (format_rfc3339 t)"
proof -
  define secs sod where "secs = t div 10 ^ 9" and "sod = secs mod 86400"
  define f where "f = strip_zeros (pad 9 (t mod 10 ^ 9))"
  note C = civil_days [OF assms(1)]
  have dd: "d < 100" using C(4) by (simp add: days_in_def split: if_splits)
  have sod: "0 \<le> sod" "sod < 86400" by (simp_all add: sod_def)
  have cl: "0 \<le> sod div 3600" "sod div 3600 < 24" "0 \<le> sod div 60 mod 60" "sod div 60 mod 60 < 60" "0 \<le> sod mod 60" "sod mod 60 < 60"
    using sod by auto
  have ns: "0 \<le> t mod 10 ^ 9" "t mod 10 ^ 9 < 10 ^ 9" by simp_all
  note F = stripped_fraction [OF ns, folded f_def]
  have lay: "format_rfc3339 t = pad 4 y @ CHR ''-'' # pad 2 m @ CHR ''-'' # pad 2 d @ CHR ''T'' #
      pad 2 (sod div 3600) @ CHR '':'' # pad 2 (sod div 60 mod 60) @ CHR '':'' # pad 2 (sod mod 60) @
      ((if f = [] then [] else CHR ''.'' # f) @ ''Z'')"
    unfolding format_rfc3339_def Let_def assms(1) secs_def [symmetric] sod_def [symmetric] f_def [symmetric]
    using assms(1) by (simp add: secs_def)
  have total: "((days_from_civil y m d * 24 + sod div 3600) * 60 + sod div 60 mod 60) * 60 + sod mod 60 = secs"
  proof -
    have "days_from_civil y m d * 86400 + sod = secs" using C(5) by (simp add: sod_def secs_def)
    then show ?thesis using clock_parts [of sod] by (simp add: algebra_simps)
  qed
  have gd: "get_date (format_rfc3339 t) = Some (y, m, d, CHR ''T'' #
      pad 2 (sod div 3600) @ CHR '':'' # pad 2 (sod div 60 mod 60) @ CHR '':'' # pad 2 (sod mod 60) @
      ((if f = [] then [] else CHR ''.'' # f) @ ''Z''))"
    unfolding lay by (rule get_date_pad) (use assms C dd in auto)
  have gc: "get_clock (pad 2 (sod div 3600) @ CHR '':'' # pad 2 (sod div 60 mod 60) @ CHR '':'' # pad 2 (sod mod 60) @
      ((if f = [] then [] else CHR ''.'' # f) @ ''Z'')) =
      Some (sod div 3600, sod div 60 mod 60, sod mod 60, (if f = [] then [] else CHR ''.'' # f) @ ''Z'')"
    by (rule get_clock_pad) (use cl in auto)
  show "parse_rfc3339 (format_rfc3339 t) = Some t"
    unfolding parse_parts [OF gd gc F(1) C(1-4) cl(2,4,6)] total by (simp add: secs_def)
  have "CHR '','' \<notin> set p" if "list_all is_digit p" for p using that by (auto simp: list_all_iff is_digit_def)
  then show "CHR '','' \<notin> set (format_rfc3339 t)"
    unfolding lay using F(2) pad_digits(2) [of y 4] pad_digits(2) [of m 2] pad_digits(2) [of d 2]
      pad_digits(2) [of "sod div 3600" 2] pad_digits(2) [of "sod div 60 mod 60" 2] pad_digits(2) [of "sod mod 60" 2] assms C(1-3) dd cl
    by simp
qed


lemma unit_of_eq: "p \<le> 9 \<Longrightarrow> unit_of p = 10 ^ (9 - p)"
  by (simp add: unit_of_def power_diff)

lemma unit_dvd: "p \<le> 9 \<Longrightarrow> 0 < unit_of p \<and> unit_of p dvd 10 ^ 9"
  using unit_of_eq [of p] le_imp_power_dvd [of "9 - p" 9 "10::int"] by simp

lemma truncate_facts:
  assumes "0 < u" "u dvd 10 ^ 9"
  shows "time_truncate t u \<le> t" "time_truncate (time_truncate t u) u = time_truncate t u"
    "10 ^ 9 dvd lo \<Longrightarrow> lo \<le> t \<Longrightarrow> lo \<le> time_truncate t u"
proof -
  have z: "u dvd zero_time" using dvd_mult [OF assms(2), of "- 62135596800"] by (simp add: zero_time_def)
  then have e: "time_truncate t u = t - t mod u" for t using assms(1) by (simp add: time_truncate_def mod_diff_eq [symmetric] dvd_eq_mod_eq_0)
  show "time_truncate t u \<le> t" using assms(1) by (simp add: e)
  show "time_truncate (time_truncate t u) u = time_truncate t u" by (simp add: e mod_diff_left_eq)
  show "lo \<le> time_truncate t u" if "10 ^ 9 dvd lo" "lo \<le> t"
  proof -
    have "u dvd lo" using assms(2) that(1) by (rule dvd_trans)
    then obtain k where "lo = u * k" by blast
    then have "u * k div u \<le> t div u" using that(2) assms(1) by (intro zdiv_mono1) simp_all
    then have "u * k \<le> u * (t div u)" using assms(1) by simp
    then show ?thesis using \<open>lo = u * k\<close> by (simp add: e minus_mod_eq_mult_div)
  qed
qed

lemma bound_values: "dt64Min = - 2208902400 * 10 ^ 9" "dt64Max = 10413705599 * 10 ^ 9" "ns64Max = 9223286399 * 10 ^ 9" "dtMax = 4294880895 * 10 ^ 9"
  unfolding dt64Min_def dt64Max_def ns64Max_def dtMax_def by code_simp+

lemma rewritable_bounds: "rewritable s t \<Longrightarrow> dt64Min \<le> t \<and> t \<le> dt64Max"
  by (auto simp: rewritable_def Let_def dtMin_def bound_values split: if_splits)

lemma rewritable_truncate:
  assumes "rewritable s t" "0 < u" "u dvd 10 ^ 9"
  shows "rewritable s (time_truncate t u)"
proof -
  have "10 ^ 9 dvd dt64Min" "10 ^ 9 dvd dtMin" unfolding bound_values dtMin_def by simp_all
  then have "10 ^ 9 dvd (if isDT64 s then dt64Min else dtMin)" by simp
  from truncate_facts(1) [OF assms(2,3)] truncate_facts(3) [OF assms(2,3) this] assms(1) show ?thesis
    unfolding rewritable_def Let_def using order_trans by blast
qed

lemma rewritable_year:
  assumes "rewritable s t"
  obtains y m d where "civil_from_days (t div 10 ^ 9 div 86400) = (y, m, d)" "0 \<le> y" "y < 10000"
proof -
  obtain y m d where c: "civil_from_days (t div 10 ^ 9 div 86400) = (y, m, d)" by (cases "civil_from_days (t div 10 ^ 9 div 86400)")
  define z where "z = t div 10 ^ 9 div 86400"
  have "- 2208902400 \<le> t div 10 ^ 9" "t div 10 ^ 9 \<le> 10413705599"
    using rewritable_bounds [OF assms] zdiv_mono1 [of "- 2208902400 * 10 ^ 9" t "10 ^ 9"] zdiv_mono1 [of t "10413705599 * 10 ^ 9" "10 ^ 9"]
    unfolding bound_values by simp_all
  then have "- 25566 \<le> z" "z \<le> 120529" unfolding z_def by linarith+
  then have "4 \<le> (z + 719468) div 146097" "(z + 719468) div 146097 \<le> 5" by linarith+
  with civil_days(6,7) [OF c] have "0 \<le> y" "y < 10000" unfolding z_def by linarith+
  with c show thesis by (rule that)
qed

text \<open>What one column does to the value it finds, and that its own parser reads the same instant off the result.\<close>

definition canon_value :: "(jvalue \<Rightarrow> int option) \<Rightarrow> jvalue \<Rightarrow> jvalue" where
  "canon_value P v = (case P v of None \<Rightarrow> v | Some t \<Rightarrow> VString (format_rfc3339 t))"

lemma parser_reads_canonical:
  assumes "TimeParser col = Some P" "tsSpec col = Some spec" "precision spec \<le> 9" "P v = Some t"
  shows "P (VString (format_rfc3339 t)) = Some t"
proof -
  let ?u = "unit_of (precision spec)"
  from assms obtain t0 where t0: "parseTimestamp spec v = Some t0" "rewritable spec t0" "t = time_truncate t0 ?u"
    by (auto simp: TimeParser_def split: option.splits if_splits)
  note u = unit_dvd [OF assms(3)]
  have r: "rewritable spec t" using rewritable_truncate [OF t0(2)] u unfolding t0(3) by blast
  then obtain y m d where "civil_from_days (t div 10 ^ 9 div 86400) = (y, m, d)" "0 \<le> y" "y < 10000" by (rule rewritable_year)
  then have "parseTimestamp spec (VString (format_rfc3339 t)) = Some t" using parse_format [of t y m d] by (simp add: parse_text_def)
  moreover have "time_truncate t ?u = t" using truncate_facts(2) u unfolding t0(3) by blast
  ultimately show ?thesis using assms(1,2) r by (auto simp: TimeParser_def)
qed

lemma canon_value_same:
  assumes "TimeParser col = Some P" "tsSpec col = Some spec" "precision spec \<le> 9"
  shows "P (canon_value P v) = P v"
  using parser_reads_canonical [OF assms] by (simp add: canon_value_def split: option.split)

lemma map_of_assign: "map_of (assign k v data) k' = (if k' = k \<and> map_of data k \<noteq> None then Some v else map_of data k')"
  by (induction data) (auto simp: assign_def)

lemma keys_assign: "map fst (assign k v data) = map fst data"
  by (simp add: assign_def split_def comp_def)

lemma canonicalize_column_map:
  "map_of (canonicalize_column col data) k =
     (case TimeParser col of
        Some P \<Rightarrow> if k = Name col then map_option (canon_value P) (map_of data k) else map_of data k
      | None \<Rightarrow> map_of data k)"
  by (auto simp: canonicalize_column_def TimeParser_def canon_value_def canonicalTimestamp_def map_of_assign split: option.splits)

lemma canonicalize_column_keys: "map fst (canonicalize_column col data) = map fst data"
  by (auto simp: canonicalize_column_def keys_assign split: option.splits)

lemma canonicalize_keys: "map fst (CanonicalizeTimestamps schema data) = map fst data"
proof -
  have "map fst (fold canonicalize_column cols data) = map fst data" for cols
    by (induction cols arbitrary: data) (simp_all add: canonicalize_column_keys)
  then show ?thesis by (simp add: CanonicalizeTimestamps_def)
qed

lemma fold_other: "k \<notin> Name ` set cols \<Longrightarrow> map_of (fold canonicalize_column cols data) k = map_of data k"
  by (induction cols arbitrary: data) (auto simp: canonicalize_column_map split: option.splits)

lemma canonicalize_map:
  assumes "distinct (map Name cols)" "col \<in> set cols"
  shows "map_of (fold canonicalize_column cols data) (Name col) =
    (case TimeParser col of Some P \<Rightarrow> map_option (canon_value P) (map_of data (Name col)) | None \<Rightarrow> map_of data (Name col))"
  using assms
proof (induction cols arbitrary: data)
  case (Cons c cs)
  show ?case
  proof (cases "col = c")
    case True
    then show ?thesis using Cons.prems(1) by (simp add: fold_other canonicalize_column_map split: option.split)
  next
    case False
    then have "Name col \<noteq> Name c" using Cons.prems by (auto simp: image_iff)
    then show ?thesis using Cons False by (simp add: canonicalize_column_map split: option.split)
  qed
qed simp

lemma resolved_precision:
  assumes "resolveTimestampSpec load ty tz = Inr spec"
  shows "precision spec \<le> 9"
  using assms by (auto simp: resolveTimestampSpec_def Let_def split: prod.splits if_splits option.splits)

lemma resolveTimestampSpecs_names: "map Name (Columns (resolveTimestampSpecs load tz raw)) = map Name (Columns raw)"
  by (simp add: resolveTimestampSpecs_def comp_def split: sum.split)

lemma resolved_columns:
  assumes "\<forall>c \<in> set (Columns raw). tsSpec c = None" "col \<in> set (Columns (resolveTimestampSpecs load tz raw))" "tsSpec col = Some spec"
  shows "precision spec \<le> 9"
  using assms by (auto simp: resolveTimestampSpecs_def dest: resolved_precision split: if_splits sum.splits)



text \<open>C30. Canonical timestamps. For a schema whose columns were resolved against any zone database: a timestamp
  column's value that its parser reads as an instant is rewritten to the RFC 3339 text of exactly that
  instant, every other value of the row is left as it was, and the parser reads the same instant (or none)
  off the rewritten row as off the original: a live row and a stored one compare alike. Rewriting twice
  changes nothing more.\<close>

theorem CanonicalizeTimestamps_instant:
  assumes "\<forall>c \<in> set (Columns raw). tsSpec c = None" "distinct (columnNames (Columns raw))"
    "schema = resolveTimestampSpecs load tz raw" "col \<in> set (Columns schema)"
  shows "map fst (CanonicalizeTimestamps schema data) = map fst data \<and>
    (case TimeParser col of
       None \<Rightarrow> map_of (CanonicalizeTimestamps schema data) (Name col) = map_of data (Name col)
     | Some P \<Rightarrow>
         map_of (CanonicalizeTimestamps schema data) (Name col) =
           map_option (\<lambda>v. case P v of None \<Rightarrow> v | Some t \<Rightarrow> VString (format_rfc3339 t)) (map_of data (Name col)) \<and>
         map_option P (map_of (CanonicalizeTimestamps schema data) (Name col)) = map_option P (map_of data (Name col))) \<and>
    map_of (CanonicalizeTimestamps schema (CanonicalizeTimestamps schema data)) = map_of (CanonicalizeTimestamps schema data)"
proof -
  let ?C = "CanonicalizeTimestamps schema"
  have names: "distinct (map Name (Columns schema))"
    using assms(2) unfolding assms(3) resolveTimestampSpecs_names columnNames_def .
  have same: "P (canon_value P v) = P v" if c: "c \<in> set (Columns schema)" and P: "TimeParser c = Some P" for c P v
  proof -
    obtain spec where "tsSpec c = Some spec" using P by (auto simp: TimeParser_def split: option.splits)
    moreover have "precision spec \<le> 9" using resolved_columns [OF assms(1)] c calculation unfolding assms(3) by blast
    ultimately show ?thesis using P by (rule canon_value_same [rotated])
  qed
  have eff: "map_of (?C data) (Name c) = (case TimeParser c of Some P \<Rightarrow> map_option (canon_value P) (map_of data (Name c)) | None \<Rightarrow> map_of data (Name c))"
    if "c \<in> set (Columns schema)" for c data
    using canonicalize_map [OF names that] by (simp add: CanonicalizeTimestamps_def)
  have twice: "canon_value P (canon_value P v) = canon_value P v" if "c \<in> set (Columns schema)" "TimeParser c = Some P" for c P v
    using same [OF that, of v] by (auto simp: canon_value_def split: option.splits)
  have "map_of (?C (?C data)) k = map_of (?C data) k" for k
  proof (cases "k \<in> Name ` set (Columns schema)")
    case True
    then obtain c where c: "k = Name c" "c \<in> set (Columns schema)" by blast
    then show ?thesis unfolding c(1) eff [OF c(2)]
      by (cases "TimeParser c") (simp_all add: option.map_comp comp_def twice [OF c(2)])
  qed (simp add: CanonicalizeTimestamps_def fold_other)
  then have idem: "map_of (?C (?C data)) = map_of (?C data)" by blast
  show ?thesis
  proof (cases "TimeParser col")
    case (Some P)
    have "(\<lambda>v. P (canon_value P v)) = P" using same [OF assms(4) Some] by blast
    moreover have "canon_value P = (\<lambda>v. case P v of None \<Rightarrow> v | Some t \<Rightarrow> VString (format_rfc3339 t))"
      by (simp add: fun_eq_iff canon_value_def)
    ultimately show ?thesis using eff [OF assms(4), of data] Some idem canonicalize_keys by (simp add: option.map_comp comp_def)
  qed (use eff [OF assms(4), of data] idem canonicalize_keys in simp)
qed

theorem CanonicalizeTimestamps_instant_witness:
  "map_of (CanonicalizeTimestamps
     (resolveTimestampSpecs (\<lambda>n. None) (Some (\<lambda>s. s))
        \<lparr>table_Name = ''t'',
         Columns = [\<lparr>Name = ''at'', ch_Type = ''DateTime64(3)'', IsNullable = False, HasDefault = False, DefaultKind = [],
           DefaultExpression = [], Position = 1, tsSpec = None\<rparr>], DDL = []\<rparr>)
     [(''at'', VString ''2024-02-29 12:30:00.12345'')]) ''at'' = Some (VString ''2024-02-29T12:30:00.123Z'')"
proof -
  define raw :: TableSchema where "raw = \<lparr>table_Name = ''t'',
         Columns = [\<lparr>Name = ''at'', ch_Type = ''DateTime64(3)'', IsNullable = False, HasDefault = False, DefaultKind = [],
           DefaultExpression = [], Position = 1, tsSpec = None\<rparr>], DDL = []\<rparr>"
  define spec where "spec = \<lparr>precision = 3, isDT64 = True, loc = Some (\<lambda>s::int. s)\<rparr>"
  have sp: "resolveTimestampSpec (\<lambda>n. None) ''DateTime64(3)'' (Some (\<lambda>s. s)) = Inr spec"
  proof -
    have "type_args (unwrapType ''DateTime64(3)'') = (''DateTime64'', [''3''])" "atoi ''3'' = Some 3" by code_simp+
    then show ?thesis by (simp add: resolveTimestampSpec_def spec_def)
  qed
  have ty: "isTimestampType ''DateTime64(3)''" by code_simp
  let ?col = "\<lparr>Name = ''at'', ch_Type = ''DateTime64(3)'', IsNullable = False, HasDefault = False, DefaultKind = [],
           DefaultExpression = [], Position = 1, tsSpec = Some spec\<rparr>"
  have cols: "Columns (resolveTimestampSpecs (\<lambda>n. None) (Some (\<lambda>s. s)) raw) = [?col]"
    by (simp add: resolveTimestampSpecs_def raw_def ty sp)
  have p: "parseTimestamp spec (VString ''2024-02-29 12:30:00.12345'') = Some 1709209800123450000" unfolding spec_def by code_simp
  have q: "rewritable spec 1709209800123450000" "time_truncate 1709209800123450000 (unit_of (precision spec)) = 1709209800123000000"
    unfolding spec_def by code_simp+
  have f: "format_rfc3339 1709209800123000000 = ''2024-02-29T12:30:00.123Z''"
  proof -
    have c: "civil_from_days 19782 = (2024, 2, 29)" by code_simp
    have "itoa 123000000 = ''123000000''" "itoa 2024 = ''2024''" "itoa 2 = ''2''" "itoa 29 = ''29''" "itoa 12 = ''12''" "itoa 30 = ''30''" "itoa 0 = ''0''"
      by (simp_all add: itoa.simps digit_char_def char_of_def bit_0)
    moreover have "strip_zeros ''123000000'' = ''123''" by code_simp
    ultimately show ?thesis using c by (simp add: format_rfc3339_def pad_def)
  qed
  define P where "P = (\<lambda>v. case parseTimestamp spec v of None \<Rightarrow> None
    | Some t \<Rightarrow> if \<not> rewritable spec t then None else Some (time_truncate t (unit_of (precision spec))))"
  have P: "TimeParser ?col = Some P" "P (VString ''2024-02-29 12:30:00.12345'') = Some 1709209800123000000"
    unfolding TimeParser_def P_def SchemaColumn.select_convs option.case p q by (rule refl, simp only: q simp_thms if_True if_False)
  have r: "\<forall>c \<in> set (Columns raw). tsSpec c = None" "distinct (columnNames (Columns raw))" by (simp_all add: raw_def columnNames_def)
  have m: "Name ?col = ''at''" "map_of [(''at'', v)] ''at'' = Some v" for v :: jvalue by simp_all
  have "?col \<in> set (Columns (resolveTimestampSpecs (\<lambda>n. None) (Some (\<lambda>s. s)) raw))" unfolding cols by (rule list.set_intros(1))
  from CanonicalizeTimestamps_instant [OF r refl this, of "[(''at'', VString ''2024-02-29 12:30:00.12345'')]"]
  show ?thesis unfolding raw_def [symmetric] P(1) option.case m option.map P(2) f by blast
qed

end
