(* ===== verification/Jsondec.thy ===== *)
theory Jsondec
  imports Gojson "HOL-Library.AList"
begin

text \<open>
  What the sources use of \<^verbatim>\<open>encoding/json\<close> beyond its scanner (\<open>Gojson\<close>): decoding with \<^verbatim>\<open>UseNumber\<close>, raw
  messages, the folding of object keys onto struct fields, and the encoding of strings. The decoders work on
  text the scanner has accepted, as the package does; on other text their value means nothing and is never used.
\<close>

section \<open>Strings\<close>

definition utf8_encode :: "nat \<Rightarrow> string" where
  "utf8_encode r =
     (let r = (if r > 0x10FFFF \<or> (0xD800 \<le> r \<and> r \<le> 0xDFFF) then rune_error else r) in
      map char_of
       (if r < 0x80 then [r]
        else if r < 0x800 then [0xC0 + r div 64, 0x80 + r mod 64]
        else if r < 0x10000 then [0xE0 + r div 4096, 0x80 + r div 64 mod 64, 0x80 + r mod 64]
        else [0xF0 + r div 262144, 0x80 + r div 4096 mod 64, 0x80 + r div 64 mod 64, 0x80 + r mod 64]))"

definition hex_digit :: "char \<Rightarrow> nat" where
  "hex_digit c =
     (if is_digit c then byte c - 48 else if byte c < (97 :: nat) then byte c - 55 else byte c - 87)"

text \<open>\<^verbatim>\<open>getu4\<close>: the code unit of an escape \<open>\uXXXX\<close> at the front.\<close>

fun getu4 :: "string \<Rightarrow> nat option" where
  "getu4 (b # u # h1 # h2 # h3 # h4 # r) =
     (if b = CHR 0x5C \<and> u = CHR ''u'' \<and> list_all is_hex [h1, h2, h3, h4]
      then Some (((hex_digit h1 * 16 + hex_digit h2) * 16 + hex_digit h3) * 16 + hex_digit h4) else None)"
| "getu4 _ = None"

definition surrogate_pair :: "nat \<Rightarrow> nat \<Rightarrow> nat option" where
  "surrogate_pair a b =
     (if 0xD800 \<le> a \<and> a < 0xDC00 \<and> 0xDC00 \<le> b \<and> b < 0xE000
      then Some ((a - 0xD800) * 1024 + (b - 0xDC00) + 0x10000) else None)"

definition simple_escape :: "char \<Rightarrow> char" where
  "simple_escape c =
     (if c = CHR ''b'' then CHR 0x08 else if c = CHR ''f'' then CHR 0x0C else if c = CHR ''n'' then CHR 0x0A
      else if c = CHR ''r'' then CHR 0x0D else if c = CHR ''t'' then CHR 0x09 else c)"

text \<open>\<^verbatim>\<open>unquote\<close>: the text between the quotes, escapes resolved and invalid UTF-8 replaced, up to the closing quote.\<close>

fun unquote :: "nat \<Rightarrow> string \<Rightarrow> string" where
  "unquote 0 s = []"
| "unquote (Suc fuel) [] = []"
| "unquote (Suc fuel) (c # cs) =
     (if c = CHR 0x22 then []
      else if c = CHR 0x5C then
        (case getu4 (c # cs) of
           Some a \<Rightarrow>
             (if 0xD800 \<le> a \<and> a \<le> 0xDFFF then
                (case Option.bind (getu4 (drop 5 cs)) (surrogate_pair a) of
                   Some r \<Rightarrow> utf8_encode r @ unquote fuel (drop 11 cs)
                 | None \<Rightarrow> utf8_encode rune_error @ unquote fuel (drop 5 cs))
              else utf8_encode a @ unquote fuel (drop 5 cs))
         | None \<Rightarrow> (case cs of [] \<Rightarrow> [] | d # ds \<Rightarrow> simple_escape d # unquote fuel ds))
      else if byte c < (0x80 :: nat) then c # unquote fuel cs
      else (case decode_rune (c # cs) of (r, n) \<Rightarrow> utf8_encode r @ unquote fuel (drop n (c # cs))))"

definition json_unquote :: "string \<Rightarrow> string" where
  "json_unquote raw = unquote (length raw) (drop 1 raw)"

text \<open>\<^verbatim>\<open>json.Marshal\<close> of a string, which escapes what HTML would read as well.\<close>

definition hex_char :: "nat \<Rightarrow> char" where
  "hex_char n = (if n < 10 then char_of (48 + n) else char_of (87 + n))"

definition escape_ascii :: "char \<Rightarrow> string" where
  "escape_ascii c =
     (if c = CHR 0x22 \<or> c = CHR 0x5C then [CHR 0x5C, c]
      else if c = CHR 0x08 then [CHR 0x5C, CHR ''b''] else if c = CHR 0x0C then [CHR 0x5C, CHR ''f'']
      else if c = CHR 0x0A then [CHR 0x5C, CHR ''n''] else if c = CHR 0x0D then [CHR 0x5C, CHR ''r'']
      else if c = CHR 0x09 then [CHR 0x5C, CHR ''t'']
      else if byte c < (0x20 :: nat) \<or> c = CHR ''<'' \<or> c = CHR ''>'' \<or> c = CHR ''&''
      then [CHR 0x5C, CHR ''u'', CHR ''0'', CHR ''0'', hex_char (byte c div 16), hex_char (byte c mod 16)]
      else [c])"

fun marshal_body :: "nat \<Rightarrow> string \<Rightarrow> string" where
  "marshal_body 0 s = []"
| "marshal_body (Suc fuel) [] = []"
| "marshal_body (Suc fuel) (c # cs) =
     (if byte c < (0x80 :: nat) then escape_ascii c @ marshal_body fuel cs
      else (case decode_rune (c # cs) of (r, n) \<Rightarrow>
        (if r = rune_error \<and> n = 1 then [CHR 0x5C] @ ''ufffd''
         else if r = 0x2028 then [CHR 0x5C] @ ''u2028'' else if r = 0x2029 then [CHR 0x5C] @ ''u2029''
         else take n (c # cs)) @ marshal_body fuel (drop n (c # cs))))"

definition json_marshal_string :: "string \<Rightarrow> string" where
  "json_marshal_string s = [CHR 0x22] @ marshal_body (length s) s @ [CHR 0x22]"

section \<open>Values\<close>

text \<open>The value at the front and what follows it.\<close>

definition raw_value :: "string \<Rightarrow> (string \<times> string) option" where
  "raw_value s =
     (let s = skip_ws s in
      case json_value (2 * length s + 2) 0 s of
        None \<Rightarrow> None
      | Some rest \<Rightarrow> Some (take (length s - length rest) s, rest))"

text \<open>The raw elements of an array and the members of an object, from behind the opening bracket.\<close>

fun raw_elems :: "nat \<Rightarrow> string \<Rightarrow> string list" where
  "raw_elems 0 s = []"
| "raw_elems (Suc fuel) s =
     (case raw_value s of
        None \<Rightarrow> []
      | Some (v, rest) \<Rightarrow>
          v # (case skip_ws rest of c # cs \<Rightarrow> if c = CHR '','' then raw_elems fuel cs else [] | [] \<Rightarrow> []))"

fun raw_members :: "nat \<Rightarrow> string \<Rightarrow> (string \<times> string) list" where
  "raw_members 0 s = []"
| "raw_members (Suc fuel) s =
     (case raw_value s of
        None \<Rightarrow> []
      | Some (k, rest) \<Rightarrow>
          (case raw_value (drop 1 (skip_ws rest)) of
             None \<Rightarrow> []
           | Some (v, rest) \<Rightarrow>
               (json_unquote k, v) #
               (case skip_ws rest of c # cs \<Rightarrow> if c = CHR '','' then raw_members fuel cs else [] | [] \<Rightarrow> [])))"

definition array_elems :: "string \<Rightarrow> string list" where
  "array_elems raw = raw_elems (length raw) (drop 1 raw)"

definition object_members :: "string \<Rightarrow> (string \<times> string) list" where
  "object_members raw = raw_members (length raw) (drop 1 raw)"

definition is_null :: "string \<Rightarrow> bool" where "is_null raw \<longleftrightarrow> prefix ''n'' raw"
definition is_array_text :: "string \<Rightarrow> bool" where "is_array_text raw \<longleftrightarrow> prefix ''['' raw"
definition is_object_text :: "string \<Rightarrow> bool" where "is_object_text raw \<longleftrightarrow> prefix ''{'' raw"
definition is_string_text :: "string \<Rightarrow> bool" where "is_string_text raw \<longleftrightarrow> prefix [CHR 0x22] raw"

text \<open>Decoding into an interface with \<^verbatim>\<open>UseNumber\<close>; of a repeated key the last value stays.\<close>

fun decode_any :: "nat \<Rightarrow> string \<Rightarrow> jvalue" where
  "decode_any 0 raw = VNil"
| "decode_any (Suc fuel) raw =
     (if is_string_text raw then VString (json_unquote raw)
      else if is_array_text raw then VArray (map (decode_any fuel) (array_elems raw))
      else if is_object_text raw
      then VMap (foldl (\<lambda>m (k, v). AList.update k (decode_any fuel v) m) [] (object_members raw))
      else if is_null raw then VNil
      else if prefix ''t'' raw then VBool True
      else if prefix ''f'' raw then VBool False
      else VNumber raw)"

text \<open>\<^verbatim>\<open>Decoder.Decode\<close> of one value into an interface; what follows the value is left in the stream.\<close>

definition json_decode :: "string \<Rightarrow> jvalue option" where
  "json_decode s = map_option (\<lambda>(v, rest). decode_any (length v) v) (raw_value s)"

text \<open>\<^verbatim>\<open>json.Unmarshal\<close> into a slice of raw messages.\<close>

definition unmarshal_raws :: "string \<Rightarrow> string list option" where
  "unmarshal_raws s =
     (if \<not> json_valid s then None
      else case raw_value s of
        None \<Rightarrow> None
      | Some (v, rest) \<Rightarrow>
          (if is_null v then Some [] else if is_array_text v then Some (array_elems v) else None))"

text \<open>\<^verbatim>\<open>foldName\<close> on keys compared with an ASCII field name: besides letter case, the long s and the Kelvin sign fold
  onto ASCII letters, and no other rune does.\<close>

fun fold_name :: "nat \<Rightarrow> string \<Rightarrow> string" where
  "fold_name 0 s = []"
| "fold_name (Suc fuel) [] = []"
| "fold_name (Suc fuel) (c # cs) =
     (if byte c < (0x80 :: nat) then upper_byte c # fold_name fuel cs
      else (case decode_rune (c # cs) of (r, n) \<Rightarrow>
        (if r = 0x17F then ''S'' else if r = 0x212A then ''K'' else take n (c # cs)) @ fold_name fuel (drop n (c # cs))))"

definition same_field :: "string \<Rightarrow> string \<Rightarrow> bool" where
  "same_field field key \<longleftrightarrow> key = field \<or> fold_name (length key) key = fold_name (length field) field"

end
