(* ===== verification/Hub.thy ===== *)
theory Hub
  imports Stream Timestamp Mq Jsondec
begin

text \<open>
  The fan-out of published rows to live subscribers (\<^verbatim>\<open>internal/stream/hub.go\<close>): which connections receive an event,
  with which columns, and the announcement of the column list that goes before the rows. Frames are built as
  text, byte for byte. The range over a Go map is the order of an association list.
\<close>

section \<open>Events\<close>

definition FormatJSONCompactEachRow :: string where
  "FormatJSONCompactEachRow = ''JSONCompactEachRow''"

record EventMessage =
  TableName :: string
  ev_Scope :: string
  ReceivedTimestamp :: string
  Format :: string
  ev_Columns :: "string list"
  Row :: string

text \<open>Decoding an object into the struct, member by member: an unknown key is skipped, a null leaves a string as it is,
  a value of another kind is an error, and a repeated key decodes over what the first one left, down to the
  elements of the slice \<open>mem\<close> a second array reuses.\<close>

definition decode_string_field :: "string \<Rightarrow> string \<Rightarrow> string option" where
  "decode_string_field old raw =
     (if is_null raw then Some old else if is_string_text raw then Some (json_unquote raw) else None)"

fun decode_strings :: "string list \<Rightarrow> string list \<Rightarrow> string list option" where
  "decode_strings mem [] = Some []"
| "decode_strings mem (raw # raws) =
     (case decode_string_field (case mem of [] \<Rightarrow> '''' | m # _ \<Rightarrow> m) raw of
        None \<Rightarrow> None
      | Some s \<Rightarrow> map_option ((#) s) (decode_strings (drop 1 mem) raws))"

definition decode_member :: "string \<times> string \<Rightarrow> (EventMessage \<times> string list) \<Rightarrow> (EventMessage \<times> string list) option" where
  "decode_member kv em =
     (case (kv, em) of ((k, v), (e, mem)) \<Rightarrow>
        if same_field ''table_name'' k then map_option (\<lambda>s. (e\<lparr>TableName := s\<rparr>, mem)) (decode_string_field (TableName e) v)
        else if same_field ''scope'' k then map_option (\<lambda>s. (e\<lparr>ev_Scope := s\<rparr>, mem)) (decode_string_field (ev_Scope e) v)
        else if same_field ''received_timestamp'' k
        then map_option (\<lambda>s. (e\<lparr>ReceivedTimestamp := s\<rparr>, mem)) (decode_string_field (ReceivedTimestamp e) v)
        else if same_field ''format'' k then map_option (\<lambda>s. (e\<lparr>Format := s\<rparr>, mem)) (decode_string_field (Format e) v)
        else if same_field ''columns'' k then
          (if is_null v then Some (e\<lparr>ev_Columns := []\<rparr>, [])
           else if is_array_text v then
             map_option (\<lambda>cs. (e\<lparr>ev_Columns := cs\<rparr>, if cs = [] then [] else cs @ drop (length cs) mem))
               (decode_strings mem (array_elems v))
           else None)
        else if same_field ''row'' k then Some (e\<lparr>Row := v\<rparr>, mem)
        else Some (e, mem))"

fun decode_members :: "(string \<times> string) list \<Rightarrow> (EventMessage \<times> string list) \<Rightarrow> EventMessage option" where
  "decode_members [] em = Some (fst em)"
| "decode_members (kv # kvs) em = Option.bind (decode_member kv em) (decode_members kvs)"

definition empty_event :: EventMessage where
  "empty_event = \<lparr>TableName = '''', ev_Scope = '''', ReceivedTimestamp = '''', Format = '''', ev_Columns = [], Row = ''''\<rparr>"

definition decodeEvent :: "string \<Rightarrow> EventMessage option" where
  "decodeEvent raw =
     (if \<not> json_valid raw then None
      else case raw_value raw of
        None \<Rightarrow> None
      | Some (v, rest) \<Rightarrow>
          (if \<not> is_object_text v then None
           else case decode_members (object_members v) (empty_event, []) of
             None \<Rightarrow> None
           | Some e \<Rightarrow> if TableName e = '''' then None else Some e))"

text \<open>The row split into cells and zipped with the column names; no column twice.\<close>

fun zip_cells :: "string list \<Rightarrow> string list \<Rightarrow> row \<Rightarrow> row option" where
  "zip_cells [] _ acc = Some acc"
| "zip_cells _ [] acc = Some acc"
| "zip_cells (c # cs) (cell # cells) acc =
     (if c \<in> fst ` set acc then None
      else case json_decode cell of None \<Rightarrow> None | Some v \<Rightarrow> zip_cells cs cells (acc @ [(c, v)]))"

definition pairRow :: "string list \<Rightarrow> string \<Rightarrow> (string list \<times> row) option" where
  "pairRow cols row =
     (if row = '''' then None
      else case unmarshal_raws row of
        None \<Rightarrow> None
      | Some cells \<Rightarrow>
          (if cols = [] then None
           else if length cells \<noteq> length cols then None
           else map_option (Pair cells) (zip_cells cols cells [])))"

record eventView =
  raw :: string
  evt :: EventMessage
  decoded :: bool
  usable :: bool
  cells :: "string list"
  ev_row :: row

definition newEventView :: "string \<Rightarrow> eventView" where
  "newEventView r =
     (let ev = \<lparr>raw = r, evt = empty_event, decoded = False, usable = False, cells = [], ev_row = []\<rparr> in
      case decodeEvent r of
        None \<Rightarrow> ev
      | Some e \<Rightarrow>
          (let ev = ev\<lparr>evt := e, decoded := True\<rparr> in
           if Format e \<noteq> FormatJSONCompactEachRow then ev
           else case pairRow (ev_Columns e) (Row e) of
             None \<Rightarrow> ev
           | Some (cs, rw) \<Rightarrow> ev\<lparr>cells := cs, ev_row := rw, usable := True\<rparr>))"

section \<open>Frames\<close>

definition NL :: string where "NL = [CHR 0x0A]"

definition NUL :: char where "NUL = CHR 0x00"

definition quoted_key :: "string \<Rightarrow> string" where
  "quoted_key k = [CHR 0x22] @ k @ [CHR 0x22] @ '':''"

definition data_lines :: "string \<Rightarrow> string" where
  "data_lines payload = concat (map (\<lambda>l. NL @ ''data: '' @ l) (split_at (CHR 0x0A) payload))"

definition wireFrame :: "string \<Rightarrow> string \<Rightarrow> string" where
  "wireFrame i payload = ''id: '' @ i @ data_lines payload @ NL @ NL"

text \<open>\<^verbatim>\<open>json.Marshal(schemaEvent{...})\<close>, the columns never a nil slice.\<close>

definition schema_payload :: "string \<Rightarrow> string list \<Rightarrow> string" where
  "schema_payload table cols =
     ''{'' @ quoted_key ''table_name'' @ json_marshal_string table @ '','' @ quoted_key ''columns'' @
     ''['' @ join '','' (map json_marshal_string cols) @ '']}''"

definition schemaFrame :: "string \<Rightarrow> string list \<Rightarrow> string" where
  "schemaFrame table cols = ''event: schema'' @ data_lines (schema_payload table cols) @ NL @ NL"

definition schemaSignature :: "string \<Rightarrow> string list \<Rightarrow> string" where
  "schemaSignature table cols = table @ [NUL] @ join [NUL] cols"

definition dataPayload :: "eventView \<Rightarrow> nat list \<Rightarrow> string" where
  "dataPayload ev idx =
     ''{'' @ quoted_key ''table_name'' @ json_marshal_string (TableName (evt ev)) @ '','' @
     quoted_key ''received_timestamp'' @ json_marshal_string (ReceivedTimestamp (evt ev)) @ '','' @
     quoted_key ''row'' @ ''['' @ join '','' (map (\<lambda>i. cells ev ! i) idx) @ '']}''"

section \<open>The plan of a role\<close>

definition projectIndices :: "string list \<Rightarrow> ResolvedPermissions option \<Rightarrow> nat list \<times> string list" where
  "projectIndices cols perms =
     (let idx = filter (\<lambda>i. IsColumnAllowed perms (cols ! i) False) [0..<length cols] in
      (idx, map (\<lambda>i. cols ! i) idx))"

record rolePlan =
  plan_perms :: "ResolvedPermissions option"
  sig :: string
  announce :: bool
  plan_table :: string
  projected :: "string list"
  data_frame :: Frame

definition plan_schemaFrame :: "rolePlan \<Rightarrow> Frame" where
  "plan_schemaFrame p = \<lparr>frame_kind = KindSchema, Data = schemaFrame (plan_table p) (projected p)\<rparr>"

definition planForRole :: "Policy option \<Rightarrow> bool \<Rightarrow> string \<Rightarrow> eventView \<Rightarrow> frame_kind \<Rightarrow> rolePlan option" where
  "planForRole p filtered role ev kind =
     (if \<not> decoded ev then
        (if filtered \<or> \<not> json_valid (raw ev) then None
         else Some \<lparr>plan_perms = None, sig = '''', announce = False, plan_table = '''', projected = [],
                    data_frame = \<lparr>frame_kind = kind, Data = wireFrame '''' (raw ev)\<rparr>\<rparr>)
      else if \<not> usable ev then None
      else (let perms = (if filtered then Some (Evaluate p role (TableName (evt ev)) ''select'' []) else None) in
            if (case perms of Some r \<Rightarrow> \<not> Allowed r | None \<Rightarrow> False) then None
            else (case projectIndices (ev_Columns (evt ev)) perms of (idx, names) \<Rightarrow>
              Some \<lparr>plan_perms = perms, sig = schemaSignature (TableName (evt ev)) names, announce = True,
                    plan_table = TableName (evt ev), projected = names,
                    data_frame = \<lparr>frame_kind = kind,
                      Data = wireFrame (ReceivedTimestamp (evt ev)) (dataPayload ev idx)\<rparr>\<rparr>)))"

section \<open>The hub\<close>

record Hub =
  topics :: "(Topic \<times> (string \<times> bucket) list) list"
  subs :: subscribers
  policy :: "(string \<Rightarrow> Policy option) option"
  registry :: "(string \<Rightarrow> (string \<Rightarrow> TableSchema option) option) option"
  RowEvaluator :: "(ResolvedPermissions option \<Rightarrow> row \<Rightarrow> (string \<times> ColumnSpec) list \<Rightarrow> bool) option"

definition rowEvaluator :: "Hub \<Rightarrow> ResolvedPermissions option \<Rightarrow> row \<Rightarrow> (string \<times> ColumnSpec) list \<Rightarrow> bool" where
  "rowEvaluator h = (case RowEvaluator h of Some e \<Rightarrow> e | None \<Rightarrow> RowVisible)"

definition NewHub :: "(string \<Rightarrow> Policy option) option \<Rightarrow> (string \<Rightarrow> (string \<Rightarrow> TableSchema option) option) option \<Rightarrow> subscribers \<Rightarrow> Hub" where
  "NewHub pol reg ss = \<lparr>topics = [], subs = ss, policy = pol, registry = reg, RowEvaluator = None\<rparr>"

definition hub_schema :: "Hub \<Rightarrow> string \<Rightarrow> string \<Rightarrow> TableSchema option" where
  "hub_schema h tid table =
     (case registry h of
        None \<Rightarrow> None
      | Some src \<Rightarrow> (case src tid of None \<Rightarrow> None | Some reg \<Rightarrow> reg table))"

definition LabelTable :: "Hub \<Rightarrow> string \<Rightarrow> string \<Rightarrow> string" where
  "LabelTable h tid table = (if hub_schema h tid table = None then '''' else table)"

definition queuePeak :: "Hub \<Rightarrow> nat" where
  "queuePeak h = fold max (concat (map (\<lambda>(t, roles). concat (map (\<lambda>(r, b). map (\<lambda>i. peak (subs h i)) (bucket_Snapshot b)) roles)) (topics h))) 0"

definition routes :: "Hub \<Rightarrow> Topic \<Rightarrow> (string \<times> bucket) list" where
  "routes h t = (case map_of (topics h) t of Some roles \<Rightarrow> roles | None \<Rightarrow> [])"

definition bucket_at :: "Hub \<Rightarrow> Topic \<Rightarrow> string \<Rightarrow> bucket" where
  "bucket_at h t role = (case map_of (routes h t) role of Some b \<Rightarrow> b | None \<Rightarrow> [])"

definition hub_Add :: "Topic \<Rightarrow> string \<Rightarrow> nat \<Rightarrow> Hub \<Rightarrow> Hub" where
  "hub_Add t role sub h =
     h\<lparr>topics := AList.update t (AList.update role (bucket_Add sub (bucket_at h t role)) (routes h t)) (topics h)\<rparr>"

definition hub_Remove :: "Topic \<Rightarrow> string \<Rightarrow> nat \<Rightarrow> Hub \<Rightarrow> Hub" where
  "hub_Remove t role sub h =
     (case map_of (topics h) t of
        None \<Rightarrow> h
      | Some roles \<Rightarrow>
          (case map_of roles role of
             None \<Rightarrow> h
           | Some b \<Rightarrow>
               (let b = bucket_Remove sub b;
                    roles = (if b = [] then AList.delete role roles else AList.update role b roles) in
                h\<lparr>topics := (if roles = [] then AList.delete t (topics h) else AList.update t roles (topics h))\<rparr>)))"

definition hub_Len :: "Hub \<Rightarrow> Topic \<Rightarrow> nat" where
  "hub_Len h t = sum_list (map (\<lambda>(r, b). length b) (routes h t))"

definition evict_all :: "bucket \<Rightarrow> subscribers \<Rightarrow> subscribers" where
  "evict_all b ss = fold (\<lambda>i ss. ss(i := Evict (ss i))) (bucket_Snapshot b) ss"

definition hub_Prune :: "(string \<Rightarrow> bool) \<Rightarrow> Hub \<Rightarrow> Hub" where
  "hub_Prune served h =
     h\<lparr>subs := fold (\<lambda>(t, roles) ss. if served (Tenant t) then ss else fold (\<lambda>(r, b) ss. evict_all b ss) roles ss)
        (topics h) (subs h)\<rparr>"

definition snapshotPolicy :: "Hub \<Rightarrow> string \<Rightarrow> Policy option \<times> bool" where
  "snapshotPolicy h tid = (case policy h of None \<Rightarrow> (None, False) | Some src \<Rightarrow> (src tid, True))"

definition column_spec :: "SchemaColumn \<Rightarrow> ColumnSpec option" where
  "column_spec c =
     (case TimeParser c of
        Some pt \<Rightarrow> Some (opaque_spec\<lparr>Kind := ColumnTime, ParseTime := Some pt\<rparr>)
      | None \<Rightarrow>
          (if IsNumericType (ch_Type c) then
             Some (opaque_spec\<lparr>Kind := ColumnNumeric,
               Numeric := (case NumericStorageOf (ch_Type c) of Some st \<Rightarrow> NumericSpecOf st | None \<Rightarrow> no_numeric)\<rparr>)
           else if IsStringType (ch_Type c) then Some (opaque_spec\<lparr>Kind := ColumnText\<rparr>)
           else None))"

definition columnSpecs :: "Hub \<Rightarrow> string \<Rightarrow> string \<Rightarrow> (string \<times> ColumnSpec) list" where
  "columnSpecs h tid table =
     (case hub_schema h tid table of
        None \<Rightarrow> []
      | Some schema \<Rightarrow>
          foldl (\<lambda>m c. case column_spec c of Some s \<Rightarrow> AList.update (Name c) s m | None \<Rightarrow> m) [] (Columns schema))"

definition deliver :: "rolePlan \<Rightarrow> Subscriber \<Rightarrow> Subscriber" where
  "deliver plan s =
     (if announce plan \<and> needsSchema (sig plan) s then
        (case Send (plan_schemaFrame plan) s of (ok, s) \<Rightarrow>
           if \<not> ok then drop_frame (frame_kind (data_frame plan)) s
           else snd (Send (data_frame plan) (recordSchema (sig plan) s)))
      else snd (Send (data_frame plan) s))"

definition rowAdmitted :: "Hub \<Rightarrow> Policy option \<Rightarrow> string \<Rightarrow> eventView \<Rightarrow> claims \<Rightarrow> (string \<times> ColumnSpec) list \<Rightarrow> bool" where
  "rowAdmitted h p role ev claims specs =
     rowEvaluator h (Some (Evaluate p role (TableName (evt ev)) ''select'' claims)) (ev_row ev) specs"

definition deliver_to :: "rolePlan \<Rightarrow> nat \<Rightarrow> subscribers \<Rightarrow> subscribers" where
  "deliver_to plan i ss = ss(i := deliver plan (ss i))"

definition fan_out_role :: "Hub \<Rightarrow> Topic \<Rightarrow> eventView \<Rightarrow> Policy option \<Rightarrow> bool \<Rightarrow> string \<times> bucket \<Rightarrow> subscribers \<Rightarrow> subscribers" where
  "fan_out_role h t ev p filtered rb ss =
     (case planForRole p filtered (fst rb) ev KindEvent of
        None \<Rightarrow> ss
      | Some plan \<Rightarrow>
          (if \<not> HasRowFilter (plan_perms plan) then fold (deliver_to plan) (bucket_Snapshot (snd rb)) ss
           else (let specs = columnSpecs h (Tenant t) (TableName (evt ev)) in
                 fold (\<lambda>i ss. if rowAdmitted h p (fst rb) ev (sub_claims (ss i)) specs then deliver_to plan i ss else ss)
                   (bucket_Snapshot (snd rb)) ss)))"

definition Broadcast :: "Topic \<Rightarrow> string \<Rightarrow> Hub \<Rightarrow> Hub" where
  "Broadcast t r h =
     (if routes h t = [] then h
      else (let ev = newEventView r in
            case snapshotPolicy h (Tenant t) of (p, filtered) \<Rightarrow>
              h\<lparr>subs := fold (fan_out_role h t ev p filtered) (routes h t) (subs h)\<rparr>))"

text \<open>A gap-fill's projection; its state is the signature last announced in it.\<close>

definition replay_project :: "Hub \<Rightarrow> string \<Rightarrow> string \<Rightarrow> claims \<Rightarrow> string \<Rightarrow> string \<Rightarrow> Frame list \<times> string" where
  "replay_project h tid role claims lastSig r =
     (case snapshotPolicy h tid of (p, filtered) \<Rightarrow>
        (let ev = newEventView r in
         case planForRole p filtered role ev KindReplay of
           None \<Rightarrow> ([], lastSig)
         | Some plan \<Rightarrow>
             (if HasRowFilter (plan_perms plan) \<and>
                \<not> rowAdmitted h p role ev claims (columnSpecs h tid (TableName (evt ev))) then ([], lastSig)
              else if announce plan \<and> lastSig \<noteq> sig plan then ([plan_schemaFrame plan, data_frame plan], sig plan)
              else ([data_frame plan], lastSig))))"

fun ReplayProjector :: "Hub \<Rightarrow> string \<Rightarrow> string \<Rightarrow> claims \<Rightarrow> string \<Rightarrow> string list \<Rightarrow> Frame list" where
  "ReplayProjector h tid role claims lastSig [] = []"
| "ReplayProjector h tid role claims lastSig (r # rs) =
     (case replay_project h tid role claims lastSig r of (fs, s) \<Rightarrow> fs @ ReplayProjector h tid role claims s rs)"

definition SubscribeSchemaFrame :: "Hub \<Rightarrow> string \<Rightarrow> string \<Rightarrow> string \<Rightarrow> Subscriber \<Rightarrow> Frame option \<times> Subscriber" where
  "SubscribeSchemaFrame h tid table role s =
     (case hub_schema h tid table of
        None \<Rightarrow> (None, s)
      | Some schema \<Rightarrow>
          (case snapshotPolicy h tid of (p, filtered) \<Rightarrow>
             (let perms = (if filtered then Some (Evaluate p role table ''select'' []) else None) in
              if (case perms of Some r \<Rightarrow> \<not> Allowed r | None \<Rightarrow> False) then (None, s)
              else (let names = snd (projectIndices (InsertableColumnNames schema) perms);
                        sg = schemaSignature table names in
                    if \<not> needsSchema sg s then (None, s)
                    else (Some \<lparr>frame_kind = KindSchema, Data = schemaFrame table names\<rparr>, recordSchema sg s)))))"


section \<open>Column visibility and the filter's presence do not depend on claims\<close>

lemma resolve_empty: "resolvePredicates fs c = [] \<longleftrightarrow> resolvePredicates fs d = []"
proof -
  have "column_predicates c cf = [] \<longleftrightarrow> column_predicates d cf = []" for cf
    by (cases cf) (simp add: column_predicates_def split: option.split)
  then show ?thesis by (simp add: resolvePredicates_def)
qed

lemma select_claims_free:
  "Allowed (evaluateSelect perms c) \<longleftrightarrow> Allowed (evaluateSelect perms d)"
  "HasRowFilter (Some (evaluateSelect perms c)) \<longleftrightarrow> HasRowFilter (Some (evaluateSelect perms d))"
  "IsColumnAllowed (Some (evaluateSelect perms c)) col False \<longleftrightarrow> IsColumnAllowed (Some (evaluateSelect perms d)) col False"
  using resolve_empty [where c = c and d = d]
  by (auto simp: evaluateSelect_def HasRowFilter_def IsColumnAllowed_def Let_def predicatesToSQL_def split: option.split)

lemma Evaluate_claims_free:
  "Allowed (Evaluate p role tb ''select'' c) \<longleftrightarrow> Allowed (Evaluate p role tb ''select'' d)"
  "HasRowFilter (Some (Evaluate p role tb ''select'' c)) \<longleftrightarrow> HasRowFilter (Some (Evaluate p role tb ''select'' d))"
  "IsColumnAllowed (Some (Evaluate p role tb ''select'' c)) col False \<longleftrightarrow> IsColumnAllowed (Some (Evaluate p role tb ''select'' d)) col False"
  unfolding Evaluate_def Let_def
  using select_claims_free [where c = c and d = d] by (auto split: option.split)

lemma no_filter_visible: "\<not> HasRowFilter (Some r) \<Longrightarrow> RowVisible (Some r) row specs"
  by (auto simp: HasRowFilter_def RowVisible_def split: option.splits if_splits)

section \<open>One delivery\<close>

text \<open>What one \<^verbatim>\<open>Send\<close> does to the queue.\<close>

lemma Send_cases:
  assumes "Send f s = (ok, s')"
  shows "ok \<longleftrightarrow> closed_for s = None \<and> length (out s) < capacity s"
    "out s' = (if ok then out s @ [f] else out s)"
    "sub_claims s' = sub_claims s" "lastSchema s' = lastSchema s" "closed_for s' = closed_for s" "capacity s' = capacity s"
  using assms by (auto simp: Send_def send_offer_def send_recheck_def drop_frame_def notePeak_def count_drop_def Let_def
      split: if_splits option.splits)

lemma drop_frame_fields [simp]:
  "out (drop_frame k s) = out s" "sub_claims (drop_frame k s) = sub_claims s" "lastSchema (drop_frame k s) = lastSchema s"
  "closed_for (drop_frame k s) = closed_for s" "capacity (drop_frame k s) = capacity s"
  by (simp_all add: drop_frame_def notePeak_def count_drop_def Let_def split: option.split)

lemma deliver_cases:
  shows "sub_claims (deliver plan s) = sub_claims s" "closed_for (deliver plan s) = closed_for s" "capacity (deliver plan s) = capacity s"
    "(out (deliver plan s) = out s \<and> lastSchema (deliver plan s) = lastSchema s) \<or>
     (announce plan \<and> needsSchema (sig plan) s \<and> lastSchema (deliver plan s) = sig plan \<and>
      (out (deliver plan s) = out s @ [plan_schemaFrame plan] \<or> out (deliver plan s) = out s @ [plan_schemaFrame plan, data_frame plan])) \<or>
     (\<not> (announce plan \<and> needsSchema (sig plan) s) \<and> lastSchema (deliver plan s) = lastSchema s \<and> out (deliver plan s) = out s @ [data_frame plan])"
proof -
  have "sub_claims (deliver plan s) = sub_claims s \<and> closed_for (deliver plan s) = closed_for s \<and> capacity (deliver plan s) = capacity s \<and>
    ((out (deliver plan s) = out s \<and> lastSchema (deliver plan s) = lastSchema s) \<or>
     (announce plan \<and> needsSchema (sig plan) s \<and> lastSchema (deliver plan s) = sig plan \<and>
      (out (deliver plan s) = out s @ [plan_schemaFrame plan] \<or> out (deliver plan s) = out s @ [plan_schemaFrame plan, data_frame plan])) \<or>
     (\<not> (announce plan \<and> needsSchema (sig plan) s) \<and> lastSchema (deliver plan s) = lastSchema s \<and> out (deliver plan s) = out s @ [data_frame plan]))"
  proof (cases "announce plan \<and> needsSchema (sig plan) s")
    case True
    obtain ok s1 where S1: "Send (plan_schemaFrame plan) s = (ok, s1)" by (cases "Send (plan_schemaFrame plan) s")
    obtain ok2 s2 where S2: "Send (data_frame plan) (recordSchema (sig plan) s1) = (ok2, s2)"
      by (cases "Send (data_frame plan) (recordSchema (sig plan) s1)")
    have d: "deliver plan s = (if ok then s2 else drop_frame (frame_kind (data_frame plan)) s1)"
      using True S1 S2 by (simp add: deliver_def)
    show ?thesis using Send_cases(2-6) [OF S1] Send_cases(2-6) [OF S2] True
      unfolding d by (cases ok; cases ok2) (simp_all add: recordSchema_def)
  next
    case False
    obtain ok2 s2 where S2: "Send (data_frame plan) s = (ok2, s2)" by (cases "Send (data_frame plan) s")
    have d: "deliver plan s = s2" using False S2 by (auto simp: deliver_def)
    show ?thesis using Send_cases(2-6) [OF S2] False unfolding d by (cases ok2) auto
  qed
  then show "sub_claims (deliver plan s) = sub_claims s" "closed_for (deliver plan s) = closed_for s" "capacity (deliver plan s) = capacity s"
    "(out (deliver plan s) = out s \<and> lastSchema (deliver plan s) = lastSchema s) \<or>
     (announce plan \<and> needsSchema (sig plan) s \<and> lastSchema (deliver plan s) = sig plan \<and>
      (out (deliver plan s) = out s @ [plan_schemaFrame plan] \<or> out (deliver plan s) = out s @ [plan_schemaFrame plan, data_frame plan])) \<or>
     (\<not> (announce plan \<and> needsSchema (sig plan) s) \<and> lastSchema (deliver plan s) = lastSchema s \<and> out (deliver plan s) = out s @ [data_frame plan])"
    by blast+
qed

lemma deliver_room:
  assumes "closed_for s = None" "length (out s) + 2 \<le> capacity s"
  shows "out (deliver plan s) =
    out s @ (if announce plan \<and> needsSchema (sig plan) s then [plan_schemaFrame plan, data_frame plan] else [data_frame plan])"
proof -
  obtain ok1 s1 where S1: "Send (plan_schemaFrame plan) s = (ok1, s1)" by (cases "Send (plan_schemaFrame plan) s")
  obtain ok2 s2 where S2: "Send (data_frame plan) (recordSchema (sig plan) s1) = (ok2, s2)"
    by (cases "Send (data_frame plan) (recordSchema (sig plan) s1)")
  obtain ok3 s3 where S3: "Send (data_frame plan) s = (ok3, s3)" by (cases "Send (data_frame plan) s")
  have o1: "ok1" and o3: "ok3" using Send_cases(1) [OF S1] Send_cases(1) [OF S3] assms by simp_all
  then have "out s1 = out s @ [plan_schemaFrame plan]" "out s3 = out s @ [data_frame plan]" "closed_for s1 = None" "capacity s1 = capacity s"
    using Send_cases(2,5,6) [OF S1] Send_cases(2) [OF S3] assms(1) by simp_all
  moreover from this have "ok2" using Send_cases(1) [OF S2] assms by (simp add: recordSchema_def)
  ultimately show ?thesis using Send_cases(2) [OF S2] S1 S2 S3 o1 o3 by (simp add: deliver_def recordSchema_def)
qed

section \<open>What one broadcast delivers\<close>

text \<open>The plans a broadcast applies to connection \<open>i\<close>, in order.\<close>

definition plans_for :: "Hub \<Rightarrow> Topic \<Rightarrow> eventView \<Rightarrow> Policy option \<Rightarrow> bool \<Rightarrow> claims \<Rightarrow> nat \<Rightarrow> string \<times> bucket \<Rightarrow> rolePlan list" where
  "plans_for h t ev p filtered c i rb =
     (case planForRole p filtered (fst rb) ev KindEvent of
        None \<Rightarrow> []
      | Some plan \<Rightarrow>
          (if HasRowFilter (plan_perms plan) \<and> \<not> rowAdmitted h p (fst rb) ev c (columnSpecs h (Tenant t) (TableName (evt ev))) then []
           else replicate (count_list (snd rb) i) plan))"

lemma fold_deliver_to: "fold (deliver_to plan) b ss i = (deliver plan ^^ count_list b i) (ss i)"
  by (induction b arbitrary: ss) (auto simp: deliver_to_def funpow_swap1)

lemma fold_deliver_if:
  assumes "\<And>j. sub_claims (ss j) = cl j"
  shows "fold (\<lambda>i ss. if A (sub_claims (ss i)) then deliver_to plan i ss else ss) b ss i =
    (if A (cl i) then (deliver plan ^^ count_list b i) (ss i) else ss i)"
  using assms
proof (induction b arbitrary: ss)
  case (Cons j b)
  have "sub_claims ((if A (sub_claims (ss j)) then deliver_to plan j ss else ss) k) = cl k" for k
    using Cons.prems by (auto simp: deliver_to_def deliver_cases(1))
  then show ?case using Cons by (auto simp: deliver_to_def funpow_swap1)
qed simp

lemma fold_replicate: "fold f (replicate n x) = (f x ^^ n)"
  by (induction n) (auto simp: funpow_swap1 fun_eq_iff)

lemma fan_out_plans:
  "fan_out_role h t ev p filtered rb ss i = fold deliver (plans_for h t ev p filtered (sub_claims (ss i)) i rb) (ss i)"
  using fold_deliver_if [of ss "\<lambda>j. sub_claims (ss j)" "\<lambda>c. rowAdmitted h p (fst rb) ev c (columnSpecs h (Tenant t) (TableName (evt ev)))"]
  by (simp add: fan_out_role_def plans_for_def bucket_Snapshot_def fold_deliver_to fold_replicate Let_def split: option.split)

lemma fold_deliver_claims [simp]: "sub_claims (fold deliver ps s) = sub_claims s"
  by (induction ps arbitrary: s) (simp_all add: deliver_cases(1))

lemma Broadcast_plans:
  "subs (Broadcast t r h) i =
     fold deliver (concat (map (plans_for h t (newEventView r) (fst (snapshotPolicy h (Tenant t))) (snd (snapshotPolicy h (Tenant t))) (sub_claims (subs h i)) i) (routes h t))) (subs h i)"
proof -
  have "fold (fan_out_role h t ev p filtered) rbs ss i = fold deliver (concat (map (plans_for h t ev p filtered (sub_claims (ss i)) i) rbs)) (ss i)" for ev p filtered rbs ss
    by (induction rbs arbitrary: ss) (simp_all add: fan_out_plans)
  then show ?thesis by (cases "snapshotPolicy h (Tenant t)") (simp add: Broadcast_def Let_def)
qed


text \<open>A usable event pairs each column with one cell, and the filter reads the value of that very cell.\<close>

lemma zip_cells_pairs:
  assumes "zip_cells cols cs acc = Some rw" "length cs = length cols" "distinct (map fst acc)"
  shows "map fst rw = map fst acc @ cols \<and> distinct (map fst acc @ cols) \<and>
    (\<forall>n < length cols. \<exists>v. json_decode (cs ! n) = Some v \<and> (cols ! n, v) \<in> set rw) \<and> set acc \<subseteq> set rw"
  using assms
proof (induction cols cs acc arbitrary: rw rule: zip_cells.induct)
  case (3 c cols cell cells acc)
  then obtain v where v: "json_decode cell = Some v" "c \<notin> fst ` set acc" "zip_cells cols cells (acc @ [(c, v)]) = Some rw"
    by (auto split: if_splits option.splits)
  have "distinct (map fst (acc @ [(c, v)]))" using 3(4) v(2) by auto
  with 3(1) [OF v(2,1)] v(3) 3(3) have IH: "map fst rw = map fst (acc @ [(c, v)]) @ cols \<and> distinct (map fst (acc @ [(c, v)]) @ cols) \<and>
    (\<forall>n < length cols. \<exists>v. json_decode (cells ! n) = Some v \<and> (cols ! n, v) \<in> set rw) \<and> set (acc @ [(c, v)]) \<subseteq> set rw" by simp
  then show ?case using v(1) by (auto simp: less_Suc_eq_0_disj)
qed auto

lemma usable_pairs:
  assumes "usable (newEventView r)"
  defines "ev \<equiv> newEventView r"
  shows "decoded ev" "length (cells ev) = length (ev_Columns (evt ev))" "distinct (ev_Columns (evt ev))"
    "n < length (cells ev) \<Longrightarrow> map_of (ev_row ev) (ev_Columns (evt ev) ! n) = json_decode (cells ev ! n)"
proof -
  obtain e cs rw where e: "decodeEvent r = Some e" "Format e = FormatJSONCompactEachRow" "pairRow (ev_Columns e) (Row e) = Some (cs, rw)"
    using assms by (auto simp: newEventView_def Let_def split: option.splits if_splits)
  then have ev: "ev = \<lparr>raw = r, evt = e, decoded = True, usable = True, cells = cs, ev_row = rw\<rparr>"
    by (simp add: ev_def newEventView_def Let_def)
  have l: "length cs = length (ev_Columns e)" and z: "zip_cells (ev_Columns e) cs [] = Some rw"
    using e(3) by (auto simp: pairRow_def split: if_splits option.splits)
  note P = zip_cells_pairs [OF z l]
  show "decoded ev" "length (cells ev) = length (ev_Columns (evt ev))" using ev l by simp_all
  show "distinct (ev_Columns (evt ev))" using P ev by simp
  show "map_of (ev_row ev) (ev_Columns (evt ev) ! n) = json_decode (cells ev ! n)" if "n < length (cells ev)"
    using P that l ev by (metis append_Nil distinct.simps(1) eventView.select_convs(2,5,6) list.simps(8) map_of_eq_Some_iff)
qed

lemma project_claims_free:
  "projectIndices cols (Some (Evaluate p role tb ''select'' c)) = projectIndices cols (Some (Evaluate p role tb ''select'' d))"
  using Evaluate_claims_free(3) [of p role tb c _ d] by (simp add: projectIndices_def)

definition grant_of :: "Policy option \<Rightarrow> string \<Rightarrow> eventView \<Rightarrow> claims \<Rightarrow> ResolvedPermissions" where
  "grant_of p role ev c = Evaluate p role (TableName (evt ev)) ''select'' c"

text \<open>The announcement and the row a grant lets a connection see of an event.\<close>

definition names_seen :: "eventView \<Rightarrow> ResolvedPermissions \<Rightarrow> string list" where
  "names_seen ev g = snd (projectIndices (ev_Columns (evt ev)) (Some g))"

definition schema_seen :: "eventView \<Rightarrow> ResolvedPermissions \<Rightarrow> Frame" where
  "schema_seen ev g = \<lparr>frame_kind = KindSchema, Data = schemaFrame (TableName (evt ev)) (names_seen ev g)\<rparr>"

definition row_seen :: "frame_kind \<Rightarrow> eventView \<Rightarrow> ResolvedPermissions \<Rightarrow> Frame" where
  "row_seen k ev g =
     \<lparr>frame_kind = k,
      Data = wireFrame (ReceivedTimestamp (evt ev)) (dataPayload ev (fst (projectIndices (ev_Columns (evt ev)) (Some g))))\<rparr>"

lemma plan_seen:
  assumes "planForRole p True role ev k = Some plan"
  shows "usable ev" "Allowed (grant_of p role ev c)" "plan_perms plan = Some (grant_of p role ev [])" "announce plan"
    "plan_schemaFrame plan = schema_seen ev (grant_of p role ev c)" "data_frame plan = row_seen k ev (grant_of p role ev c)"
    "sig plan = schemaSignature (TableName (evt ev)) (names_seen ev (grant_of p role ev c))"
    "HasRowFilter (plan_perms plan) \<longleftrightarrow> HasRowFilter (Some (grant_of p role ev c))"
    "plan_table plan = TableName (evt ev)" "projected plan = names_seen ev (grant_of p role ev c)"
proof -
  have g: "decoded ev" "usable ev" "Allowed (Evaluate p role (TableName (evt ev)) ''select'' [])"
    using assms by (auto simp: planForRole_def Let_def split: if_splits)
  then have pl: "plan = (case projectIndices (ev_Columns (evt ev)) (Some (Evaluate p role (TableName (evt ev)) ''select'' [])) of (idx, names) \<Rightarrow>
      \<lparr>plan_perms = Some (Evaluate p role (TableName (evt ev)) ''select'' []), sig = schemaSignature (TableName (evt ev)) names, announce = True,
       plan_table = TableName (evt ev), projected = names,
       data_frame = \<lparr>frame_kind = k, Data = wireFrame (ReceivedTimestamp (evt ev)) (dataPayload ev idx)\<rparr>\<rparr>)"
    using assms by (auto simp: planForRole_def Let_def split: prod.splits)
  show "usable ev" by (rule g)
  show "Allowed (grant_of p role ev c)" using g(3) Evaluate_claims_free(1) unfolding grant_of_def by blast
  show "HasRowFilter (plan_perms plan) \<longleftrightarrow> HasRowFilter (Some (grant_of p role ev c))"
    using Evaluate_claims_free(2) unfolding grant_of_def pl by (simp split: prod.split)
  show "plan_perms plan = Some (grant_of p role ev [])" "announce plan" "plan_table plan = TableName (evt ev)" unfolding pl by (simp_all add: grant_of_def split: prod.split)
  show "plan_schemaFrame plan = schema_seen ev (grant_of p role ev c)" "data_frame plan = row_seen k ev (grant_of p role ev c)"
    "sig plan = schemaSignature (TableName (evt ev)) (names_seen ev (grant_of p role ev c))" "projected plan = names_seen ev (grant_of p role ev c)"
    unfolding pl schema_seen_def row_seen_def names_seen_def grant_of_def plan_schemaFrame_def
      project_claims_free [of "ev_Columns (evt ev)" p role "TableName (evt ev)" c "[]"]
    by (simp_all split: prod.split)
qed

lemma plan_exists:
  assumes "usable ev" "decoded ev" "Allowed (grant_of p role ev c)"
  shows "\<exists>plan. planForRole p True role ev k = Some plan"
proof -
  have "Allowed (Evaluate p role (TableName (evt ev)) ''select'' [])" using assms(3) Evaluate_claims_free(1) unfolding grant_of_def by blast
  with assms(1,2) show ?thesis by (simp add: planForRole_def Let_def split: prod.split)
qed

text \<open>Whether a connection with claims \<open>c\<close> sees an event under a role: the grant of its own claims admits the row.\<close>

definition sees :: "Hub \<Rightarrow> Policy option \<Rightarrow> string \<Rightarrow> string \<Rightarrow> eventView \<Rightarrow> claims \<Rightarrow> bool" where
  "sees h p tid role ev c \<longleftrightarrow>
     usable ev \<and> Allowed (grant_of p role ev c) \<and>
     RowVisible (Some (grant_of p role ev c)) (ev_row ev) (columnSpecs h tid (TableName (evt ev)))"

lemma plans_for_sees:
  assumes "RowEvaluator h = None" "usable ev \<longrightarrow> decoded ev"
  shows "plans_for h t ev p True c i (role, b) =
    (if sees h p (Tenant t) role ev c then replicate (count_list b i) (the (planForRole p True role ev KindEvent)) else [])"
proof (cases "planForRole p True role ev KindEvent")
  case None
  then have "\<not> sees h p (Tenant t) role ev c" using plan_exists [of ev p role c KindEvent] assms(2) by (auto simp: sees_def)
  then show ?thesis using None by (simp add: plans_for_def)
next
  case (Some plan)
  note S = plan_seen(1) [OF Some] plan_seen(2,8) [OF Some, of c]
  have "sees h p (Tenant t) role ev c \<longleftrightarrow>
      \<not> (HasRowFilter (plan_perms plan) \<and> \<not> rowAdmitted h p role ev c (columnSpecs h (Tenant t) (TableName (evt ev))))"
    using S no_filter_visible assms(1) by (auto simp: sees_def rowAdmitted_def rowEvaluator_def grant_of_def)
  then show ?thesis using Some by (simp add: plans_for_def)
qed


lemma newEventView_usable: "usable (newEventView r) \<longrightarrow> decoded (newEventView r)"
  using usable_pairs(1) by blast

lemma Broadcast_deliveries:
  assumes "policy h = Some src" "RowEvaluator h = None"
  shows "subs (Broadcast t r h) i =
    fold deliver (concat (map (\<lambda>(role, b).
      if sees h (src (Tenant t)) (Tenant t) role (newEventView r) (sub_claims (subs h i))
      then replicate (count_list b i) (the (planForRole (src (Tenant t)) True role (newEventView r) KindEvent)) else []) (routes h t))) (subs h i)"
proof -
  have "plans_for h t (newEventView r) (src (Tenant t)) True (sub_claims (subs h i)) i =
    (\<lambda>(role, b). if sees h (src (Tenant t)) (Tenant t) role (newEventView r) (sub_claims (subs h i))
      then replicate (count_list b i) (the (planForRole (src (Tenant t)) True role (newEventView r) KindEvent)) else [])"
    using plans_for_sees [OF assms(2) newEventView_usable] by (simp add: fun_eq_iff)
  then show ?thesis unfolding Broadcast_plans snapshotPolicy_def assms(1) by simp
qed

lemma deliver_seen:
  assumes "planForRole p True role ev KindEvent = Some plan"
  shows "\<exists>new. out (deliver plan s) = out s @ new \<and> set new \<subseteq> {schema_seen ev (grant_of p role ev c), row_seen KindEvent ev (grant_of p role ev c)}"
  using deliver_cases(4) [of plan s] plan_seen(5,6) [OF assms, of c] by auto

lemma deliveries_seen:
  assumes "\<And>plan. plan \<in> set ps \<Longrightarrow> \<exists>role. Q role \<and> planForRole p True role ev KindEvent = Some plan"
  shows "\<exists>new. out (fold deliver ps s) = out s @ new \<and>
    (\<forall>f \<in> set new. \<exists>role. Q role \<and> f \<in> {schema_seen ev (grant_of p role ev c), row_seen KindEvent ev (grant_of p role ev c)})"
  using assms
proof (induction ps arbitrary: s)
  case (Cons plan ps)
  obtain role where r: "Q role" "planForRole p True role ev KindEvent = Some plan" using Cons.prems by auto
  obtain new1 where n1: "out (deliver plan s) = out s @ new1"
      "set new1 \<subseteq> {schema_seen ev (grant_of p role ev c), row_seen KindEvent ev (grant_of p role ev c)}"
    using deliver_seen [OF r(2)] by blast
  obtain new2 where n2: "out (fold deliver ps (deliver plan s)) = out (deliver plan s) @ new2"
      "\<forall>f \<in> set new2. \<exists>role. Q role \<and> f \<in> {schema_seen ev (grant_of p role ev c), row_seen KindEvent ev (grant_of p role ev c)}"
    using Cons.IH [of "deliver plan s"] Cons.prems by auto
  then show ?case using n1 r(1) by (intro exI [of _ "new1 @ new2"]) auto
qed simp

lemma count_list_distinct: "distinct b \<Longrightarrow> count_list b i = (if i \<in> set b then 1 else 0)"
  by (induction b) auto

lemma count_list_pos: "0 < count_list b i \<longleftrightarrow> i \<in> set b"
  by (induction b) auto

lemma concat_single:
  assumes "(k, b) \<in> set xs" "distinct xs" "\<And>x. x \<in> set xs \<Longrightarrow> x \<noteq> (k, b) \<Longrightarrow> f x = []"
  shows "concat (map f xs) = f (k, b)"
  using assms
proof (induction xs)
  case (Cons x xs)
  show ?case
  proof (cases "x = (k, b)")
    case True
    then have "concat (map f xs) = []" using Cons.prems by auto
    then show ?thesis using True by simp
  next
    case False
    then show ?thesis using Cons by auto
  qed
qed simp

lemma single_registration:
  assumes "(role, b) \<in> set rbs" "distinct (map fst rbs)" "i \<in> set b" "distinct b" "V role"
    "\<And>role' b'. (role', b') \<in> set rbs \<Longrightarrow> i \<in> set b' \<Longrightarrow> role' = role"
  shows "concat (map (\<lambda>(role, b). if V role then replicate (count_list b i) (P role) else []) rbs) = [P role]"
proof -
  let ?f = "\<lambda>(role, b). if V role then replicate (count_list b i) (P role) else []"
  have "concat (map ?f rbs) = ?f (role, b)"
  proof (rule concat_single [OF assms(1)])
    show "distinct rbs" using assms(2) by (simp add: distinct_map)
    fix x assume x: "x \<in> set rbs" "x \<noteq> (role, b)"
    obtain role' b' where x': "x = (role', b')" by (cases x)
    have "i \<notin> set b'" using assms(1,2,6) x unfolding x' by (metis eq_key_imp_eq_value)
    then show "?f x = []" unfolding x' by simp
  qed
  then show ?thesis using assms(3,4,5) by (simp add: count_list_distinct)
qed


text \<open>The projection by positions, read as the columns and cells it keeps.\<close>

lemma map_filter_zip:
  assumes "length xs = length cols"
  shows "map (\<lambda>i. xs ! i) (filter (\<lambda>i. P (cols ! i)) [0..<length cols]) = map snd (filter (\<lambda>(c, x). P c) (zip cols xs))"
proof -
  have "zip cols xs = map (\<lambda>i. (cols ! i, xs ! i)) [0..<length cols]" using assms by (intro nth_equalityI) simp_all
  then show ?thesis by (simp add: filter_map comp_def)
qed

lemma project_names: "snd (projectIndices cols g) = filter (\<lambda>c. IsColumnAllowed g c False) cols"
proof -
  have "cols = map (\<lambda>i. cols ! i) [0..<length cols]" by (simp add: map_nth)
  then have "filter (\<lambda>c. IsColumnAllowed g c False) cols = map (\<lambda>i. cols ! i) (filter (\<lambda>i. IsColumnAllowed g (cols ! i) False) [0..<length cols])"
    by (metis (no_types, lifting) comp_def filter_cong filter_map)
  then show ?thesis by (simp add: projectIndices_def Let_def)
qed

lemma project_cells:
  "length xs = length cols \<Longrightarrow>
   map (\<lambda>i. xs ! i) (fst (projectIndices cols g)) = map snd (filter (\<lambda>(c, x). IsColumnAllowed g c False) (zip cols xs))"
  using map_filter_zip [of xs cols "\<lambda>c. IsColumnAllowed g c False"] by (simp add: projectIndices_def Let_def)

text \<open>C32. Whom a broadcast reaches, with policies wired and the built-in row filter. Every frame it queues for a
  connection is the announcement or the row of a role the connection is registered under on that very topic, whose policy
  entry (of the topic's tenant) lets it read the event's table, and only if the row is visible under the connection's own
  claims, also for the roles whose frames are built once for everybody. The announcement lists exactly the event's columns
  the grant allows, in their order; the row holds exactly the cells of these columns, in the same order and byte for byte
  as the event has them, which are the cells the row filter evaluated. A connection that sees the row under no role is left
  untouched. Conversely a connection that sees the row and is registered once, under one role, is still open and has room
  for two more frames gets exactly the row, preceded by the announcement when it was last told another column list.\<close>

theorem Broadcast_visible:
  fixes h :: Hub and t :: Topic and r :: string
  assumes "policy h = Some src" "RowEvaluator h = None"
  defines "ev \<equiv> newEventView r"
  defines "grant \<equiv> (\<lambda>role i. Evaluate (src (Tenant t)) role (TableName (evt ev)) ''select'' (sub_claims (subs h i)))"
  defines "visible \<equiv> (\<lambda>role i. usable ev \<and> Allowed (grant role i) \<and>
    RowVisible (Some (grant role i)) (ev_row ev) (columnSpecs h (Tenant t) (TableName (evt ev))))"
  defines "registered_as \<equiv> (\<lambda>role i. \<exists>b. (role, b) \<in> set (routes h t) \<and> i \<in> set b)"
  defines "may_see \<equiv> (\<lambda>role i c. IsColumnAllowed (Some (grant role i)) c False)"
  defines "columns_seen \<equiv> (\<lambda>role i. filter (may_see role i) (ev_Columns (evt ev)))"
  defines "cells_seen \<equiv> (\<lambda>role i. map snd (filter (\<lambda>(c, cell). may_see role i c) (zip (ev_Columns (evt ev)) (cells ev))))"
  defines "announced \<equiv> (\<lambda>role i. \<lparr>frame_kind = KindSchema, Data = schemaFrame (TableName (evt ev)) (columns_seen role i)\<rparr>)"
  defines "row \<equiv> (\<lambda>role i. \<lparr>frame_kind = KindEvent, Data = wireFrame (ReceivedTimestamp (evt ev))
    (''{'' @ quoted_key ''table_name'' @ json_marshal_string (TableName (evt ev)) @ '','' @
     quoted_key ''received_timestamp'' @ json_marshal_string (ReceivedTimestamp (evt ev)) @ '','' @
     quoted_key ''row'' @ ''['' @ join '','' (cells_seen role i) @ '']}'')\<rparr>)"
  shows "(\<forall>i. \<exists>new. out (subs (Broadcast t r h) i) = out (subs h i) @ new \<and>
      (\<forall>f \<in> set new. \<exists>role. registered_as role i \<and> visible role i \<and> f \<in> {announced role i, row role i})) \<and>
    (usable ev \<longrightarrow> length (cells ev) = length (ev_Columns (evt ev)) \<and>
      (\<forall>(c, cell) \<in> set (zip (ev_Columns (evt ev)) (cells ev)). map_of (ev_row ev) c = json_decode cell)) \<and>
    (\<forall>i. \<not> (\<exists>role. registered_as role i \<and> visible role i) \<longrightarrow> subs (Broadcast t r h) i = subs h i) \<and>
    (\<forall>i role b. visible role i \<longrightarrow> (role, b) \<in> set (routes h t) \<longrightarrow> i \<in> set b \<longrightarrow> distinct b \<longrightarrow>
      distinct (map fst (routes h t)) \<longrightarrow> (\<forall>role'. registered_as role' i \<longrightarrow> role' = role) \<longrightarrow>
      closed_for (subs h i) = None \<longrightarrow> length (out (subs h i)) + 2 \<le> capacity (subs h i) \<longrightarrow>
      out (subs (Broadcast t r h) i) = out (subs h i) @
        (if needsSchema (schemaSignature (TableName (evt ev)) (columns_seen role i)) (subs h i)
         then [announced role i, row role i] else [row role i]))"
proof -
  let ?p = "src (Tenant t)"
  have g: "grant role i = grant_of ?p role ev (sub_claims (subs h i))" for role i by (simp add: grant_def grant_of_def)
  have v: "visible role i \<longleftrightarrow> sees h ?p (Tenant t) role ev (sub_claims (subs h i))" for role i
    by (simp add: visible_def sees_def g)
  have pairs: "length (cells ev) = length (ev_Columns (evt ev))" if "usable ev" using usable_pairs(2) [of r] that by (simp add: ev_def)
  have ns: "names_seen ev (grant role i) = columns_seen role i" for role i
    by (simp add: names_seen_def project_names columns_seen_def may_see_def)
  have fr: "announced role i = schema_seen ev (grant role i)" "usable ev \<Longrightarrow> row role i = row_seen KindEvent ev (grant role i)" for role i
    using project_cells [OF pairs, of "Some (grant role i)"]
    by (simp_all add: announced_def row_def schema_seen_def row_seen_def ns dataPayload_def cells_seen_def may_see_def)
  define ps where "ps = (\<lambda>i. concat (map (\<lambda>(role, b). if visible role i
      then replicate (count_list b i) (the (planForRole ?p True role ev KindEvent)) else []) (routes h t)))"
  have B: "subs (Broadcast t r h) i = fold deliver (ps i) (subs h i)" for i
    unfolding Broadcast_deliveries [OF assms(1,2)] ps_def v ev_def by simp
  have plan: "\<exists>plan. planForRole ?p True role ev KindEvent = Some plan" if "visible role i" for role i
    using that plan_exists [of ev ?p role] usable_pairs(1) [of r] by (auto simp: visible_def g ev_def)
  have origin: "\<exists>role. (registered_as role i \<and> visible role i) \<and> planForRole ?p True role ev KindEvent = Some q" if q: "q \<in> set (ps i)" for q i
  proof -
    obtain role b where rb: "(role, b) \<in> set (routes h t)" "visible role i" "0 < count_list b i" "q = the (planForRole ?p True role ev KindEvent)"
      using q by (auto simp: ps_def split: if_splits)
    obtain q' where "planForRole ?p True role ev KindEvent = Some q'" using plan [OF rb(2)] by blast
    with rb show ?thesis unfolding registered_as_def by (auto simp: count_list_pos)
  qed
  have 1: "\<exists>new. out (subs (Broadcast t r h) i) = out (subs h i) @ new \<and>
      (\<forall>f \<in> set new. \<exists>role. registered_as role i \<and> visible role i \<and> f \<in> {announced role i, row role i})" for i
  proof -
    obtain new where n: "out (subs (Broadcast t r h) i) = out (subs h i) @ new"
      "\<forall>f \<in> set new. \<exists>role. (registered_as role i \<and> visible role i) \<and> f \<in> {schema_seen ev (grant role i), row_seen KindEvent ev (grant role i)}"
      using deliveries_seen [of "ps i" "\<lambda>role. registered_as role i \<and> visible role i" ?p ev "subs h i" "sub_claims (subs h i)"] origin [of _ i]
      unfolding B g by blast
    have "{schema_seen ev (grant role i), row_seen KindEvent ev (grant role i)} = {announced role i, row role i}" if "visible role i" for role
      using fr that by (simp add: visible_def)
    then have "\<exists>role. registered_as role i \<and> visible role i \<and> f \<in> {announced role i, row role i}" if "f \<in> set new" for f
      using n(2) that by metis
    then show ?thesis using n(1) by blast
  qed
  have 2: "map_of (ev_row ev) c = json_decode cell" if u: "usable ev" and m: "(c, cell) \<in> set (zip (ev_Columns (evt ev)) (cells ev))" for c cell
  proof -
    obtain n where "n < length (cells ev)" "c = ev_Columns (evt ev) ! n" "cell = cells ev ! n"
      using m pairs [OF u] by (auto simp: set_zip)
    then show ?thesis using usable_pairs(4) [of r n] u by (simp add: ev_def)
  qed
  have 3: "subs (Broadcast t r h) i = subs h i" if "\<not> (\<exists>role. registered_as role i \<and> visible role i)" for i
  proof -
    have "ps i = []" using origin [of _ i] that by (cases "ps i") auto
    then show ?thesis using B by simp
  qed
  have 4: "out (subs (Broadcast t r h) i) = out (subs h i) @
        (if needsSchema (schemaSignature (TableName (evt ev)) (columns_seen role i)) (subs h i) then [announced role i, row role i] else [row role i])"
    if a: "visible role i" "(role, b) \<in> set (routes h t)" "i \<in> set b" "distinct b" "distinct (map fst (routes h t))"
      "\<forall>role'. registered_as role' i \<longrightarrow> role' = role" "closed_for (subs h i) = None" "length (out (subs h i)) + 2 \<le> capacity (subs h i)" for i role b
  proof -
    obtain q where q: "planForRole ?p True role ev KindEvent = Some q" using plan [OF a(1)] by blast
    have "ps i = [q]"
    proof -
      have "role' = role" if "(role', b') \<in> set (routes h t)" "i \<in> set b'" for role' b'
        using a(6) that unfolding registered_as_def by blast
      from single_registration [where V = "\<lambda>role. visible role i" and P = "\<lambda>role. the (planForRole ?p True role ev KindEvent)",
          OF a(2,5,3,4,1) this]
      show ?thesis unfolding ps_def q by simp
    qed
    then show ?thesis using deliver_room [OF a(7,8), of q] plan_seen(4) [OF q] plan_seen(5-7) [OF q, of "sub_claims (subs h i)"]
      fr(1) fr(2) [of role i] a(1) unfolding B ns [symmetric] g by (simp add: visible_def g)
  qed
  show ?thesis using 1 2 3 4 pairs by blast
qed


text \<open>A table whose role sees the rows carrying its own \<^verbatim>\<open>org\<close>, without column \<open>b\<close>; one event; two connections.\<close>

definition example_rows_policy :: Policy where
  "example_rows_policy =
     \<lparr>DefaultRole = '''', AdminRole_field = '''',
      Tables = [(''t'', [(''r'',
        \<lparr>role_Select = Some \<lparr>sel_AllowColumns = [], sel_DenyColumns = [''b''],
           sel_Filter = [(''a'', \<lparr>Eq = Some ''{{jwt.org}}'', Neq = None, Gt = None, Lt = None, In = None\<rparr>)],
           sel_AllowedAggregations = [], sel_DeniedAggregations = [],
           sel_MaxRows = 0, sel_MaxExecutionTime = 0, sel_MaxRowsToRead = 0, sel_MaxMemoryUsage = 0\<rparr>,
         role_Insert = None\<rparr>)])]\<rparr>"

definition example_event :: string where
  "example_event =
     ''{'' @ quoted_key ''table_name'' @ json_marshal_string ''t'' @ '','' @ quoted_key ''format'' @ json_marshal_string FormatJSONCompactEachRow @
     '','' @ quoted_key ''columns'' @ ''['' @ json_marshal_string ''a'' @ '', '' @ json_marshal_string ''b'' @ ''],'' @
     quoted_key ''row'' @ ''['' @ json_marshal_string ''x'' @ '',17]}''"

definition example_topic :: Topic where
  "example_topic = \<lparr>Tenant = ''acme'', Table = ''t'', Scope = ''''\<rparr>"

definition example_hub :: Hub where
  "example_hub =
     hub_Add example_topic ''r'' 1 (hub_Add example_topic ''r'' 0
       (NewHub (Some (\<lambda>_. Some example_rows_policy)) None
          (\<lambda>i. NewSubscriber (if i = 0 then [(''org'', VString ''x'')] else [(''org'', VString ''y'')]))))"

lemma example_decode:
  "decodeEvent example_event = Some \<lparr>TableName = ''t'', ev_Scope = '''', ReceivedTimestamp = '''', Format = FormatJSONCompactEachRow,
     ev_Columns = [''a'', ''b''], Row = ''['' @ json_marshal_string ''x'' @ '',17]''\<rparr>"
  by code_simp

lemma example_pair:
  "pairRow [''a'', ''b''] (''['' @ json_marshal_string ''x'' @ '',17]'') = Some ([json_marshal_string ''x'', ''17''], [(''a'', VString ''x''), (''b'', VNumber ''17'')])"
  by code_simp

lemma example_view:
  "usable (newEventView example_event)" "TableName (evt (newEventView example_event)) = ''t''"
  "ev_Columns (evt (newEventView example_event)) = [''a'', ''b'']" "cells (newEventView example_event) = [json_marshal_string ''x'', ''17'']"
  "ev_row (newEventView example_event) = [(''a'', VString ''x''), (''b'', VNumber ''17'')]"
  by (simp_all only: newEventView_def Let_def example_decode option.case EventMessage.select_convs example_pair eventView.simps prod.case
      simp_thms if_False)

theorem Broadcast_visible_witness:
  "subs (Broadcast example_topic example_event example_hub) 1 = subs example_hub 1 \<and>
   map frame_kind (out (subs (Broadcast example_topic example_event example_hub) 0)) = [KindSchema, KindEvent]"
proof -
  have pol: "policy example_hub = Some (\<lambda>_. Some example_rows_policy)" "RowEvaluator example_hub = None"
    by (simp_all add: example_hub_def hub_Add_def NewHub_def)
  have r: "routes example_hub example_topic = [(''r'', [1, 0])]" by code_simp
  have c: "sub_claims (subs example_hub 0) = [(''org'', VString ''x'')]" "sub_claims (subs example_hub 1) = [(''org'', VString ''y'')]"
    "closed_for (subs example_hub 0) = None" "out (subs example_hub 0) = []" "lastSchema (subs example_hub 0) = ''''" "2 \<le> capacity (subs example_hub 0)"
    by (simp_all add: example_hub_def hub_Add_def NewHub_def NewSubscriber_def NewTableSubscriber_def newSubscriber_def defaultSubscriberQueue_def)
  have g: "Allowed (Evaluate (Some example_rows_policy) ''r'' ''t'' ''select'' [(''org'', VString ''x'')])"
    "RowVisible (Some (Evaluate (Some example_rows_policy) ''r'' ''t'' ''select'' [(''org'', VString ''x'')])) [(''a'', VString ''x''), (''b'', VNumber ''17'')] []"
    "\<not> RowVisible (Some (Evaluate (Some example_rows_policy) ''r'' ''t'' ''select'' [(''org'', VString ''y'')])) [(''a'', VString ''x''), (''b'', VNumber ''17'')] []"
    by code_simp+
  have s: "columnSpecs example_hub tid tb = []" for tid tb
    by (simp add: columnSpecs_def hub_schema_def example_hub_def hub_Add_def NewHub_def)
  note T = Broadcast_visible [OF pol, of example_topic example_event, unfolded example_view s]
  have "subs (Broadcast example_topic example_event example_hub) 1 = subs example_hub 1"
    using T r c(2) g(3) by simp
  moreover from T [THEN conjunct2, THEN conjunct2, THEN conjunct2, THEN spec [where x = 0], THEN spec [where x = "''r''"],
      THEN spec [where x = "[1, 0]"]]
  have "map frame_kind (out (subs (Broadcast example_topic example_event example_hub) 0)) = [KindSchema, KindEvent]"
    using g(1,2) example_view(1) c(6) by (simp add: r c(1-5) needsSchema_def schemaSignature_def)
  ultimately show ?thesis by blast
qed

end
