(* ===== verification/Hub_history.thy ===== *)
theory Hub_history
  imports Hub
begin

text \<open>
  Histories of a hub and its connections (\<^verbatim>\<open>internal/stream/hub.go\<close> with the connection handler of
  \<^verbatim>\<open>internal/api/stream.go\<close>): streams opened, gap-filled, written and ended while rows are broadcast and settings
  reloaded, and what holds of the rows a client reads.
\<close>

section \<open>Announcements before rows\<close>

text \<open>A name the announcement's signature can tell apart: not empty and without the separator.\<close>

definition clean_name :: "string \<Rightarrow> bool" where
  "clean_name c \<longleftrightarrow> c \<noteq> '''' \<and> NUL \<notin> set c"

lemma join_clean: "list_all clean_name cs \<Longrightarrow> join [NUL] cs = [] \<longleftrightarrow> cs = []"
  by (cases cs; cases "tl cs") (auto simp: clean_name_def)

lemma join_clean_inject:
  assumes "list_all clean_name cs" "list_all clean_name ds" "join [NUL] cs = join [NUL] ds"
  shows "cs = ds"
proof (cases "cs = [] \<or> ds = []")
  case True
  then show ?thesis using assms join_clean by metis
next
  case False
  moreover have "\<forall>c \<in> set cs. NUL \<notin> set c" "\<forall>c \<in> set ds. NUL \<notin> set c"
    using assms(1,2) unfolding list_all_iff clean_name_def by blast+
  ultimately have "split_at NUL (join [NUL] cs) = cs" "split_at NUL (join [NUL] ds) = ds" using split_at_join by blast+
  then show ?thesis using assms(3) by metis
qed

lemma signature_inject:
  assumes "schemaSignature t cs = schemaSignature t' ds" "NUL \<notin> set t" "NUL \<notin> set t'" "list_all clean_name cs" "list_all clean_name ds"
  shows "t = t' \<and> cs = ds"
proof -
  have "t = t' \<and> join [NUL] cs = join [NUL] ds"
    using assms(1-3) by (auto simp: schemaSignature_def append_first_sep)
  then show ?thesis using join_clean_inject [OF assms(4,5)] by blast
qed

text \<open>Frames a client can read, and the column list it was told last. Each row is one of the events \<open>E\<close> and stands under
  the announcement of its table and of exactly the columns its cells are in.\<close>

inductive readable :: "string set \<Rightarrow> Frame list \<Rightarrow> (string \<times> string list) option \<Rightarrow> bool" for E where
  readable_start: "readable E [] None"
| readable_schema: "readable E fs l \<Longrightarrow> readable E (fs @ [\<lparr>frame_kind = KindSchema, Data = schemaFrame t cols\<rparr>]) (Some (t, cols))"
| readable_keepalive: "readable E fs l \<Longrightarrow> readable E (fs @ [\<lparr>frame_kind = KindKeepalive, Data = c\<rparr>]) l"
| readable_row: "readable E fs (Some (t, cols)) \<Longrightarrow> k \<in> {KindEvent, KindReplay} \<Longrightarrow> usable ev \<Longrightarrow> TableName (evt ev) = t \<Longrightarrow>
    ev \<in> newEventView ` E \<Longrightarrow>
    (\<forall>n \<in> set idx. n < length (ev_Columns (evt ev))) \<Longrightarrow> map (\<lambda>n. ev_Columns (evt ev) ! n) idx = cols \<Longrightarrow>
    readable E (fs @ [\<lparr>frame_kind = k, Data = wireFrame (ReceivedTimestamp (evt ev)) (dataPayload ev idx)\<rparr>]) (Some (t, cols))"

inductive_cases readable_snocE: "readable E (fs @ [f]) l"

lemma readable_prefix: "readable E (fs @ gs) l \<Longrightarrow> \<exists>l'. readable E fs l'"
proof (induction gs arbitrary: l rule: rev_induct)
  case (snoc g gs)
  then have "readable E ((fs @ gs) @ [g]) l" by simp
  then obtain l' where "readable E (fs @ gs) l'" by (rule readable_snocE) auto
  then show ?case by (rule snoc.IH)
qed auto

lemma readable_names_seen:
  assumes "usable ev" "readable E fs (Some (TableName (evt ev), names_seen ev g))" "k \<in> {KindEvent, KindReplay}" "ev \<in> newEventView ` E"
  shows "readable E (fs @ [row_seen k ev g]) (Some (TableName (evt ev), names_seen ev g))"
  unfolding row_seen_def
  by (rule readable_row [OF assms(2,3,1) refl assms(4)])
     (auto simp: names_seen_def projectIndices_def Let_def)

text \<open>What the client reads off a position of a readable stream.\<close>

definition row_announced :: "string set \<Rightarrow> Frame list \<Rightarrow> nat \<Rightarrow> bool" where
  "row_announced E fs n \<longleftrightarrow>
     (\<exists>m < n. \<exists>ev \<in> newEventView ` E. \<exists>idx. usable ev \<and> (\<forall>i \<in> set idx. i < length (ev_Columns (evt ev))) \<and>
        fs ! m = \<lparr>frame_kind = KindSchema,
          Data = schemaFrame (TableName (evt ev)) (map (\<lambda>i. ev_Columns (evt ev) ! i) idx)\<rparr> \<and>
        (\<forall>k. m < k \<longrightarrow> k < n \<longrightarrow> frame_kind (fs ! k) \<noteq> KindSchema) \<and>
        Data (fs ! n) = wireFrame (ReceivedTimestamp (evt ev)) (dataPayload ev idx))"

lemma readable_last:
  assumes "readable E fs l" "l = Some (t, cols)"
  shows "\<exists>m < length fs. fs ! m = \<lparr>frame_kind = KindSchema, Data = schemaFrame t cols\<rparr> \<and>
    (\<forall>k. m < k \<longrightarrow> k < length fs \<longrightarrow> frame_kind (fs ! k) \<noteq> KindSchema)"
  using assms
proof (induction arbitrary: t cols rule: readable.induct)
  case (readable_schema fs l t' cols')
  then show ?case by (intro exI [of _ "length fs"]) auto
next
  case (readable_keepalive fs l c)
  then obtain m where "m < length fs" "fs ! m = \<lparr>frame_kind = KindSchema, Data = schemaFrame t cols\<rparr>"
    "\<forall>k. m < k \<longrightarrow> k < length fs \<longrightarrow> frame_kind (fs ! k) \<noteq> KindSchema" by blast
  then show ?case by (intro exI [of _ m]) (auto simp: nth_append less_Suc_eq)
next
  case (readable_row fs t' cols' k ev idx)
  then obtain m where "m < length fs" "fs ! m = \<lparr>frame_kind = KindSchema, Data = schemaFrame t cols\<rparr>"
    "\<forall>k. m < k \<longrightarrow> k < length fs \<longrightarrow> frame_kind (fs ! k) \<noteq> KindSchema" by blast
  then show ?case using readable_row.hyps(2) by (intro exI [of _ m]) (auto simp: nth_append less_Suc_eq)
qed simp

lemma row_announced_append: "n < length fs \<Longrightarrow> row_announced E (fs @ gs) n \<longleftrightarrow> row_announced E fs n"
  by (auto simp: row_announced_def nth_append cong: conj_cong)

lemma readable_announced:
  "readable E fs l \<Longrightarrow> n < length fs \<Longrightarrow> frame_kind (fs ! n) \<in> {KindEvent, KindReplay} \<Longrightarrow> row_announced E fs n"
proof (induction arbitrary: n rule: readable.induct)
  case (readable_schema fs l t cols)
  then show ?case by (cases "n < length fs") (auto simp: row_announced_append nth_append less_Suc_eq)
next
  case (readable_keepalive fs l c)
  then show ?case by (cases "n < length fs") (auto simp: row_announced_append nth_append less_Suc_eq)
next
  case (readable_row fs t cols k ev idx)
  show ?case
  proof (cases "n < length fs")
    case True
    then show ?thesis using readable_row by (simp add: row_announced_append nth_append)
  next
    case False
    then have n: "n = length fs" using readable_row.prems(1) by simp
    obtain m where m: "m < length fs" "fs ! m = \<lparr>frame_kind = KindSchema, Data = schemaFrame t cols\<rparr>"
      "\<forall>k. m < k \<longrightarrow> k < length fs \<longrightarrow> frame_kind (fs ! k) \<noteq> KindSchema"
      using readable_last [OF readable_row.hyps(1) refl] by blast
    then show ?thesis unfolding row_announced_def n using readable_row.hyps
      by (intro exI [of _ m] conjI bexI [of _ ev] exI [of _ idx]) (auto simp: nth_append)
  qed
qed simp


text \<open>Histories of a hub with its connections. A connection opens: it is told the column list if the registry can
  supply it, registered, and, if it asked to be caught up, gap-filled: each retained row is projected with a state of the
  gap-fill's own and written at once, while live frames queue up. Once caught up it is written from its queue.
  \<open>told\<close>, \<open>filled\<close> and \<open>live\<close> are what a connection was sent in these phases, one after the other; \<open>filling\<close> is the
  signature the running gap-fill announced last.\<close>

record live_hub =
  hub :: Hub
  told :: "nat \<Rightarrow> Frame list"
  filled :: "nat \<Rightarrow> Frame list"
  live :: "nat \<Rightarrow> Frame list"
  filling :: "nat \<Rightarrow> string option"

definition wire :: "live_hub \<Rightarrow> nat \<Rightarrow> Frame list" where
  "wire l i = told l i @ filled l i @ live l i"

datatype hub_op =
    HOpen nat Topic string claims int bool
  | HReplay nat Topic string string
  | HCaughtUp nat
  | HLeave nat Topic string
  | HEnd nat drop_reason
  | HWrite nat
  | HBroadcast Topic string
  | HKeepalive bucket string
  | HPrune "string \<Rightarrow> bool"
  | HPolicy "string \<Rightarrow> Policy option"
  | HRegistry "(string \<Rightarrow> (string \<Rightarrow> TableSchema option) option) option"

definition open_stream :: "nat \<Rightarrow> Topic \<Rightarrow> string \<Rightarrow> claims \<Rightarrow> int \<Rightarrow> bool \<Rightarrow> live_hub \<Rightarrow> live_hub" where
  "open_stream i t role c queue since l =
     (let h = hub l; s = NewTableSubscriber (LabelTable h (Tenant t) (Table t)) c queue in
      case SubscribeSchemaFrame h (Tenant t) (Table t) role s of (f, s) \<Rightarrow>
        \<lparr>hub = hub_Add t role i (h\<lparr>subs := (subs h)(i := s)\<rparr>),
         told = (told l)(i := (case f of Some f \<Rightarrow> [f] | None \<Rightarrow> [])), filled = (filled l)(i := []), live = (live l)(i := []),
         filling = (filling l)(i := (if since then Some '''' else None))\<rparr>)"

text \<open>\<^verbatim>\<open>sendReplay\<close> for one retained message.\<close>

definition send_replay :: "nat \<Rightarrow> Topic \<Rightarrow> string \<Rightarrow> string \<Rightarrow> live_hub \<Rightarrow> live_hub" where
  "send_replay i t role r l =
     (case filling l i of
        None \<Rightarrow> l
      | Some lastSig \<Rightarrow>
          (case replay_project (hub l) (Tenant t) role (sub_claims (subs (hub l) i)) lastSig r of (fs, sg) \<Rightarrow>
             l\<lparr>filled := (filled l)(i := filled l i @ fs), filling := (filling l)(i := Some sg)\<rparr>))"

definition write_frame :: "nat \<Rightarrow> live_hub \<Rightarrow> live_hub" where
  "write_frame i l =
     (if filling l i \<noteq> None then l
      else case take_frame (subs (hub l) i) of
        None \<Rightarrow> l
      | Some (f, s) \<Rightarrow> l\<lparr>hub := (hub l)\<lparr>subs := (subs (hub l))(i := s)\<rparr>, live := (live l)(i := live l i @ [f])\<rparr>)"

fun hub_step :: "hub_op \<Rightarrow> live_hub \<Rightarrow> live_hub" where
  "hub_step (HOpen i t role c queue since) l = open_stream i t role c queue since l"
| "hub_step (HReplay i t role r) l = send_replay i t role r l"
| "hub_step (HCaughtUp i) l = l\<lparr>filling := (filling l)(i := None)\<rparr>"
| "hub_step (HLeave i t role) l = l\<lparr>hub := hub_Remove t role i (hub l)\<rparr>"
| "hub_step (HEnd i reason) l =
     l\<lparr>hub := (hub l)\<lparr>subs := (subs (hub l))(i := snd (sub_Close reason (subs (hub l) i)))\<rparr>\<rparr>"
| "hub_step (HWrite i) l = write_frame i l"
| "hub_step (HBroadcast t r) l = l\<lparr>hub := Broadcast t r (hub l)\<rparr>"
| "hub_step (HKeepalive b c) l =
     l\<lparr>hub := (hub l)\<lparr>subs := Push \<lparr>frame_kind = KindKeepalive, Data = c\<rparr> b (subs (hub l))\<rparr>\<rparr>"
| "hub_step (HPrune served) l = l\<lparr>hub := hub_Prune served (hub l)\<rparr>"
| "hub_step (HPolicy src) l = l\<lparr>hub := (hub l)\<lparr>policy := Some src\<rparr>\<rparr>"
| "hub_step (HRegistry src) l = l\<lparr>hub := (hub l)\<lparr>registry := src\<rparr>\<rparr>"

definition clean_event :: "string \<Rightarrow> bool" where
  "clean_event r \<longleftrightarrow> (let ev = newEventView r in
     usable ev \<longrightarrow> NUL \<notin> set (TableName (evt ev)) \<and> list_all clean_name (ev_Columns (evt ev)))"

definition clean_registry :: "(string \<Rightarrow> (string \<Rightarrow> TableSchema option) option) option \<Rightarrow> bool" where
  "clean_registry reg \<longleftrightarrow>
     (\<forall>src tid r table ts. reg = Some src \<longrightarrow> src tid = Some r \<longrightarrow> r table = Some ts \<longrightarrow> list_all clean_name (InsertableColumnNames ts))"

fun clean_op :: "string set \<Rightarrow> string set \<Rightarrow> hub_op \<Rightarrow> bool" where
  "clean_op E F (HOpen i t role c queue since) \<longleftrightarrow> NUL \<notin> set (Table t)"
| "clean_op E F (HBroadcast t r) \<longleftrightarrow> clean_event r \<and> r \<in> E"
| "clean_op E F (HReplay i t role r) \<longleftrightarrow> clean_event r \<and> r \<in> F"
| "clean_op E F (HRegistry src) \<longleftrightarrow> clean_registry src"
| "clean_op E F _ \<longleftrightarrow> True"

definition start_hub :: "(string \<Rightarrow> Policy option) \<Rightarrow> (string \<Rightarrow> (string \<Rightarrow> TableSchema option) option) option \<Rightarrow> live_hub" where
  "start_hub pol reg = \<lparr>hub = NewHub (Some pol) reg (\<lambda>_. newSubscriber 0), told = (\<lambda>_. []), filled = (\<lambda>_. []), live = (\<lambda>_. []),
     filling = (\<lambda>_. None)\<rparr>"

text \<open>The invariant of one connection: what it was sent outside its gap-fill and what is queued reads, and an open one
  knows the list told last; what its gap-fill sent reads on its own.\<close>

definition signature_of :: "(string \<times> string list) option \<Rightarrow> string" where
  "signature_of l = (case l of None \<Rightarrow> '''' | Some (t, cols) \<Rightarrow> schemaSignature t cols)"

definition clean_list :: "(string \<times> string list) option \<Rightarrow> bool" where
  "clean_list l \<longleftrightarrow> (case l of None \<Rightarrow> True | Some (t, cols) \<Rightarrow> NUL \<notin> set t \<and> list_all clean_name cols)"

definition conn_ok :: "string set \<Rightarrow> Frame list \<Rightarrow> Subscriber \<Rightarrow> bool" where
  "conn_ok E w s \<longleftrightarrow> (\<exists>l. readable E (w @ out s) l \<and> (closed_for s = None \<longrightarrow> lastSchema s = signature_of l \<and> clean_list l))"

lemma signature_None: "schemaSignature t cols \<noteq> ''''"
  by (simp add: schemaSignature_def)

lemma signature_of_inject:
  assumes "signature_of l = schemaSignature t cols" "clean_list l" "clean_list (Some (t, cols))"
  shows "l = Some (t, cols)"
  using assms signature_inject [of _ _ t cols]
  by (cases l) (auto simp: signature_of_def clean_list_def schemaSignature_def split: prod.splits)

lemma names_seen_clean: "list_all clean_name (ev_Columns (evt ev)) \<Longrightarrow> list_all clean_name (names_seen ev g)"
  by (auto simp: names_seen_def projectIndices_def Let_def list_all_iff)

lemma deliver_closed: "closed_for s \<noteq> None \<Longrightarrow> out (deliver plan s) = out s"
proof -
  assume c: "closed_for s \<noteq> None"
  obtain ok1 s1 where S1: "Send (plan_schemaFrame plan) s = (ok1, s1)" by (cases "Send (plan_schemaFrame plan) s")
  obtain ok3 s3 where S3: "Send (data_frame plan) s = (ok3, s3)" by (cases "Send (data_frame plan) s")
  have "\<not> ok1" "\<not> ok3" using Send_cases(1) [OF S1] Send_cases(1) [OF S3] c by simp_all
  then show ?thesis using Send_cases(2) [OF S1] Send_cases(2) [OF S3] S1 S3 by (simp add: deliver_def)
qed

lemma deliver_ok:
  assumes "conn_ok E w s" "planForRole p True role ev KindEvent = Some plan" "NUL \<notin> set (TableName (evt ev))"
    "list_all clean_name (ev_Columns (evt ev))" "ev \<in> newEventView ` E"
  shows "conn_ok E w (deliver plan s)"
proof (cases "closed_for s")
  case (Some r)
  then show ?thesis using assms(1) deliver_closed [of s plan] deliver_cases(2) [of plan s] by (simp add: conn_ok_def)
next
  case None
  let ?g = "grant_of p role ev []"
  let ?l = "Some (TableName (evt ev), names_seen ev ?g)"
  obtain l where l: "readable E (w @ out s) l" "lastSchema s = signature_of l" "clean_list l"
    using assms(1) None by (auto simp: conn_ok_def)
  note S = plan_seen(1,4) [OF assms(2)] plan_seen(5-7) [OF assms(2), of "[]"]
  have cl: "clean_list ?l" using assms(3,4) names_seen_clean by (simp add: clean_list_def)
  have sg: "sig plan = signature_of ?l" using S(5) by (simp add: signature_of_def)
  have told: "readable E (w @ out s @ [plan_schemaFrame plan]) ?l"
    using readable_schema [OF l(1)] unfolding S(3) schema_seen_def by simp
  have row: "readable E (fs @ [data_frame plan]) ?l" if "readable E fs ?l" for fs
    using readable_names_seen [OF S(1) that, of KindEvent] assms(5) unfolding S(4) by simp
  have same: "l = ?l" if "\<not> needsSchema (sig plan) s"
    using that signature_of_inject [OF _ l(3) cl] l(2) S(5) by (simp add: needsSchema_def)
  from deliver_cases(4) [of plan s] show ?thesis
  proof (elim disjE conjE)
    assume "out (deliver plan s) = out s @ [plan_schemaFrame plan, data_frame plan]" "lastSchema (deliver plan s) = sig plan"
    then show ?thesis using row [OF told] cl sg unfolding conn_ok_def by (intro exI [of _ ?l]) simp
  next
    assume "out (deliver plan s) = out s @ [data_frame plan]" "lastSchema (deliver plan s) = lastSchema s"
      "\<not> (announce plan \<and> needsSchema (sig plan) s)"
    then show ?thesis using row [of "w @ out s"] l same S(2) cl unfolding conn_ok_def by (intro exI [of _ ?l]) auto
  qed (use l told cl sg in \<open>auto simp: conn_ok_def\<close>)
qed

lemma deliveries_ok:
  assumes "conn_ok E w s" "\<And>plan. plan \<in> set ps \<Longrightarrow> \<exists>role. planForRole p True role ev KindEvent = Some plan"
    "ps \<noteq> [] \<Longrightarrow> NUL \<notin> set (TableName (evt ev)) \<and> list_all clean_name (ev_Columns (evt ev))" "ev \<in> newEventView ` E"
  shows "conn_ok E w (fold deliver ps s)"
  using assms
proof (induction ps arbitrary: s)
  case (Cons plan ps)
  obtain role where "planForRole p True role ev KindEvent = Some plan" using Cons.prems(2) by auto
  then have "conn_ok E w (deliver plan s)" using deliver_ok [OF Cons.prems(1)] Cons.prems(3,4) by auto
  then show ?case using Cons by auto
qed simp

lemma keepalive_ok: "conn_ok E w s \<Longrightarrow> conn_ok E w (snd (Send \<lparr>frame_kind = KindKeepalive, Data = c\<rparr> s))"
proof -
  assume "conn_ok E w s"
  then obtain l where l: "readable E (w @ out s) l" "closed_for s = None \<longrightarrow> lastSchema s = signature_of l \<and> clean_list l"
    by (auto simp: conn_ok_def)
  obtain ok s' where S: "Send \<lparr>frame_kind = KindKeepalive, Data = c\<rparr> s = (ok, s')" by (cases "Send \<lparr>frame_kind = KindKeepalive, Data = c\<rparr> s")
  have "readable E (w @ out s') l" using Send_cases(2) [OF S] l(1) readable_keepalive [OF l(1), of c] by simp
  then show ?thesis using Send_cases(4,5) [OF S] l(2) S by (auto simp: conn_ok_def)
qed

lemma broadcast_ok:
  assumes "policy h = Some src" "clean_event r" "conn_ok E w (subs h i)" "r \<in> E"
  shows "conn_ok E w (subs (Broadcast t r h) i)"
proof -
  let ?ev = "newEventView r"
  define ps where "ps = concat (map (plans_for h t ?ev (src (Tenant t)) True (sub_claims (subs h i)) i) (routes h t))"
  have "\<exists>role. planForRole (src (Tenant t)) True role ?ev KindEvent = Some q" if "q \<in> set ps" for q
    using that by (auto simp: ps_def plans_for_def split: option.splits if_splits)
  moreover have "NUL \<notin> set (TableName (evt ?ev)) \<and> list_all clean_name (ev_Columns (evt ?ev))" if "ps \<noteq> []"
  proof -
    obtain q where "q \<in> set ps" using \<open>ps \<noteq> []\<close> by (cases ps) auto
    then have "usable ?ev" using calculation plan_seen(1) by blast
    then show ?thesis using assms(2) by (simp add: clean_event_def Let_def)
  qed
  ultimately have "conn_ok E w (fold deliver ps (subs h i))" using assms(4) by (intro deliveries_ok [OF assms(3)]) auto
  then show ?thesis unfolding Broadcast_plans snapshotPolicy_def assms(1) by (simp add: ps_def)
qed


lemma fold_update_inv:
  assumes "\<And>s. Q s \<Longrightarrow> Q (g s)" "Q (ss i)"
  shows "Q (fold (\<lambda>i ss. ss(i := g (ss i))) b ss i)"
  using assms(2)
proof (induction b arbitrary: ss)
  case (Cons a b)
  then have "Q ((ss(a := g (ss a))) i)" using assms(1) by (cases "i = a") simp_all
  then show ?case using Cons.IH by simp
qed simp

lemma push_ok: "conn_ok E w (ss i) \<Longrightarrow> conn_ok E w (Push \<lparr>frame_kind = KindKeepalive, Data = c\<rparr> b ss i)"
  using fold_update_inv [of "conn_ok E w" "\<lambda>s. snd (Send \<lparr>frame_kind = KindKeepalive, Data = c\<rparr> s)", OF keepalive_ok, of ss i b]
  by (simp add: Push_def bucket_Snapshot_def send_to_def [abs_def])

lemma evict_ok: "conn_ok E w s \<Longrightarrow> conn_ok E w (Evict s)"
  by (simp add: conn_ok_def Evict_def)



lemma prune_ok:
  assumes "conn_ok E w (subs h i)"
  shows "conn_ok E w (subs (hub_Prune served h) i)"
proof -
  have e: "conn_ok E w (ss i) \<Longrightarrow> conn_ok E w (evict_all b ss i)" for b ss
    unfolding evict_all_def bucket_Snapshot_def by (rule fold_update_inv) (rule evict_ok)
  have r: "conn_ok E w (ss i) \<Longrightarrow> conn_ok E w (fold (\<lambda>(r, b). evict_all b) roles ss i)" for roles :: "(string \<times> bucket) list" and ss
    by (induction roles arbitrary: ss) (auto simp: e)
  have "conn_ok E w (ss i) \<Longrightarrow> conn_ok E w (fold (\<lambda>(t, roles) ss. if served (Tenant t) then ss else fold (\<lambda>(r, b) ss. evict_all b ss) roles ss) ts ss i)"
      for ts :: "(Topic \<times> (string \<times> bucket) list) list" and ss
  proof (induction ts arbitrary: ss)
    case (Cons x ts)
    obtain t roles where x: "x = (t, roles)" by (cases x)
    have "conn_ok E w ((if served (Tenant t) then ss else fold (\<lambda>(r, b) ss. evict_all b ss) roles ss) i)"
      using Cons.prems r [of ss roles] by simp
    from Cons.IH [where ss = "if served (Tenant t) then ss else fold (\<lambda>(r, b) ss. evict_all b ss) roles ss", OF this]
    show ?case unfolding x by simp
  qed simp
  then show ?thesis using assms by (simp add: hub_Prune_def)
qed

lemma close_ok:
  assumes "conn_ok E w s"
  shows "conn_ok E w (snd (sub_Close reason s))"
proof -
  have d: "out (discard_frames fs reason s) = [] \<and> closed_for (discard_frames fs reason s) = closed_for s" for fs s
    by (induction fs reason s rule: discard_frames.induct) (simp_all add: count_drop_def)
  obtain l where "readable E (w @ out s) l" using assms by (auto simp: conn_ok_def)
  then obtain l' where "readable E w l'" using readable_prefix by blast
  then show ?thesis using d by (auto simp: conn_ok_def sub_Close_def discard_def)
qed

lemma open_ok:
  assumes "clean_registry (registry h)" "NUL \<notin> set table" "SubscribeSchemaFrame h tid table role (NewTableSubscriber lbl c queue) = (f, s)"
  shows "conn_ok E (case f of Some f \<Rightarrow> [f] | None \<Rightarrow> []) s"
proof -
  let ?s = "NewTableSubscriber lbl c queue"
  have fresh: "out ?s = []" "lastSchema ?s = ''''" by (simp_all add: NewTableSubscriber_def newSubscriber_def)
  have none: "conn_ok E [] ?s" unfolding conn_ok_def fresh by (intro exI [of _ None]) (simp add: readable_start signature_of_def clean_list_def)
  have "(f, s) = (None, ?s) \<or> (\<exists>schema perms. hub_schema h tid table = Some schema \<and>
      (let names = snd (projectIndices (InsertableColumnNames schema) perms) in
       f = Some \<lparr>frame_kind = KindSchema, Data = schemaFrame table names\<rparr> \<and> s = recordSchema (schemaSignature table names) ?s))"
    using assms(3) unfolding SubscribeSchemaFrame_def
    by (auto simp: Let_def split: option.splits prod.splits if_splits)
  then show ?thesis
  proof (elim disjE exE conjE)
    fix schema perms
    assume h: "hub_schema h tid table = Some schema" and
      e: "let names = snd (projectIndices (InsertableColumnNames schema) perms) in
       f = Some \<lparr>frame_kind = KindSchema, Data = schemaFrame table names\<rparr> \<and> s = recordSchema (schemaSignature table names) ?s"
    let ?n = "snd (projectIndices (InsertableColumnNames schema) perms)"
    have "list_all clean_name (InsertableColumnNames schema)"
      using h assms(1) by (auto simp: hub_schema_def clean_registry_def split: option.splits)
    then have "list_all clean_name ?n" by (auto simp: projectIndices_def Let_def list_all_iff)
    then show ?thesis using e assms(2) readable_schema [OF readable_start, of E table ?n] fresh
      unfolding conn_ok_def by (intro exI [of _ "Some (table, ?n)"]) (simp add: Let_def recordSchema_def signature_of_def clean_list_def)
  qed (use none in simp)
qed

text \<open>The gap-fill of a connection, on its own.\<close>

definition fill_ok :: "string set \<Rightarrow> Frame list \<Rightarrow> string option \<Rightarrow> bool" where
  "fill_ok F fs sg \<longleftrightarrow> (\<exists>x. readable F fs x \<and> clean_list x \<and> (\<forall>s. sg = Some s \<longrightarrow> s = signature_of x))"

definition hub_ok :: "string set \<Rightarrow> string set \<Rightarrow> live_hub \<Rightarrow> bool" where
  "hub_ok E F l \<longleftrightarrow> policy (hub l) \<noteq> None \<and> clean_registry (registry (hub l)) \<and>
     (\<forall>i. conn_ok E (told l i @ live l i) (subs (hub l) i) \<and> fill_ok F (filled l i) (filling l i) \<and> length (told l i) \<le> 1)"

lemma hub_frame:
  "policy (hub_Add t role i h) = policy h" "registry (hub_Add t role i h) = registry h" "subs (hub_Add t role i h) = subs h"
  "policy (hub_Remove t role i h) = policy h" "registry (hub_Remove t role i h) = registry h" "subs (hub_Remove t role i h) = subs h"
  "policy (Broadcast t r h) = policy h" "registry (Broadcast t r h) = registry h"
  "policy (hub_Prune served h) = policy h" "registry (hub_Prune served h) = registry h"
  by (auto simp: hub_Add_def hub_Remove_def Broadcast_def hub_Prune_def Let_def split: option.split prod.split)

lemma fill_start: "fill_ok F [] None" "fill_ok F [] (Some '''')"
  unfolding fill_ok_def by (rule exI [of _ None], simp add: readable_start clean_list_def signature_of_def)+

lemma open_stream_ok:
  assumes "hub_ok E F l" "NUL \<notin> set (Table t)"
  shows "hub_ok E F (open_stream i t role c queue since l)"
proof -
  let ?s = "NewTableSubscriber (LabelTable (hub l) (Tenant t) (Table t)) c queue"
  obtain f s where fs: "SubscribeSchemaFrame (hub l) (Tenant t) (Table t) role ?s = (f, s)"
    by (cases "SubscribeSchemaFrame (hub l) (Tenant t) (Table t) role ?s")
  have "conn_ok E (case f of Some f \<Rightarrow> [f] | None \<Rightarrow> []) s" using open_ok [OF _ assms(2) fs] assms(1) by (simp add: hub_ok_def)
  moreover have "length (case f of Some f \<Rightarrow> [f] | None \<Rightarrow> []) \<le> 1" by (cases f) simp_all
  ultimately show ?thesis using assms(1) fs fill_start [of F] by (simp add: hub_ok_def open_stream_def Let_def hub_frame)
qed

lemma write_frame_ok: "hub_ok E F l \<Longrightarrow> hub_ok E F (write_frame i l)"
proof (cases "out (subs (hub l) i)")
  case (Cons f fs)
  assume "hub_ok E F l"
  moreover from this have "conn_ok E (told l i @ live l i @ [f]) ((subs (hub l) i)\<lparr>out := fs\<rparr>)"
    using Cons by (simp add: hub_ok_def conn_ok_def) metis
  ultimately show ?thesis using Cons by (simp add: hub_ok_def write_frame_def take_frame_def)
qed (simp add: write_frame_def take_frame_def)

lemma replay_readable:
  assumes "policy h = Some src" "clean_event r" "readable F fs x" "clean_list x" "lastSig = signature_of x" "r \<in> F"
    and g: "replay_project h tid role c lastSig r = (gs, s)"
  shows "\<exists>x'. readable F (fs @ gs) x' \<and> clean_list x' \<and> s = signature_of x'"
proof (cases "gs = []")
  case True
  then have "s = lastSig" using g assms(1)
    by (auto simp: replay_project_def snapshotPolicy_def Let_def split: option.splits if_splits)
  then show ?thesis using True assms by auto
next
  case False
  let ?ev = "newEventView r"
  obtain plan where p: "planForRole (src tid) True role ?ev KindReplay = Some plan"
    "(gs, s) = (if announce plan \<and> lastSig \<noteq> sig plan then ([plan_schemaFrame plan, data_frame plan], sig plan) else ([data_frame plan], lastSig))"
    using g False assms(1) by (auto simp: replay_project_def snapshotPolicy_def Let_def split: option.splits if_splits)
  note S = plan_seen(1,4) [OF p(1)] plan_seen(5-7) [OF p(1), of "[]"]
  let ?g = "grant_of (src tid) role ?ev []"
  let ?l = "Some (TableName (evt ?ev), names_seen ?ev ?g)"
  have cl: "clean_list ?l" using assms(2) S(1) names_seen_clean by (simp add: clean_list_def clean_event_def Let_def)
  have row: "readable F (fs @ [data_frame plan]) ?l" if "readable F fs ?l" for fs
    using readable_names_seen [OF S(1) that, of KindReplay] assms(6) unfolding S(4) by simp
  have told: "readable F (fs @ [plan_schemaFrame plan]) ?l" using readable_schema [OF assms(3)] unfolding S(3) schema_seen_def by simp
  have "x = ?l" if "lastSig = sig plan" using that signature_of_inject [OF _ assms(4) cl] assms(5) S(5) by simp
  then show ?thesis using p(2) S(2,5) row [OF told] row [of fs] cl assms(3,5)
    by (intro exI [of _ ?l]) (auto simp: signature_of_def split: if_splits)
qed

lemma send_replay_ok:
  assumes "hub_ok E F l" "clean_event r" "r \<in> F"
  shows "hub_ok E F (send_replay i t role r l)"
proof (cases "filling l i")
  case (Some lastSig)
  obtain src where src: "policy (hub l) = Some src" using assms(1) by (auto simp: hub_ok_def)
  obtain x where x: "readable F (filled l i) x" "clean_list x" "lastSig = signature_of x"
    using assms(1) Some by (fastforce simp: hub_ok_def fill_ok_def)
  obtain fs sg where p: "replay_project (hub l) (Tenant t) role (sub_claims (subs (hub l) i)) lastSig r = (fs, sg)" by (rule prod.exhaust)
  from replay_readable [OF src assms(2) x assms(3) p] have "fill_ok F (filled l i @ fs) (Some sg)" by (simp add: fill_ok_def)
  then show ?thesis using assms(1) Some p by (simp add: hub_ok_def send_replay_def)
qed (use assms(1) in \<open>simp add: send_replay_def\<close>)

lemma hub_step_ok:
  assumes "hub_ok E F l" "clean_op E F op"
  shows "hub_ok E F (hub_step op l)"
proof (cases op)
  case (HBroadcast t r)
  then show ?thesis using assms broadcast_ok by (auto simp: hub_ok_def hub_frame)
next
  case (HOpen i t role c queue since)
  then show ?thesis using assms open_stream_ok by simp
next
  case (HReplay i t role r)
  then show ?thesis using assms send_replay_ok by simp
next
  case (HWrite i)
  then show ?thesis using assms write_frame_ok by simp
next
  case (HCaughtUp i)
  then show ?thesis using assms by (auto simp: hub_ok_def fill_ok_def)
qed (use assms in \<open>auto simp: hub_ok_def hub_frame push_ok prune_ok close_ok\<close>)

lemma hub_history_ok: "hub_ok E F l \<Longrightarrow> list_all (clean_op E F) ops \<Longrightarrow> hub_ok E F (fold hub_step ops l)"
  by (induction ops arbitrary: l) (simp_all add: hub_step_ok)

lemma start_hub_ok: "clean_registry reg \<Longrightarrow> hub_ok E F (start_hub pol reg)"
  using fill_start [of F]
  by (auto simp: hub_ok_def start_hub_def NewHub_def newSubscriber_def conn_ok_def signature_of_def clean_list_def intro: readable_start)

section \<open>What a client reads\<close>

definition last_schema :: "Frame list \<Rightarrow> Frame option" where
  "last_schema fs = (let told = filter (\<lambda>f. frame_kind f = KindSchema) fs in if told = [] then None else Some (last told))"

lemma last_schema_snoc: "last_schema (fs @ [f]) = (if frame_kind f = KindSchema then Some f else last_schema fs)"
  by (simp add: last_schema_def)

lemma last_schema_None: "last_schema fs = None \<Longrightarrow> f \<in> set fs \<Longrightarrow> frame_kind f \<noteq> KindSchema"
  by (auto simp: last_schema_def filter_empty_conv Let_def split: if_splits)

lemma last_schema_at: "last_schema fs = Some f \<Longrightarrow>
    \<exists>m < length fs. fs ! m = f \<and> frame_kind f = KindSchema \<and> (\<forall>k. m < k \<longrightarrow> k < length fs \<longrightarrow> frame_kind (fs ! k) \<noteq> KindSchema)"
proof (induction fs rule: rev_induct)
  case (snoc g fs)
  show ?case
  proof (cases "frame_kind g = KindSchema")
    case True
    then show ?thesis using snoc.prems by (intro exI [of _ "length fs"]) (auto simp: last_schema_snoc)
  next
    case False
    then obtain m where "m < length fs" "fs ! m = f" "frame_kind f = KindSchema" "\<forall>k. m < k \<longrightarrow> k < length fs \<longrightarrow> frame_kind (fs ! k) \<noteq> KindSchema"
      using snoc by (auto simp: last_schema_snoc)
    then show ?thesis using False by (intro exI [of _ m]) (auto simp: nth_append less_Suc_eq)
  qed
qed (simp add: last_schema_def)

text \<open>The gap-fill ended on another column list than the one told at the opening, and the live path, which remembers only the
  latter, has announced nothing since.\<close>

definition outdated :: "live_hub \<Rightarrow> nat \<Rightarrow> nat \<Rightarrow> bool" where
  "outdated l i k \<longleftrightarrow> last_schema (told l i) \<noteq> None \<and> last_schema (filled l i) \<notin> {None, last_schema (told l i)} \<and>
     (\<forall>j < k. frame_kind (live l i ! j) \<noteq> KindSchema)"


lemma announced_shift:
  assumes "k < length bs" "row_announced F bs k"
  shows "row_announced F (as @ bs @ cs) (length as + k)"
proof -
  obtain m ev idx where m: "m < k" "ev \<in> newEventView ` F" "usable ev" "\<forall>i \<in> set idx. i < length (ev_Columns (evt ev))"
    "bs ! m = \<lparr>frame_kind = KindSchema, Data = schemaFrame (TableName (evt ev)) (map (\<lambda>i. ev_Columns (evt ev) ! i) idx)\<rparr>"
    "\<forall>j. m < j \<longrightarrow> j < k \<longrightarrow> frame_kind (bs ! j) \<noteq> KindSchema"
    "Data (bs ! k) = wireFrame (ReceivedTimestamp (evt ev)) (dataPayload ev idx)"
    using assms(2) unfolding row_announced_def by blast
  have "frame_kind ((as @ bs @ cs) ! j) \<noteq> KindSchema" if "length as + m < j" "j < length as + k" for j
    using m(6) [rule_format, of "j - length as"] that assms(1) by (auto simp: nth_append)
  then show ?thesis unfolding row_announced_def using m assms(1)
    by (intro exI [of _ "length as + m"] conjI bexI [of _ ev] exI [of _ idx]) (auto simp: nth_append)
qed


lemma announced_mid:
  assumes "row_announced E (as @ cs) (length as + k)" "k < length cs" "length as \<le> 1"
    and o: "\<not> (last_schema as \<noteq> None \<and> last_schema bs \<notin> {None, last_schema as} \<and> (\<forall>j < k. frame_kind (cs ! j) \<noteq> KindSchema))"
  shows "row_announced E (as @ bs @ cs) (length as + length bs + k)"
proof -
  obtain m ev idx where m: "m < length as + k" "ev \<in> newEventView ` E" "usable ev" "\<forall>i \<in> set idx. i < length (ev_Columns (evt ev))"
    "(as @ cs) ! m = \<lparr>frame_kind = KindSchema, Data = schemaFrame (TableName (evt ev)) (map (\<lambda>i. ev_Columns (evt ev) ! i) idx)\<rparr>"
    "\<forall>j. m < j \<longrightarrow> j < length as + k \<longrightarrow> frame_kind ((as @ cs) ! j) \<noteq> KindSchema"
    "Data ((as @ cs) ! (length as + k)) = wireFrame (ReceivedTimestamp (evt ev)) (dataPayload ev idx)"
    using assms(1) unfolding row_announced_def by blast
  have row: "Data ((as @ bs @ cs) ! (length as + length bs + k)) = wireFrame (ReceivedTimestamp (evt ev)) (dataPayload ev idx)"
    using m(7) by (simp add: nth_append)
  have at: "row_announced E (as @ bs @ cs) (length as + length bs + k)"
    if "p < length as + length bs + k" "(as @ bs @ cs) ! p = (as @ cs) ! m"
      "\<And>j. p < j \<Longrightarrow> j < length as + length bs + k \<Longrightarrow> frame_kind ((as @ bs @ cs) ! j) \<noteq> KindSchema" for p
    unfolding row_announced_def using that m(2-5) row by (intro exI [of _ p] conjI bexI [of _ ev] exI [of _ idx]) auto
  show ?thesis
  proof (cases "length as \<le> m")
    case True
    have later: "frame_kind (cs ! (j - length as - length bs)) \<noteq> KindSchema" if "m + length bs < j" "j < length as + length bs + k" for j
      using m(6) [rule_format, of "j - length bs"] that True by (simp add: nth_append add.commute)
    show ?thesis
    proof (rule at [of "m + length bs"])
      show "(as @ bs @ cs) ! (m + length bs) = (as @ cs) ! m" using True by (simp add: nth_append)
      show "frame_kind ((as @ bs @ cs) ! j) \<noteq> KindSchema" if "m + length bs < j" "j < length as + length bs + k" for j
      proof -
        have "\<not> j < length as" "\<not> j - length as < length bs" using that True by arith+
        then show ?thesis using later [OF that] by (simp add: nth_append)
      qed
    qed (use m(1) in simp)
  next
    case False
    then obtain f where as: "as = [f]" "m = 0" using assms(3) by (cases as) auto
    then have f: "frame_kind f = KindSchema" "last_schema as = Some f" using m(5) by (simp_all add: last_schema_def)
    have cs: "frame_kind (cs ! j) \<noteq> KindSchema" if "j < k" for j using m(6) [rule_format, of "Suc j"] that as by simp
    show ?thesis
    proof (cases "last_schema bs")
      case None
      have "frame_kind ((bs @ cs) ! j) \<noteq> KindSchema" if "j < length bs + k" for j
        using that cs [of "j - length bs"] last_schema_None [OF None, of "bs ! j"] by (auto simp: nth_append)
      from this [of "j - 1" for j] show ?thesis
        using as by (intro at [of 0]) (auto simp: nth_Cons' Suc_less_eq2)
    next
      case (Some g)
      then have "g = f" using o f cs by auto
      with last_schema_at [OF Some] obtain p where p: "p < length bs" "bs ! p = f"
        "\<forall>j. p < j \<longrightarrow> j < length bs \<longrightarrow> frame_kind (bs ! j) \<noteq> KindSchema" by auto
      have inner: "frame_kind ((bs @ cs) ! j) \<noteq> KindSchema" if "p < j" "j < length bs + k" for j
        using that cs [of "j - length bs"] p(3) by (auto simp: nth_append)
      show ?thesis
      proof (rule at [of "Suc p"])
        show "frame_kind ((as @ bs @ cs) ! j) \<noteq> KindSchema" if "Suc p < j" "j < length as + length bs + k" for j
          using inner [of "j - 1"] that as by (cases j) simp_all
      qed (use as p in \<open>simp_all add: nth_append\<close>)
    qed
  qed
qed

text \<open>C33. Rows do not travel without their column list. Over every history of a hub with its policies wired (streams
  opened, gap-filled, written, ended and evicted, rows broadcast, keepalives, reloads of policies and schemas at any
  point, queues of any size overflowing at any point), every row a connection has been sent is one of the broadcast, or, in
  its gap-fill, of the replayed events, and stands behind an announcement of the row's own table and of exactly the
  columns its cells are in, with no other announcement in between. The exception is the documented one
  (\<open>outdated\<close>): a live row after a gap-fill that ended on another column list than the stream was opened with, until the live path
  announces again. Column and table names must be free of the signature's separator, and column names not empty.\<close>

theorem rows_announced:
  assumes "clean_registry reg" "list_all (clean_op E F) ops" "l = fold hub_step ops (start_hub pol reg)"
  shows "(\<forall>i k. k < length (live l i) \<longrightarrow> frame_kind (live l i ! k) = KindEvent \<longrightarrow> \<not> outdated l i k \<longrightarrow>
      row_announced E (wire l i) (length (told l i) + length (filled l i) + k)) \<and>
    (\<forall>i k. k < length (filled l i) \<longrightarrow> frame_kind (filled l i ! k) = KindReplay \<longrightarrow>
      row_announced F (wire l i) (length (told l i) + k))"
proof -
  have ok: "hub_ok E F l" unfolding assms(3) by (rule hub_history_ok [OF start_hub_ok [OF assms(1)] assms(2)])
  have 1: "row_announced E (wire l i) (length (told l i) + length (filled l i) + k)"
    if k: "k < length (live l i)" "frame_kind (live l i ! k) = KindEvent" "\<not> outdated l i k" for i k
  proof -
    obtain y where "readable E ((told l i @ live l i) @ out (subs (hub l) i)) y" using ok by (auto simp: hub_ok_def conn_ok_def)
    then obtain x where "readable E (told l i @ live l i) x" using readable_prefix by blast
    then have "row_announced E (told l i @ live l i) (length (told l i) + k)" using k by (intro readable_announced) simp_all
    then show ?thesis unfolding wire_def
      using k ok by (intro announced_mid) (auto simp: hub_ok_def outdated_def)
  qed
  have 2: "row_announced F (wire l i) (length (told l i) + k)" if k: "k < length (filled l i)" "frame_kind (filled l i ! k) = KindReplay" for i k
  proof -
    obtain x where "readable F (filled l i) x" using ok by (auto simp: hub_ok_def fill_ok_def)
    then have a: "row_announced F (filled l i) k" using k by (intro readable_announced) simp_all
    then show ?thesis unfolding wire_def by (rule announced_shift [OF k(1)])
  qed
  show ?thesis using 1 2 by blast
qed

section \<open>A run across a column change\<close>

definition shown_grant :: "claims \<Rightarrow> ResolvedPermissions" where
  "shown_grant c = Evaluate (Some example_rows_policy) ''r'' ''t'' ''select'' c"

definition told_col :: "string \<Rightarrow> SchemaColumn" where
  "told_col n = \<lparr>Name = n, ch_Type = ''String'', IsNullable = False, HasDefault = False, DefaultKind = [], DefaultExpression = [],
     Position = 1, tsSpec = None\<rparr>"

definition told_registry :: "string \<Rightarrow> (string \<Rightarrow> TableSchema option) option" where
  "told_registry _ = Some (\<lambda>_. Some \<lparr>table_Name = ''t'', Columns = [told_col ''a'', told_col ''b''], DDL = []\<rparr>)"

text \<open>A retained row from before the column \<^verbatim>\<open>z\<close> was dropped.\<close>

definition old_event :: string where
  "old_event =
     ''{'' @ quoted_key ''table_name'' @ json_marshal_string ''t'' @ '','' @ quoted_key ''format'' @ json_marshal_string FormatJSONCompactEachRow @
     '','' @ quoted_key ''columns'' @ ''['' @ json_marshal_string ''a'' @ '', '' @ json_marshal_string ''z'' @ ''],'' @
     quoted_key ''row'' @ ''['' @ json_marshal_string ''x'' @ '',16]}''"

lemma old_decode:
  "decodeEvent old_event = Some \<lparr>TableName = ''t'', ev_Scope = '''', ReceivedTimestamp = '''', Format = FormatJSONCompactEachRow,
     ev_Columns = [''a'', ''z''], Row = ''['' @ json_marshal_string ''x'' @ '',16]''\<rparr>"
  by code_simp

lemma old_pair:
  "pairRow [''a'', ''z''] (''['' @ json_marshal_string ''x'' @ '',16]'') = Some ([json_marshal_string ''x'', ''16''], [(''a'', VString ''x''), (''z'', VNumber ''16'')])"
  by code_simp

lemma old_view: "newEventView old_event = \<lparr>raw = old_event,
    evt = \<lparr>TableName = ''t'', ev_Scope = '''', ReceivedTimestamp = '''', Format = FormatJSONCompactEachRow, ev_Columns = [''a'', ''z''],
      Row = ''['' @ json_marshal_string ''x'' @ '',16]''\<rparr>, decoded = True, usable = True,
    cells = [json_marshal_string ''x'', ''16''], ev_row = [(''a'', VString ''x''), (''z'', VNumber ''16'')]\<rparr>"
  by (simp only: newEventView_def Let_def old_decode option.case EventMessage.select_convs old_pair eventView.simps prod.case simp_thms if_False)

lemma new_view: "newEventView example_event = \<lparr>raw = example_event,
    evt = \<lparr>TableName = ''t'', ev_Scope = '''', ReceivedTimestamp = '''', Format = FormatJSONCompactEachRow, ev_Columns = [''a'', ''b''],
      Row = ''['' @ json_marshal_string ''x'' @ '',17]''\<rparr>, decoded = True, usable = True,
    cells = [json_marshal_string ''x'', ''17''], ev_row = [(''a'', VString ''x''), (''b'', VNumber ''17'')]\<rparr>"
  by (simp only: newEventView_def Let_def example_decode option.case EventMessage.select_convs example_pair eventView.simps prod.case simp_thms if_False)

lemma shown_facts:
  "Allowed (shown_grant [])" "HasRowFilter (Some (shown_grant []))"
  "projectIndices [''a'', ''b''] (Some (shown_grant [])) = ([0], [''a''])"
  "projectIndices [''a'', ''z''] (Some (shown_grant [])) = ([0, 1], [''a'', ''z''])"
  by code_simp+

lemma row_facts:
  "RowVisible (Some (shown_grant [(''org'', VString ''x'')])) [(''a'', VString ''x''), (''z'', VNumber ''16'')] [(''a'', opaque_spec\<lparr>Kind := ColumnText\<rparr>), (''b'', opaque_spec\<lparr>Kind := ColumnText\<rparr>)]"
  "RowVisible (Some (shown_grant [(''org'', VString ''x'')])) [(''a'', VString ''x''), (''b'', VNumber ''17'')] [(''a'', opaque_spec\<lparr>Kind := ColumnText\<rparr>), (''b'', opaque_spec\<lparr>Kind := ColumnText\<rparr>)]"
  by code_simp+

lemma told_names: "InsertableColumnNames \<lparr>table_Name = ''t'', Columns = [told_col ''a'', told_col ''b''], DDL = []\<rparr> = [''a'', ''b'']"
  by code_simp

lemma told_plain: "TimeParser (told_col ''a'') = None" "TimeParser (told_col ''b'') = None" "\<not> IsNumericType ''String''" "IsStringType ''String''"
  "Name (told_col c) = c" "ch_Type (told_col c) = ''String''"
  by (code_simp, code_simp, code_simp, code_simp, simp_all add: told_col_def)

lemma told_specs: "foldl (\<lambda>m c. case column_spec c of Some s \<Rightarrow> AList.update (Name c) s m | None \<Rightarrow> m) [] [told_col ''a'', told_col ''b''] =
   [(''a'', opaque_spec\<lparr>Kind := ColumnText\<rparr>), (''b'', opaque_spec\<lparr>Kind := ColumnText\<rparr>)]"
  by (simp add: column_spec_def told_plain)

definition gap_ops :: "hub_op list" where
  "gap_ops = [HOpen 0 example_topic ''r'' [(''org'', VString ''x'')] 4 True, HReplay 0 example_topic ''r'' old_event, HCaughtUp 0,
     HBroadcast example_topic example_event, HWrite 0]"

definition gap_run :: live_hub where
  "gap_run = fold hub_step gap_ops (start_hub (\<lambda>_. Some example_rows_policy) (Some told_registry))"

definition gap_open :: live_hub where
  "gap_open = hub_step (HOpen 0 example_topic ''r'' [(''org'', VString ''x'')] 4 True) (start_hub (\<lambda>_. Some example_rows_policy) (Some told_registry))"

lemma gap_policy: "Evaluate (Some example_rows_policy) ''r'' ''t'' ''select'' c = shown_grant c"
  by (simp add: shown_grant_def)

lemma gap_open_facts:
  "told gap_open 0 = [\<lparr>frame_kind = KindSchema, Data = schemaFrame ''t'' [''a'']\<rparr>]" "filled gap_open 0 = []" "live gap_open 0 = []"
  "filling gap_open 0 = Some ''''" "policy (hub gap_open) = Some (\<lambda>_. Some example_rows_policy)" "registry (hub gap_open) = Some told_registry"
  "RowEvaluator (hub gap_open) = None" "routes (hub gap_open) example_topic = [(''r'', [0])]"
  "sub_claims (subs (hub gap_open) 0) = [(''org'', VString ''x'')]" "closed_for (subs (hub gap_open) 0) = None" "out (subs (hub gap_open) 0) = []"
  "capacity (subs (hub gap_open) 0) = 4" "lastSchema (subs (hub gap_open) 0) = schemaSignature ''t'' [''a'']"
  by (simp_all add: gap_open_def open_stream_def start_hub_def NewHub_def SubscribeSchemaFrame_def hub_schema_def told_registry_def LabelTable_def
      snapshotPolicy_def gap_policy shown_facts told_names needsSchema_def schemaSignature_def recordSchema_def Let_def
      hub_Add_def bucket_at_def bucket_Add_def routes_def NewTableSubscriber_def newSubscriber_def example_topic_def)

lemma gap_specs: "columnSpecs (hub gap_open) tid tb = [(''a'', opaque_spec\<lparr>Kind := ColumnText\<rparr>), (''b'', opaque_spec\<lparr>Kind := ColumnText\<rparr>)]"
  using told_specs by (simp add: columnSpecs_def hub_schema_def gap_open_facts told_registry_def)

lemma gap_replayed: "replay_project (hub gap_open) tid ''r'' [(''org'', VString ''x'')] '''' old_event =
   ([\<lparr>frame_kind = KindSchema, Data = schemaFrame ''t'' [''a'', ''z'']\<rparr>,
     \<lparr>frame_kind = KindReplay, Data = wireFrame '''' (dataPayload (newEventView old_event) [0, 1])\<rparr>], schemaSignature ''t'' [''a'', ''z''])"
  by (simp add: replay_project_def snapshotPolicy_def gap_open_facts Let_def planForRole_def old_view gap_policy shown_facts
      rowAdmitted_def rowEvaluator_def gap_specs row_facts plan_schemaFrame_def schemaSignature_def)

definition gap_plan :: rolePlan where
  "gap_plan = \<lparr>plan_perms = Some (shown_grant []), sig = schemaSignature ''t'' [''a''], announce = True, plan_table = ''t'', projected = [''a''],
     data_frame = \<lparr>frame_kind = KindEvent, Data = wireFrame '''' (dataPayload (newEventView example_event) [0])\<rparr>\<rparr>"

lemma gap_live_plan: "planForRole (Some example_rows_policy) True ''r'' (newEventView example_event) KindEvent = Some gap_plan"
  by (simp add: planForRole_def Let_def new_view gap_policy shown_facts gap_plan_def)

lemma gap_wire: "told gap_run 0 = [\<lparr>frame_kind = KindSchema, Data = schemaFrame ''t'' [''a'']\<rparr>]"
  "filled gap_run 0 = [\<lparr>frame_kind = KindSchema, Data = schemaFrame ''t'' [''a'', ''z'']\<rparr>,
     \<lparr>frame_kind = KindReplay, Data = wireFrame '''' (dataPayload (newEventView old_event) [0, 1])\<rparr>]"
  "live gap_run 0 = [\<lparr>frame_kind = KindEvent, Data = wireFrame '''' (dataPayload (newEventView example_event) [0])\<rparr>]"
proof -
  let ?h = "hub gap_open"
  have v: "sees ?h (Some example_rows_policy) tid ''r'' (newEventView example_event) [(''org'', VString ''x'')]" for tid
    using row_facts(2) Evaluate_claims_free(1) [of "Some example_rows_policy" "''r''" "''t''" "[(''org'', VString ''x'')]" "[]"] shown_facts(1)
    by (simp add: sees_def grant_of_def new_view gap_specs gap_policy)
  have "subs (Broadcast example_topic example_event ?h) 0 = deliver gap_plan (subs ?h 0)"
    unfolding Broadcast_deliveries [OF gap_open_facts(5,7)] using v gap_live_plan by (simp add: gap_open_facts)
  then have b: "out (subs (Broadcast example_topic example_event ?h) 0) = [\<lparr>frame_kind = KindEvent, Data = wireFrame '''' (dataPayload (newEventView example_event) [0])\<rparr>]"
    using deliver_room [of "subs ?h 0" gap_plan] by (simp add: gap_open_facts gap_plan_def needsSchema_def)
  have r: "gap_run = write_frame 0 (hub_step (HBroadcast example_topic example_event) (hub_step (HCaughtUp 0) (send_replay 0 example_topic ''r'' old_event gap_open)))"
    by (simp add: gap_run_def gap_ops_def gap_open_def)
  show "told gap_run 0 = [\<lparr>frame_kind = KindSchema, Data = schemaFrame ''t'' [''a'']\<rparr>]"
    "filled gap_run 0 = [\<lparr>frame_kind = KindSchema, Data = schemaFrame ''t'' [''a'', ''z'']\<rparr>,
     \<lparr>frame_kind = KindReplay, Data = wireFrame '''' (dataPayload (newEventView old_event) [0, 1])\<rparr>]"
    "live gap_run 0 = [\<lparr>frame_kind = KindEvent, Data = wireFrame '''' (dataPayload (newEventView example_event) [0])\<rparr>]"
    unfolding r send_replay_def write_frame_def by (simp_all add: gap_open_facts gap_replayed b take_frame_def)
qed

lemma old_clean: "clean_event old_event" "clean_event example_event"
  by (simp_all add: clean_event_def Let_def old_view new_view clean_name_def NUL_def)

lemma split_at_chars: "x \<in> set (split_at c s) \<Longrightarrow> set x \<subseteq> set s"
proof (induction s arbitrary: x)
  case (Cons d s)
  show ?case
  proof (cases "split_at c s")
    case Nil
    then show ?thesis using Cons.prems by (auto split: if_splits)
  next
    case (Cons y ys)
    then have "set y \<subseteq> set s" "\<forall>z \<in> set ys. set z \<subseteq> set s" using Cons.IH by auto
    then show ?thesis using Cons.prems Cons by (auto split: if_splits)
  qed
qed simp

lemma join_chars: "set (join sp xs) \<subseteq> set sp \<union> \<Union> (set ` set xs)"
  by (induction sp xs rule: join.induct) auto

lemma schemaFrame_chars:
  "set (schemaFrame t cols) \<subseteq> set ''event: schema'' \<union> set ''data: '' \<union> set NL \<union> set (schema_payload t cols)"
  using split_at_chars by (fastforce simp: schemaFrame_def data_lines_def)

lemma payload_chars:
  "set (schema_payload t cols) \<subseteq> set (''{'' @ quoted_key ''table_name'' @ quoted_key ''columns'' @ '',[]}'') \<union> set (json_marshal_string t) \<union>
     \<Union> (set ` json_marshal_string ` set cols)"
  using join_chars [of "'',''" "map json_marshal_string cols"] by (auto simp: schema_payload_def)

lemma no_z: "CHR ''z'' \<notin> set (schemaFrame ''t'' cols)" if "set cols \<subseteq> {''a'', ''b''}"
proof -
  have 1: "CHR ''z'' \<notin> set (json_marshal_string ''t'')" "CHR ''z'' \<notin> set (json_marshal_string ''a'')" "CHR ''z'' \<notin> set (json_marshal_string ''b'')"
    by code_simp+
  have 2: "CHR ''z'' \<notin> set (''{'' @ quoted_key ''table_name'' @ quoted_key ''columns'' @ '',[]}'')" by code_simp
  have "CHR ''z'' \<notin> set (schema_payload ''t'' cols)"
  proof
    assume "CHR ''z'' \<in> set (schema_payload ''t'' cols)"
    then obtain x where "x \<in> set cols" "CHR ''z'' \<in> set (json_marshal_string x)" using payload_chars [of "''t''" cols] 1(1) 2 by blast
    then show False using that 1(2,3) by auto
  qed
  then show ?thesis using schemaFrame_chars [of "''t''" cols] by (auto simp: NL_def)
qed

text \<open>The documented limitation: the live row's columns were announced before the gap-fill, whose last announcement names others, so
  the row stands behind no announcement of its own columns.\<close>

lemma gap_fill_across_a_change:
  "outdated gap_run 0 0 \<and> \<not> row_announced {example_event} (wire gap_run 0) 3"
proof
  have z: "CHR ''z'' \<in> set (schemaFrame ''t'' [''a'', ''z''])" by code_simp
  then have "schemaFrame ''t'' [''a'', ''z''] \<noteq> schemaFrame ''t'' [''a'']" using no_z [of "[''a'']"] by auto
  then show "outdated gap_run 0 0" by (simp add: outdated_def gap_wire last_schema_def)
  show "\<not> row_announced {example_event} (wire gap_run 0) 3"
  proof
    assume "row_announced {example_event} (wire gap_run 0) 3"
    then obtain m idx where m: "m < 3" "\<forall>i \<in> set idx. i < Suc (Suc 0)"
      "wire gap_run 0 ! m = \<lparr>frame_kind = KindSchema, Data = schemaFrame ''t'' (map (\<lambda>i. [''a'', ''b''] ! i) idx)\<rparr>"
      "\<forall>k. m < k \<longrightarrow> k < 3 \<longrightarrow> frame_kind (wire gap_run 0 ! k) \<noteq> KindSchema"
      unfolding row_announced_def by (auto simp: new_view)
    have c: "set (map (\<lambda>i. [''a'', ''b''] ! i) idx) \<subseteq> {''a'', ''b''}"
      using m(2) by (auto simp: less_Suc_eq)
    consider "m = 0" | "m = 1" | "m = 2" using m(1) by linarith
    then show False
    proof cases
      case 1
      then show ?thesis using m(4) [rule_format, of 1] by (simp add: wire_def gap_wire)
    next
      case 2
      then have "schemaFrame ''t'' [''a'', ''z''] = schemaFrame ''t'' (map (\<lambda>i. [''a'', ''b''] ! i) idx)"
        using m(3) by (simp add: wire_def gap_wire)
      then show ?thesis using z no_z [OF c] by simp
    next
      case 3
      then show ?thesis using m(3) by (simp add: wire_def gap_wire)
    qed
  qed
qed

theorem rows_announced_witness:
  "row_announced {old_event} (wire gap_run 0) 2"
proof -
  have c: "clean_registry (Some told_registry)" "list_all (clean_op {example_event} {old_event}) gap_ops"
    using old_clean told_names
    by (auto simp: clean_registry_def told_registry_def clean_name_def gap_ops_def example_topic_def NUL_def)
  from rows_announced [OF c gap_run_def, THEN conjunct2, rule_format, of 1 0] show ?thesis by (simp add: gap_wire numeral_2_eq_2)
qed

end
