(* ===== verification/Ingest.thy ===== *)
theory Ingest
  imports Hub Dedupe
begin

text \<open>
  One record on its way into the queue (\<^verbatim>\<open>internal/api/ingest.go\<close>, \<^verbatim>\<open>ingest_seams.go\<close>,
  \<^verbatim>\<open>internal/ingest/compact.go\<close>, \<^verbatim>\<open>types.go\<close>): validation, the column grants and check clauses of the policy with
  the values they inject, timestamps, the dedupe id, and the encoding of the row and its envelope. What happens to
  a window of prepared records is in \<open>Ingest_window\<close>.

  A record is \<open>None\<close> when the decoder left the map nil (the body \<^verbatim>\<open>null\<close>): it reads as empty and a write to it
  panics. The range over a map is the order of its association list. The text of a refusal is kept as what it
  is made of. The decoders of this path hand out numbers as literals; the texts of a float64 are arguments.
\<close>

section \<open>Refusals\<close>

datatype ingest_result =
    resultQueued | resultDuplicate | resultInFlight | resultInvalidBody | resultSchema | resultForbidden
  | resultMissingID | resultDedupeUnavailable | resultQueueFull | resultQueueUnavailable | resultPublishFailed
  | resultRecordsCanceled | resultNone

datatype guard_reason =
    NoSuchColumn string
  | NotWritable string string
  | NeverStored string

datatype reject_message =
    SchemaError row_error
  | ColumnForbidden string
  | GuardFailed "guard_reason list"
  | CheckFailed string
  | MissingId string
  | SyntaxMessage string
  | NoMessage

record recordReject =
  rj_Status :: nat
  rj_Message :: reject_message
  rj_Result :: ingest_result

record requestAbort =
  ab_Status :: nat
  ab_Message :: string
  RetryAfter :: string
  ab_Result :: ingest_result
  Final :: bool

definition abort_with :: "nat \<Rightarrow> string \<Rightarrow> string \<Rightarrow> ingest_result \<Rightarrow> requestAbort" where
  "abort_with st msg retry res = \<lparr>ab_Status = st, ab_Message = msg, RetryAfter = retry, ab_Result = res, Final = False\<rparr>"

section \<open>Check clauses\<close>

definition required_scalar :: "check_value \<Rightarrow> string option" where
  "required_scalar req =
     (case req of LiteralValue s \<Rightarrow> Some s | ClaimValue s \<Rightarrow> CanonicalScalar (VString s) | InSet _ \<Rightarrow> CanonicalScalar (VArray []))"

definition checkValueMatches :: "jvalue \<Rightarrow> check_value \<Rightarrow> bool" where
  "checkValueMatches actual req =
     (case CanonicalScalar actual of
        None \<Rightarrow> False
      | Some a \<Rightarrow>
          (case req of
             LiteralValue lit \<Rightarrow> a = lit \<or> (case CanonicalNumericLiteral lit of Some n \<Rightarrow> a = n | None \<Rightarrow> False)
           | _ \<Rightarrow> (case required_scalar req of Some r \<Rightarrow> a = r | None \<Rightarrow> False)))"

definition valueInSet :: "jvalue \<Rightarrow> jvalue list \<Rightarrow> bool" where
  "valueInSet v members =
     (case CanonicalScalar v of
        None \<Rightarrow> False
      | Some vs \<Rightarrow> list_ex (\<lambda>s. case CanonicalScalar s of Some ss \<Rightarrow> ss = vs | None \<Rightarrow> False) members)"

text \<open>The seams a type layer may replace, and their defaults.\<close>

record RecordValidator =
  Validate_record :: "TableSchema \<Rightarrow> row \<Rightarrow> row_error option"
  Canonicalize_record :: "TableSchema \<Rightarrow> row \<Rightarrow> row"

record InsertChecker =
  Matches :: "jvalue \<Rightarrow> check_value \<Rightarrow> bool"
  InSetOf :: "jvalue \<Rightarrow> jvalue list \<Rightarrow> bool"

definition discoveryValidator :: RecordValidator where
  "discoveryValidator = \<lparr>Validate_record = Validate_row, Canonicalize_record = CanonicalizeTimestamps\<rparr>"

definition canonicalChecker :: InsertChecker where
  "canonicalChecker = \<lparr>Matches = checkValueMatches, InSetOf = valueInSet\<rparr>"

record IngestHandler =
  DedupeLease :: int
  Validator :: "RecordValidator option"
  Checker :: "InsertChecker option"
  window_size :: int

definition validator :: "IngestHandler \<Rightarrow> RecordValidator" where
  "validator h = (case Validator h of Some v \<Rightarrow> v | None \<Rightarrow> discoveryValidator)"

definition checker :: "IngestHandler \<Rightarrow> InsertChecker" where
  "checker h = (case Checker h of Some c \<Rightarrow> c | None \<Rightarrow> canonicalChecker)"

text \<open>The columns of the checks, judged once per request.\<close>

definition guard_reason_of :: "TableSchema \<Rightarrow> string \<Rightarrow> guard_reason option" where
  "guard_reason_of schema col =
     (case schema_Lookup col schema of
        None \<Rightarrow> Some (NoSuchColumn col)
      | Some c \<Rightarrow>
          (if \<not> IsInsertable c then Some (NotWritable col (DefaultKind c))
           else if DefaultKind c = ''EPHEMERAL'' then Some (NeverStored col)
           else None))"

definition policyCheckGuard :: "TableSchema \<Rightarrow> ResolvedPermissions option \<Rightarrow> recordReject option" where
  "policyCheckGuard schema perms =
     (case CheckClauses perms of
        None \<Rightarrow> None
      | Some checks \<Rightarrow>
          (let reasons = List.map_filter (guard_reason_of schema) (sort (map fst checks)) in
           if reasons = [] then None
           else Some \<lparr>rj_Status = 403, rj_Message = GuardFailed reasons, rj_Result = resultForbidden\<rparr>))"

section \<open>Records\<close>

type_synonym ingest_data = "row option"

definition entries :: "ingest_data \<Rightarrow> row" where
  "entries data = (case data of Some r \<Rightarrow> r | None \<Rightarrow> [])"

datatype 'a step = Go 'a | Reject recordReject | Abort requestAbort | Panic

fun bind_step :: "'a step \<Rightarrow> ('a \<Rightarrow> 'b step) \<Rightarrow> 'b step" where
  "bind_step (Go x) f = f x"
| "bind_step (Reject r) f = Reject r"
| "bind_step (Abort a) f = Abort a"
| "bind_step Panic f = Panic"

text \<open>\<^verbatim>\<open>data[col] = v\<close> of a column that is absent.\<close>

definition inject :: "string \<Rightarrow> string \<Rightarrow> ingest_data \<Rightarrow> ingest_data step" where
  "inject col v data = (case data of None \<Rightarrow> Panic | Some r \<Rightarrow> Go (Some (AList.update col (VString v) r)))"

definition check_failed :: "string \<Rightarrow> 'a step" where
  "check_failed col = Reject \<lparr>rj_Status = 403, rj_Message = CheckFailed col, rj_Result = resultForbidden\<rparr>"

definition enforce_check :: "InsertChecker \<Rightarrow> string \<Rightarrow> check_value \<Rightarrow> ingest_data \<Rightarrow> ingest_data step" where
  "enforce_check ck col req data =
     (case req of
        InSet vs \<Rightarrow>
          (case map_of (entries data) col of
             Some actual \<Rightarrow> (if InSetOf ck actual (map VString vs) then Go data else check_failed col)
           | None \<Rightarrow> check_failed col)
      | LiteralValue v \<Rightarrow>
          (case map_of (entries data) col of
             Some actual \<Rightarrow> (if Matches ck actual req then Go data else check_failed col)
           | None \<Rightarrow> inject col v data)
      | ClaimValue v \<Rightarrow>
          (case map_of (entries data) col of
             Some actual \<Rightarrow> (if Matches ck actual req then Go data else check_failed col)
           | None \<Rightarrow> inject col v data))"

fun enforce_checks ::
  "InsertChecker \<Rightarrow> recordReject option \<Rightarrow> (string \<times> check_value) list \<Rightarrow> ingest_data \<Rightarrow> ingest_data step" where
  "enforce_checks ck guard [] data = Go data"
| "enforce_checks ck guard ((col, req) # cs) data =
     (case guard of
        Some r \<Rightarrow> Reject r
      | None \<Rightarrow> bind_step (enforce_check ck col req data) (enforce_checks ck guard cs))"

definition authorize_record ::
  "InsertChecker \<Rightarrow> ResolvedPermissions option \<Rightarrow> recordReject option \<Rightarrow> ingest_data \<Rightarrow> ingest_data step" where
  "authorize_record ck perms guard data =
     (if perms = None then Go data
      else case List.find (\<lambda>c. \<not> IsColumnAllowed perms c True) (map fst (entries data)) of
        Some c \<Rightarrow> Reject \<lparr>rj_Status = 403, rj_Message = ColumnForbidden c, rj_Result = resultForbidden\<rparr>
      | None \<Rightarrow>
          (case CheckClauses perms of
             None \<Rightarrow> Abort (abort_with 403 ''insert permissions were not resolved for this request'' '''' resultForbidden)
           | Some checks \<Rightarrow> enforce_checks ck guard checks data))"


section \<open>Encoding\<close>

text \<open>\<^verbatim>\<open>json.Marshal\<close> of a decoded value; \<open>fjson\<close> is the text of a float64, none for an infinity or a NaN.\<close>

fun json_marshal :: "(64 word \<Rightarrow> string option) \<Rightarrow> jvalue \<Rightarrow> string option" where
  "json_marshal fjson VNil = Some ''null''"
| "json_marshal fjson (VBool b) = Some (format_bool b)"
| "json_marshal fjson (VNumber n) =
     (let n = (if n = '''' then ''0'' else n) in if json_number n = Some '''' then Some n else None)"
| "json_marshal fjson (VFloat f) = fjson f"
| "json_marshal fjson (VString s) = Some (json_marshal_string s)"
| "json_marshal fjson (VArray xs) =
     map_option (\<lambda>ts. ''['' @ join '','' ts @ '']'') (those (map (json_marshal fjson) xs))"
| "json_marshal fjson (VMap m) =
     map_option (\<lambda>kts. ''{'' @ join '','' (map (\<lambda>(k, t). json_marshal_string k @ '':'' @ t) (sort_key fst kts)) @ ''}'')
       (those (map (\<lambda>(k, v). map_option (Pair k) (json_marshal fjson v)) m))"

definition encode_cell :: "(64 word \<Rightarrow> string option) \<Rightarrow> ingest_data \<Rightarrow> SchemaColumn \<Rightarrow> string option" where
  "encode_cell fjson data col =
     (case map_of (entries data) (Name col) of None \<Rightarrow> Some ''null'' | Some v \<Rightarrow> json_marshal fjson v)"

definition EncodeCompactRow :: "(64 word \<Rightarrow> string option) \<Rightarrow> SchemaColumn list \<Rightarrow> ingest_data \<Rightarrow> string option" where
  "EncodeCompactRow fjson cols data =
     map_option (\<lambda>cells. ''['' @ join '','' cells @ '']'') (those (map (encode_cell fjson data) cols))"

text \<open>A raw message is checked and compacted as it is marshalled: white space outside strings goes, and what HTML
  would read is escaped.\<close>

definition unicode_escape :: "nat \<Rightarrow> string" where
  "unicode_escape n = [CHR 0x5C, CHR ''u''] @ map (\<lambda>k. hex_char (n div 16 ^ k mod 16)) [3, 2, 1, 0]"

fun json_compact :: "bool \<Rightarrow> bool \<Rightarrow> string \<Rightarrow> string" where
  "json_compact instr esc [] = []"
| "json_compact instr esc (c # cs) =
     (if c = CHR ''<'' \<or> c = CHR ''>'' \<or> c = CHR ''&'' then unicode_escape (byte c) @ json_compact instr False cs
      else if c = CHR 0xE2 \<and> (take 2 cs = [CHR 0x80, CHR 0xA8] \<or> take 2 cs = [CHR 0x80, CHR 0xA9])
      then unicode_escape (if take 2 cs = [CHR 0x80, CHR 0xA8] then 0x2028 else 0x2029) @ json_compact instr False (drop 2 cs)
      else if \<not> instr then (if json_space c then [] else [c]) @ json_compact (c = CHR 0x22) False cs
      else if esc then c # json_compact True False cs
      else c # json_compact (c \<noteq> CHR 0x22) (c = CHR 0x5C) cs)"

definition marshal_raw :: "string \<Rightarrow> string option" where
  "marshal_raw r = (if json_valid r then Some (json_compact False False r) else None)"

definition marshal_event :: "EventMessage \<Rightarrow> string option" where
  "marshal_event e =
     map_option (\<lambda>row.
       [CHR ''{''] @ quoted_key ''table_name'' @ json_marshal_string (TableName e) @
       [CHR '',''] @ quoted_key ''scope'' @ json_marshal_string (ev_Scope e) @
       [CHR '',''] @ quoted_key ''received_timestamp'' @ json_marshal_string (ReceivedTimestamp e) @
       [CHR '',''] @ quoted_key ''format'' @ json_marshal_string (Format e) @
       [CHR '',''] @ quoted_key ''columns'' @ ''['' @ join '','' (map json_marshal_string (ev_Columns e)) @ '']'' @
       [CHR '',''] @ quoted_key ''row'' @ row @ [CHR ''}'']) (marshal_raw (Row e))"

section \<open>Preparing a record\<close>

record DedupeSettings =
  dd_Enabled :: bool
  IDField :: string
  dd_Retention :: int
  RequireID :: bool

record pendingRecord =
  rec_index :: nat
  reject :: "recordReject option"
  payload :: string
  key :: "Key option"
  retention :: int
  claim :: "Claim option"
  duplicate :: bool
  queued :: bool

definition blank :: pendingRecord where
  "blank = \<lparr>rec_index = 0, reject = None, payload = '''', key = None, retention = 0, claim = None,
            duplicate = False, queued = False\<rparr>"

text \<open>\<^verbatim>\<open>fmt.Sprint\<close>; \<open>ftext\<close> is the text of a float64.\<close>

fun Sprint :: "(64 word \<Rightarrow> string) \<Rightarrow> jvalue \<Rightarrow> string" where
  "Sprint ftext VNil = ''<nil>''"
| "Sprint ftext (VBool b) = format_bool b"
| "Sprint ftext (VNumber n) = n"
| "Sprint ftext (VFloat f) = ftext f"
| "Sprint ftext (VString s) = s"
| "Sprint ftext (VArray xs) = ''['' @ join '' '' (map (Sprint ftext) xs) @ '']''"
| "Sprint ftext (VMap m) =
     ''map['' @ join '' '' (map (\<lambda>(k, t). k @ '':'' @ t) (sort_key fst (map (\<lambda>(k, v). (k, Sprint ftext v)) m))) @ '']''"

text \<open>The settings are absent when no store or no settings source is wired.\<close>

definition dedupe_id :: "(64 word \<Rightarrow> string) \<Rightarrow> DedupeSettings option \<Rightarrow> string \<Rightarrow> ingest_data \<Rightarrow> (Key option \<times> int) step" where
  "dedupe_id ftext settings table data =
     (case settings of
        None \<Rightarrow> Go (None, 0)
      | Some dd \<Rightarrow>
          (if \<not> dd_Enabled dd then Go (None, 0)
           else case map_of (entries data) (IDField dd) of
             Some v \<Rightarrow>
               (if v \<noteq> VNil then Go (Some \<lparr>Table = table, ID = Sprint ftext v\<rparr>, dd_Retention dd)
                else if RequireID dd then Reject \<lparr>rj_Status = 400, rj_Message = MissingId (IDField dd), rj_Result = resultMissingID\<rparr>
                else Go (None, 0))
           | None \<Rightarrow>
               (if RequireID dd then Reject \<lparr>rj_Status = 400, rj_Message = MissingId (IDField dd), rj_Result = resultMissingID\<rparr>
                else Go (None, 0))))"

definition event_of :: "string \<Rightarrow> string \<Rightarrow> TableSchema \<Rightarrow> int \<Rightarrow> string \<Rightarrow> EventMessage" where
  "event_of table scope schema now row =
     \<lparr>TableName = table, ev_Scope = scope, ReceivedTimestamp = format_rfc3339 now, Format = FormatJSONCompactEachRow,
      ev_Columns = InsertableColumnNames schema, Row = row\<rparr>"

definition marshal_failed :: requestAbort where
  "marshal_failed = abort_with 500 ''marshal failed'' '''' resultPublishFailed"

definition encode_record ::
  "(64 word \<Rightarrow> string option) \<Rightarrow> string \<Rightarrow> string \<Rightarrow> TableSchema \<Rightarrow> int \<Rightarrow> ingest_data \<Rightarrow> string step" where
  "encode_record fjson table scope schema now data =
     (case EncodeCompactRow fjson (InsertableColumns schema) data of
        None \<Rightarrow> Abort marshal_failed
      | Some row \<Rightarrow>
          (case marshal_event (event_of table scope schema now row) of
             None \<Rightarrow> Abort marshal_failed
           | Some p \<Rightarrow> Go p))"

record request =
  rq_table :: string
  rq_scope :: string
  rq_schema :: TableSchema
  rq_perms :: "ResolvedPermissions option"
  rq_now :: int
  rq_guard :: "recordReject option"
  rq_fjson :: "64 word \<Rightarrow> string option"
  rq_ftext :: "64 word \<Rightarrow> string"

definition prepareRecord :: "IngestHandler \<Rightarrow> request \<Rightarrow> DedupeSettings option \<Rightarrow> ingest_data \<Rightarrow> pendingRecord step" where
  "prepareRecord h rq settings data =
     (case Validate_record (validator h) (rq_schema rq) (entries data) of
        Some err \<Rightarrow> Reject \<lparr>rj_Status = 400, rj_Message = SchemaError err, rj_Result = resultSchema\<rparr>
      | None \<Rightarrow>
          bind_step (authorize_record (checker h) (rq_perms rq) (rq_guard rq) data) (\<lambda>data.
          let data = map_option (Canonicalize_record (validator h) (rq_schema rq)) data in
          bind_step (dedupe_id (rq_ftext rq) settings (rq_table rq) data) (\<lambda>(k, ret).
          bind_step (encode_record (rq_fjson rq) (rq_table rq) (rq_scope rq) (rq_schema rq) (rq_now rq) data) (\<lambda>p.
          Go (blank\<lparr>payload := p, key := k, retention := ret\<rparr>)))))"


section \<open>What an admitted record satisfies\<close>

lemmas step_simps = check_failed_def inject_def

lemma bind_step_Go: "bind_step m f = Go y \<longleftrightarrow> (\<exists>x. m = Go x \<and> f x = Go y)"
  by (cases m) auto

text \<open>A required text is one of the values its check accepts.\<close>

lemma checkValueMatches_required:
  "checkValueMatches (VString s) (LiteralValue s)" "checkValueMatches (VString s) (ClaimValue s)"
  by (auto simp: checkValueMatches_def required_scalar_def split: option.splits)

definition satisfies_check :: "check_value \<Rightarrow> jvalue \<Rightarrow> bool" where
  "satisfies_check req v = (case req of InSet vs \<Rightarrow> valueInSet v (map VString vs) | _ \<Rightarrow> checkValueMatches v req)"

text \<open>The check clauses only add columns, each with the text a clause requires of it.\<close>

definition filled_in :: "(string \<times> check_value) list \<Rightarrow> ingest_data \<Rightarrow> ingest_data \<Rightarrow> bool" where
  "filled_in checks data sent \<longleftrightarrow>
     (\<forall>c v. map_of (entries data) c = Some v \<longrightarrow> map_of (entries sent) c = Some v) \<and>
     (\<forall>c v. map_of (entries sent) c = Some v \<longrightarrow> map_of (entries data) c = Some v \<or>
        (\<exists>s. v = VString s \<and> ((c, LiteralValue s) \<in> set checks \<or> (c, ClaimValue s) \<in> set checks)))"

lemma filled_in_refl [simp]: "filled_in checks data data"
  by (simp add: filled_in_def)

lemma filled_in_trans: "filled_in cs a b \<Longrightarrow> filled_in ds b c \<Longrightarrow> filled_in (cs @ ds) a c"
  unfolding filled_in_def by (auto; blast)

lemma enforce_check_Go:
  assumes "enforce_check canonicalChecker col req data = Go sent"
  shows "filled_in [(col, req)] data sent \<and> (\<exists>v. map_of (entries sent) col = Some v \<and> satisfies_check req v)"
proof (cases "map_of (entries data) col")
  case None
  then obtain r s where "data = Some r" "sent = Some (AList.update col (VString s) r)" "req = LiteralValue s \<or> req = ClaimValue s"
    using assms by (auto simp: enforce_check_def step_simps split: check_value.splits option.splits)
  then show ?thesis using None checkValueMatches_required
    by (auto simp: filled_in_def entries_def update_conv satisfies_check_def split: if_splits)
next
  case (Some v)
  then show ?thesis using assms
    by (auto simp: enforce_check_def step_simps canonicalChecker_def satisfies_check_def split: check_value.splits if_splits)
qed

lemma enforce_checks_Go:
  "enforce_checks canonicalChecker guard cs data = Go sent \<Longrightarrow>
   filled_in cs data sent \<and> (cs \<noteq> [] \<longrightarrow> guard = None) \<and>
   (\<forall>(col, req) \<in> set cs. \<exists>v. map_of (entries sent) col = Some v \<and> satisfies_check req v)"
proof (induction cs arbitrary: data)
  case (Cons cr cs)
  obtain col req where cr: "cr = (col, req)" by (cases cr)
  obtain mid where g: "guard = None" and m: "enforce_check canonicalChecker col req data = Go mid"
    and e: "enforce_checks canonicalChecker guard cs mid = Go sent"
    using Cons.prems by (auto simp: cr bind_step_Go split: option.splits)
  from enforce_check_Go [OF m] obtain v where f: "filled_in [(col, req)] data mid" and v: "map_of (entries mid) col = Some v" "satisfies_check req v"
    by blast
  have i: "filled_in cs mid sent" and all: "\<forall>(col, req) \<in> set cs. \<exists>v. map_of (entries sent) col = Some v \<and> satisfies_check req v"
    using Cons.IH [OF e] by auto
  have "map_of (entries sent) col = Some v" using i v(1) by (simp add: filled_in_def)
  then show ?case using filled_in_trans [OF f i] g v(2) all by (auto simp: cr)
qed simp


text \<open>A guard that refuses nothing leaves only checks on columns the row carries and the table stores.\<close>

lemma guard_reason_none:
  assumes "guard_reason_of schema col = None"
  shows "\<exists>c \<in> set (InsertableColumns schema). Name c = col \<and> DefaultKind c \<noteq> ''EPHEMERAL''"
  using assms by (force simp: guard_reason_of_def schema_Lookup_def InsertableColumns_def computeInsertable_def find_Some_iff
      split: option.splits if_splits)

lemma map_filter_empty: "List.map_filter f xs = [] \<longleftrightarrow> (\<forall>x \<in> set xs. f x = None)"
  by (induction xs) (auto simp: List.map_filter_simps split: option.splits)

lemma policyCheckGuard_None:
  assumes "policyCheckGuard schema perms = None" "CheckClauses perms = Some checks" "(col, req) \<in> set checks"
  shows "\<exists>c \<in> set (InsertableColumns schema). Name c = col \<and> DefaultKind c \<noteq> ''EPHEMERAL''"
proof -
  have "guard_reason_of schema col = None"
    using assms by (auto simp: policyCheckGuard_def map_filter_empty split: if_splits)
  then show ?thesis by (rule guard_reason_none)
qed

lemma encode_record_Go:
  "encode_record fjson table scope schema now data = Go p \<Longrightarrow>
   \<exists>row. EncodeCompactRow fjson (InsertableColumns schema) data = Some row \<and> marshal_event (event_of table scope schema now row) = Some p"
  by (auto simp: encode_record_def split: option.splits)

lemma prepareRecord_Go:
  "prepareRecord h rq settings data = Go rec \<longleftrightarrow>
   Validate_record (validator h) (rq_schema rq) (entries data) = None \<and>
   (\<exists>sent k ret p. authorize_record (checker h) (rq_perms rq) (rq_guard rq) data = Go sent \<and>
      dedupe_id (rq_ftext rq) settings (rq_table rq) (map_option (Canonicalize_record (validator h) (rq_schema rq)) sent) = Go (k, ret) \<and>
      encode_record (rq_fjson rq) (rq_table rq) (rq_scope rq) (rq_schema rq) (rq_now rq)
        (map_option (Canonicalize_record (validator h) (rq_schema rq)) sent) = Go p \<and>
      rec = blank\<lparr>payload := p, key := k, retention := ret\<rparr>)"
  by (auto simp: prepareRecord_def bind_step_Go Let_def split: option.splits)

lemma authorize_record_Go:
  assumes "authorize_record canonicalChecker perms guard data = Go sent"
  shows "if perms = None then sent = data else
    (\<exists>checks. CheckClauses perms = Some checks \<and> (\<forall>c \<in> fst ` set (entries data). IsColumnAllowed perms c True) \<and>
       filled_in checks data sent \<and> (checks \<noteq> [] \<longrightarrow> guard = None) \<and>
       (\<forall>(col, req) \<in> set checks. \<exists>v. map_of (entries sent) col = Some v \<and> satisfies_check req v))"
proof (cases "perms = None")
  case True
  then show ?thesis using assms by (simp add: authorize_record_def)
next
  case False
  then obtain checks where n: "List.find (\<lambda>c. \<not> IsColumnAllowed perms c True) (map fst (entries data)) = None"
    and c: "CheckClauses perms = Some checks" and e: "enforce_checks canonicalChecker guard checks data = Go sent"
    using assms by (auto simp: authorize_record_def split: option.splits)
  have "\<forall>c \<in> fst ` set (entries data). IsColumnAllowed perms c True" using n by (auto simp: find_None_iff)
  then show ?thesis using False c enforce_checks_Go [OF e] by auto
qed



text \<open>A table with an id and a checked column, and a grant that requires one text of it.\<close>

definition example_table :: TableSchema where
  "example_table =
     \<lparr>table_Name = ''t'',
      Columns = map (\<lambda>n. \<lparr>Name = n, ch_Type = ''String'', IsNullable = False, HasDefault = True, DefaultKind = ''DEFAULT'',
                          DefaultExpression = '''', Position = 0, tsSpec = None\<rparr>) [''id'', ''org''],
      DDL = ''''\<rparr>"

definition example_request :: request where
  "example_request =
     (let perms = Some \<lparr>Allowed = True, Select = None,
            Insert = Some \<lparr>ri_AllowColumns = [''id''], ri_DenyColumns = [], ri_CheckClauses = [(''org'', LiteralValue ''a'')]\<rparr>\<rparr> in
      \<lparr>rq_table = ''t'', rq_scope = '''', rq_schema = example_table, rq_perms = perms, rq_now = 0,
       rq_guard = policyCheckGuard example_table perms, rq_fjson = (\<lambda>_. None), rq_ftext = (\<lambda>_. '''')\<rparr>)"

definition example_handler :: IngestHandler where
  "example_handler = \<lparr>DedupeLease = 0, Validator = None, Checker = None, window_size = 0\<rparr>"

lemma example_prepared:
  "(case prepareRecord example_handler example_request None (Some [(''id'', VString ''x'')]) of Go _ \<Rightarrow> True | _ \<Rightarrow> False)"
  by code_simp


text \<open>The body \<^verbatim>\<open>null\<close> decodes to a nil map. A table every column of which may be absent accepts it, and a check clause
  that injects its value then writes to that map, which panics.\<close>

lemma null_record_panics:
  assumes "Validate_row (rq_schema rq) [] = None" "Validator h = None" "Checker h = None"
    and "CheckClauses (rq_perms rq) = Some ((col, LiteralValue s) # cs)" "rq_perms rq \<noteq> None" "rq_guard rq = None"
  shows "prepareRecord h rq settings None = Panic"
  using assms by (auto simp: prepareRecord_def validator_def discoveryValidator_def authorize_record_def entries_def
      enforce_check_def inject_def)

end
