(* ===== verification/Ingest_window.thy ===== *)
theory Ingest_window
  imports Ingest
begin

text \<open>
  A window of prepared records (\<^verbatim>\<open>internal/api/ingest.go\<close>, \<^verbatim>\<open>ingest_metrics.go\<close>): the ids are reserved in one call, the
  records published in order, and the claims committed or given back by what became of their records; a batch
  is read into such windows. What the handler calls (the dedupe store, the queue, the request's context) is a
  record of functions on a state, so every order of answers is covered.
\<close>

section \<open>What the handler calls\<close>

datatype publish_error = QueueFull | QueueUnavailable | PublishError

record 'w backends =
  reserve_ids :: "Key list \<Rightarrow> int \<Rightarrow> 'w \<Rightarrow> (dedupe_error + Claim list) \<times> 'w"
  commit_ids :: "Claim list \<Rightarrow> int \<Rightarrow> 'w \<Rightarrow> dedupe_error option \<times> 'w"
  release_ids :: "Claim list \<Rightarrow> 'w \<Rightarrow> dedupe_error option \<times> 'w"
  publish :: "Topic \<Rightarrow> string \<Rightarrow> string option \<Rightarrow> 'w \<Rightarrow> publish_error option \<times> 'w"
  clientGone :: "'w \<Rightarrow> bool"

section \<open>Claims of a window\<close>

definition claimed :: "pendingRecord \<Rightarrow> Claim option" where
  "claimed r = (case claim r of Some c \<Rightarrow> (if Status c = Claimed then Some c else None) | None \<Rightarrow> None)"

definition claimedIn :: "pendingRecord list \<Rightarrow> Claim list" where
  "claimedIn recs = List.map_filter claimed recs"

text \<open>The retentions of the claims, in the order of their first occurrence.\<close>

fun retentions_from :: "int list \<Rightarrow> pendingRecord list \<Rightarrow> int list" where
  "retentions_from seen [] = seen"
| "retentions_from seen (r # rs) =
     retentions_from (if claimed r \<noteq> None \<and> retention r \<notin> set seen then seen @ [retention r] else seen) rs"

definition commitClaims :: "'w backends \<Rightarrow> pendingRecord list \<Rightarrow> 'w \<Rightarrow> 'w" where
  "commitClaims be recs w =
     fold (\<lambda>ret w. snd (commit_ids be (claimedIn (filter (\<lambda>r. retention r = ret) recs)) ret w)) (retentions_from [] recs) w"

definition releaseClaims :: "'w backends \<Rightarrow> Claim list \<Rightarrow> 'w \<Rightarrow> 'w" where
  "releaseClaims be cs w = (if cs = [] then w else snd (release_ids be cs w))"

section \<open>Reserving\<close>

definition lease :: "IngestHandler \<Rightarrow> int" where
  "lease h = (if DedupeLease h > 0 then DedupeLease h else DefaultLease)"

text \<open>\<^verbatim>\<open>strconv.Itoa(int(math.Ceil(d.Seconds())))\<close>, in the arithmetic of float64.\<close>

definition float_of :: "rat \<Rightarrow> rat" where
  "float_of q = (case round_float float64 q of Some r \<Rightarrow> r | None \<Rightarrow> 0)"

definition retry_seconds :: "int \<Rightarrow> string" where
  "retry_seconds d = itoa_int \<lceil>float_of (of_int (d div 10 ^ 9) + float_of (of_int (d mod 10 ^ 9) / 10 ^ 9))\<rceil>"

definition clientClosedAbort :: requestAbort where
  "clientClosedAbort = abort_with 499 ''client closed request'' '''' resultRecordsCanceled"

definition keyed :: "pendingRecord \<Rightarrow> bool" where
  "keyed r \<longleftrightarrow> reject r = None \<and> key r \<noteq> None"

definition keys_of :: "pendingRecord list \<Rightarrow> Key list" where
  "keys_of recs = List.map_filter (\<lambda>r. if reject r = None then key r else None) recs"

text \<open>The answers go to the keyed records in order; the interface gives one per key.\<close>

definition set_claim :: "Claim \<Rightarrow> pendingRecord \<Rightarrow> pendingRecord" where
  "set_claim c r = r\<lparr>claim := Some c, duplicate := duplicate r \<or> Status c = Duplicate\<rparr>"

fun set_claims :: "Claim list \<Rightarrow> pendingRecord list \<Rightarrow> pendingRecord list" where
  "set_claims cs [] = []"
| "set_claims cs (r # rs) =
     (if keyed r then (case cs of c # cs \<Rightarrow> set_claim c r # set_claims cs rs | [] \<Rightarrow> r # rs)
      else r # set_claims cs rs)"

definition reserve :: "'w backends \<Rightarrow> IngestHandler \<Rightarrow> pendingRecord list \<Rightarrow> 'w \<Rightarrow> requestAbort option \<times> pendingRecord list \<times> 'w" where
  "reserve be h recs w =
     (case reserve_ids be (keys_of recs) (lease h) w of
        (Inl err, w) \<Rightarrow>
          (if err = ErrDisabled then (None, recs, w)
           else if clientGone be w then (Some clientClosedAbort, recs, w)
           else if err = ErrUnavailable
           then (Some (abort_with 503 ''dedupe store unavailable'' ''5'' resultDedupeUnavailable), recs, w)
           else (Some (abort_with 500 ''dedupe failed'' '''' resultDedupeUnavailable), recs, w))
      | (Inr answers, w) \<Rightarrow>
          (let recs = set_claims answers recs in
           if list_ex (\<lambda>c. Status c = InFlight) answers
           then (Some (abort_with 503 ''a request with the same dedupe id is in flight'' (retry_seconds (lease h)) resultInFlight),
                 recs, releaseClaims be (claimedIn recs) w)
           else (None, recs, w)))"

section \<open>Publishing\<close>

definition publishFailure :: "IngestHandler \<Rightarrow> pendingRecord \<Rightarrow> publish_error \<Rightarrow> bool \<Rightarrow> requestAbort" where
  "publishFailure h r err gone =
     (if err = QueueFull
      then abort_with 503 ''service unavailable'' ''30'' (if gone then resultRecordsCanceled else resultQueueFull)
      else if gone then clientClosedAbort
      else if err = QueueUnavailable
      then abort_with 503 ''service unavailable'' (if claimed r \<noteq> None then retry_seconds (lease h) else ''5'') resultQueueUnavailable
      else abort_with 500 ''publish failed'' '''' resultPublishFailed)"

text \<open>The records before the failed one, that one, and the ones after it.\<close>

definition publishFailed ::
  "'w backends \<Rightarrow> IngestHandler \<Rightarrow> pendingRecord list \<Rightarrow> pendingRecord \<Rightarrow> pendingRecord list \<Rightarrow> publish_error \<Rightarrow> 'w \<Rightarrow> requestAbort \<times> 'w" where
  "publishFailed be h before r after err w =
     (let gone = clientGone be w;
          w = commitClaims be before w;
          w = releaseClaims be (claimedIn (if err = QueueFull then r # after else after)) w in
      ((publishFailure h r err gone)\<lparr>Final := True\<rparr>, w))"

definition idempotency :: "(string \<Rightarrow> string) \<Rightarrow> Topic \<Rightarrow> pendingRecord \<Rightarrow> string option" where
  "idempotency hexsum topic r = map_option (\<lambda>c. IdempotencyKey hexsum (Tenant topic) (claim_key c)) (claimed r)"

definition skipped :: "pendingRecord \<Rightarrow> bool" where
  "skipped r \<longleftrightarrow> reject r \<noteq> None \<or> duplicate r"

fun publish_from ::
  "'w backends \<Rightarrow> IngestHandler \<Rightarrow> (string \<Rightarrow> string) \<Rightarrow> Topic \<Rightarrow> pendingRecord list \<Rightarrow> pendingRecord list \<Rightarrow> 'w \<Rightarrow>
     requestAbort option \<times> pendingRecord list \<times> 'w" where
  "publish_from be h hexsum topic before [] w = (None, before, commitClaims be before w)"
| "publish_from be h hexsum topic before (r # rs) w =
     (if skipped r then publish_from be h hexsum topic (before @ [r]) rs w
      else case publish be topic (payload r) (idempotency hexsum topic r) w of
        (None, w) \<Rightarrow> publish_from be h hexsum topic (before @ [r\<lparr>queued := True\<rparr>]) rs w
      | (Some err, w) \<Rightarrow>
          (case publishFailed be h before r rs err w of (ab, w) \<Rightarrow> (Some ab, before @ r # rs, w)))"

definition ingestWindow_on ::
  "'w backends \<Rightarrow> IngestHandler \<Rightarrow> (string \<Rightarrow> string) \<Rightarrow> Topic \<Rightarrow> pendingRecord list \<Rightarrow> 'w \<Rightarrow>
     requestAbort option \<times> pendingRecord list \<times> 'w" where
  "ingestWindow_on be h hexsum topic recs w =
     (case (if keys_of recs = [] then (None, recs, w) else reserve be h recs w) of
        (Some ab, recs, w) \<Rightarrow> (Some ab, recs, w)
      | (None, recs, w) \<Rightarrow> publish_from be h hexsum topic [] recs w)"


section \<open>Requests\<close>

text \<open>The counter by result. An abort that is not final takes the state of the client when it is counted.\<close>

definition record_result :: "requestAbort option \<Rightarrow> bool \<Rightarrow> pendingRecord \<Rightarrow> ingest_result" where
  "record_result ab gone r =
     (case reject r of
        Some rj \<Rightarrow> rj_Result rj
      | None \<Rightarrow>
          (if duplicate r then resultDuplicate
           else if queued r then resultQueued
           else case ab of
             None \<Rightarrow> resultQueued
           | Some a \<Rightarrow> (if \<not> Final a \<and> gone then resultRecordsCanceled else ab_Result a)))"

type_synonym tally = "ingest_result \<Rightarrow> nat"

definition countRecords :: "requestAbort option \<Rightarrow> bool \<Rightarrow> pendingRecord list \<Rightarrow> tally \<Rightarrow> tally" where
  "countRecords ab gone recs t = fold (\<lambda>r t. t(record_result ab gone r := t (record_result ab gone r) + 1)) recs t"

record recordResult =
  rr_Index :: nat
  rr_Ok :: bool
  rr_Duplicate :: bool
  rr_Error :: "reject_message option"

record batchResult =
  Total :: nat
  Succeeded :: nat
  Failed :: nat
  Duplicates :: nat
  Results :: "recordResult list"

definition maxReportedResults :: nat where "maxReportedResults = 10000"
definition ingestWindow_size :: nat where "ingestWindow_size = 256"

definition record_entry :: "pendingRecord \<Rightarrow> recordResult" where
  "record_entry r =
     (let entry = \<lparr>rr_Index = rec_index r, rr_Ok = False, rr_Duplicate = False, rr_Error = None\<rparr> in
      case reject r of
        Some rj \<Rightarrow> entry\<lparr>rr_Error := Some (rj_Message rj)\<rparr>
      | None \<Rightarrow> (if duplicate r then entry\<lparr>rr_Duplicate := True\<rparr> else entry\<lparr>rr_Ok := True\<rparr>))"

definition result_add :: "pendingRecord \<Rightarrow> batchResult \<Rightarrow> batchResult" where
  "result_add r b =
     (let b = (if reject r \<noteq> None then b\<lparr>Failed := Failed b + 1\<rparr>
               else if duplicate r then b\<lparr>Duplicates := Duplicates b + 1\<rparr>
               else b\<lparr>Succeeded := Succeeded b + 1\<rparr>) in
      if length (Results b) < maxReportedResults then b\<lparr>Results := Results b @ [record_entry r]\<rparr> else b)"

text \<open>What a reader yields: a record, a record it could step over, or the end of what can be read (told apart by
  whether the array merely ended early); the end of the list is the clean end of the body.\<close>

datatype read_event = ReadRecord ingest_data | ReadSyntax string | ReadFatal bool

datatype response =
    BatchDone batchResult
  | SingleDone bool
  | Refused nat reject_message
  | Aborted requestAbort
  | InvalidJSON
  | Panicked

definition window_limit :: "IngestHandler \<Rightarrow> nat" where
  "window_limit h = (if window_size h \<le> 0 then ingestWindow_size else nat (window_size h))"

definition flush_window ::
  "'w backends \<Rightarrow> IngestHandler \<Rightarrow> (string \<Rightarrow> string) \<Rightarrow> Topic \<Rightarrow> pendingRecord list \<Rightarrow> batchResult \<Rightarrow> tally \<Rightarrow> 'w \<Rightarrow>
     (requestAbort + batchResult) \<times> tally \<times> 'w" where
  "flush_window be h hexsum topic window b t w =
     (case ingestWindow_on be h hexsum topic window w of
        (ab, recs, w) \<Rightarrow>
          (let t = countRecords ab (clientGone be w) recs t in
           case ab of
             Some a \<Rightarrow> (Inl a, t, w)
           | None \<Rightarrow> (Inr (fold result_add recs b), t, w)))"

text \<open>What one turn of the reading loop does: a record joins the open window, which is flushed when it is full; a failure
  of the whole request answers it. The dedupe settings are read per record, by its number in the body.\<close>

definition push_record ::
  "'w backends \<Rightarrow> IngestHandler \<Rightarrow> (string \<Rightarrow> string) \<Rightarrow> Topic \<Rightarrow> pendingRecord \<Rightarrow> pendingRecord list \<Rightarrow> batchResult \<Rightarrow> tally \<Rightarrow> 'w \<Rightarrow>
     (response + pendingRecord list \<times> batchResult) \<times> tally \<times> 'w" where
  "push_record be h hexsum topic r window b t w =
     (let window = window @ [r\<lparr>rec_index := Total b\<rparr>] in
      if length window = window_limit h
      then (case flush_window be h hexsum topic window b t w of
              (Inl a, t, w) \<Rightarrow> (Inl (Aborted a), t, w)
            | (Inr b, t, w) \<Rightarrow> (Inr ([], b), t, w))
      else (Inr (window, b), t, w))"

definition batch_turn ::
  "'w backends \<Rightarrow> IngestHandler \<Rightarrow> (string \<Rightarrow> string) \<Rightarrow> Topic \<Rightarrow> request \<Rightarrow> (nat \<Rightarrow> DedupeSettings option) \<Rightarrow> read_event \<Rightarrow>
     pendingRecord list \<Rightarrow> batchResult \<Rightarrow> tally \<Rightarrow> 'w \<Rightarrow> (response + pendingRecord list \<times> batchResult) \<times> tally \<times> 'w" where
  "batch_turn be h hexsum topic rq settings e window b t w =
     (let counted = b\<lparr>Total := Total b + 1\<rparr> in
      case e of
        ReadFatal unterminated \<Rightarrow>
          (Inl InvalidJSON,
           countRecords (Some (abort_with 0 '''' '''' resultInvalidBody)) (clientGone be w)
             (if unterminated then window
              else window @ [blank\<lparr>reject := Some \<lparr>rj_Status = 0, rj_Message = NoMessage, rj_Result = resultInvalidBody\<rparr>\<rparr>]) t, w)
      | ReadSyntax msg \<Rightarrow>
          push_record be h hexsum topic
            (blank\<lparr>reject := Some \<lparr>rj_Status = 0, rj_Message = SyntaxMessage msg, rj_Result = resultInvalidBody\<rparr>\<rparr>) window counted t w
      | ReadRecord data \<Rightarrow>
          (case prepareRecord h rq (settings (Total counted)) data of
             Panic \<Rightarrow> (Inl Panicked, t, w)
           | Abort a \<Rightarrow> (Inl (Aborted a), countRecords (Some a) (clientGone be w) (window @ [blank]) t, w)
           | Reject rj \<Rightarrow> push_record be h hexsum topic (blank\<lparr>reject := Some rj\<rparr>) window counted t w
           | Go r \<Rightarrow> push_record be h hexsum topic r window counted t w))"

fun handleBatch ::
  "'w backends \<Rightarrow> IngestHandler \<Rightarrow> (string \<Rightarrow> string) \<Rightarrow> Topic \<Rightarrow> request \<Rightarrow> (nat \<Rightarrow> DedupeSettings option) \<Rightarrow>
     read_event list \<Rightarrow> pendingRecord list \<Rightarrow> batchResult \<Rightarrow> tally \<Rightarrow> 'w \<Rightarrow> response \<times> tally \<times> 'w" where
  "handleBatch be h hexsum topic rq settings [] window b t w =
     (if window = [] then (BatchDone b, t, w)
      else case flush_window be h hexsum topic window b t w of
        (Inl a, t, w) \<Rightarrow> (Aborted a, t, w)
      | (Inr b, t, w) \<Rightarrow> (BatchDone b, t, w))"
| "handleBatch be h hexsum topic rq settings (e # es) window b t w =
     (case batch_turn be h hexsum topic rq settings e window b t w of
        (Inl resp, t, w) \<Rightarrow> (resp, t, w)
      | (Inr (window, b), t, w) \<Rightarrow> handleBatch be h hexsum topic rq settings es window b t w)"

definition handleSingle ::
  "'w backends \<Rightarrow> IngestHandler \<Rightarrow> (string \<Rightarrow> string) \<Rightarrow> Topic \<Rightarrow> request \<Rightarrow> DedupeSettings option \<Rightarrow>
     ingest_data option \<Rightarrow> tally \<Rightarrow> 'w \<Rightarrow> response \<times> tally \<times> 'w" where
  "handleSingle be h hexsum topic rq settings body t w =
     (case body of
        None \<Rightarrow>
          (InvalidJSON,
           countRecords None (clientGone be w)
             [blank\<lparr>reject := Some \<lparr>rj_Status = 0, rj_Message = NoMessage, rj_Result = resultInvalidBody\<rparr>\<rparr>] t, w)
      | Some data \<Rightarrow>
          (case prepareRecord h rq settings data of
             Panic \<Rightarrow> (Panicked, t, w)
           | Abort a \<Rightarrow> (Aborted a, countRecords (Some a) (clientGone be w) [blank] t, w)
           | Reject rj \<Rightarrow> (Refused (rj_Status rj) (rj_Message rj), countRecords None (clientGone be w) [blank\<lparr>reject := Some rj\<rparr>] t, w)
           | Go r \<Rightarrow>
               (case ingestWindow_on be h hexsum topic [r] w of
                  (ab, recs, w) \<Rightarrow>
                    (case ab of
                       Some a \<Rightarrow> Aborted a
                     | None \<Rightarrow> SingleDone (list_ex duplicate recs),
                     countRecords ab (clientGone be w) recs t, w))))"


section \<open>The calls of a window\<close>

text \<open>The same functions, with the calls written down.\<close>

datatype call =
    CReserve "Key list" int
  | CPublish string "string option" "publish_error option"
  | CCommit "Claim list" int
  | CRelease "Claim list"

definition logged :: "'w backends \<Rightarrow> ('w \<times> call list) backends" where
  "logged be =
     \<lparr>reserve_ids = (\<lambda>ks l (w, lg). case reserve_ids be ks l w of (r, w) \<Rightarrow> (r, w, lg @ [CReserve ks l])),
      commit_ids = (\<lambda>cs ret (w, lg). case commit_ids be cs ret w of (e, w) \<Rightarrow> (e, w, lg @ [CCommit cs ret])),
      release_ids = (\<lambda>cs (w, lg). case release_ids be cs w of (e, w) \<Rightarrow> (e, w, lg @ [CRelease cs])),
      publish = (\<lambda>tp p i (w, lg). case publish be tp p i w of (e, w) \<Rightarrow> (e, w, lg @ [CPublish p i e])),
      clientGone = (\<lambda>(w, lg). clientGone be w)\<rparr>"

definition committed_in :: "call list \<Rightarrow> Claim list" where
  "committed_in lg = concat (map (\<lambda>c. case c of CCommit cs _ \<Rightarrow> cs | _ \<Rightarrow> []) lg)"

definition released_in :: "call list \<Rightarrow> Claim list" where
  "released_in lg = concat (map (\<lambda>c. case c of CRelease cs \<Rightarrow> cs | _ \<Rightarrow> []) lg)"

definition publishes_in :: "call list \<Rightarrow> (string \<times> string option \<times> publish_error option) list" where
  "publishes_in lg = concat (map (\<lambda>c. case c of CPublish p i e \<Rightarrow> [(p, i, e)] | _ \<Rightarrow> []) lg)"

named_theorems log_simps

lemma log_Nil [log_simps]: "committed_in [] = []" "released_in [] = []" "publishes_in [] = []"
  by (simp_all add: committed_in_def released_in_def publishes_in_def)

lemma log_append [log_simps]:
  "committed_in (l @ l') = committed_in l @ committed_in l'" "released_in (l @ l') = released_in l @ released_in l'"
  "publishes_in (l @ l') = publishes_in l @ publishes_in l'"
  by (simp_all add: committed_in_def released_in_def publishes_in_def)

lemma log_Cons [log_simps]:
  "committed_in [c] = (case c of CCommit cs _ \<Rightarrow> cs | _ \<Rightarrow> [])" "released_in [c] = (case c of CRelease cs \<Rightarrow> cs | _ \<Rightarrow> [])"
  "publishes_in [c] = (case c of CPublish p i e \<Rightarrow> [(p, i, e)] | _ \<Rightarrow> [])"
  by (simp_all add: committed_in_def released_in_def publishes_in_def)

lemma log_Cons2:
  "committed_in (CPublish p i e # l) = committed_in l" "released_in (CPublish p i e # l) = released_in l"
  "publishes_in (CPublish p i e # l) = (p, i, e) # publishes_in l"
  by (simp_all add: committed_in_def released_in_def publishes_in_def)

lemma claimedIn_simps [simp]:
  "claimedIn [] = []" "claimedIn (r # rs) = (case claimed r of Some c \<Rightarrow> c # claimedIn rs | None \<Rightarrow> claimedIn rs)"
  by (simp_all add: claimedIn_def List.map_filter_simps split: option.splits)

lemma claimedIn_append [simp]: "claimedIn (rs @ ss) = claimedIn rs @ claimedIn ss"
  by (induction rs) (auto split: option.splits)

lemma claimedIn_none: "\<forall>r \<in> set rs. claimed r = None \<Longrightarrow> claimedIn rs = []"
  by (induction rs) auto

text \<open>The claims by retention are the claims.\<close>

lemma retentions_from_props:
  "distinct seen \<Longrightarrow> distinct (retentions_from seen rs) \<and>
     set (retentions_from seen rs) = set seen \<union> retention ` {r \<in> set rs. claimed r \<noteq> None}"
  by (induction seen rs rule: retentions_from.induct) auto

lemma claimedIn_by_retention:
  "distinct rets \<Longrightarrow> mset (concat (map (\<lambda>ret. claimedIn (filter (\<lambda>r. retention r = ret) rs)) rets)) =
     mset (claimedIn (filter (\<lambda>r. retention r \<in> set rets) rs))"
proof (induction rets)
  case (Cons x rets)
  have "mset (claimedIn (filter (\<lambda>r. retention r = x) rs)) + mset (claimedIn (filter (\<lambda>r. retention r \<in> set rets) rs)) =
      mset (claimedIn (filter (\<lambda>r. retention r = x \<or> retention r \<in> set rets) rs))"
    using Cons.prems by (induction rs) (auto split: option.splits)
  then show ?case using Cons by simp
qed (simp add: claimedIn_none)

lemma claimedIn_filter: "\<forall>r \<in> set rs. claimed r \<noteq> None \<longrightarrow> P r \<Longrightarrow> claimedIn (filter P rs) = claimedIn rs"
  by (induction rs) (auto split: option.splits)

lemma commitClaims_logged:
  "\<exists>calls. commitClaims (logged be) recs (w, lg) = (commitClaims be recs w, lg @ calls) \<and>
     mset (committed_in calls) = mset (claimedIn recs) \<and> released_in calls = [] \<and> publishes_in calls = []"
proof -
  let ?cs = "\<lambda>ret. claimedIn (filter (\<lambda>r. retention r = ret) recs)"
  let ?calls = "\<lambda>rets. map (\<lambda>ret. CCommit (?cs ret) ret) rets"
  have f: "fold (\<lambda>ret w. snd (commit_ids (logged be) (?cs ret) ret w)) rets (w, lg) =
      (fold (\<lambda>ret w. snd (commit_ids be (?cs ret) ret w)) rets w, lg @ ?calls rets)" for rets w lg
    by (induction rets arbitrary: w lg) (auto simp: logged_def split: prod.splits)
  have c: "committed_in (?calls rets) = concat (map ?cs rets)" "released_in (?calls rets) = []" "publishes_in (?calls rets) = []" for rets
    by (simp_all add: committed_in_def released_in_def publishes_in_def comp_def)
  have "mset (concat (map ?cs (retentions_from [] recs))) = mset (claimedIn recs)"
    using claimedIn_by_retention [of "retentions_from [] recs" recs] retentions_from_props [of "[]" recs]
      claimedIn_filter [of recs "\<lambda>r. retention r \<in> set (retentions_from [] recs)"] by auto
  then show ?thesis unfolding commitClaims_def f by (intro exI [of _ "?calls (retentions_from [] recs)"]) (simp add: c)
qed

lemma releaseClaims_logged:
  "\<exists>calls. releaseClaims (logged be) cs (w, lg) = (releaseClaims be cs w, lg @ calls) \<and>
     released_in calls = cs \<and> committed_in calls = [] \<and> publishes_in calls = []"
  by (cases "cs = []") (auto simp: releaseClaims_def logged_def log_simps split: prod.splits intro: exI [of _ "[]"])


text \<open>What a failed publish leaves open: the claim of a record that may have been stored.\<close>

definition left_open :: "pendingRecord \<Rightarrow> publish_error \<Rightarrow> Claim list" where
  "left_open r e = (if e = QueueFull then [] else claimedIn [r])"

definition sent_as :: "(string \<Rightarrow> string) \<Rightarrow> Topic \<Rightarrow> publish_error option \<Rightarrow> pendingRecord \<Rightarrow> string \<times> string option \<times> publish_error option" where
  "sent_as hexsum topic e r = (payload r, idempotency hexsum topic r, e)"

lemma claimed_queued [simp]: "claimed (r\<lparr>queued := b\<rparr>) = claimed r" "skipped (r\<lparr>queued := b\<rparr>) = skipped r"
  "sent_as hexsum topic e (r\<lparr>queued := b\<rparr>) = sent_as hexsum topic e r"
  by (simp_all add: claimed_def skipped_def sent_as_def idempotency_def)

text \<open>A record that has been dealt with is queued unless it was skipped, and a skipped one holds no claim.\<close>

definition dealt_with :: "pendingRecord \<Rightarrow> bool" where
  "dealt_with r \<longleftrightarrow> queued r = (\<not> skipped r) \<and> (skipped r \<longrightarrow> claimed r = None)"

definition waiting :: "pendingRecord \<Rightarrow> bool" where
  "waiting r \<longleftrightarrow> \<not> queued r \<and> (skipped r \<longrightarrow> claimed r = None)"

lemma claimedIn_dealt_with:
  "\<forall>r \<in> set rs. dealt_with r \<Longrightarrow> claimedIn (filter queued rs) = claimedIn rs \<and> claimedIn (filter (\<lambda>r. \<not> queued r) rs) = []"
  by (induction rs) (auto simp: dealt_with_def split: option.splits)

lemma claimedIn_waiting:
  "\<forall>r \<in> set rs. waiting r \<Longrightarrow> claimedIn (filter queued rs) = [] \<and> claimedIn (filter (\<lambda>r. \<not> queued r) rs) = claimedIn rs"
  by (induction rs) (auto simp: waiting_def split: option.splits)

lemma publishFailed_logged:
  assumes "\<forall>r \<in> set before. dealt_with r" "\<forall>r \<in> set (r # rs). waiting r"
  shows "\<exists>calls a w'. publishFailed (logged be) h before r rs e (w, lg) = (a, w', lg @ calls) \<and>
    mset (committed_in calls) = mset (claimedIn (filter queued (before @ r # rs))) \<and>
    mset (released_in calls) + mset (left_open r e) = mset (claimedIn (filter (\<lambda>r. \<not> queued r) (before @ r # rs))) \<and>
    publishes_in calls = [] \<and> a = (publishFailure h r e (clientGone be w))\<lparr>Final := True\<rparr>"
proof -
  obtain c1 where c1: "commitClaims (logged be) before (w, lg) = (commitClaims be before w, lg @ c1)"
    "mset (committed_in c1) = mset (claimedIn before)" "released_in c1 = []" "publishes_in c1 = []"
    using commitClaims_logged [of be before w lg] by blast
  obtain c2 where c2: "releaseClaims (logged be) (claimedIn (if e = QueueFull then r # rs else rs)) (commitClaims be before w, lg @ c1) =
      (releaseClaims be (claimedIn (if e = QueueFull then r # rs else rs)) (commitClaims be before w), (lg @ c1) @ c2)"
    "released_in c2 = claimedIn (if e = QueueFull then r # rs else rs)" "committed_in c2 = []" "publishes_in c2 = []"
    using releaseClaims_logged [of be "claimedIn (if e = QueueFull then r # rs else rs)" "commitClaims be before w" "lg @ c1"] by blast
  have g: "clientGone (logged be) (w, lg) = clientGone be w" by (simp add: logged_def)
  have l: "claimedIn (if e = QueueFull then r # rs else rs) @ left_open r e = claimedIn (r # rs) \<or>
      mset (claimedIn (if e = QueueFull then r # rs else rs)) + mset (left_open r e) = mset (claimedIn (r # rs))"
    by (auto simp: left_open_def split: option.splits)
  show ?thesis
    unfolding publishFailed_def Let_def c1(1) c2(1) g
    using c1 c2 l claimedIn_dealt_with [OF assms(1)] claimedIn_waiting [OF assms(2)]
    by (intro exI [of _ "c1 @ c2"]) (auto simp: log_simps simp del: claimedIn_simps simp flip: mset_append)
qed

text \<open>How the calls settle a window: the claims of the queued records are committed; when all went well nothing is
  released; when a publish failed it was the last one, and the claims of the records not queued are released, but
  for the one left open.\<close>

definition settled ::
  "IngestHandler \<Rightarrow> (string \<Rightarrow> string) \<Rightarrow> Topic \<Rightarrow> requestAbort option \<Rightarrow> pendingRecord list \<Rightarrow> pendingRecord list \<Rightarrow> call list \<Rightarrow> bool" where
  "settled h hexsum topic ab recs sent calls \<longleftrightarrow>
     mset (committed_in calls) = mset (claimedIn (filter queued recs)) \<and>
     (if ab = None
      then released_in calls = [] \<and> (\<forall>r \<in> set recs. dealt_with r) \<and> publishes_in calls = map (sent_as hexsum topic None) sent
      else \<exists>r \<in> set recs. \<exists>e gone. \<not> queued r \<and> ab = Some ((publishFailure h r e gone)\<lparr>Final := True\<rparr>) \<and>
        mset (released_in calls) + mset (left_open r e) = mset (claimedIn (filter (\<lambda>r. \<not> queued r) recs)) \<and>
        publishes_in calls = map (sent_as hexsum topic None) sent @ [sent_as hexsum topic (Some e) r])"

lemma settled_publish:
  "settled h hexsum topic ab recs sent calls \<Longrightarrow>
   settled h hexsum topic ab recs (r # sent) (CPublish (payload r) (idempotency hexsum topic r) None # calls)"
  by (auto simp: settled_def log_Cons2 sent_as_def)

lemma publish_from_logged:
  assumes "publish_from (logged be) h hexsum topic before recs (w, lg) = (ab, recs', w', lg')"
    and "\<forall>r \<in> set before. dealt_with r" "\<forall>r \<in> set recs. waiting r"
  shows "\<exists>calls rest. lg' = lg @ calls \<and> recs' = before @ rest \<and>
    settled h hexsum topic ab recs' (filter queued rest) calls"
  using assms
proof (induction recs arbitrary: before w lg)
  case Nil
  then show ?case using commitClaims_logged [of be before w lg] claimedIn_dealt_with [of before] by (auto simp: settled_def)
next
  case (Cons r rs)
  show ?case
  proof (cases "skipped r")
    case True
    have "publish_from (logged be) h hexsum topic (before @ [r]) rs (w, lg) = (ab, recs', w', lg')" using Cons.prems(1) True by simp
    moreover have d: "dealt_with r" "\<not> queued r" using True Cons.prems(3) by (auto simp: dealt_with_def waiting_def)
    ultimately obtain calls rest where "lg' = lg @ calls" "recs' = (before @ [r]) @ rest" "settled h hexsum topic ab recs' (filter queued rest) calls"
      using Cons.IH [of "before @ [r]" w lg] Cons.prems(2,3) by auto
    then show ?thesis using d by (intro exI [of _ calls] exI [of _ "r # rest"]) simp
  next
    case False
    obtain e w1 where p: "publish be topic (payload r) (idempotency hexsum topic r) w = (e, w1)" by (rule prod.exhaust)
    let ?c = "CPublish (payload r) (idempotency hexsum topic r) e"
    have lp: "publish (logged be) topic (payload r) (idempotency hexsum topic r) (w, lg) = (e, w1, lg @ [?c])"
      using p by (simp add: logged_def)
    show ?thesis
    proof (cases e)
      case None
      let ?r = "r\<lparr>queued := True\<rparr>"
      have "publish_from (logged be) h hexsum topic (before @ [?r]) rs (w1, lg @ [?c]) = (ab, recs', w', lg')"
        using Cons.prems(1) False lp None by simp
      moreover have "dealt_with ?r" using False by (simp add: dealt_with_def)
      ultimately obtain calls rest where "lg' = (lg @ [?c]) @ calls" "recs' = (before @ [?r]) @ rest"
        "settled h hexsum topic ab recs' (filter queued rest) calls"
        using Cons.IH [of "before @ [?r]" w1 "lg @ [?c]"] Cons.prems(2,3) by auto
      then show ?thesis using None settled_publish [of h hexsum topic ab recs' "filter queued rest" calls ?r]
        by (intro exI [of _ "?c # calls"] exI [of _ "?r # rest"]) (simp add: idempotency_def claimed_def)
    next
      case (Some err)
      obtain calls a w2 where c: "publishFailed (logged be) h before r rs err (w1, lg @ [?c]) = (a, w2, (lg @ [?c]) @ calls)"
        "mset (committed_in calls) = mset (claimedIn (filter queued (before @ r # rs)))"
        "mset (released_in calls) + mset (left_open r err) = mset (claimedIn (filter (\<lambda>r. \<not> queued r) (before @ r # rs)))"
        "publishes_in calls = []" "a = (publishFailure h r err (clientGone be w1))\<lparr>Final := True\<rparr>"
        using publishFailed_logged [OF Cons.prems(2,3), of be h err w1 "lg @ [?c]"] by blast
      have "ab = Some a" "recs' = before @ r # rs" "lg' = lg @ ?c # calls"
        using Cons.prems(1) False lp Some c(1) by auto
      moreover have "filter queued (r # rs) = []" "\<not> queued r" using Cons.prems(3) by (auto simp: waiting_def filter_empty_conv)
      moreover have "settled h hexsum topic (Some a) (before @ r # rs) [] (?c # calls)"
        unfolding settled_def using c Some \<open>\<not> queued r\<close>
        by (auto simp: log_Cons2 sent_as_def simp del: claimedIn_simps filter.simps intro!: exI [of _ err])
      ultimately show ?thesis by (intro exI [of _ "?c # calls"] exI [of _ "r # rs"]) simp
    qed
  qed
qed


definition fresh_record :: "pendingRecord \<Rightarrow> bool" where
  "fresh_record r \<longleftrightarrow> claim r = None \<and> \<not> duplicate r \<and> \<not> queued r"

lemma fresh_waiting: "fresh_record r \<Longrightarrow> waiting r" "fresh_record r \<Longrightarrow> claimed r = None"
  by (simp_all add: fresh_record_def waiting_def claimed_def)

lemma set_claims_waiting:
  "\<forall>r \<in> set recs. fresh_record r \<Longrightarrow> \<forall>r \<in> set (set_claims cs recs). waiting r"
proof (induction cs recs rule: set_claims.induct)
  case (2 cs r rs)
  show ?case
  proof (cases "keyed r")
    case True
    have "waiting (set_claim c r)" if "fresh_record r" for c
      using that True by (auto simp: waiting_def set_claim_def fresh_record_def claimed_def skipped_def keyed_def)
    then show ?thesis using 2 True fresh_waiting by (auto split: list.splits)
  next
    case False
    then show ?thesis using 2 fresh_waiting by auto
  qed
qed simp

lemma reserve_logged:
  assumes "reserve (logged be) h recs (w, lg) = (ab, recs', w', lg')" "\<forall>r \<in> set recs. fresh_record r"
  shows "\<exists>calls. lg' = lg @ CReserve (keys_of recs) (lease h) # calls \<and> (\<forall>r \<in> set recs'. waiting r) \<and>
    (if ab = None then calls = []
     else publishes_in calls = [] \<and> committed_in calls = [] \<and> released_in calls = claimedIn recs')"
proof -
  obtain res w1 where r: "reserve_ids be (keys_of recs) (lease h) w = (res, w1)" by (rule prod.exhaust)
  let ?c = "CReserve (keys_of recs) (lease h)"
  have lr: "reserve_ids (logged be) (keys_of recs) (lease h) (w, lg) = (res, w1, lg @ [?c])" using r by (simp add: logged_def)
  show ?thesis
  proof (cases res)
    case (Inl err)
    then have "recs' = recs" "lg' = lg @ [?c]" using assms(1) lr by (auto simp: reserve_def split: if_splits)
    then show ?thesis using assms(2) fresh_waiting claimedIn_none [of recs] by (auto simp: log_simps)
  next
    case (Inr cs)
    obtain calls where rel: "releaseClaims (logged be) (claimedIn (set_claims cs recs)) (w1, lg @ [?c]) =
        (releaseClaims be (claimedIn (set_claims cs recs)) w1, (lg @ [?c]) @ calls)"
      "released_in calls = claimedIn (set_claims cs recs)" "committed_in calls = []" "publishes_in calls = []"
      using releaseClaims_logged [of be "claimedIn (set_claims cs recs)" w1 "lg @ [?c]"] by blast
    show ?thesis using assms(1) lr Inr rel set_claims_waiting [OF assms(2), of cs]
      by (auto simp: reserve_def Let_def split: if_splits)
  qed
qed

lemma window_settled:
  assumes "ingestWindow_on (logged be) h hexsum topic recs (w, lg) = (ab, recs', w', lg')"
    and fr: "\<forall>r \<in> set recs. fresh_record r"
  shows "\<exists>settling. lg' = lg @ (if keys_of recs = [] then [] else [CReserve (keys_of recs) (lease h)]) @ settling \<and>
    (settled h hexsum topic ab recs' (filter queued recs') settling \<or>
     ab \<noteq> None \<and> publishes_in settling = [] \<and> committed_in settling = [] \<and> released_in settling = claimedIn recs' \<and>
     (\<forall>r \<in> set recs'. \<not> queued r))"
proof -
  let ?ask = "if keys_of recs = [] then [] else [CReserve (keys_of recs) (lease h)]"
  obtain ab1 recs1 w1 lg1 where r: "(if keys_of recs = [] then (None, recs, w, lg) else reserve (logged be) h recs (w, lg)) = (ab1, recs1, w1, lg1)"
    using prod_cases4 by blast
  obtain pre where pre: "lg1 = lg @ ?ask @ pre" "\<forall>r \<in> set recs1. waiting r"
    "if ab1 = None then pre = [] else publishes_in pre = [] \<and> committed_in pre = [] \<and> released_in pre = claimedIn recs1"
  proof (cases "keys_of recs = []")
    case True
    then show ?thesis using r fr fresh_waiting that [of "[]"] by auto
  next
    case False
    then show ?thesis using r reserve_logged [of be h recs w lg ab1 recs1 w1 lg1] fr that by auto
  qed
  show ?thesis
  proof (cases ab1)
    case None
    then have "publish_from (logged be) h hexsum topic [] recs1 (w1, lg1) = (ab, recs', w', lg')"
      using assms(1) r by (auto simp: ingestWindow_on_def split: if_splits)
    from publish_from_logged [OF this _ pre(2)] show ?thesis using pre(1,3) None by auto
  next
    case (Some a)
    then have "ab = ab1" "recs' = recs1" "lg' = lg1" using assms(1) r by (auto simp: ingestWindow_on_def split: if_splits)
    then show ?thesis using Some pre by (auto simp: waiting_def)
  qed
qed


text \<open>C35. A window of records is settled by what became of each. Reserving is one call with the ids of the records not
  rejected, and no call at all without an id. If it stops the window (the store failed, or an id is held by another
  request), nothing is published or committed and every claim made is released. Otherwise the records neither
  rejected nor duplicates are published in order, each at most once, under the idempotency key of its claim; the
  claims of those queued are committed, and no other. When every publish succeeded nothing is released and all of
  them are queued; when one fails it is the last, and the claims of all records not queued are released, but for its
  own when the queue may have stored it.\<close>

theorem ingestWindow_settles:
  assumes "ingestWindow_on (logged be) h hexsum topic recs (w, []) = (ab, recs', w', calls)"
    and "\<forall>r \<in> set recs. claim r = None \<and> \<not> duplicate r \<and> \<not> queued r"
  shows "\<exists>settling. calls = (if keys_of recs = [] then [] else [CReserve (keys_of recs) (lease h)]) @ settling \<and>
    (settled h hexsum topic ab recs' (filter queued recs') settling \<or>
     ab \<noteq> None \<and> publishes_in settling = [] \<and> committed_in settling = [] \<and> released_in settling = claimedIn recs' \<and>
     (\<forall>r \<in> set recs'. \<not> queued r))"
  using window_settled [OF assms(1)] assms(2) by (simp add: fresh_record_def)

text \<open>A queue that takes one event and is then unreachable; a store that claims every id.\<close>

definition example_backends :: "nat backends" where
  "example_backends =
     \<lparr>reserve_ids = (\<lambda>ks l w. (Inr (map (\<lambda>k. \<lparr>claim_key = k, Status = Claimed, Token = ID k\<rparr>) ks), w)),
      commit_ids = (\<lambda>cs ret w. (None, w)), release_ids = (\<lambda>cs w. (None, w)),
      publish = (\<lambda>tp p i w. if w = 0 then (None, 1) else (Some QueueUnavailable, w)), clientGone = (\<lambda>w. False)\<rparr>"

definition example_window :: "pendingRecord list" where
  "example_window = map (\<lambda>i. blank\<lparr>payload := i, key := Some \<lparr>Table = ''t'', ID = i\<rparr>\<rparr>) [''a'', ''b'', ''c'']"

theorem ingestWindow_settles_witness:
  "\<exists>ab recs' w' calls. ingestWindow_on (logged example_backends) example_handler id example_topic example_window (0, []) = (ab, recs', w', calls) \<and>
     map Token (claimedIn (filter queued recs')) = [''a''] \<and> mset (committed_in calls) = mset (claimedIn (filter queued recs')) \<and>
     map Token (released_in calls) = [''c'']"
proof -
  obtain ab recs' w' calls where w: "ingestWindow_on (logged example_backends) example_handler id example_topic example_window (0, []) = (ab, recs', w', calls)"
    using prod_cases4 by blast
  have e: "map Token (claimedIn (filter queued recs')) = [''a'']" "map Token (released_in calls) = [''c'']"
    using arg_cong [OF w, of "\<lambda>(ab, recs, w, calls). (map Token (claimedIn (filter queued recs)), map Token (released_in calls))"]
    by (simp_all add: ingestWindow_on_def example_window_def keys_of_def List.map_filter_simps blank_def reserve_def logged_def example_backends_def
        Let_def keyed_def set_claim_def skipped_def publishFailed_def commitClaims_def claimed_def releaseClaims_def released_in_def)
  have f: "\<forall>r \<in> set example_window. claim r = None \<and> \<not> duplicate r \<and> \<not> queued r" by (simp add: example_window_def blank_def)
  have "mset (committed_in calls) = mset (claimedIn (filter queued recs'))"
    using ingestWindow_settles [OF w f] e by (auto simp: settled_def committed_in_def)
  with w e show ?thesis by (intro exI [of _ ab] exI [of _ recs'] exI [of _ w'] exI [of _ calls]) simp
qed

section \<open>What a window leaves of its records\<close>

text \<open>Publishing changes nothing in a record but whether it is queued.\<close>

lemma publish_from_fields:
  "publish_from be h hexsum topic before recs w = (ab, recs', w') \<Longrightarrow>
   map (\<lambda>r. r\<lparr>queued := False\<rparr>) recs' = map (\<lambda>r. r\<lparr>queued := False\<rparr>) (before @ recs)"
proof (induction recs arbitrary: before w)
  case (Cons r rs)
  show ?case
  proof (cases "skipped r")
    case True
    then show ?thesis using Cons.IH [of "before @ [r]" w] Cons.prems by simp
  next
    case False
    then show ?thesis using Cons.IH [of "before @ [r\<lparr>queued := True\<rparr>]"] Cons.prems by (auto split: prod.splits option.splits)
  qed
qed simp

lemma set_claims_fields: "map (\<lambda>r. (rec_index r, reject r, key r)) (set_claims cs rs) = map (\<lambda>r. (rec_index r, reject r, key r)) rs"
  by (induction cs rs rule: set_claims.induct) (auto simp: set_claim_def split: list.splits)

lemma window_fields:
  assumes "ingestWindow_on be h hexsum topic recs w = (ab, recs', w')"
  shows "map (\<lambda>r. (rec_index r, reject r, key r)) recs' = map (\<lambda>r. (rec_index r, reject r, key r)) recs"
proof -
  let ?f = "map (\<lambda>r. (rec_index r, reject r, key r))"
  have p: "?f recs' = ?f recs1" if "publish_from be h hexsum topic [] recs1 w1 = (ab, recs', w')" for recs1 w1
    using arg_cong [OF publish_from_fields [OF that], of ?f] by (simp add: comp_def)
  have r: "?f recs1 = ?f recs" if "reserve be h recs w = (ab1, recs1, w1)" for ab1 recs1 w1
    using that by (auto simp: reserve_def Let_def set_claims_fields split: prod.splits sum.splits if_splits)
  show ?thesis using assms p r by (auto simp: ingestWindow_on_def split: if_splits prod.splits option.splits)
qed

end
