(* ===== verification/Ingest_batch.thy ===== *)
theory Ingest_batch
  imports Ingest_window
begin

text \<open>
  The answer to a batch (\<^verbatim>\<open>handleBatch\<close> of \<^verbatim>\<open>internal/api/ingest.go\<close>): the counts and the entries it reports against
  the records the body held and the events the queue took, across the windows the body is cut into.
\<close>

section \<open>Counting\<close>

lemma countRecords_eq:
  "countRecords ab gone recs t res = t res + length (filter (\<lambda>r. record_result ab gone r = res) recs)"
  unfolding countRecords_def by (induction recs arbitrary: t) auto

definition judged :: "batchResult \<Rightarrow> nat" where
  "judged b = Succeeded b + Failed b + Duplicates b"

lemma result_add_simps [simp]:
  "Total (result_add r b) = Total b" "judged (result_add r b) = judged b + 1"
  "Succeeded (result_add r b) = Succeeded b + (if skipped r then 0 else 1)"
  by (auto simp: result_add_def Let_def judged_def skipped_def)

lemma result_add_results:
  "length (Results b) \<le> maxReportedResults \<Longrightarrow> Results (result_add r b) = take maxReportedResults (Results b @ [record_entry r])"
  by (auto simp: result_add_def Let_def)

lemma fold_result_add:
  assumes "length (Results b) \<le> maxReportedResults"
  shows "Total (fold result_add recs b) = Total b" "judged (fold result_add recs b) = judged b + length recs"
    "Succeeded (fold result_add recs b) = Succeeded b + length (filter (\<lambda>r. \<not> skipped r) recs)"
    "Results (fold result_add recs b) = take maxReportedResults (Results b @ map record_entry recs)"
  using assms
proof (induction recs arbitrary: b)
  case (Cons r recs)
  {
    case 1 then show ?case using Cons.IH(1) [of "result_add r b"] by (simp add: result_add_results)
  next
    case 2 then show ?case using Cons.IH(2) [of "result_add r b"] by (simp add: result_add_results)
  next
    case 3 then show ?case using Cons.IH(3) [of "result_add r b"] by (simp add: result_add_results)
  next
    case 4
    then show ?case using Cons.IH(4) [of "result_add r b"]
      by (cases "maxReportedResults - length (Results b)") (auto simp: result_add_results diff_diff_left [symmetric] simp del: diff_diff_left)
  }
qed simp_all

lemma record_entry_index [simp]: "rr_Index (record_entry r) = rec_index r"
  by (simp add: record_entry_def Let_def split: option.splits)

section \<open>The loop\<close>

definition accepted :: "call list \<Rightarrow> nat" where
  "accepted calls = length (filter (\<lambda>(p, i, e). e = None) (publishes_in calls))"

definition refused :: "call list \<Rightarrow> bool" where
  "refused calls \<longleftrightarrow> list_ex (\<lambda>(p, i, e). e \<noteq> None) (publishes_in calls)"

lemma accepted_append [simp]: "accepted (l @ l') = accepted l + accepted l'" "refused (l @ l') \<longleftrightarrow> refused l \<or> refused l'"
  "accepted [] = 0" "\<not> refused []" "accepted [CReserve ks le] = 0" "\<not> refused [CReserve ks le]"
  by (auto simp: accepted_def refused_def log_simps)

lemma settled_accepted:
  assumes "settled h hexsum topic None recs (filter queued recs) calls"
  shows "accepted calls = length (filter (\<lambda>r. \<not> skipped r) recs) \<and> \<not> refused calls \<and> released_in calls = []"
proof -
  have d: "\<forall>r \<in> set recs. dealt_with r" and p: "publishes_in calls = map (sent_as hexsum topic None) (filter queued recs)"
    and r: "released_in calls = []" using assms by (simp_all add: settled_def)
  have "filter queued recs = filter (\<lambda>r. \<not> skipped r) recs" using d by (intro filter_cong) (auto simp: dealt_with_def)
  then show ?thesis using r by (auto simp: accepted_def refused_def p sent_as_def filter_map comp_def list_ex_iff)
qed

text \<open>Between two records: the open window is fresh and numbered after the records judged, and what was reported as
  succeeded is what the queue took.\<close>

definition batch_ok :: "batchResult \<Rightarrow> pendingRecord list \<Rightarrow> call list \<Rightarrow> bool" where
  "batch_ok b window calls \<longleftrightarrow>
     Total b = judged b + length window \<and> (\<forall>r \<in> set window. fresh_record r) \<and>
     map rec_index window = [judged b + 1..<Total b + 1] \<and>
     map rr_Index (Results b) = take maxReportedResults [1..<judged b + 1] \<and>
     accepted calls = Succeeded b \<and> \<not> refused calls \<and> released_in calls = []"

lemma flush_ok:
  assumes "flush_window (logged be) h hexsum topic window b t (w, lg) = (Inr b', t', w', lg')" "batch_ok b window lg"
  shows "batch_ok b' [] lg' \<and> Total b' = Total b"
proof -
  obtain ab recs w1 lg1 where i: "ingestWindow_on (logged be) h hexsum topic window (w, lg) = (ab, recs, w1, lg1)"
    using prod_cases4 by blast
  then have e: "ab = None" "b' = fold result_add recs b" "lg' = lg1"
    using assms(1) by (auto simp: flush_window_def Let_def split: option.splits)
  have fr: "\<forall>r \<in> set window. fresh_record r" using assms(2) by (simp add: batch_ok_def)
  obtain settling where s: "lg1 = lg @ (if keys_of window = [] then [] else [CReserve (keys_of window) (lease h)]) @ settling"
    "settled h hexsum topic None recs (filter queued recs) settling"
    using window_settled [OF i fr] e(1) by auto
  have len: "length (Results b) \<le> maxReportedResults"
    using assms(2) arg_cong [of _ _ length] by (fastforce simp: batch_ok_def dest: arg_cong [of _ _ length])
  have f: "map rec_index recs = map rec_index window" "length recs = length window"
    using arg_cong [OF window_fields [OF i], of "map fst"] arg_cong [OF window_fields [OF i], of length] by (simp_all add: comp_def)
  have j: "judged b' = Total b" "Total b' = Total b"
    using fold_result_add(1,2) [OF len, of recs] assms(2) e(2) f(2) by (simp_all add: batch_ok_def)
  have "map rr_Index (Results b') = take maxReportedResults (map rr_Index (Results b) @ map rec_index window)"
    unfolding e(2) fold_result_add(4) [OF len] f(1) [symmetric] by (simp add: take_map [symmetric] comp_def del: take_append)
  also have "\<dots> = take maxReportedResults (take maxReportedResults [1..<judged b + 1] @ [judged b + 1..<Total b + 1])"
    using assms(2) by (simp add: batch_ok_def)
  also have "\<dots> = take maxReportedResults ([1..<judged b + 1] @ [judged b + 1..<Total b + 1])"
    by (simp add: take_append min_def)
  also have "[1..<judged b + 1] @ [judged b + 1..<Total b + 1] = [1..<Total b + 1]"
    using assms(2) by (metis batch_ok_def le_add1 le_add2 upt_add_eq_append nat_le_iff_add add.commute add_le_mono1)
  finally have r: "map rr_Index (Results b') = take maxReportedResults [1..<judged b' + 1]" unfolding j .
  have c: "released_in [CReserve ks le] = []" for ks le by (simp add: log_simps)
  show ?thesis using r j settled_accepted [OF s(2)] fold_result_add(3) [OF len, of recs] assms(2) e
    by (auto simp: batch_ok_def s(1) log_simps c)
qed


lemma prepareRecord_fresh: "prepareRecord h rq settings data = Go r \<Longrightarrow> fresh_record r"
  by (auto simp: prepareRecord_Go fresh_record_def blank_def)

lemma fresh_reject: "fresh_record (blank\<lparr>reject := Some rj\<rparr>)"
  by (simp add: fresh_record_def blank_def)

lemma batch_ok_push:
  assumes "batch_ok b window lg" "fresh_record r"
  shows "batch_ok (b\<lparr>Total := Total b + 1\<rparr>) (window @ [r\<lparr>rec_index := Total b + 1\<rparr>]) lg"
proof -
  have "judged b + 1 \<le> Total b + 1" using assms(1) by (simp add: batch_ok_def)
  then show ?thesis using assms by (auto simp: batch_ok_def judged_def fresh_record_def)
qed

lemma push_record_ok:
  assumes "push_record (logged be) h hexsum topic r window (b\<lparr>Total := Total b + 1\<rparr>) t (w, lg) = (Inr (window', b'), t', w', lg')"
    and "batch_ok b window lg" "fresh_record r"
  shows "batch_ok b' window' lg' \<and> Total b' = Total b + 1"
proof -
  let ?b = "b\<lparr>Total := Total b + 1\<rparr>" and ?w = "window @ [r\<lparr>rec_index := Total b + 1\<rparr>]"
  have ok: "batch_ok ?b ?w lg" by (rule batch_ok_push [OF assms(2,3)])
  show ?thesis
  proof (cases "length ?w = window_limit h")
    case True
    obtain res t1 w1 lg1 where f: "flush_window (logged be) h hexsum topic ?w ?b t (w, lg) = (res, t1, w1, lg1)" using prod_cases4 by blast
    then obtain b1 where res: "res = Inr b1" using assms(1) True by (cases res) (auto simp: push_record_def Let_def)
    have "window' = []" "b' = b1" "lg' = lg1" using assms(1) True f res by (simp_all add: push_record_def Let_def)
    then show ?thesis using flush_ok [OF f [unfolded res] ok] by simp
  next
    case False
    then have "window' = ?w" "b' = ?b" "lg' = lg" using assms(1) by (simp_all add: push_record_def Let_def)
    then show ?thesis using ok by simp
  qed
qed

lemma batch_turn_ok:
  assumes "batch_turn (logged be) h hexsum topic rq settings e window b t (w, lg) = (Inr (window', b'), t', w', lg')" "batch_ok b window lg"
  shows "batch_ok b' window' lg' \<and> Total b' = Total b + 1"
proof -
  obtain r where f: "fresh_record r" and
    p: "push_record (logged be) h hexsum topic r window (b\<lparr>Total := Total b + 1\<rparr>) t (w, lg) = (Inr (window', b'), t', w', lg')"
  proof (cases e)
    case (ReadRecord data)
    show ?thesis
    proof (cases "prepareRecord h rq (settings (Suc (Total b))) data")
      case (Go r)
      show ?thesis by (rule that [OF prepareRecord_fresh [OF Go]]) (use assms(1) Go ReadRecord in \<open>simp add: batch_turn_def Let_def\<close>)
    next
      case (Reject rj)
      show ?thesis by (rule that [OF fresh_reject]) (use assms(1) Reject ReadRecord in \<open>simp add: batch_turn_def Let_def\<close>)
    qed (use assms(1) ReadRecord in \<open>simp_all add: batch_turn_def Let_def\<close>)
  next
    case (ReadSyntax msg)
    show ?thesis by (rule that [OF fresh_reject]) (use assms(1) ReadSyntax in \<open>simp add: batch_turn_def Let_def\<close>)
  qed (use assms(1) in \<open>simp add: batch_turn_def Let_def\<close>)
  show ?thesis by (rule push_record_ok [OF p assms(2) f])
qed

lemma handleBatch_ok:
  "handleBatch (logged be) h hexsum topic rq settings es window b t (w, lg) = (BatchDone b', t', w', lg') \<Longrightarrow> batch_ok b window lg \<Longrightarrow>
   batch_ok b' [] lg' \<and> Total b' = Total b + length es"
proof (induction es arbitrary: window b t w lg)
  case Nil
  show ?case
  proof (cases "window = []")
    case True
    then show ?thesis using Nil by auto
  next
    case False
    obtain res t1 w1 lg1 where f: "flush_window (logged be) h hexsum topic window b t (w, lg) = (res, t1, w1, lg1)" using prod_cases4 by blast
    then obtain b1 where res: "res = Inr b1" using Nil.prems(1) False by (cases res) auto
    have "b' = b1" "lg' = lg1" using Nil.prems(1) False f res by simp_all
    then show ?thesis using flush_ok [OF f [unfolded res] Nil.prems(2)] by simp
  qed
next
  case (Cons e es)
  obtain res t1 w1 lg1 where s: "batch_turn (logged be) h hexsum topic rq settings e window b t (w, lg) = (res, t1, w1, lg1)"
    using prod_cases4 by blast
  show ?case
  proof (cases res)
    case (Inl resp)
    then have "resp = BatchDone b'" using Cons.prems(1) s by simp
    then show ?thesis using s Inl
      by (auto simp: batch_turn_def push_record_def Let_def split: read_event.splits step.splits if_splits prod.splits sum.splits)
  next
    case (Inr wb)
    obtain window1 b1 where wb: "wb = (window1, b1)" by (cases wb)
    have "handleBatch (logged be) h hexsum topic rq settings es window1 b1 t1 (w1, lg1) = (BatchDone b', t', w', lg')"
      using Cons.prems(1) s Inr wb by simp
    then show ?thesis using Cons.IH batch_turn_ok [OF s [unfolded Inr wb] Cons.prems(2)] by force
  qed
qed

definition no_records :: batchResult where
  "no_records = \<lparr>Total = 0, Succeeded = 0, Failed = 0, Duplicates = 0, Results = []\<rparr>"

text \<open>C36. The summary of a batch is exact. When \<^verbatim>\<open>handleBatch\<close> answers 200 with a summary, every record of the body is
  counted once as succeeded, failed or duplicate; the records counted as succeeded are as many as the events the
  queue took, the queue refused none, and no claim was given back; and the entries are those of the first 10000
  records, numbered from 1 in the order of the body. The windows are those of the handler, whatever its setting.\<close>

theorem handleBatch_reports:
  assumes "handleBatch (logged be) h hexsum topic rq settings es [] no_records t (w, []) = (BatchDone b, t', w', calls)"
  shows "Total b = length es \<and> Succeeded b + Failed b + Duplicates b = length es \<and>
    Succeeded b = accepted calls \<and> \<not> refused calls \<and> released_in calls = [] \<and>
    map rr_Index (Results b) = [1..<min (length es) maxReportedResults + 1]"
proof -
  have "batch_ok no_records [] []" by (simp add: batch_ok_def no_records_def judged_def log_simps)
  from handleBatch_ok [OF assms this] show ?thesis
    by (auto simp: batch_ok_def judged_def no_records_def take_upt min_def)
qed


text \<open>Two records and an element that is no object, against a queue that takes everything, two records to a window.\<close>

definition example_events :: "read_event list" where
  "example_events = [ReadRecord (Some [(''id'', VString ''x'')]), ReadSyntax ''not an object'', ReadRecord (Some [(''no'', VNil)])]"

definition open_backends :: "unit backends" where
  "open_backends =
     \<lparr>reserve_ids = (\<lambda>ks l w. (Inl ErrDisabled, w)), commit_ids = (\<lambda>cs ret w. (None, w)), release_ids = (\<lambda>cs w. (None, w)),
      publish = (\<lambda>tp p i w. (None, w)), clientGone = (\<lambda>w. False)\<rparr>"

lemma example_batch:
  "(case handleBatch (logged open_backends) (example_handler\<lparr>window_size := 2\<rparr>) id example_topic example_request (\<lambda>_. None)
          example_events [] no_records (\<lambda>_. 0) ((), []) of
      (BatchDone b, _, _, calls) \<Rightarrow> Succeeded b = 1 \<and> Failed b = 2 \<and> map rr_Ok (Results b) = [True, False, False]
    | _ \<Rightarrow> False)"
  by code_simp

theorem handleBatch_reports_witness:
  "\<exists>b t w calls. handleBatch (logged open_backends) (example_handler\<lparr>window_size := 2\<rparr>) id example_topic example_request (\<lambda>_. None)
       example_events [] no_records (\<lambda>_. 0) ((), []) = (BatchDone b, t, w, calls) \<and>
     Total b = 3 \<and> Succeeded b = 1 \<and> accepted calls = 1 \<and> map rr_Index (Results b) = [1, 2, 3]"
proof -
  obtain b t w calls where h: "handleBatch (logged open_backends) (example_handler\<lparr>window_size := 2\<rparr>) id example_topic example_request (\<lambda>_. None)
       example_events [] no_records (\<lambda>_. 0) ((), []) = (BatchDone b, t, w, calls)" and s: "Succeeded b = 1"
    using example_batch by (auto split: prod.splits response.splits)
  have "Total b = 3 \<and> Succeeded b = accepted calls \<and> map rr_Index (Results b) = [1, 2, 3]"
    using handleBatch_reports [OF h] by (simp add: example_events_def maxReportedResults_def upt_rec)
  with h s show ?thesis by (intro exI [of _ b] exI [of _ t] exI [of _ w] exI [of _ calls]) simp
qed

end
