(* ===== verification/Ingest_store.thy ===== *)
theory Ingest_store
  imports Ingest_window
begin

text \<open>
  The ingest window over the embedded dedupe store behind its switch: what a window leaves in the store, and what a
  later window finds there (\<^verbatim>\<open>internal/api/ingest.go\<close> with \<^verbatim>\<open>internal/dedupe/managed.go\<close> and \<^verbatim>\<open>embedded.go\<close>).
\<close>

section \<open>The store as the handler's deduplicator\<close>

definition store_backends ::
  "(bytes \<Rightarrow> bool) \<Rightarrow> bool \<Rightarrow> (Key \<Rightarrow> bytes) \<Rightarrow> int \<Rightarrow> (Topic \<Rightarrow> string \<Rightarrow> string option \<Rightarrow> 'q \<Rightarrow> publish_error option \<times> 'q) \<Rightarrow>
     ('q \<Rightarrow> bool) \<Rightarrow> (Embedded Managed \<times> 'q) backends" where
  "store_backends fails cfails skey now pub gone =
     \<lparr>reserve_ids = (\<lambda>ks l (m, q). case managed_Reserve (\<lambda>ks lease e. Reserve fails skey now ks lease e) (release_claims skey) ks l m of
          (r, m) \<Rightarrow> (r, m, q)),
      commit_ids = (\<lambda>cs ret (m, q). case managed_Commit (\<lambda>cs ret e. Commit cfails skey now cs ret e) cs ret m of (e, m) \<Rightarrow> (e, m, q)),
      release_ids = (\<lambda>cs (m, q). case managed_Release (release_claims skey) cs m of (e, m) \<Rightarrow> (e, m, q)),
      publish = (\<lambda>tp p i (m, q). case pub tp p i q of (e, q) \<Rightarrow> (e, m, q)),
      clientGone = (\<lambda>(m, q). gone q)\<rparr>"

definition open_store :: "Embedded Managed \<times> 'q \<Rightarrow> Embedded \<Rightarrow> bool" where
  "open_store w e \<longleftrightarrow> enabled (fst w) \<and> backend (fst w) = Some e"

lemma open_store_usable: "open_store (m, q) e \<Longrightarrow> Dedupe.usable m = Inr e"
  by (simp add: open_store_def Dedupe.usable_def)

abbreviation store_commit :: "(Key \<Rightarrow> bytes) \<Rightarrow> int \<Rightarrow> Claim list \<Rightarrow> int \<Rightarrow> (bytes \<rightharpoonup> bytes) \<Rightarrow> (bytes \<rightharpoonup> bytes)" where
  "store_commit skey now cs ret \<equiv> fold (\<lambda>c m. m(skey (claim_key c) \<mapsto> commit_value (expiry now ret))) cs"

lemma claimedIn_status: "c \<in> set (claimedIn rs) \<Longrightarrow> Status c = Claimed"
  by (induction rs) (auto simp: claimed_def split: option.splits if_splits)

lemma claimedIn_mem: "c \<in> set (claimedIn rs) \<longleftrightarrow> (\<exists>r \<in> set rs. claimed r = Some c)"
  by (induction rs) (auto split: option.splits)

lemma claimedOnly_claimedIn [simp]: "claimedOnly (claimedIn rs) = claimedIn rs"
  by (simp add: claimedOnly_def claimedIn_status filter_id_conv)

lemma commit_store:
  assumes "open_store w e"
  shows "\<exists>e'. open_store (snd (commit_ids (store_backends fails False skey now pub gone) (claimedIn rs) ret w)) e' \<and>
    db e' = store_commit skey now (claimedIn rs) ret (db e)"
  using assms open_store_usable [of "fst w" "snd w" e]
  by (cases w) (auto simp: store_backends_def managed_Commit_def withClaimed_def Commit_def Let_def open_store_def split: prod.splits)

lemma release_store:
  assumes "open_store w e"
  shows "\<exists>e'. open_store (releaseClaims (store_backends fails cfails skey now pub gone) (claimedIn rs) w) e' \<and> db e' = db e"
  using assms open_store_usable [of "fst w" "snd w" e]
  by (cases w) (auto simp: releaseClaims_def store_backends_def managed_Release_def withClaimed_def open_store_def split: prod.splits)

lemma publish_store:
  "publish (store_backends fails cfails skey now pub gone) topic p i w = (err, w') \<Longrightarrow> open_store w e \<Longrightarrow> open_store w' e"
  by (cases w) (auto simp: store_backends_def open_store_def split: prod.splits)

section \<open>Commits of a window\<close>

definition stays_until :: "int \<Rightarrow> int \<Rightarrow> int \<Rightarrow> bool" where
  "stays_until now ret t \<longleftrightarrow> ret \<le> 0 \<or> (t < now + ret \<and> t < 2 ^ 63 - 1)"

lemma commitClaims_fold:
  fixes skey :: "Key \<Rightarrow> bytes" and rs :: "pendingRecord list"
  defines "grp \<equiv> \<lambda>ret. claimedIn (filter (\<lambda>r. retention r = ret) rs)"
  assumes "0 \<le> now" "now < 2 ^ 63 - 1" "open_store w e"
    and "live_commit e x t \<or> (\<exists>ret \<in> set rets. x \<in> skey ` claim_key ` set (grp ret))"
    and "\<forall>ret \<in> set rets. x \<in> skey ` claim_key ` set (grp ret) \<longrightarrow> stays_until now ret t"
  shows "\<exists>e'. open_store (fold (\<lambda>ret w. snd (commit_ids (store_backends fails False skey now pub gone) (grp ret) ret w)) rets w) e' \<and> live_commit e' x t"
  using assms(4-6)
proof (induction rets arbitrary: w e)
  case (Cons ret rets)
  obtain e1 where e1: "open_store (snd (commit_ids (store_backends fails False skey now pub gone) (grp ret) ret w)) e1"
    "db e1 = store_commit skey now (grp ret) ret (db e)"
    using commit_store [OF Cons.prems(1)] unfolding grp_def by blast
  have "live_commit e1 x t \<or> (\<exists>ret \<in> set rets. x \<in> skey ` claim_key ` set (grp ret))"
    using Cons.prems(2,3) commit_live [OF assms(2,3), of ret t]
    by (auto simp: live_commit_def e1(2) batch_db stays_until_def)
  with Cons.IH [OF e1(1)] Cons.prems(3) show ?case by simp
qed auto

lemma commitClaims_store:
  assumes "0 \<le> now" "now < 2 ^ 63 - 1" "open_store w e"
    and "r \<in> set rs" "claimed r = Some c" "stays_until now (retention r) t"
    and "\<forall>r' \<in> set rs. \<forall>c'. claimed r' = Some c' \<longrightarrow> skey (claim_key c') = skey (claim_key c) \<longrightarrow> retention r' = retention r"
  shows "\<exists>e'. open_store (commitClaims (store_backends fails False skey now pub gone) rs w) e' \<and> live_commit e' (skey (claim_key c)) t"
  unfolding commitClaims_def
proof (rule commitClaims_fold [OF assms(1-3)])
  have "retention r \<in> set (retentions_from [] rs)" using retentions_from_props [of "[]" rs] assms(4,5) by auto
  moreover have "c \<in> set (claimedIn (filter (\<lambda>r'. retention r' = retention r) rs))" using assms(4,5) by (auto simp: claimedIn_mem)
  ultimately show "live_commit e (skey (claim_key c)) t \<or> (\<exists>ret \<in> set (retentions_from [] rs).
      skey (claim_key c) \<in> skey ` claim_key ` set (claimedIn (filter (\<lambda>r. retention r = ret) rs)))" by auto
  show "\<forall>ret \<in> set (retentions_from [] rs).
      skey (claim_key c) \<in> skey ` claim_key ` set (claimedIn (filter (\<lambda>r. retention r = ret) rs)) \<longrightarrow> stays_until now ret t"
    using assms(6,7) by (auto simp: claimedIn_mem image_iff)
qed


section \<open>Records of a window\<close>

lemma publish_from_queued:
  "publish_from be h hexsum topic before recs w = (ab, recs', w') \<Longrightarrow> \<forall>r \<in> set before. queued r \<longrightarrow> \<not> skipped r \<Longrightarrow>
   \<forall>r \<in> set recs. \<not> queued r \<Longrightarrow> \<forall>r \<in> set recs'. queued r \<longrightarrow> \<not> skipped r"
proof (induction recs arbitrary: before w)
  case (Cons r rs)
  show ?case
  proof (cases "skipped r")
    case True
    then show ?thesis using Cons.IH [of "before @ [r]" w] Cons.prems by auto
  next
    case False
    then show ?thesis using Cons.IH [of "before @ [r\<lparr>queued := True\<rparr>]"] Cons.prems by (auto split: prod.splits option.splits)
  qed
qed auto

definition one_retention :: "(Key \<Rightarrow> bytes) \<Rightarrow> pendingRecord list \<Rightarrow> bool" where
  "one_retention skey rs \<longleftrightarrow> (\<forall>r \<in> set rs. \<forall>r' \<in> set rs. \<forall>c c'. claimed r = Some c \<longrightarrow> claimed r' = Some c' \<longrightarrow>
     skey (claim_key c') = skey (claim_key c) \<longrightarrow> retention r' = retention r)"

lemma one_retention_at:
  assumes "one_retention skey rs" "r \<in> set rs" "claimed r = Some c"
  shows "\<forall>r' \<in> set rs. \<forall>c'. claimed r' = Some c' \<longrightarrow> skey (claim_key c') = skey (claim_key c) \<longrightarrow> retention r' = retention r"
  using assms unfolding one_retention_def by blast

lemma one_retention_fields:
  assumes "map (\<lambda>r. r\<lparr>queued := False\<rparr>) rs = map (\<lambda>r. r\<lparr>queued := False\<rparr>) ss" "one_retention skey ss"
  shows "one_retention skey rs"
proof -
  have e: "\<exists>r' \<in> set ss. claimed r' = claimed r \<and> retention r' = retention r" if "r \<in> set rs" for r
  proof -
    have "r\<lparr>queued := False\<rparr> \<in> (\<lambda>r. r\<lparr>queued := False\<rparr>) ` set rs" using that by (rule imageI)
    then have "r\<lparr>queued := False\<rparr> \<in> (\<lambda>r. r\<lparr>queued := False\<rparr>) ` set ss" using assms(1) by (metis list.set_map)
    then obtain r' where r': "r' \<in> set ss" "r'\<lparr>queued := False\<rparr> = r\<lparr>queued := False\<rparr>" by (elim imageE) (drule sym, blast)
    from arg_cong [OF r'(2), of claimed] arg_cong [OF r'(2), of retention] r'(1) show ?thesis by auto
  qed
  show ?thesis
    unfolding one_retention_def
  proof (intro ballI allI impI)
    fix r r' c c'
    assume "r \<in> set rs" "r' \<in> set rs" and c: "claimed r = Some c" "claimed r' = Some c'" "skey (claim_key c') = skey (claim_key c)"
    then obtain s s' where s: "s \<in> set ss" "claimed s = Some c" "retention s = retention r" "s' \<in> set ss" "claimed s' = Some c'" "retention s' = retention r'"
      using e by metis
    then show "retention r' = retention r" using assms(2) c(3) unfolding one_retention_def by metis
  qed
qed

lemma publish_from_store:
  assumes "publish_from (store_backends fails False skey now pub gone) h hexsum topic before recs w = (ab, recs', w')"
    and "0 \<le> now" "now < 2 ^ 63 - 1" "open_store w e" "one_retention skey (before @ recs)"
    and "\<forall>r \<in> set recs. \<not> queued r" "r \<in> set recs'" "queued r" "claimed r = Some c" "stays_until now (retention r) t"
  shows "\<exists>e'. open_store w' e' \<and> live_commit e' (skey (claim_key c)) t"
  using assms
proof (induction recs arbitrary: before w)
  case Nil
  have eq: "before = recs'" "w' = commitClaims (store_backends fails False skey now pub gone) recs' w" using Nil.prems(1) by auto
  have u: "\<forall>r' \<in> set recs'. \<forall>c'. claimed r' = Some c' \<longrightarrow> skey (claim_key c') = skey (claim_key c) \<longrightarrow> retention r' = retention r"
    using Nil.prems(5,7,9) eq(1) by (intro one_retention_at) simp_all
  show ?case unfolding eq(2) by (rule commitClaims_store [OF Nil.prems(2,3,4,7,9,10) u])
next
  case (Cons r0 rs)
  show ?case
  proof (cases "skipped r0")
    case True
    then show ?thesis using Cons.IH [of "before @ [r0]" w] Cons.prems by simp
  next
    case False
    obtain err w1 where p: "publish (store_backends fails False skey now pub gone) topic (payload r0) (idempotency hexsum topic r0) w = (err, w1)"
      by (rule prod.exhaust)
    have o1: "open_store w1 e" by (rule publish_store [OF p Cons.prems(4)])
    show ?thesis
    proof (cases err)
      case None
      have "one_retention skey ((before @ [r0\<lparr>queued := True\<rparr>]) @ rs)"
        by (rule one_retention_fields [OF _ Cons.prems(5)]) simp
      then show ?thesis using Cons.IH [of "before @ [r0\<lparr>queued := True\<rparr>]" w1] Cons.prems False p None o1 by simp
    next
      case (Some e0)
      let ?rel = "claimedIn (if e0 = QueueFull then r0 # rs else rs)"
      have w': "recs' = before @ r0 # rs"
        "w' = releaseClaims (store_backends fails False skey now pub gone) ?rel (commitClaims (store_backends fails False skey now pub gone) before w1)"
        using Cons.prems(1) False p Some by (simp_all add: publishFailed_def Let_def)
      have r: "r \<in> set before" using w'(1) Cons.prems(6-8) by auto
      have "one_retention skey before" using Cons.prems(5) unfolding one_retention_def set_append by blast
      then have u: "\<forall>r' \<in> set before. \<forall>c'. claimed r' = Some c' \<longrightarrow> skey (claim_key c') = skey (claim_key c) \<longrightarrow> retention r' = retention r"
        using r Cons.prems(9) by (rule one_retention_at)
      obtain e1 where e1: "open_store (commitClaims (store_backends fails False skey now pub gone) before w1) e1"
        "live_commit e1 (skey (claim_key c)) t"
        using commitClaims_store [OF Cons.prems(2,3) o1 r Cons.prems(9,10) u] by blast
      obtain e2 where "open_store w' e2" "db e2 = db e1" unfolding w'(2) using release_store [OF e1(1)] by blast
      then show ?thesis using e1(2) by (auto simp: live_commit_def)
    qed
  qed
qed


section \<open>Reserving in the store\<close>

lemma reserve_keys_error: "reserve_keys fails skey now l acc ks e = (Inl err, e') \<Longrightarrow> err = ReadFailed"
proof (induction ks arbitrary: acc e)
  case (Cons k ks)
  then show ?case by (auto simp: reserve_key_eq split: prod.splits sum.splits if_splits)
qed simp

lemma managed_reserve_store:
  assumes "managed_Reserve (\<lambda>ks lease e. Reserve fails skey now ks lease e) (release_claims skey) ks l m = (r, m')" "open_store (m, q) e"
  shows "(\<exists>e'. open_store (m', q') e' \<and> db e' = db e) \<and> r \<noteq> Inl ErrDisabled \<and>
    (\<forall>cs. r = Inr cs \<longrightarrow> (\<forall>c \<in> set cs. Status c = Claimed \<longrightarrow> \<not> live_commit e (skey (claim_key c)) now))"
proof -
  let ?l = "if l \<le> 0 then DefaultLease else l" and ?u = "unique_keys [] ks"
  obtain r1 e1 where k: "reserve_keys fails skey now ?l [] ?u e = (r1, e1)" by (rule prod.exhaust)
  have R: "Reserve fails skey now ?u ?l e = (r1, e1)" using k by (simp add: Reserve_def)
  note u = open_store_usable [OF assms(2)]
  show ?thesis
  proof (cases r1)
    case (Inl err)
    then have "r = Inl err" "m' = m\<lparr>backend := Some e1\<rparr>" using assms(1) u R by (simp_all add: managed_Reserve_def Let_def)
    moreover have "err \<noteq> ErrDisabled" using k Inl reserve_keys_error [of fails skey now ?l "[]" ?u e err e1] by simp
    ultimately show ?thesis using assms(2) reserve_keys_db [OF k] by (auto simp: open_store_def)
  next
    case (Inr got)
    have n: "length got = length ?u" using reserve_keys_answers k Inr by (metis append_Nil length_map)
    then have e: "r = Inr (if length ?u = length ks then got else fan_out (map_of (zip ?u got)) [] ks)" "m' = m\<lparr>backend := Some e1\<rparr>"
      using assms(1) u R Inr by (auto simp: managed_Reserve_def Let_def)
    have "\<not> live_commit e (skey (claim_key c)) now" if "c \<in> set got" "Status c = Claimed" for c
      using reserve_keys_claimed [of fails skey now ?l "[]" ?u e got e1 c] k Inr that by (auto simp: DefaultLease_def)
    moreover have "c \<in> set got" if "c \<in> set (fan_out (map_of (zip ?u got)) [] ks)" "Status c = Claimed" for c
      using embedded.fan_out_from [OF that(1)] that(2) by (auto dest!: map_of_SomeD set_zip_rightD)
    ultimately show ?thesis using e assms(2) reserve_keys_db [OF k] by (auto simp: open_store_def)
  qed
qed

lemma claimedIn_set_claims:
  "\<forall>r \<in> set rs. fresh_record r \<Longrightarrow> length cs = length (keys_of rs) \<Longrightarrow>
   claimedIn (set_claims cs rs) = filter (\<lambda>c. Status c = Claimed) cs"
proof (induction cs rs rule: set_claims.induct)
  case (1 cs)
  then show ?case by (simp add: keys_of_def)
next
  case (2 cs r rs)
  have k: "keys_of (r # rs) = (if keyed r then the (key r) # keys_of rs else keys_of rs)"
    by (auto simp: keys_of_def keyed_def List.map_filter_simps)
  show ?case
  proof (cases "keyed r")
    case True
    then obtain c cs' where "cs = c # cs'" using 2(4) k by (cases cs) auto
    then show ?thesis using 2 True k by (auto simp: set_claim_def claimed_def)
  next
    case False
    then show ?thesis using 2 k fresh_waiting by auto
  qed
qed

lemma set_claims_keys:
  "map claim_key cs = keys_of rs \<Longrightarrow> r \<in> set (set_claims cs rs) \<Longrightarrow> keyed r \<Longrightarrow>
   \<exists>c \<in> set cs. claim r = Some c \<and> key r = Some (claim_key c) \<and> (Status c = Duplicate \<longrightarrow> skipped r)"
proof (induction cs rs rule: set_claims.induct)
  case (2 cs r0 rs)
  have k: "keys_of (r0 # rs) = (if keyed r0 then the (key r0) # keys_of rs else keys_of rs)"
    by (auto simp: keys_of_def keyed_def List.map_filter_simps)
  show ?case
  proof (cases "keyed r0")
    case True
    then obtain c cs' where cs: "cs = c # cs'" "claim_key c = the (key r0)" "map claim_key cs' = keys_of rs"
      using 2(3) k by (cases cs) auto
    have "\<exists>ca \<in> set (c # cs'). claim (set_claim c r0) = Some ca \<and> key (set_claim c r0) = Some (claim_key ca) \<and>
        (Status ca = Duplicate \<longrightarrow> skipped (set_claim c r0))"
      using True cs(2) by (auto simp: set_claim_def keyed_def skipped_def)
    moreover have "r \<in> set (set_claims cs' rs) \<Longrightarrow> \<exists>ca \<in> set (c # cs'). claim r = Some ca \<and> key r = Some (claim_key ca) \<and> (Status ca = Duplicate \<longrightarrow> skipped r)"
      using 2(1) [OF True cs(1)] cs(3) 2(5) by auto
    ultimately show ?thesis using 2(4) True cs(1) by auto
  next
    case False
    then show ?thesis using 2 k by auto
  qed
qed simp

lemma distinct_claimed:
  "\<forall>i j. i < j \<longrightarrow> j < length cs \<longrightarrow> claim_key (cs ! i) = claim_key (cs ! j) \<longrightarrow> Status (cs ! j) = Duplicate \<Longrightarrow>
   distinct (map claim_key (filter (\<lambda>c. Status c = Claimed) cs))"
proof (induction cs)
  case (Cons c cs)
  have "Status d = Duplicate" if "d \<in> set cs" "claim_key d = claim_key c" for d
  proof -
    obtain j where "j < length cs" "cs ! j = d" using \<open>d \<in> set cs\<close> by (auto simp: in_set_conv_nth)
    then show ?thesis using Cons.prems [rule_format, of 0 "Suc j"] that(2) by simp
  qed
  moreover have "Status (cs ! j) = Duplicate" if "i < j" "j < length cs" "claim_key (cs ! i) = claim_key (cs ! j)" for i j
    using Cons.prems [rule_format, of "Suc i" "Suc j"] that by simp
  ultimately show ?case using Cons.IH by auto
qed simp

lemma distinct_claims_unique:
  "distinct (map f (claimedIn rs)) \<Longrightarrow> r \<in> set rs \<Longrightarrow> r' \<in> set rs \<Longrightarrow> claimed r = Some c \<Longrightarrow> claimed r' = Some c' \<Longrightarrow> f c = f c' \<Longrightarrow> r = r'"
proof (induction rs)
  case (Cons x rs)
  have "c' \<in> set (claimedIn rs)" if "r' \<in> set rs" using that Cons.prems(5) by (auto simp: claimedIn_mem)
  moreover have "c \<in> set (claimedIn rs)" if "r \<in> set rs" using that Cons.prems(4) by (auto simp: claimedIn_mem)
  ultimately have "f c \<in> f ` set (claimedIn rs)" if "r \<in> set rs \<or> r' \<in> set rs" using that Cons.prems(6) imageI by metis
  then show ?case using Cons by (auto split: option.splits)
qed simp


section \<open>Published once\<close>

lemma reserve_ids_store:
  "reserve_ids (store_backends fails cfails skey now pub gone) ks l (m, q) = (r, m', q') \<Longrightarrow>
   managed_Reserve (\<lambda>ks lease e. Reserve fails skey now ks lease e) (release_claims skey) ks l m = (r, m')"
  by (auto simp: store_backends_def split: prod.splits)

text \<open>What a window that goes on to publish has reserved.\<close>

lemma reserve_store:
  assumes "reserve (store_backends fails cfails skey now pub gone) h recs (m, q) = (None, recs', w')" "open_store (m, q) e"
    and "\<forall>r \<in> set recs. fresh_record r"
  obtains cs e' where "recs' = set_claims cs recs" "map claim_key cs = keys_of recs" "open_store w' e'" "db e' = db e"
    "distinct (map claim_key (filter (\<lambda>c. Status c = Claimed) cs))"
    "\<forall>c \<in> set cs. Status c \<noteq> InFlight \<and> (Status c = Claimed \<longrightarrow> \<not> live_commit e (skey (claim_key c)) now)"
proof -
  obtain r m1 q1 where r: "reserve_ids (store_backends fails cfails skey now pub gone) (keys_of recs) (lease h) (m, q) = (r, m1, q1)"
    using prod_cases3 by blast
  note M = reserve_ids_store [OF r]
  note S = managed_reserve_store [OF M assms(2), of q1]
  obtain cs where cs: "r = Inr cs" "recs' = set_claims cs recs" "w' = (m1, q1)" "\<forall>c \<in> set cs. Status c \<noteq> InFlight"
    using assms(1) r S by (cases r) (auto simp: reserve_def Let_def list_ex_iff split: if_splits)
  note A = embedded.managed_answers [OF M [unfolded cs(1)]]
  have "distinct (map claim_key (filter (\<lambda>c. Status c = Claimed) cs))"
  proof (rule distinct_claimed, intro allI impI)
    fix i j
    assume "i < j" "j < length cs" "claim_key (cs ! i) = claim_key (cs ! j)"
    then show "Status (cs ! j) = Duplicate" using A by (metis length_map nth_map less_trans)
  qed
  then show ?thesis using that [of cs] cs S A by auto
qed

lemma published_record:
  assumes "publish_from be h hexsum topic [] recs w = (ab, recs', w')" "r \<in> set recs'"
  shows "\<exists>s \<in> set recs. reject s = reject r \<and> key s = key r \<and> skipped s = skipped r"
proof -
  have "r\<lparr>queued := False\<rparr> \<in> (\<lambda>r. r\<lparr>queued := False\<rparr>) ` set recs'" using assms(2) by (rule imageI)
  then have "r\<lparr>queued := False\<rparr> \<in> (\<lambda>r. r\<lparr>queued := False\<rparr>) ` set recs"
    using publish_from_fields [OF assms(1)] by (metis append_Nil list.set_map)
  then obtain s where s: "s \<in> set recs" "r\<lparr>queued := False\<rparr> = s\<lparr>queued := False\<rparr>" by blast
  from arg_cong [OF s(2), of skipped] arg_cong [OF s(2), of reject] arg_cong [OF s(2), of key] s(1) show ?thesis by auto
qed

lemma window_commits:
  assumes "ingestWindow_on (store_backends fails False skey now pub gone) h hexsum topic recs (m, q) = (ab, recs', w')"
    and "open_store (m, q) e" "\<forall>r \<in> set recs. fresh_record r" "inj_on skey (set (keys_of recs))" "0 \<le> now" "now < 2 ^ 63 - 1"
    and "r \<in> set recs'" "queued r" "claimed r = Some c" "stays_until now (retention r) t"
  shows "\<exists>e'. open_store w' e' \<and> live_commit e' (skey (claim_key c)) t"
proof -
  let ?be = "store_backends fails False skey now pub gone"
  have nq: "\<forall>r \<in> set recs. \<not> queued r" using assms(3) by (simp add: fresh_record_def)
  obtain ab1 recs1 w1 where r: "(if keys_of recs = [] then (None, recs, m, q) else reserve ?be h recs (m, q)) = (ab1, recs1, w1)"
    using prod_cases3 by blast
  show ?thesis
  proof (cases ab1)
    case (Some a)
    then have "recs' = recs1" using assms(1) r by (auto simp: ingestWindow_on_def split: if_splits)
    moreover have "\<forall>r \<in> set recs1. \<not> queued r"
    proof (cases "keys_of recs = []")
      case False
      then have "recs1 = recs \<or> (\<exists>cs. recs1 = set_claims cs recs)" using r
        by (auto simp: reserve_def Let_def split: prod.splits sum.splits if_splits)
      then show ?thesis using set_claims_waiting [OF assms(3)] nq by (auto simp: waiting_def)
    qed (use r nq in auto)
    ultimately show ?thesis using assms(7,8) by simp
  next
    case None
    then have p: "publish_from ?be h hexsum topic [] recs1 w1 = (ab, recs', w')"
      using assms(1) r by (auto simp: ingestWindow_on_def split: if_splits)
    have "\<exists>e1. open_store w1 e1 \<and> one_retention skey recs1 \<and> (\<forall>r \<in> set recs1. \<not> queued r)"
    proof (cases "keys_of recs = []")
      case True
      then show ?thesis using r assms(2,3) nq fresh_waiting by (auto simp: one_retention_def)
    next
      case False
      then have "reserve ?be h recs (m, q) = (None, recs1, w1)" using r None by simp
      from reserve_store [OF this assms(2,3)] obtain cs e' where cs: "recs1 = set_claims cs recs" "map claim_key cs = keys_of recs"
        "open_store w1 e'" "distinct (map claim_key (filter (\<lambda>c. Status c = Claimed) cs))" by metis
      have cl: "claimedIn recs1 = filter (\<lambda>c. Status c = Claimed) cs"
        using claimedIn_set_claims [OF assms(3)] cs(1,2) by (metis length_map)
      have "one_retention skey recs1" unfolding one_retention_def
      proof (intro ballI allI impI)
        fix r r' c c'
        assume a: "r \<in> set recs1" "r' \<in> set recs1" "claimed r = Some c" "claimed r' = Some c'" "skey (claim_key c') = skey (claim_key c)"
        have m: "claim_key d \<in> set (keys_of recs)" if sd: "claimed s = Some d" "s \<in> set recs1" for s d
        proof -
          have "d \<in> set (claimedIn recs1)" using sd claimedIn_mem by blast
          then have "d \<in> set cs" unfolding cl by simp
          then show ?thesis unfolding cs(2) [symmetric] by simp
        qed
        have "claim_key c = claim_key c'" by (rule inj_onD [OF assms(4) a(5) [symmetric] m [OF a(3,1)] m [OF a(4,2)]])
        with distinct_claims_unique [OF _ a(1-4), of claim_key] cs(4) [folded cl] have "r = r'" by blast
        then show "retention r' = retention r" by simp
      qed
      then show ?thesis using cs(1,3) set_claims_waiting [OF assms(3), of cs] by (auto simp: waiting_def)
    qed
    then obtain e1 where e1: "open_store w1 e1" "one_retention skey recs1" "\<forall>r \<in> set recs1. \<not> queued r" by blast
    show ?thesis by (rule publish_from_store [OF p assms(5,6) e1(1) _ e1(3) assms(7-10)]) (simp add: e1(2))
  qed
qed

lemma window_duplicates:
  assumes "ingestWindow_on (store_backends fails cfails skey now pub gone) h hexsum topic recs (m, q) = (ab, recs', w')"
    and "open_store (m, q) e" "\<forall>r \<in> set recs. fresh_record r" "live_commit e (skey k) now"
    and "r \<in> set recs'" "reject r = None" "key r = Some k'" "skey k' = skey k"
  shows "\<not> queued r"
proof -
  let ?be = "store_backends fails cfails skey now pub gone"
  have nq: "\<forall>r \<in> set recs. \<not> queued r" using assms(3) by (simp add: fresh_record_def)
  have kd: "keyed s \<longleftrightarrow> reject s = None \<and> key s \<noteq> None" for s by (simp add: keyed_def)
  show ?thesis
  proof (cases "keys_of recs = []")
    case True
    then have p: "publish_from ?be h hexsum topic [] recs (m, q) = (ab, recs', w')" using assms(1) by (simp add: ingestWindow_on_def)
    from published_record [OF p assms(5)] obtain s where "s \<in> set recs" "reject s = None" "key s = Some k'" using assms(6,7) by auto
    then have "k' \<in> set (keys_of recs)" by (force simp: keys_of_def List.map_filter_def)
    then show ?thesis using True by simp
  next
    case False
    obtain ab1 recs1 w1 where r: "reserve ?be h recs (m, q) = (ab1, recs1, w1)" using prod_cases3 by blast
    show ?thesis
    proof (cases ab1)
      case (Some a)
      then have "recs' = recs1" using assms(1) r False by (simp add: ingestWindow_on_def)
      moreover have "recs1 = recs \<or> (\<exists>cs. recs1 = set_claims cs recs)" using r
        by (auto simp: reserve_def Let_def split: prod.splits sum.splits if_splits)
      ultimately show ?thesis using set_claims_waiting [OF assms(3)] nq assms(5) by (auto simp: waiting_def)
    next
      case None
      then have p: "publish_from ?be h hexsum topic [] recs1 w1 = (ab, recs', w')" using assms(1) r False by (simp add: ingestWindow_on_def)
      from reserve_store [OF r [unfolded None] assms(2,3)] obtain cs where cs: "recs1 = set_claims cs recs" "map claim_key cs = keys_of recs"
        "\<forall>c \<in> set cs. Status c \<noteq> InFlight \<and> (Status c = Claimed \<longrightarrow> \<not> live_commit e (skey (claim_key c)) now)" by metis
      have sk: "skipped s" if "s \<in> set recs1" "reject s = None" "key s = Some k'" for s
      proof -
        have "keyed s" using that by (simp add: keyed_def)
        from set_claims_keys [OF cs(2) _ this] that cs(1) obtain c where "c \<in> set cs" "claim_key c = k'" "Status c = Duplicate \<longrightarrow> skipped s" by auto
        then show ?thesis using cs(3) assms(4,8) by (cases "Status c") auto
      qed
      have nq1: "\<forall>r \<in> set recs1. \<not> queued r" using set_claims_waiting [OF assms(3), of cs] cs(1) by (auto simp: waiting_def)
      from published_record [OF p assms(5)] obtain s where "s \<in> set recs1" "reject s = None" "key s = Some k'" "skipped s = skipped r"
        using assms(6,7) by auto
      then have "skipped r" using sk by simp
      then show ?thesis using publish_from_queued [OF p _ nq1] assms(5) by auto
    qed
  qed
qed


lemma publish_from_all:
  "publish_from be h hexsum topic before recs w = (None, recs', w') \<Longrightarrow> \<forall>r \<in> set before. queued r \<or> skipped r \<Longrightarrow>
   \<forall>r \<in> set recs'. queued r \<or> skipped r"
proof (induction recs arbitrary: before w)
  case (Cons r rs)
  show ?case
  proof (cases "skipped r")
    case True
    then show ?thesis using Cons.IH [of "before @ [r]" w] Cons.prems by auto
  next
    case False
    then show ?thesis using Cons.IH [of "before @ [r\<lparr>queued := True\<rparr>]"] Cons.prems by (auto split: prod.splits option.splits)
  qed
qed auto

lemma window_all:
  assumes "ingestWindow_on be h hexsum topic recs w = (None, recs', w')" "r \<in> set recs'"
  shows "queued r \<or> skipped r"
proof -
  obtain recs1 w1 where "publish_from be h hexsum topic [] recs1 w1 = (None, recs', w')"
    using assms(1) by (auto simp: ingestWindow_on_def split: if_splits prod.splits option.splits)
  then show ?thesis using publish_from_all assms(2) by fastforce
qed

text \<open>C37. A record is published once. Take a window over the embedded store whose commits succeed, and a record it
  published holding a claim. In any later window that starts before the retention of that record's id ends, on the
  store as any history of reservations, commits, releases and sweeps left it (no commit of the same id ending
  earlier, no sweep past that instant), a record with the same stored id is not published; and if the later window
  is not aborted, it is reported as a duplicate. The stored ids of the first window's keys are distinct.\<close>

theorem published_once:
  assumes "ingestWindow_on (store_backends fails False skey now pub gone) h hexsum topic recs (m, q) = (ab, recs', m1, q1)"
    and "enabled m" "backend m = Some e" "\<forall>r \<in> set recs. claim r = None \<and> \<not> duplicate r \<and> \<not> queued r"
    and "inj_on skey (set (keys_of recs))" "0 \<le> now" "now < 2 ^ 63 - 1"
    and "r \<in> set recs'" "queued r" "claimed r = Some c"
    and "retention r \<le> 0 \<or> (now' < now + retention r \<and> now' < 2 ^ 63 - 1)"
    and "backend m1 = Some e1" "list_all (commit_safe (skey (claim_key c)) now') es"
    and "ingestWindow_on (store_backends fails' cfails' skey' now' pub' gone') h' hexsum' topic' recs2
           (\<lparr>enabled = True, backend = Some (fold dedupe_step es e1)\<rparr>, q2) = (ab2, recs2', w2)"
    and "\<forall>r \<in> set recs2. claim r = None \<and> \<not> duplicate r \<and> \<not> queued r"
    and "r2 \<in> set recs2'" "reject r2 = None" "key r2 = Some k2" "skey' k2 = skey (claim_key c)"
  shows "\<not> queued r2 \<and> (ab2 = None \<longrightarrow> duplicate r2)"
proof -
  have fr: "\<forall>r \<in> set recs. fresh_record r" "\<forall>r \<in> set recs2. fresh_record r" using assms(4,15) by (simp_all add: fresh_record_def)
  have "\<exists>e'. open_store (m1, q1) e' \<and> live_commit e' (skey (claim_key c)) now'"
    by (rule window_commits [OF assms(1) _ fr(1) assms(5-10)]) (use assms(2,3,11) in \<open>simp_all add: open_store_def stays_until_def\<close>)
  then have "live_commit e1 (skey (claim_key c)) now'" using assms(12) by (auto simp: open_store_def)
  then have l: "live_commit (fold dedupe_step es e1) (skey' k2) now'" using run_keeps_commit assms(13,19) by simp
  have "\<not> queued r2"
    by (rule window_duplicates [OF assms(14) _ fr(2) l assms(16-18)]) (simp_all add: open_store_def)
  moreover have "duplicate r2" if "ab2 = None"
    using window_all [OF assms(14) [unfolded that] assms(16)] \<open>\<not> queued r2\<close> assms(17) by (simp add: skipped_def)
  ultimately show ?thesis by blast
qed


definition example_record :: pendingRecord where
  "example_record = blank\<lparr>payload := ''p'', key := Some \<lparr>Table = ''t'', ID = ''x''\<rparr>\<rparr>"

definition example_store :: "int \<Rightarrow> (Embedded Managed \<times> nat) backends" where
  "example_store now = store_backends (\<lambda>_. False) False ID now (\<lambda>tp p i q. (None, q + 1)) (\<lambda>_. False)"

lemma example_first_window:
  "\<exists>r m1. ingestWindow_on (example_store 0) example_handler id example_topic [example_record]
       (\<lparr>enabled = True, backend = Some (newEmbedded 0 Map.empty)\<rparr>, 0) = (None, [r], m1, 1) \<and>
     queued r \<and> claimed r = Some (answer \<lparr>Table = ''t'', ID = ''x''\<rparr> Claimed ''1'') \<and> retention r = 0"
proof -
  let ?k = "\<lparr>Table = ''t'', ID = ''x''\<rparr>" and ?m = "\<lparr>enabled = True, backend = Some (newEmbedded 0 Map.empty)\<rparr>"
  have k: "keys_of [example_record] = [?k]" "keyed example_record" "lease example_handler = DefaultLease" "DefaultLease > 0"
    by (simp_all add: keys_of_def keyed_def example_record_def blank_def List.map_filter_simps lease_def example_handler_def DefaultLease_def)
  obtain m' where r: "reserve_ids (example_store 0) [?k] DefaultLease (?m, 0) = (Inr [answer ?k Claimed ''1''], m', 0)"
    using reserve_fresh [of 0 "''x''" DefaultLease 0] k(4)
    by (auto simp: example_store_def store_backends_def managed_Reserve_def Dedupe.usable_def Let_def)
  let ?r = "set_claim (answer ?k Claimed ''1'') example_record"
  have rs: "reserve (example_store 0) example_handler [example_record] (?m, 0) = (None, [?r], m', 0)"
    using r k by (simp add: reserve_def Let_def)
  have s: "\<not> skipped ?r" "claimed (?r\<lparr>queued := True\<rparr>) = Some (answer ?k Claimed ''1'')" "retention ?r = 0"
    by (simp_all add: skipped_def set_claim_def claimed_def example_record_def blank_def)
  obtain m1 where c: "commitClaims (example_store 0) [?r\<lparr>queued := True\<rparr>] (m', 1) = (m1, 1)"
    using s(2) by (cases "managed_Commit (Commit False ID 0) [answer ?k Claimed ''1''] (retention ?r) m'")
      (auto simp: commitClaims_def example_store_def store_backends_def)
  have p: "publish (example_store 0) tp pl i (m', 0) = (None, m', 1)" for tp pl i
    by (simp add: example_store_def store_backends_def)
  have "ingestWindow_on (example_store 0) example_handler id example_topic [example_record] (?m, 0) = (None, [?r\<lparr>queued := True\<rparr>], m1, 1)"
    using k(1) rs s(1) c p by (simp add: ingestWindow_on_def)
  then show ?thesis using s by (intro exI [of _ "?r\<lparr>queued := True\<rparr>"] exI [of _ m1]) simp
qed

theorem published_once_witness:
  "\<exists>r e1 ab2 r2 w2. ingestWindow_on (example_store 0) example_handler id example_topic [example_record]
       (\<lparr>enabled = True, backend = Some (newEmbedded 0 Map.empty)\<rparr>, 0) = (None, [r], \<lparr>enabled = True, backend = Some e1\<rparr>, 1) \<and> queued r \<and>
     ingestWindow_on (example_store 9) example_handler id example_topic [example_record] (\<lparr>enabled = True, backend = Some e1\<rparr>, 1) =
       (ab2, [r2], w2) \<and> \<not> queued r2"
proof -
  let ?m = "\<lparr>enabled = True, backend = Some (newEmbedded 0 Map.empty)\<rparr>" and ?k = "\<lparr>Table = ''t'', ID = ''x''\<rparr>"
  obtain r m1 where w: "ingestWindow_on (example_store 0) example_handler id example_topic [example_record] (?m, 0) = (None, [r], m1, 1)"
    and r: "queued r" "claimed r = Some (answer ?k Claimed ''1'')" "retention r = 0"
    using example_first_window by blast
  have fresh: "\<forall>r \<in> set [example_record]. claim r = None \<and> \<not> duplicate r \<and> \<not> queued r" by (simp add: example_record_def blank_def)
  have k: "inj_on ID (set (keys_of [example_record]))" by (simp add: keys_of_def example_record_def List.map_filter_simps)
  have o: "open_store (?m, 0 :: nat) (newEmbedded 0 Map.empty)" by (simp add: open_store_def)
  obtain e1 where e1: "m1 = \<lparr>enabled = True, backend = Some e1\<rparr>"
    using window_commits [OF w [unfolded example_store_def] o _ k, of r "answer ?k Claimed ''1''" 0] fresh r
    by (cases m1) (auto simp: fresh_record_def open_store_def stays_until_def)
  obtain ab2 recs2 w2 where w2: "ingestWindow_on (example_store 9) example_handler id example_topic [example_record]
      (\<lparr>enabled = True, backend = Some e1\<rparr>, 1) = (ab2, recs2, w2)" using prod_cases3 by blast
  obtain r2 where r2: "recs2 = [r2]" "reject r2 = None" "key r2 = Some ?k"
    using window_fields [OF w2] by (auto simp: example_record_def blank_def)
  have "\<not> queued r2 \<and> (ab2 = None \<longrightarrow> duplicate r2)"
  proof (rule published_once [OF w [unfolded example_store_def] _ _ fresh k])
    show "ingestWindow_on (store_backends (\<lambda>_. False) False ID 9 (\<lambda>tp p i q. (None, q + 1)) (\<lambda>_. False)) example_handler id example_topic
        [example_record] (\<lparr>enabled = True, backend = Some (fold dedupe_step [] e1)\<rparr>, 1) = (ab2, [r2], w2)"
      using w2 r2(1) by (simp add: example_store_def)
    show "claimed r = Some (answer ?k Claimed ''1'')" "queued r" "retention r \<le> 0 \<or> (9 < 0 + retention r \<and> (9 :: int) < 2 ^ 63 - 1)"
      using r by simp_all
    show "key r2 = Some ?k" "reject r2 = None" using r2 by simp_all
  qed (use e1 fresh in simp_all)
  then show ?thesis using w e1 r(1) w2 r2(1) by blast
qed

end
