(* ===== verification/Errclass.thy ===== *)
theory Errclass
  imports Gojson
begin

text \<open>
  What a failed ClickHouse request says about the request (\<^verbatim>\<open>internal/chconn/errclass.go\<close>): the class the ingest worker
  retries or dead-letters by. A Go error is the chain of its causes, outermost first, as \<^verbatim>\<open>errors.Is\<close> and \<^verbatim>\<open>errors.As\<close>
  walk it.
\<close>

section \<open>Errors\<close>

datatype cause =
    Exception int
  | HTTPFailure int int string
  | DriverHTTP int
  | DeadlineExceeded | Canceled | EOF | UnexpectedEOF
  | ECONNREFUSED | ECONNRESET | ECONNABORTED | EPIPE | EHOSTUNREACH | ENETUNREACH
  | AcquireConnTimeout | ConnectionClosed | BadConn
  | OpError | DNSError | NetError bool
  | NoTarget
  | OtherCause string

type_synonym ch_error = "cause list"

text \<open>\<^verbatim>\<open>errors.As\<close>: the first cause of a kind.\<close>

fun first_cause :: "(cause \<Rightarrow> 'a option) \<Rightarrow> ch_error \<Rightarrow> 'a option" where
  "first_cause f [] = None"
| "first_cause f (c # cs) = (case f c of Some x \<Rightarrow> Some x | None \<Rightarrow> first_cause f cs)"

definition as_exception :: "cause \<Rightarrow> int option" where
  "as_exception c = (case c of Exception n \<Rightarrow> Some n | _ \<Rightarrow> None)"

definition as_http :: "cause \<Rightarrow> (int \<times> int) option" where
  "as_http c = (case c of HTTPFailure st n _ \<Rightarrow> Some (st, n) | _ \<Rightarrow> None)"

definition as_driver_http :: "cause \<Rightarrow> int option" where
  "as_driver_http c = (case c of DriverHTTP st \<Rightarrow> Some st | _ \<Rightarrow> None)"

section \<open>Classes\<close>

datatype err_class = Unknown | Unavailable | Denied | Rejected

definition class_name :: "err_class \<Rightarrow> string" where
  "class_name c = (case c of Unavailable \<Rightarrow> ''unavailable'' | Denied \<Rightarrow> ''denied'' | Rejected \<Rightarrow> ''rejected'' | Unknown \<Rightarrow> ''unknown'')"

definition unavailableCodes :: "int list" where
  "unavailableCodes =
     [95, 96, 159, 160, 164, 173, 201, 202, 203, 209, 210, 225, 236, 241, 242, 243, 244, 252, 254, 265, 279, 285, 286, 289,
      297, 319, 364, 369, 394, 415, 425, 439, 499, 574, 692, 700, 735, 745, 749, 762, 774, 776, 777, 778, 904, 999, 1000]"

definition deniedCodes :: "int list" where
  "deniedCodes = [192, 193, 194, 195, 291, 497, 516, 720]"

definition tableScopedCodes :: "int list" where
  "tableScopedCodes = [242, 252, 497, 692, 774]"

definition splittableCodes :: "int list" where
  "splittableCodes = [241, 252]"

definition ExceptionCode :: "ch_error \<Rightarrow> int option" where
  "ExceptionCode err =
     (case first_cause as_exception err of
        Some n \<Rightarrow> (if n > 0 then Some n
                   else case first_cause as_http err of Some (st, n) \<Rightarrow> (if n > 0 then Some n else None) | None \<Rightarrow> None)
      | None \<Rightarrow> (case first_cause as_http err of Some (st, n) \<Rightarrow> (if n > 0 then Some n else None) | None \<Rightarrow> None))"

definition HTTPStatus :: "ch_error \<Rightarrow> int option" where
  "HTTPStatus err =
     (case first_cause as_http err of Some (st, n) \<Rightarrow> Some st | None \<Rightarrow> first_cause as_driver_http err)"

definition TableScoped :: "ch_error \<Rightarrow> bool" where
  "TableScoped err = (case ExceptionCode err of None \<Rightarrow> False | Some n \<Rightarrow> n \<in> set tableScopedCodes)"

definition Splittable :: "ch_error \<Rightarrow> bool" where
  "Splittable err = (case ExceptionCode err of None \<Rightarrow> False | Some n \<Rightarrow> n \<in> set splittableCodes)"

definition ClassOfCode :: "int \<Rightarrow> err_class" where
  "ClassOfCode code = (if code \<in> set unavailableCodes then Unavailable else if code \<in> set deniedCodes then Denied else Rejected)"

definition classOfStatus :: "int \<Rightarrow> err_class" where
  "classOfStatus status =
     (if status \<in> {408, 429, 502, 503, 504} then Unavailable
      else if status \<in> {401, 403, 407} then Denied
      else if status = 413 then Rejected
      else Unknown)"

definition is_transport :: "cause \<Rightarrow> bool" where
  "is_transport c = (case c of
      DeadlineExceeded \<Rightarrow> True | Canceled \<Rightarrow> True | EOF \<Rightarrow> True | UnexpectedEOF \<Rightarrow> True
    | ECONNREFUSED \<Rightarrow> True | ECONNRESET \<Rightarrow> True | ECONNABORTED \<Rightarrow> True | EPIPE \<Rightarrow> True | EHOSTUNREACH \<Rightarrow> True | ENETUNREACH \<Rightarrow> True
    | AcquireConnTimeout \<Rightarrow> True | ConnectionClosed \<Rightarrow> True | BadConn \<Rightarrow> True
    | OpError \<Rightarrow> True | DNSError \<Rightarrow> True | _ \<Rightarrow> False)"

definition as_net_error :: "cause \<Rightarrow> bool option" where
  "as_net_error c = (case c of NetError timeout \<Rightarrow> Some timeout | _ \<Rightarrow> None)"

text \<open>The network errors of the standard library that are none of the kinds above are \<open>NetError\<close>, with their
  \<^verbatim>\<open>Timeout()\<close>.\<close>

definition transportFailure :: "ch_error \<Rightarrow> bool" where
  "transportFailure err \<longleftrightarrow> list_ex is_transport err \<or> first_cause as_net_error err = Some True"

text \<open>\<open>None\<close> is the nil error.\<close>

definition Classify :: "ch_error option \<Rightarrow> err_class" where
  "Classify err =
     (case err of
        None \<Rightarrow> Unknown
      | Some err \<Rightarrow>
          (case ExceptionCode err of
             Some n \<Rightarrow> ClassOfCode n
           | None \<Rightarrow>
               (case HTTPStatus err of
                  Some st \<Rightarrow> classOfStatus st
                | None \<Rightarrow> if transportFailure err then Unavailable else Unknown)))"

section \<open>The answer of the HTTP interface\<close>

definition maxErrorBody :: nat where "maxErrorBody = 4096"

definition parse_int32 :: "string \<Rightarrow> int option" where
  "parse_int32 s = (case set_string s of Some n \<Rightarrow> (if - (2 ^ 31) \<le> n \<and> n < 2 ^ 31 then Some n else None) | None \<Rightarrow> None)"

text \<open>\<^verbatim>\<open>^Code:\s*(\d+)\.\<close>\<close>

definition regexp_space :: "char \<Rightarrow> bool" where
  "regexp_space c \<longleftrightarrow> c \<in> {CHR '' '', CHR 0x09, CHR 0x0A, CHR 0x0C, CHR 0x0D}"

definition body_code :: "string \<Rightarrow> string option" where
  "body_code body =
     (case cut_prefix ''Code:'' body of
        None \<Rightarrow> None
      | Some rest \<Rightarrow>
          (let rest = dropWhile regexp_space rest; ds = takeWhile is_digit rest in
           if ds \<noteq> [] \<and> prefix ''.'' (dropWhile is_digit rest) then Some ds else None))"

definition positive_code :: "string \<Rightarrow> int option" where
  "positive_code s = (case parse_int32 s of Some c \<Rightarrow> (if c > 0 then Some c else None) | None \<Rightarrow> None)"

definition NewHTTPError :: "int \<Rightarrow> string \<Rightarrow> string \<Rightarrow> cause" where
  "NewHTTPError status header body =
     (let body = take maxErrorBody body in
      HTTPFailure status
        (case positive_code header of
           Some c \<Rightarrow> c
         | None \<Rightarrow> (case body_code body of Some ds \<Rightarrow> (case positive_code ds of Some c \<Rightarrow> c | None \<Rightarrow> 0) | None \<Rightarrow> 0)) body)"

section \<open>What the classes mean for the worker\<close>

text \<open>The codes the worker treats specially are codes it retries.\<close>

lemma special_codes_retried: "TableScoped err \<or> Splittable err \<Longrightarrow> Classify (Some err) \<noteq> Rejected"
proof -
  have "\<forall>n \<in> set tableScopedCodes \<union> set splittableCodes. ClassOfCode n \<noteq> Rejected" by code_simp
  then show "TableScoped err \<or> Splittable err \<Longrightarrow> Classify (Some err) \<noteq> Rejected"
    by (auto simp: TableScoped_def Splittable_def Classify_def split: option.splits)
qed

text \<open>A rejection is a verdict of the server, or of whatever refused the size of the request.\<close>

lemma Rejected_judged:
  "Classify (Some err) = Rejected \<Longrightarrow>
   (\<exists>n. ExceptionCode err = Some n \<and> n \<notin> set unavailableCodes \<and> n \<notin> set deniedCodes) \<or> HTTPStatus err = Some 413"
  by (auto simp: Classify_def ClassOfCode_def classOfStatus_def split: option.splits if_splits)

lemma not_Rejected: "Classify None \<noteq> Rejected" "Classify (Some [NoTarget]) \<noteq> Rejected"
  by (simp_all add: Classify_def ExceptionCode_def HTTPStatus_def as_exception_def as_http_def as_driver_http_def)

end
