(* ===== verification/Worker.thy ===== *)
theory Worker
  imports Hub Cache Backoff Errclass
begin

text \<open>
  The ingest worker's treatment of what the queue delivers (\<^verbatim>\<open>internal/ingest/worker.go\<close>): reading an envelope, the
  INSERT of a batch per column list, the row-by-row isolation of a rejected one, dead-lettering, the hand-back of
  rows ClickHouse could not take, and which cached results an insert makes stale. ClickHouse, the queue, the
  settings and the clock are a record of functions on a state. The acks run in the background; here they follow
  what they acknowledge. Log lines and spans are left out.
\<close>

section \<open>Messages\<close>

record message =
  msg_id :: nat
  msg_topic :: Topic
  msg_data :: string

record parsedMsg =
  pm_msg :: nat
  pm_tenant :: string
  pm_table :: string
  pm_scope :: string
  pm_columns :: "string list"
  colSig :: string
  pm_row :: string

definition columnSignature :: "string list \<Rightarrow> string" where
  "columnSignature cols = join [NUL] cols"

fun dup_from :: "string list \<Rightarrow> string list \<Rightarrow> string option" where
  "dup_from seen [] = None"
| "dup_from seen (c # cs) = (if c \<in> set seen then Some c else dup_from (c # seen) cs)"

definition firstDuplicate :: "string list \<Rightarrow> string option" where
  "firstDuplicate cols = dup_from [] cols"

datatype poison =
    Malformed
  | UnknownFormat string
  | NoColumnsOrRow
  | RepeatedColumn string
  | Unpaired nat

definition poison_reason :: "poison \<Rightarrow> string" where
  "poison_reason p = (case p of Malformed \<Rightarrow> ''malformed'' | UnknownFormat _ \<Rightarrow> ''unknown_format'' | _ \<Rightarrow> ''unpairable'')"

text \<open>\<^verbatim>\<open>json.Unmarshal\<close> into an envelope, where a null leaves the zero value.\<close>

definition unmarshal_event :: "string \<Rightarrow> EventMessage option" where
  "unmarshal_event s =
     (if \<not> json_valid s then None
      else case raw_value s of
        None \<Rightarrow> None
      | Some (v, rest) \<Rightarrow>
          (if is_null v then Some empty_event
           else if is_object_text v then decode_members (object_members v) (empty_event, [])
           else None))"

text \<open>The poison comes with the table it is parked under.\<close>

definition parseMsg :: "message \<Rightarrow> (string \<times> poison) + parsedMsg" where
  "parseMsg m =
     (case unmarshal_event (msg_data m) of
        None \<Rightarrow> Inl ('''', Malformed)
      | Some e \<Rightarrow>
          (if Format e \<noteq> FormatJSONCompactEachRow then Inl (TableName e, UnknownFormat (Format e))
           else if ev_Columns e = [] \<or> Row e = [] then Inl (TableName e, NoColumnsOrRow)
           else case firstDuplicate (ev_Columns e) of
             Some dup \<Rightarrow> Inl (TableName e, RepeatedColumn dup)
           | None \<Rightarrow>
               (case unmarshal_raws (Row e) of
                  None \<Rightarrow> Inl (TableName e, Unpaired (length (ev_Columns e)))
                | Some cs \<Rightarrow>
                    (if length cs \<noteq> length (ev_Columns e) then Inl (TableName e, Unpaired (length (ev_Columns e)))
                     else Inr \<lparr>pm_msg = msg_id m, pm_tenant = Topic.Tenant (msg_topic m), pm_table = TableName e,
                               pm_scope = ev_Scope e, pm_columns = ev_Columns e, colSig = columnSignature (ev_Columns e),
                               pm_row = Row e\<rparr>))))"

section \<open>Groups of one column list\<close>

fun add_to_group :: "parsedMsg \<Rightarrow> parsedMsg list list \<Rightarrow> parsedMsg list list" where
  "add_to_group pm [] = [[pm]]"
| "add_to_group pm (g # gs) = (if colSig (hd g) = colSig pm then (g @ [pm]) # gs else g # add_to_group pm gs)"

definition groupByColumns :: "parsedMsg list \<Rightarrow> parsedMsg list list" where
  "groupByColumns msgs = foldl (\<lambda>gs pm. add_to_group pm gs) [] msgs"

section \<open>What the worker calls\<close>

record Limits =
  MaxBatchBytes :: int
  MaxBatchWait :: int
  InsertTimeout :: int
  RetryBackoffMax :: int

record ch_target = target +
  Password :: string
  ch_Headers :: "(string \<times> string) list"

record insert_request =
  ir_URL :: string
  ir_Params :: "(string \<times> string) list"
  ir_Headers :: "(string \<times> string) list"
  ir_Body :: string

datatype row_outcome = rowsInserted | rowsDeadLettered | rowsLeftUnacked | rowsRetried string

text \<open>\<open>post\<close> is also told which rows its request carries; \<open>dlq_on\<close> is absent when no switch is wired. The boolean
  answers tell whether a call succeeded.\<close>

record 'w worker_env =
  target_of :: "string \<Rightarrow> 'w \<Rightarrow> ch_target"
  limits_of :: "string \<Rightarrow> 'w \<Rightarrow> Limits option"
  dlq_on :: "(string \<Rightarrow> string \<Rightarrow> 'w \<Rightarrow> bool) option"
  clock :: "'w \<Rightarrow> int"
  jitter :: "'w \<Rightarrow> int \<Rightarrow> int"
  post :: "parsedMsg list \<Rightarrow> insert_request \<Rightarrow> int \<Rightarrow> 'w \<Rightarrow> ch_error option \<times> 'w"
  dead_letter :: "nat \<Rightarrow> string \<Rightarrow> string \<Rightarrow> 'w \<Rightarrow> bool \<times> 'w"
  double_ack :: "nat \<Rightarrow> 'w \<Rightarrow> bool \<times> 'w"
  nak_delay :: "nat \<Rightarrow> int \<Rightarrow> 'w \<Rightarrow> bool \<times> 'w"
  invalidate_in :: "Namespace list \<Rightarrow> 'w \<Rightarrow> 'w"
  count_rows :: "row_outcome \<Rightarrow> parsedMsg list \<Rightarrow> 'w \<Rightarrow> 'w"
  count_poison :: "string \<Rightarrow> string \<Rightarrow> string \<Rightarrow> 'w \<Rightarrow> 'w"
  error_text :: "ch_error \<Rightarrow> string"

definition dlq_enabled :: "'w worker_env \<Rightarrow> string \<Rightarrow> string \<Rightarrow> 'w \<Rightarrow> bool" where
  "dlq_enabled env tid table w = (case dlq_on env of None \<Rightarrow> True | Some f \<Rightarrow> f tid table w)"

section \<open>The INSERT\<close>

text \<open>\<^verbatim>\<open>http.CanonicalHeaderKey\<close> of a valid field name: upper case after a hyphen and at the start, lower elsewhere.\<close>

fun canonical_header :: "bool \<Rightarrow> string \<Rightarrow> string" where
  "canonical_header up [] = []"
| "canonical_header up (c # cs) = (if up then upper_byte c else lower_byte c) # canonical_header (c = CHR ''-'') cs"

definition header_set :: "string \<Rightarrow> string \<Rightarrow> (string \<times> string) list \<Rightarrow> (string \<times> string) list" where
  "header_set name v hs = AList.update (canonical_header True name) v hs"

definition insert_query :: "string list \<Rightarrow> string" where
  "insert_query columns =
     ''INSERT INTO {target_table:Identifier} ('' @ join '', '' (map QuoteIdent columns) @ '') FORMAT JSONCompactEachRow''"

definition insert_body :: "parsedMsg list \<Rightarrow> string" where
  "insert_body msgs = concat (map (\<lambda>m. pm_row m @ NL) msgs)"

definition insert_of :: "ch_target \<Rightarrow> string \<Rightarrow> string list \<Rightarrow> parsedMsg list \<Rightarrow> insert_request" where
  "insert_of t tableName columns msgs =
     \<lparr>ir_URL = URL t,
      ir_Params = [(''database'', Database t), (''param_target_table'', tableName), (''query'', insert_query columns),
        (''date_time_input_format'', ''best_effort''), (''input_format_null_as_default'', ''1'')],
      ir_Headers = header_set ''X-ClickHouse-Key'' (Password t) (header_set ''X-ClickHouse-User'' (Username t)
        (header_set ''Content-Type'' ''application/json'' (fold (\<lambda>(n, v). header_set n v) (ch_Headers t) []))),
      ir_Body = insert_body msgs\<rparr>"

definition insertToClickHouse ::
  "'w worker_env \<Rightarrow> string \<Rightarrow> string list \<Rightarrow> parsedMsg list \<Rightarrow> int \<Rightarrow> 'w \<Rightarrow> ch_error option \<times> 'w" where
  "insertToClickHouse env tableName columns msgs timeout w =
     (let t = target_of env (pm_tenant (hd msgs)) w in
      if URL t = [] then (Some [NoTarget], w)
      else post env msgs (insert_of t tableName columns msgs) timeout w)"

section \<open>Settling rows\<close>

fun scope_namespaces :: "string \<Rightarrow> string \<Rightarrow> string list \<Rightarrow> Namespace list \<Rightarrow> parsedMsg list \<Rightarrow> Namespace list" where
  "scope_namespaces tid tableName seen acc [] = acc"
| "scope_namespaces tid tableName seen acc (pm # pms) =
     (if pm_scope pm = [] then [\<lparr>Namespace.Tenant = tid, Namespace.Table = tableName, Namespace.Scope = ''''\<rparr>]
      else if pm_scope pm \<in> set seen then scope_namespaces tid tableName seen acc pms
      else scope_namespaces tid tableName (pm_scope pm # seen)
             (acc @ [\<lparr>Namespace.Tenant = tid, Namespace.Table = tableName, Namespace.Scope = pm_scope pm\<rparr>]) pms)"

definition invalidate :: "'w worker_env \<Rightarrow> string \<Rightarrow> string \<Rightarrow> parsedMsg list \<Rightarrow> 'w \<Rightarrow> 'w" where
  "invalidate env tid tableName msgs w =
     (let ns = scope_namespaces tid tableName [] [] msgs in if ns = [] then w else invalidate_in env ns w)"

definition handleSuccess :: "'w worker_env \<Rightarrow> string \<Rightarrow> parsedMsg list \<Rightarrow> 'w \<Rightarrow> 'w" where
  "handleSuccess env tableName msgs w =
     (if msgs = [] then w
      else fold (\<lambda>pm w. snd (double_ack env (pm_msg pm) w)) msgs
             (invalidate env (pm_tenant (hd msgs)) tableName msgs (count_rows env rowsInserted msgs w)))"

definition parkOnDLQ :: "'w worker_env \<Rightarrow> nat \<Rightarrow> string \<Rightarrow> string \<Rightarrow> 'w \<Rightarrow> bool \<times> 'w" where
  "parkOnDLQ env m tableName errMsg w =
     (case dead_letter env m tableName errMsg w of
        (False, w) \<Rightarrow> (False, w)
      | (True, w) \<Rightarrow> double_ack env m w)"

definition sendToDLQ :: "'w worker_env \<Rightarrow> string \<Rightarrow> parsedMsg \<Rightarrow> string \<Rightarrow> 'w \<Rightarrow> 'w" where
  "sendToDLQ env tableName pm errMsg w =
     (case parkOnDLQ env (pm_msg pm) tableName errMsg w of
        (ok, w) \<Rightarrow> count_rows env (if ok then rowsDeadLettered else rowsLeftUnacked) [pm] w)"

definition parkBatch :: "'w worker_env \<Rightarrow> string \<Rightarrow> parsedMsg list \<Rightarrow> 'w \<Rightarrow> 'w" where
  "parkBatch env tableName msgs w =
     (let tid = pm_tenant (hd msgs) in
      if \<not> dlq_enabled env tid tableName w then count_rows env rowsLeftUnacked msgs w
      else fold (\<lambda>pm w. sendToDLQ env tableName pm (''no ClickHouse connection is open for tenant '' @ tid) w) msgs w)"

definition retryLater :: "'w worker_env \<Rightarrow> parsedMsg list \<Rightarrow> int \<Rightarrow> string \<Rightarrow> 'w \<Rightarrow> 'w" where
  "retryLater env msgs wait reason w =
     count_rows env (rowsRetried reason) msgs (fold (\<lambda>pm w. snd (nak_delay env (pm_msg pm) wait w)) msgs w)"

text \<open>An envelope that can never be inserted: parked, or acknowledged away where the dead-letter queue is off.\<close>

definition rejectPoison :: "'w worker_env \<Rightarrow> message \<Rightarrow> string \<Rightarrow> poison \<Rightarrow> string \<Rightarrow> 'w \<Rightarrow> 'w" where
  "rejectPoison env m tableName p detail w =
     (if dlq_enabled env (Topic.Tenant (msg_topic m)) tableName w
      then (case parkOnDLQ env (msg_id m) tableName detail w of
              (ok, w) \<Rightarrow> if ok then count_poison env tableName (poison_reason p) ''parked'' w else w)
      else (case double_ack env (msg_id m) w of
              (ok, w) \<Rightarrow> if ok then count_poison env tableName (poison_reason p) ''dropped'' w else w))"

section \<open>Flushing a group\<close>

fun isolate ::
  "'w worker_env \<Rightarrow> string \<Rightarrow> string list \<Rightarrow> int \<Rightarrow> parsedMsg list \<Rightarrow> 'w \<Rightarrow> (parsedMsg list \<times> ch_error option) \<times> 'w" where
  "isolate env tableName cols timeout [] w = (([], None), w)"
| "isolate env tableName cols timeout (pm # pms) w =
     (case insertToClickHouse env tableName cols [pm] timeout w of
        (None, w) \<Rightarrow> isolate env tableName cols timeout pms (handleSuccess env tableName [pm] w)
      | (Some err, w) \<Rightarrow>
          (if Classify (Some err) \<noteq> Rejected then ((pm # pms, Some err), w)
           else if \<not> dlq_enabled env (pm_tenant pm) tableName w
           then isolate env tableName cols timeout pms (count_rows env rowsLeftUnacked [pm] w)
           else isolate env tableName cols timeout pms (sendToDLQ env tableName pm (error_text env err) w)))"

definition flushGroup ::
  "'w worker_env \<Rightarrow> string \<Rightarrow> parsedMsg list \<Rightarrow> int \<Rightarrow> 'w \<Rightarrow> (parsedMsg list \<times> ch_error option) \<times> 'w" where
  "flushGroup env tableName grp timeout w =
     (let cols = pm_columns (hd grp) in
      case insertToClickHouse env tableName cols grp timeout w of
        (None, w) \<Rightarrow> (([], None), handleSuccess env tableName grp w)
      | (Some err, w) \<Rightarrow>
          (if Classify (Some err) \<noteq> Rejected \<and> (length grp = 1 \<or> \<not> Splittable err) then ((grp, Some err), w)
           else isolate env tableName cols timeout grp w))"

section \<open>Flushing a batch\<close>

text \<open>The groups in turn. The first one ClickHouse cannot take opens a backoff, the table's when the failure is
  about the table, and sends back its unsettled rows and every later group.\<close>

fun flush_groups ::
  "'w worker_env \<Rightarrow> string \<Rightarrow> ch_target \<Rightarrow> Limits \<Rightarrow> parsedMsg list list \<Rightarrow> backoffs \<times> 'w \<Rightarrow> backoffs \<times> 'w" where
  "flush_groups env tableName t lims [] (bs, w) =
     (let bs = snd (set_succeed (clock env w) (keyOf (target.truncate t) '''') bs) in
      (snd (set_succeed (clock env w) (keyOf (target.truncate t) tableName) bs), w))"
| "flush_groups env tableName t lims (g # gs) (bs, w) =
     (case flushGroup env tableName g (InsertTimeout lims) w of
        ((unsettled, None), w) \<Rightarrow> flush_groups env tableName t lims gs (bs, w)
      | ((unsettled, Some err), w) \<Rightarrow>
          (let pool = keyOf (target.truncate t) ''''; table = keyOf (target.truncate t) tableName;
               bs = (if TableScoped err then snd (set_succeed (clock env w) pool bs)
                     else backoff_put table (backoff_release (backoff_get table bs)) bs) in
           case set_fail (jitter env w) (clock env w) (RetryBackoffMax lims) (if TableScoped err then table else pool) bs of
             ((wait, _), bs) \<Rightarrow> (bs, retryLater env (unsettled @ concat gs) wait (class_name (Classify (Some err))) w)))"

definition flushTable ::
  "'w worker_env \<Rightarrow> int \<Rightarrow> string \<Rightarrow> parsedMsg list \<Rightarrow> Limits option \<Rightarrow> backoffs \<times> 'w \<Rightarrow> backoffs \<times> 'w" where
  "flushTable env ackWait tableName msgs lim_ok s =
     (case s of (bs, w) \<Rightarrow>
        if msgs = [] then (bs, w)
        else (let t = target_of env (pm_tenant (hd msgs)) w in
          if URL t = [] then (bs, parkBatch env tableName msgs w)
          else case lim_ok of
            None \<Rightarrow> (bs, retryLater env msgs ackWait ''unconfigured'' w)
          | Some lims \<Rightarrow>
              (let pool = keyOf (target.truncate t) ''''; table = keyOf (target.truncate t) tableName in
               case backoff_allow (jitter env w) (clock env w) (RetryBackoffMax lims) (backoff_get table bs) of
                 ((wait, ok), b) \<Rightarrow>
                   (let bs = backoff_put table b bs in
                    if \<not> ok then (bs, retryLater env msgs wait ''backoff'' w)
                    else case backoff_allow (jitter env w) (clock env w) (RetryBackoffMax lims) (backoff_get pool bs) of
                      ((wait, ok), b) \<Rightarrow>
                        (let bs = backoff_put pool b bs in
                         if \<not> ok
                         then (backoff_put table (backoff_release (backoff_get table bs)) bs, retryLater env msgs wait ''backoff'' w)
                         else flush_groups env tableName t lims (groupByColumns msgs) (bs, w))))))"

end
