(* ===== verification/Worker_rows.thy ===== *)
theory Worker_rows
  imports Worker
begin

text \<open>
  What becomes of the rows of a batch: the worker's calls written down, and the account that balances them. Every row
  of a flushed batch is settled exactly once, and none is acknowledged before it is stored.
\<close>

section \<open>The calls written down\<close>

datatype worker_call =
    KInsert "parsedMsg list" "ch_error option"
  | KDead nat bool
  | KAck nat bool
  | KNak nat int bool
  | KStale "Namespace list"
  | KCount row_outcome "parsedMsg list"
  | KPoison string string string

definition noted :: "'w worker_env \<Rightarrow> ('w \<times> worker_call list) worker_env" where
  "noted env =
     \<lparr>target_of = (\<lambda>tid (w, l). target_of env tid w), limits_of = (\<lambda>tid (w, l). limits_of env tid w),
      dlq_on = map_option (\<lambda>f tid table (w, l). f tid table w) (dlq_on env),
      clock = (\<lambda>(w, l). clock env w), jitter = (\<lambda>(w, l). jitter env w),
      post = (\<lambda>msgs rq timeout (w, l). case post env msgs rq timeout w of (e, w) \<Rightarrow> (e, w, l @ [KInsert msgs e])),
      dead_letter = (\<lambda>m table txt (w, l). case dead_letter env m table txt w of (ok, w) \<Rightarrow> (ok, w, l @ [KDead m ok])),
      double_ack = (\<lambda>m (w, l). case double_ack env m w of (ok, w) \<Rightarrow> (ok, w, l @ [KAck m ok])),
      nak_delay = (\<lambda>m d (w, l). case nak_delay env m d w of (ok, w) \<Rightarrow> (ok, w, l @ [KNak m d ok])),
      invalidate_in = (\<lambda>ns (w, l). (invalidate_in env ns w, l @ [KStale ns])),
      count_rows = (\<lambda>oc msgs (w, l). (count_rows env oc msgs w, l @ [KCount oc msgs])),
      count_poison = (\<lambda>table reason d (w, l). (count_poison env table reason d w, l @ [KPoison table reason d])),
      error_text = error_text env\<rparr>"

fun inserted :: "worker_call list \<Rightarrow> parsedMsg list" where
  "inserted [] = []"
| "inserted (c # cs) = (case c of KInsert msgs None \<Rightarrow> msgs | _ \<Rightarrow> []) @ inserted cs"

fun dead_ok :: "worker_call list \<Rightarrow> nat list" where
  "dead_ok [] = []"
| "dead_ok (c # cs) = (case c of KDead m True \<Rightarrow> [m] | _ \<Rightarrow> []) @ dead_ok cs"

fun acks :: "worker_call list \<Rightarrow> nat list" where
  "acks [] = []"
| "acks (c # cs) = (case c of KAck m _ \<Rightarrow> [m] | _ \<Rightarrow> []) @ acks cs"

fun naks :: "worker_call list \<Rightarrow> nat list" where
  "naks [] = []"
| "naks (c # cs) = (case c of KNak m _ _ \<Rightarrow> [m] | _ \<Rightarrow> []) @ naks cs"

fun counted :: "(row_outcome \<Rightarrow> bool) \<Rightarrow> worker_call list \<Rightarrow> parsedMsg list" where
  "counted P [] = []"
| "counted P (c # cs) = (case c of KCount oc msgs \<Rightarrow> (if P oc then msgs else []) | _ \<Rightarrow> []) @ counted P cs"

lemma log_functions_append [simp]:
  "inserted (a @ b) = inserted a @ inserted b" "dead_ok (a @ b) = dead_ok a @ dead_ok b" "acks (a @ b) = acks a @ acks b"
  "naks (a @ b) = naks a @ naks b" "counted P (a @ b) = counted P a @ counted P b"
  by (induction a) simp_all

text \<open>No row is acknowledged before an INSERT that carried it succeeded or the dead-letter queue took it; none is
  dead-lettered unless its own INSERT was rejected, or its tenant has no ClickHouse.\<close>

definition ack_safe :: "worker_call list \<Rightarrow> bool" where
  "ack_safe calls \<longleftrightarrow> (\<forall>xs m ok ys. calls = xs @ KAck m ok # ys \<longrightarrow> m \<in> pm_msg ` set (inserted xs) \<or> m \<in> set (dead_ok xs))"

definition dead_justified :: "worker_call list \<Rightarrow> bool" where
  "dead_justified calls \<longleftrightarrow>
     (\<forall>xs m ok ys. calls = xs @ KDead m ok # ys \<longrightarrow>
        (\<exists>pm e. KInsert [pm] (Some e) \<in> set xs \<and> pm_msg pm = m \<and> Classify (Some e) = Rejected))"

lemma append_at: "a @ b = xs @ c # ys \<Longrightarrow> (\<exists>zs. a = xs @ c # zs \<and> ys = zs @ b) \<or> (\<exists>zs. xs = a @ zs \<and> b = zs @ c # ys)"
  by (auto simp: append_eq_append_conv2 append_eq_Cons_conv)

lemma ack_safe_append: "ack_safe a \<Longrightarrow> ack_safe b \<Longrightarrow> ack_safe (a @ b)"
  unfolding ack_safe_def by (auto dest!: append_at; blast)

lemma dead_justified_append: "dead_justified a \<Longrightarrow> dead_justified b \<Longrightarrow> dead_justified (a @ b)"
  unfolding dead_justified_def by (auto dest!: append_at; blast)

text \<open>A row is left as it is, neither acknowledged nor handed back, only after an INSERT of that row alone was rejected (or
  without a ClickHouse to insert into), and, where the dead-letter queue is always on, only after its dead-lettering or the
  acknowledgement that follows it failed.\<close>

definition always_dlq :: "'w worker_env \<Rightarrow> bool" where
  "always_dlq env \<longleftrightarrow> (\<forall>tid tableName w. dlq_enabled env tid tableName w)"

definition left_justified :: "bool \<Rightarrow> bool \<Rightarrow> worker_call list \<Rightarrow> bool" where
  "left_justified no_target dlq calls \<longleftrightarrow>
     (\<forall>xs rows ys. calls = xs @ KCount rowsLeftUnacked rows # ys \<longrightarrow> (\<forall>pm\<in>set rows.
        (no_target \<or> (\<exists>e. KInsert [pm] (Some e) \<in> set xs \<and> Classify (Some e) = Rejected)) \<and>
        (dlq \<longrightarrow> KDead (pm_msg pm) False \<in> set xs \<or> KAck (pm_msg pm) False \<in> set xs)))"

lemma left_justified_append: "left_justified nt q a \<Longrightarrow> left_justified nt q b \<Longrightarrow> left_justified nt q (a @ b)"
  unfolding left_justified_def
proof (intro allI impI ballI, goal_cases)
  case (1 xs rows ys pm)
  from append_at [OF 1(3)] show ?case
  proof (elim disjE exE conjE)
    fix zs assume "a = xs @ KCount rowsLeftUnacked rows # zs"
    then show ?thesis using 1(1,4) by simp
  next
    fix zs assume z: "xs = a @ zs" "b = zs @ KCount rowsLeftUnacked rows # ys"
    then have "(nt \<or> (\<exists>e. KInsert [pm] (Some e) \<in> set zs \<and> Classify (Some e) = Rejected)) \<and>
        (q \<longrightarrow> KDead (pm_msg pm) False \<in> set zs \<or> KAck (pm_msg pm) False \<in> set zs)" using 1(2,4) by simp
    then show ?thesis using z(1) by auto
  qed
qed

lemma left_justified_settled: "\<forall>rows. KCount rowsLeftUnacked rows \<notin> set calls \<Longrightarrow> left_justified nt q calls"
  unfolding left_justified_def by (metis in_set_conv_decomp)

lemma left_justified_calls [simp]: "left_justified nt q (map2 (\<lambda>pm ok. KAck (pm_msg pm) ok) msgs oks)"
    "left_justified nt q (map2 (\<lambda>pm ok. KNak (pm_msg pm) d ok) msgs oks)"
  by (rule left_justified_settled, auto)+

definition is_retry :: "row_outcome \<Rightarrow> bool" where
  "is_retry oc \<longleftrightarrow> (\<exists>r. oc = rowsRetried r)"

text \<open>The calls account for these rows: each is counted under one outcome, a row counted as inserted was carried by an
  INSERT that succeeded, exactly the rows inserted and those the dead-letter queue took are acknowledged, the
  rows counted as retried are the ones handed back, and a row is left as it is only with a reason.\<close>

definition accounts :: "bool \<Rightarrow> bool \<Rightarrow> worker_call list \<Rightarrow> parsedMsg list \<Rightarrow> bool" where
  "accounts no_target dlq calls rows \<longleftrightarrow>
     mset (counted (\<lambda>_. True) calls) = mset rows \<and>
     counted (\<lambda>oc. oc = rowsInserted) calls = inserted calls \<and>
     mset (acks calls) = mset (map pm_msg (inserted calls)) + mset (dead_ok calls) \<and>
     naks calls = map pm_msg (counted is_retry calls) \<and>
     mset (map pm_msg (counted (\<lambda>oc. oc = rowsDeadLettered) calls)) \<subseteq># mset (dead_ok calls) \<and>
     mset (dead_ok calls) \<subseteq># mset (map pm_msg (counted (\<lambda>oc. oc = rowsDeadLettered \<or> oc = rowsLeftUnacked) calls)) \<and>
     ack_safe calls \<and> (no_target \<or> dead_justified calls) \<and> left_justified no_target dlq calls"

lemma accounts_append: "accounts nt q a r \<Longrightarrow> accounts nt q b s \<Longrightarrow> accounts nt q (a @ b) (r @ s)"
  by (auto simp: accounts_def intro: subset_mset.add_mono ack_safe_append dead_justified_append left_justified_append)

lemma accounts_perm: "accounts nt q calls r \<Longrightarrow> mset r = mset s \<Longrightarrow> accounts nt q calls s"
  by (simp add: accounts_def)

lemma safe_simps [simp]:
  "ack_safe []" "dead_justified []" "ack_safe [KInsert msgs e]" "dead_justified [KInsert msgs e]"
  "ack_safe [KCount oc msgs]" "dead_justified [KCount oc msgs]" "ack_safe [KStale ns]" "dead_justified [KStale ns]"
  "dead_justified [KAck m ok]" "ack_safe [KDead m ok]" "ack_safe [KNak m d ok]" "dead_justified [KNak m d ok]"
  "left_justified nt q []" "left_justified nt q [KInsert msgs e]" "left_justified nt q [KStale ns]"
  "left_justified nt q [KCount rowsInserted msgs]" "left_justified nt q [KCount (rowsRetried why) msgs]"
  by (auto simp: ack_safe_def dead_justified_def left_justified_def append_eq_Cons_conv Cons_eq_append_conv)

lemma accounts_Nil [simp]: "accounts nt q [] []"
  by (simp add: accounts_def)

lemma accounts_failed: "accounts nt q [KInsert msgs (Some e)] []"
  by (simp add: accounts_def)

section \<open>The account of each operation\<close>

lemma acks_noted:
  "\<exists>oks. length oks = length msgs \<and>
     fold (\<lambda>pm w. snd (double_ack (noted env) (pm_msg pm) w)) msgs (w, l) =
       (fold (\<lambda>pm w. snd (double_ack env (pm_msg pm) w)) msgs w, l @ map2 (\<lambda>pm ok. KAck (pm_msg pm) ok) msgs oks)"
proof (induction msgs arbitrary: w l)
  case (Cons pm msgs)
  obtain ok w1 where a: "double_ack env (pm_msg pm) w = (ok, w1)" by (rule prod.exhaust)
  obtain oks where o: "length oks = length msgs"
    "fold (\<lambda>pm w. snd (double_ack (noted env) (pm_msg pm) w)) msgs (w1, l @ [KAck (pm_msg pm) ok]) =
       (fold (\<lambda>pm w. snd (double_ack env (pm_msg pm) w)) msgs w1, (l @ [KAck (pm_msg pm) ok]) @ map2 (\<lambda>pm ok. KAck (pm_msg pm) ok) msgs oks)"
    using Cons.IH by blast
  then show ?case using a by (intro exI [of _ "ok # oks"]) (simp add: noted_def)
qed simp

lemma ack_calls:
  assumes "length oks = length msgs"
  shows "inserted (map2 (\<lambda>pm ok. KAck (pm_msg pm) ok) msgs oks) = []" "dead_ok (map2 (\<lambda>pm ok. KAck (pm_msg pm) ok) msgs oks) = []"
    "acks (map2 (\<lambda>pm ok. KAck (pm_msg pm) ok) msgs oks) = map pm_msg msgs" "naks (map2 (\<lambda>pm ok. KAck (pm_msg pm) ok) msgs oks) = []"
    "counted P (map2 (\<lambda>pm ok. KAck (pm_msg pm) ok) msgs oks) = []" "dead_justified (map2 (\<lambda>pm ok. KAck (pm_msg pm) ok) msgs oks)"
  using assms by (induction msgs oks rule: list_induct2') (auto simp: dead_justified_def append_eq_Cons_conv Cons_eq_append_conv)

lemma acks_mem: "KAck m ok \<in> set b \<Longrightarrow> m \<in> set (acks b)"
  by (induction b) auto

lemma ack_safe_after:
  assumes "ack_safe a" "set (acks b) \<subseteq> pm_msg ` set (inserted a) \<union> set (dead_ok a)"
  shows "ack_safe (a @ b)"
  unfolding ack_safe_def
proof (intro allI impI)
  fix xs m ok ys
  assume "a @ b = xs @ KAck m ok # ys"
  then consider zs where "a = xs @ KAck m ok # zs" | zs where "xs = a @ zs" "b = zs @ KAck m ok # ys"
    by (auto dest: append_at)
  then show "m \<in> pm_msg ` set (inserted xs) \<or> m \<in> set (dead_ok xs)"
  proof cases
    case 1
    then show ?thesis using assms(1) by (simp add: ack_safe_def)
  next
    case 2
    then have "m \<in> set (acks b)" using acks_mem by simp
    then show ?thesis using assms(2) 2 by auto
  qed
qed

lemma invalidate_noted:
  "\<exists>calls. invalidate (noted env) tid tableName msgs (w, l) = (invalidate env tid tableName msgs w, l @ calls) \<and>
     (calls = [] \<or> (\<exists>ns. calls = [KStale ns]))"
  by (auto simp: invalidate_def Let_def noted_def)

lemma handleSuccess_noted:
  assumes "msgs \<noteq> []"
  shows "\<exists>calls. handleSuccess (noted env) tableName msgs (w, l) = (handleSuccess env tableName msgs w, l @ calls) \<and>
    accounts nt q (KInsert msgs None # calls) msgs"
proof -
  let ?w = "count_rows env rowsInserted msgs w"
  obtain c1 where c1: "invalidate (noted env) (pm_tenant (hd msgs)) tableName msgs (?w, l @ [KCount rowsInserted msgs]) =
      (invalidate env (pm_tenant (hd msgs)) tableName msgs ?w, (l @ [KCount rowsInserted msgs]) @ c1)" "c1 = [] \<or> (\<exists>ns. c1 = [KStale ns])"
    using invalidate_noted [of env "pm_tenant (hd msgs)" tableName msgs ?w "l @ [KCount rowsInserted msgs]"] by metis
  obtain oks where o: "length oks = length msgs"
    "fold (\<lambda>pm w. snd (double_ack (noted env) (pm_msg pm) w)) msgs (invalidate env (pm_tenant (hd msgs)) tableName msgs ?w, (l @ [KCount rowsInserted msgs]) @ c1) =
     (fold (\<lambda>pm w. snd (double_ack env (pm_msg pm) w)) msgs (invalidate env (pm_tenant (hd msgs)) tableName msgs ?w),
      ((l @ [KCount rowsInserted msgs]) @ c1) @ map2 (\<lambda>pm ok. KAck (pm_msg pm) ok) msgs oks)"
    using acks_noted [of msgs env "invalidate env (pm_tenant (hd msgs)) tableName msgs ?w" "(l @ [KCount rowsInserted msgs]) @ c1"] by metis
  let ?b = "map2 (\<lambda>pm ok. KAck (pm_msg pm) ok) msgs oks"
  have h: "handleSuccess (noted env) tableName msgs (w, l) = (handleSuccess env tableName msgs w, l @ KCount rowsInserted msgs # c1 @ ?b)"
    using assms c1(1) o(2) by (simp add: handleSuccess_def noted_def)
  let ?a = "[KInsert msgs None] @ [KCount rowsInserted msgs] @ c1"
  have "ack_safe ?a" "dead_justified ?a" "left_justified nt q ?a"
    using c1(2) by (auto intro!: ack_safe_append dead_justified_append left_justified_append simp del: append.simps)
  then have "ack_safe (?a @ ?b)" "dead_justified (?a @ ?b)" "left_justified nt q (?a @ ?b)"
    using ack_calls [OF o(1)] c1(2) by (auto intro!: ack_safe_after dead_justified_append left_justified_append simp del: append.simps)
  then show ?thesis using h c1(2) ack_calls [OF o(1)]
    by (intro exI [of _ "KCount rowsInserted msgs # c1 @ ?b"]) (auto simp: accounts_def is_retry_def)
qed


text \<open>One row on its way to the dead-letter queue, after its own INSERT was rejected or without a target.\<close>

lemma sendToDLQ_noted:
  "\<exists>calls. sendToDLQ (noted env) tableName pm txt (w, l) = (sendToDLQ env tableName pm txt w, l @ calls) \<and>
     accounts True q calls [pm] \<and> (Classify (Some e) = Rejected \<longrightarrow> accounts nt q (KInsert [pm] (Some e) # calls) [pm])"
proof -
  obtain ok w1 where d: "dead_letter env (pm_msg pm) tableName txt w = (ok, w1)" by (rule prod.exhaust)
  show ?thesis
  proof (cases ok)
    case False
    then show ?thesis using d
      by (intro exI [of _ "[KDead (pm_msg pm) False, KCount rowsLeftUnacked [pm]]"])
        (auto simp: sendToDLQ_def parkOnDLQ_def noted_def accounts_def is_retry_def ack_safe_def dead_justified_def left_justified_def append_eq_Cons_conv Cons_eq_append_conv)
  next
    case True
    obtain ok2 w2 where a: "double_ack env (pm_msg pm) w1 = (ok2, w2)" by (rule prod.exhaust)
    show ?thesis using d a True
      by (intro exI [of _ "[KDead (pm_msg pm) True, KAck (pm_msg pm) ok2, KCount (if ok2 then rowsDeadLettered else rowsLeftUnacked) [pm]]"])
        (auto simp: sendToDLQ_def parkOnDLQ_def noted_def accounts_def is_retry_def ack_safe_def dead_justified_def left_justified_def append_eq_Cons_conv Cons_eq_append_conv)
  qed
qed

lemma dlq_enabled_noted [simp]: "dlq_enabled (noted env) tid tableName (w, l) = dlq_enabled env tid tableName w"
  by (simp add: dlq_enabled_def noted_def split: option.splits)

lemma sendToDLQ_all_noted:
  "\<exists>calls. fold (\<lambda>pm w. sendToDLQ (noted env) tableName pm txt w) msgs (w, l) =
     (fold (\<lambda>pm w. sendToDLQ env tableName pm txt w) msgs w, l @ calls) \<and> accounts True q calls msgs"
proof (induction msgs arbitrary: w l)
  case (Cons pm msgs)
  obtain c1 where c1: "sendToDLQ (noted env) tableName pm txt (w, l) = (sendToDLQ env tableName pm txt w, l @ c1)" "accounts True q c1 [pm]"
    using sendToDLQ_noted by metis
  obtain c2 where c2: "fold (\<lambda>pm w. sendToDLQ (noted env) tableName pm txt w) msgs (sendToDLQ env tableName pm txt w, l @ c1) =
     (fold (\<lambda>pm w. sendToDLQ env tableName pm txt w) msgs (sendToDLQ env tableName pm txt w), (l @ c1) @ c2)" "accounts True q c2 msgs"
    using Cons.IH by metis
  show ?case using c1(1) c2(1) accounts_append [OF c1(2) c2(2)] by (intro exI [of _ "c1 @ c2"]) simp
qed simp

lemma accounts_count: "\<not> is_retry oc \<Longrightarrow> oc \<noteq> rowsInserted \<Longrightarrow> oc \<noteq> rowsDeadLettered \<Longrightarrow> oc \<noteq> rowsLeftUnacked \<or> nt \<and> \<not> q \<Longrightarrow>
    accounts nt q [KCount oc msgs] msgs"
  by (auto simp: accounts_def left_justified_def append_eq_Cons_conv Cons_eq_append_conv)

lemma parkBatch_noted:
  "\<exists>calls. parkBatch (noted env) tableName msgs (w, l) = (parkBatch env tableName msgs w, l @ calls) \<and> accounts True (always_dlq env) calls msgs"
proof (cases "dlq_enabled env (pm_tenant (hd msgs)) tableName w")
  case True
  then show ?thesis using sendToDLQ_all_noted by (simp add: parkBatch_def Let_def)
next
  case False
  then have "\<not> always_dlq env" by (auto simp: always_dlq_def)
  then show ?thesis using False accounts_count [of rowsLeftUnacked True "always_dlq env" msgs]
    by (auto simp: parkBatch_def Let_def is_retry_def) (auto simp: noted_def)
qed

lemma naks_noted:
  "\<exists>oks. length oks = length msgs \<and>
     fold (\<lambda>pm w. snd (nak_delay (noted env) (pm_msg pm) d w)) msgs (w, l) =
       (fold (\<lambda>pm w. snd (nak_delay env (pm_msg pm) d w)) msgs w, l @ map2 (\<lambda>pm ok. KNak (pm_msg pm) d ok) msgs oks)"
proof (induction msgs arbitrary: w l)
  case (Cons pm msgs)
  obtain ok w1 where a: "nak_delay env (pm_msg pm) d w = (ok, w1)" by (rule prod.exhaust)
  obtain oks where o: "length oks = length msgs"
    "fold (\<lambda>pm w. snd (nak_delay (noted env) (pm_msg pm) d w)) msgs (w1, l @ [KNak (pm_msg pm) d ok]) =
       (fold (\<lambda>pm w. snd (nak_delay env (pm_msg pm) d w)) msgs w1, (l @ [KNak (pm_msg pm) d ok]) @ map2 (\<lambda>pm ok. KNak (pm_msg pm) d ok) msgs oks)"
    using Cons.IH by blast
  then show ?case using a by (intro exI [of _ "ok # oks"]) (simp add: noted_def)
qed simp

lemma nak_calls:
  assumes "length oks = length msgs"
  shows "inserted (map2 (\<lambda>pm ok. KNak (pm_msg pm) d ok) msgs oks) = []" "dead_ok (map2 (\<lambda>pm ok. KNak (pm_msg pm) d ok) msgs oks) = []"
    "acks (map2 (\<lambda>pm ok. KNak (pm_msg pm) d ok) msgs oks) = []" "naks (map2 (\<lambda>pm ok. KNak (pm_msg pm) d ok) msgs oks) = map pm_msg msgs"
    "counted P (map2 (\<lambda>pm ok. KNak (pm_msg pm) d ok) msgs oks) = []" "dead_justified (map2 (\<lambda>pm ok. KNak (pm_msg pm) d ok) msgs oks)"
    "ack_safe (map2 (\<lambda>pm ok. KNak (pm_msg pm) d ok) msgs oks)"
  using assms by (induction msgs oks rule: list_induct2') (auto simp: dead_justified_def ack_safe_def append_eq_Cons_conv Cons_eq_append_conv)

lemma retryLater_noted:
  "\<exists>calls. retryLater (noted env) msgs wait reason (w, l) = (retryLater env msgs wait reason w, l @ calls) \<and> accounts nt q calls msgs"
proof -
  obtain oks where o: "length oks = length msgs"
    "fold (\<lambda>pm w. snd (nak_delay (noted env) (pm_msg pm) wait w)) msgs (w, l) =
       (fold (\<lambda>pm w. snd (nak_delay env (pm_msg pm) wait w)) msgs w, l @ map2 (\<lambda>pm ok. KNak (pm_msg pm) wait ok) msgs oks)"
    using naks_noted by metis
  let ?b = "map2 (\<lambda>pm ok. KNak (pm_msg pm) wait ok) msgs oks"
  have c: "count_rows (noted env) oc ms (w, l) = (count_rows env oc ms w, l @ [KCount oc ms])" for oc ms w l by (simp add: noted_def)
  have "accounts nt q (?b @ [KCount (rowsRetried reason) msgs]) msgs"
    using nak_calls [OF o(1)] by (auto simp: accounts_def is_retry_def intro: ack_safe_append dead_justified_append left_justified_append)
  then show ?thesis using o(2) by (auto simp: retryLater_def c)
qed


section \<open>The account of a flush\<close>

lemma insert_noted:
  "\<exists>r w' calls. insertToClickHouse env tableName cols msgs timeout w = (r, w') \<and>
     insertToClickHouse (noted env) tableName cols msgs timeout (w, l) = (r, w', l @ calls) \<and>
     (calls = [KInsert msgs r] \<or> calls = [] \<and> r = Some [NoTarget])"
proof (cases "URL (target_of env (pm_tenant (hd msgs)) w) = []")
  case True
  then show ?thesis by (auto simp: insertToClickHouse_def Let_def noted_def)
next
  case False
  obtain r w' where "post env msgs (insert_of (target_of env (pm_tenant (hd msgs)) w) tableName cols msgs) timeout w = (r, w')" by (rule prod.exhaust)
  then show ?thesis using False by (auto simp: insertToClickHouse_def Let_def noted_def)
qed

definition taken_back :: "parsedMsg list \<Rightarrow> parsedMsg list \<Rightarrow> ch_error option \<Rightarrow> bool \<Rightarrow> bool \<Rightarrow> worker_call list \<Rightarrow> bool" where
  "taken_back msgs rest err nt q calls \<longleftrightarrow>
     (\<exists>done. msgs = done @ rest \<and> accounts nt q calls done) \<and> (err = None \<longrightarrow> rest = []) \<and> (err \<noteq> None \<longrightarrow> Classify err \<noteq> Rejected)"

lemma isolate_noted:
  "\<exists>rest err w' calls. isolate env tableName cols timeout pms w = ((rest, err), w') \<and>
     isolate (noted env) tableName cols timeout pms (w, l) = ((rest, err), w', l @ calls) \<and> taken_back pms rest err nt (always_dlq env) calls"
proof (induction pms arbitrary: w l)
  case Nil
  then show ?case by (simp add: taken_back_def)
next
  case (Cons pm pms)
  have go_on: ?case
    if c: "accounts nt (always_dlq env) c1 [pm]"
      and e: "isolate env tableName cols timeout (pm # pms) w = isolate env tableName cols timeout pms w1"
      and n: "isolate (noted env) tableName cols timeout (pm # pms) (w, l) = isolate (noted env) tableName cols timeout pms (w1, l @ c1)" for c1 w1
  proof -
    obtain rest err w' c2 where r: "isolate env tableName cols timeout pms w1 = ((rest, err), w')"
      "isolate (noted env) tableName cols timeout pms (w1, l @ c1) = ((rest, err), w', (l @ c1) @ c2)" "taken_back pms rest err nt (always_dlq env) c2"
      using Cons.IH [of w1 "l @ c1"] by metis
    then obtain d where "pms = d @ rest" "accounts nt (always_dlq env) c2 d" by (auto simp: taken_back_def)
    then have "taken_back (pm # pms) rest err nt (always_dlq env) (c1 @ c2)"
      using r(3) accounts_append [OF c, of c2 d] by (auto simp: taken_back_def)
    then show ?thesis using e n r(1,2) by (intro exI [of _ rest] exI [of _ err] exI [of _ w'] exI [of _ "c1 @ c2"]) simp
  qed
  obtain r w1 c0 where i: "insertToClickHouse env tableName cols [pm] timeout w = (r, w1)"
    "insertToClickHouse (noted env) tableName cols [pm] timeout (w, l) = (r, w1, l @ c0)"
    "c0 = [KInsert [pm] r] \<or> c0 = [] \<and> r = Some [NoTarget]"
    using insert_noted [of env tableName cols "[pm]" timeout w l] by blast
  show ?case
  proof (cases r)
    case None
    obtain c1 where h: "handleSuccess (noted env) tableName [pm] (w1, l @ c0) = (handleSuccess env tableName [pm] w1, (l @ c0) @ c1)"
      "accounts nt (always_dlq env) (KInsert [pm] None # c1) [pm]" using handleSuccess_noted [of "[pm]" env tableName w1 "l @ c0" nt "always_dlq env"] by auto
    show ?thesis using None i h by (intro go_on [of "c0 @ c1" "handleSuccess env tableName [pm] w1"]) simp_all
  next
    case (Some e)
    show ?thesis
    proof (cases "Classify (Some e) = Rejected")
      case False
      have "accounts nt (always_dlq env) c0 []" using i(3) Some accounts_failed by auto
      then show ?thesis using False Some i by (auto simp: taken_back_def)
    next
      case True
      then have c0: "c0 = [KInsert [pm] (Some e)]" using i(3) Some not_Rejected by auto
      show ?thesis
      proof (cases "dlq_enabled env (pm_tenant pm) tableName w1")
        case on: True
        obtain c1 where s: "sendToDLQ (noted env) tableName pm (error_text env e) (w1, l @ c0) =
            (sendToDLQ env tableName pm (error_text env e) w1, (l @ c0) @ c1)" "accounts nt (always_dlq env) (KInsert [pm] (Some e) # c1) [pm]"
          using sendToDLQ_noted [of env tableName pm "error_text env e" w1 "l @ c0" "always_dlq env" e nt] True by metis
        have t: "error_text (noted env) e = error_text env e" by (simp add: noted_def)
        show ?thesis using on True Some i s t c0
          by (intro go_on [of "c0 @ c1" "sendToDLQ env tableName pm (error_text env e) w1"]) simp_all
      next
        case off: False
        have n: "count_rows (noted env) rowsLeftUnacked [pm] (w1, l @ c0) = (count_rows env rowsLeftUnacked [pm] w1, (l @ c0) @ [KCount rowsLeftUnacked [pm]])"
          by (simp add: noted_def)
        have "\<not> always_dlq env" using off by (auto simp: always_dlq_def)
        then have "accounts nt (always_dlq env) (c0 @ [KCount rowsLeftUnacked [pm]]) [pm]"
          using True unfolding c0 by (auto simp: accounts_def is_retry_def ack_safe_def dead_justified_def left_justified_def
            append_eq_Cons_conv Cons_eq_append_conv)
        then show ?thesis using off True Some i n
          by (intro go_on [of "c0 @ [KCount rowsLeftUnacked [pm]]" "count_rows env rowsLeftUnacked [pm] w1"]) simp_all
      qed
    qed
  qed
qed

lemma flushGroup_noted:
  assumes "grp \<noteq> []"
  shows "\<exists>rest err w' calls. flushGroup env tableName grp timeout w = ((rest, err), w') \<and>
     flushGroup (noted env) tableName grp timeout (w, l) = ((rest, err), w', l @ calls) \<and> taken_back grp rest err nt (always_dlq env) calls"
proof -
  let ?cols = "pm_columns (hd grp)"
  obtain r w1 c0 where i: "insertToClickHouse env tableName ?cols grp timeout w = (r, w1)"
    "insertToClickHouse (noted env) tableName ?cols grp timeout (w, l) = (r, w1, l @ c0)"
    "c0 = [KInsert grp r] \<or> c0 = [] \<and> r = Some [NoTarget]"
    using insert_noted [of env tableName ?cols grp timeout w l] by blast
  show ?thesis
  proof (cases r)
    case None
    obtain c1 where h: "handleSuccess (noted env) tableName grp (w1, l @ c0) = (handleSuccess env tableName grp w1, (l @ c0) @ c1)"
      "accounts nt (always_dlq env) (KInsert grp None # c1) grp" using handleSuccess_noted [OF assms, of env tableName w1 "l @ c0" nt "always_dlq env"] by auto
    then have "taken_back grp [] None nt (always_dlq env) (c0 @ c1)" using i(3) None by (simp add: taken_back_def)
    then show ?thesis using None i h
      by (intro exI [of _ "[]"] exI [of _ None] exI [of _ "handleSuccess env tableName grp w1"] exI [of _ "c0 @ c1"]) (simp add: flushGroup_def Let_def)
  next
    case (Some e)
    have a: "accounts nt (always_dlq env) c0 []" using i(3) Some accounts_failed by auto
    show ?thesis
    proof (cases "Classify (Some e) \<noteq> Rejected \<and> (length grp = 1 \<or> \<not> Splittable e)")
      case True
      then show ?thesis using Some i a by (auto simp: flushGroup_def Let_def taken_back_def)
    next
      case False
      obtain rest err w' c2 where s: "isolate env tableName ?cols timeout grp w1 = ((rest, err), w')"
        "isolate (noted env) tableName ?cols timeout grp (w1, l @ c0) = ((rest, err), w', (l @ c0) @ c2)" "taken_back grp rest err nt (always_dlq env) c2"
        using isolate_noted [of env tableName ?cols timeout grp w1 "l @ c0" nt] by metis
      have "taken_back grp rest err nt (always_dlq env) (c0 @ c2)" using s(3) accounts_append [OF a] by (force simp: taken_back_def)
      then show ?thesis using False Some i s by (auto simp: flushGroup_def Let_def)
    qed
  qed
qed

end
