(* ===== verification/Worker_flush.thy ===== *)
theory Worker_flush
  imports Worker_rows
begin

text \<open>
  The flush of a batch (\<^verbatim>\<open>flushTable\<close> of \<^verbatim>\<open>internal/ingest/worker.go\<close>): the groups of one column list are the batch, and
  the whole of it is accounted for.
\<close>

section \<open>The groups are the batch\<close>

definition one_list :: "parsedMsg list \<Rightarrow> bool" where
  "one_list g \<longleftrightarrow> g \<noteq> [] \<and> (\<forall>x\<in>set g. colSig x = colSig (hd g))"

lemma one_list_snoc [simp]: "one_list [pm]" "one_list g \<Longrightarrow> colSig (hd g) = colSig pm \<Longrightarrow> one_list (g @ [pm])"
  by (simp_all add: one_list_def)

lemma one_list_hd [simp]: "one_list g \<Longrightarrow> hd (g @ h) = hd g"
  by (simp add: one_list_def)

definition good_groups :: "parsedMsg list list \<Rightarrow> bool" where
  "good_groups gs \<longleftrightarrow> list_all one_list gs \<and> distinct (map (\<lambda>g. colSig (hd g)) gs)"

lemma add_to_group_sigs: "good_groups gs \<Longrightarrow>
    set (map (\<lambda>g. colSig (hd g)) (add_to_group pm gs)) = insert (colSig pm) (set (map (\<lambda>g. colSig (hd g)) gs))"
  by (induction gs) (auto simp: good_groups_def)

lemma good_groups_add: "good_groups gs \<Longrightarrow> good_groups (add_to_group pm gs)"
proof (induction gs)
  case Nil
  then show ?case by (simp add: good_groups_def)
next
  case (Cons g gs)
  then have gs: "good_groups gs" by (auto simp: good_groups_def)
  show ?case
  proof (cases "colSig (hd g) = colSig pm")
    case True
    then show ?thesis using Cons.prems by (auto simp: good_groups_def)
  next
    case False
    have "good_groups (add_to_group pm gs)" by (rule Cons.IH [OF gs(1)])
    moreover have "colSig (hd g) \<notin> set (map (\<lambda>g. colSig (hd g)) (add_to_group pm gs))"
      using add_to_group_sigs [OF gs(1), of pm] False Cons.prems by (auto simp: good_groups_def)
    ultimately show ?thesis using False Cons.prems by (auto simp: good_groups_def)
  qed
qed

definition of_columns :: "string \<Rightarrow> parsedMsg list \<Rightarrow> parsedMsg list" where
  "of_columns sg msgs = filter (\<lambda>m. colSig m = sg) msgs"

lemma of_columns_append: "of_columns sg (a @ b) = of_columns sg a @ of_columns sg b"
  by (simp_all add: of_columns_def)

lemma of_columns_one: "of_columns sg (pm # ms) = (if colSig pm = sg then pm # of_columns sg ms else of_columns sg ms)"
  "of_columns sg [] = []"
  by (simp_all add: of_columns_def)

lemma of_columns_add:
  "good_groups gs \<Longrightarrow> of_columns sg (concat (add_to_group pm gs)) = of_columns sg (concat gs @ [pm])"
proof (induction gs)
  case Nil
  then show ?case by (simp add: of_columns_def)
next
  case (Cons g gs)
  then have gs: "good_groups gs" by (auto simp: good_groups_def)
  show ?case
  proof (cases "colSig (hd g) = colSig pm")
    case True
    then have sg: "colSig pm \<notin> (\<lambda>g. colSig (hd g)) ` set gs" using Cons.prems by (simp add: good_groups_def)
    have "\<forall>h\<in>set gs. \<forall>x\<in>set h. colSig x \<noteq> colSig pm"
    proof (intro ballI)
      fix h x
      assume "h \<in> set gs" "x \<in> set h"
      moreover have "one_list h" using gs \<open>h \<in> set gs\<close> by (simp add: good_groups_def list_all_iff)
      ultimately have "colSig x = colSig (hd h)" unfolding one_list_def by blast
      then show "colSig x \<noteq> colSig pm" using sg \<open>h \<in> set gs\<close> by (metis imageI)
    qed
    then have "of_columns (colSig pm) (concat gs) = []" by (auto simp: of_columns_def filter_empty_conv)
    then show ?thesis using True by (cases "sg = colSig pm") (simp_all add: of_columns_append of_columns_one)
  next
    case False
    then show ?thesis using Cons.IH [OF gs(1)] by (simp add: of_columns_append)
  qed
qed

lemma groupByColumns_snoc: "groupByColumns (msgs @ [m]) = add_to_group m (groupByColumns msgs)"
  by (simp add: groupByColumns_def)

lemma good_groups_groupByColumns: "good_groups (groupByColumns msgs)"
  by (induction msgs rule: rev_induct) (simp_all add: groupByColumns_snoc good_groups_add, simp add: groupByColumns_def good_groups_def)

text \<open>Every group has one column list and holds all the rows of it, in the order they arrived.\<close>

lemma groupByColumns_keeps_order: "of_columns sg (concat (groupByColumns msgs)) = of_columns sg msgs"
proof (induction msgs rule: rev_induct)
  case (snoc m msgs)
  then show ?case using of_columns_add [OF good_groups_groupByColumns, of sg m msgs] by (simp add: groupByColumns_snoc of_columns_def)
qed (simp add: groupByColumns_def of_columns_def)

lemma groupByColumns_mset: "mset (concat (groupByColumns msgs)) = mset msgs"
proof (rule multiset_eqI)
  fix x
  have "count (mset (of_columns (colSig x) ys)) x = count (mset ys) x" for ys
    by (simp_all add: of_columns_def)
  then show "count (mset (concat (groupByColumns msgs))) x = count (mset msgs) x"
    using groupByColumns_keeps_order [of "colSig x" msgs] by metis
qed

section \<open>The whole flush\<close>

lemma noted_reads [simp]: "clock (noted env) (w, l) = clock env w" "jitter (noted env) (w, l) = jitter env w"
  "target_of (noted env) tid (w, l) = target_of env tid w"
  by (simp_all add: noted_def)

lemma flush_groups_noted:
  assumes "\<forall>g\<in>set gs. g \<noteq> []"
  shows "\<exists>bs' w' calls. flush_groups env tableName t lims gs (bs, w) = (bs', w') \<and>
    flush_groups (noted env) tableName t lims gs (bs, w, l) = (bs', w', l @ calls) \<and> accounts nt (always_dlq env) calls (concat gs)"
  using assms
proof (induction gs arbitrary: bs w l)
  case Nil
  then show ?case by (simp add: Let_def)
next
  case (Cons g gs)
  obtain rest err w1 c1 where f: "flushGroup env tableName g (InsertTimeout lims) w = ((rest, err), w1)"
    "flushGroup (noted env) tableName g (InsertTimeout lims) (w, l) = ((rest, err), w1, l @ c1)" "taken_back g rest err nt (always_dlq env) c1"
    using flushGroup_noted [of g env tableName "InsertTimeout lims" w l nt] Cons.prems by auto
  obtain d where d: "g = d @ rest" "accounts nt (always_dlq env) c1 d" using f(3) by (auto simp: taken_back_def)
  show ?case
  proof (cases err)
    case None
    then have "rest = []" using f(3) by (simp add: taken_back_def)
    then have a: "accounts nt (always_dlq env) c1 g" using d by simp
    obtain bs' w' c2 where r: "flush_groups env tableName t lims gs (bs, w1) = (bs', w')"
      "flush_groups (noted env) tableName t lims gs (bs, w1, l @ c1) = (bs', w', (l @ c1) @ c2)" "accounts nt (always_dlq env) c2 (concat gs)"
      using Cons.IH [of bs w1 "l @ c1"] Cons.prems by auto
    show ?thesis using None f r accounts_append [OF a r(3)] by (intro exI [of _ bs'] exI [of _ w'] exI [of _ "c1 @ c2"]) simp
  next
    case (Some e)
    let ?pool = "keyOf (target.truncate t) ''''" and ?table = "keyOf (target.truncate t) tableName"
    let ?bs = "if TableScoped e then snd (set_succeed (clock env w1) ?pool bs) else backoff_put ?table (backoff_release (backoff_get ?table bs)) bs"
    let ?fail = "set_fail (jitter env w1) (clock env w1) (RetryBackoffMax lims) (if TableScoped e then ?table else ?pool) ?bs"
    let ?wait = "fst (fst ?fail)" and ?ms = "rest @ concat gs" and ?why = "class_name (Classify (Some e))"
    have step: "flush_groups env' tableName t lims (g # gs) (bs, v) = (snd ?fail, retryLater env' ?ms ?wait ?why v1)"
      if "flushGroup env' tableName g (InsertTimeout lims) v = ((rest, Some e), v1)" "clock env' v1 = clock env w1" "jitter env' v1 = jitter env w1"
      for env' :: "'x worker_env" and v v1
      using that by (simp add: Let_def split: prod.split)
    obtain c2 where r: "retryLater (noted env) ?ms ?wait ?why (w1, l @ c1) = (retryLater env ?ms ?wait ?why w1, (l @ c1) @ c2)"
      "accounts nt (always_dlq env) c2 ?ms"
      using retryLater_noted by metis
    have "accounts nt (always_dlq env) (c1 @ c2) (concat (g # gs))" using accounts_append [OF d(2) r(2)] d(1) by simp
    moreover have "flush_groups env tableName t lims (g # gs) (bs, w) = (snd ?fail, retryLater env ?ms ?wait ?why w1)"
      using f(1) Some by (intro step) simp_all
    moreover have "flush_groups (noted env) tableName t lims (g # gs) (bs, w, l) = (snd ?fail, retryLater (noted env) ?ms ?wait ?why (w1, l @ c1))"
      using f(2) Some by (intro step) simp_all
    ultimately show ?thesis using r(1) by (metis append_assoc)
  qed
qed

lemma flushTable_noted:
  "\<exists>bs' w' calls. flushTable env ackWait tableName msgs lim_ok (bs, w) = (bs', w') \<and>
     flushTable (noted env) ackWait tableName msgs lim_ok (bs, w, l) = (bs', w', l @ calls) \<and>
     accounts (URL (target_of env (pm_tenant (hd msgs)) w) = []) (always_dlq env) calls msgs"
proof -
  let ?t = "target_of env (pm_tenant (hd msgs)) w"
  let ?G = "\<lambda>calls. accounts (URL ?t = []) (always_dlq env) calls msgs"
  have retry: "\<exists>calls. retryLater (noted env) msgs wait reason (w, l) = (retryLater env msgs wait reason w, l @ calls) \<and> ?G calls" for wait reason
    by (rule retryLater_noted)
  consider "msgs = []" | "msgs \<noteq> []" "URL ?t = []" | "msgs \<noteq> []" "URL ?t \<noteq> []" "lim_ok = None" | lims where "msgs \<noteq> []" "URL ?t \<noteq> []" "lim_ok = Some lims"
    by (cases lim_ok) auto
  then show ?thesis
  proof cases
    case 1
    then show ?thesis by (simp add: flushTable_def)
  next
    case 2
    then show ?thesis using parkBatch_noted [of env tableName msgs w l] by (simp add: flushTable_def Let_def)
  next
    case 3
    then show ?thesis using retry by (simp add: flushTable_def Let_def)
  next
    case 4
    let ?pool = "keyOf (target.truncate ?t) ''''" and ?table = "keyOf (target.truncate ?t) tableName"
    obtain wait ok b where b: "backoff_allow (jitter env w) (clock env w) (RetryBackoffMax lims) (backoff_get ?table bs) = ((wait, ok), b)"
      by (metis surj_pair)
    let ?bs = "backoff_put ?table b bs"
    obtain wait2 ok2 b2 where b2: "backoff_allow (jitter env w) (clock env w) (RetryBackoffMax lims) (backoff_get ?pool ?bs) = ((wait2, ok2), b2)"
      by (metis surj_pair)
    let ?bs2 = "backoff_put ?pool b2 ?bs"
    have ne: "\<forall>g\<in>set (groupByColumns msgs). g \<noteq> []"
      using good_groups_groupByColumns [of msgs] unfolding good_groups_def list_all_iff one_list_def by blast
    obtain bs' w' calls where f: "flush_groups env tableName ?t lims (groupByColumns msgs) (?bs2, w) = (bs', w')"
      "flush_groups (noted env) tableName ?t lims (groupByColumns msgs) (?bs2, w, l) = (bs', w', l @ calls)"
      "accounts (URL ?t = []) (always_dlq env) calls (concat (groupByColumns msgs))"
      using flush_groups_noted [OF ne] by metis
    have "?G calls" using f(3) groupByColumns_mset by (rule accounts_perm)
    then show ?thesis using 4 b b2 f(1,2) retry
      by (cases ok; cases ok2) (simp_all add: flushTable_def Let_def del: flush_groups.simps)
  qed
qed



definition some_row :: "nat \<Rightarrow> string list \<Rightarrow> parsedMsg" where
  "some_row i cols =
     \<lparr>pm_msg = i, pm_tenant = ''acme'', pm_table = ''logs'', pm_scope = '''', pm_columns = cols, colSig = columnSignature cols, pm_row = ''[1]''\<rparr>"

text \<open>A ClickHouse that refuses the value of row 2 and is out of reach once the state counts four requests.\<close>

definition refusing_env :: "nat worker_env" where
  "refusing_env =
     \<lparr>target_of = (\<lambda>_ _. \<lparr>URL = ''http://ch'', Username = ''u'', Database = ''d'', Password = ''p'', ch_Headers = []\<rparr>),
      limits_of = (\<lambda>_ _. None), dlq_on = None, clock = (\<lambda>_. 1000), jitter = (\<lambda>_ _. 0),
      post = (\<lambda>msgs rq t w. (if w \<ge> 4 then Some [ECONNREFUSED]
                else if 2 \<in> set (map pm_msg msgs) then Some [Exception 27] else None, w + 1)),
      dead_letter = (\<lambda>_ _ _ w. (True, w)), double_ack = (\<lambda>_ w. (True, w)), nak_delay = (\<lambda>_ _ w. (True, w)),
      invalidate_in = (\<lambda>_ w. w), count_rows = (\<lambda>_ _ w. w), count_poison = (\<lambda>_ _ _ w. w), error_text = (\<lambda>_. ''refused'')\<rparr>"

definition some_limits :: Limits where
  "some_limits = \<lparr>MaxBatchBytes = 100, MaxBatchWait = 5, InsertTimeout = 30, RetryBackoffMax = 60000000000\<rparr>"

definition mixed_batch :: "parsedMsg list" where
  "mixed_batch = [some_row 1 [''a''], some_row 2 [''a''], some_row 4 [''b''], some_row 3 [''a'']]"

definition mixed_run :: "backoffs \<times> nat \<times> worker_call list" where
  "mixed_run = flushTable (noted refusing_env) 30000000000 ''logs'' mixed_batch (Some some_limits)
     (\<lparr>by_key = Map.empty, open_count = 0\<rparr>, 0, [])"

lemma mixed_run_calls:
  "map pm_msg (inserted (snd (snd mixed_run))) = [1, 3]" "dead_ok (snd (snd mixed_run)) = [2]" "acks (snd (snd mixed_run)) = [1, 2, 3]"
  "naks (snd (snd mixed_run)) = [4]"
  by code_simp+


section \<open>Backoffs and cached results\<close>

text \<open>While the table's backoff is open, or its pool's, nothing is sent to ClickHouse: the whole batch is handed back.\<close>

theorem flushTable_backing_off:
  assumes "msgs \<noteq> []" "URL (target_of env (pm_tenant (hd msgs)) w) \<noteq> []"
    and "snd (fst (backoff_allow (jitter env w) (clock env w) (RetryBackoffMax lims)
      (backoff_get (keyOf (target.truncate (target_of env (pm_tenant (hd msgs)) w)) tableName) bs))) = False"
  shows "\<exists>wait bs'. flushTable env ackWait tableName msgs (Some lims) (bs, w) = (bs', retryLater env msgs wait ''backoff'' w)"
  using assms by (auto simp: flushTable_def Let_def split: prod.splits)

text \<open>An insert makes stale the cached results of every scope its rows carry, or the table's whole when one has none.\<close>

lemma scope_namespaces_cover_aux:
  assumes "\<forall>s\<in>set seen. \<exists>ns\<in>set acc. Namespace.Scope ns = s" "\<forall>ns\<in>set acc. Namespace.Tenant ns = tid \<and> Namespace.Table ns = tableName"
  shows "(\<forall>ns\<in>set (scope_namespaces tid tableName seen acc msgs). Namespace.Tenant ns = tid \<and> Namespace.Table ns = tableName) \<and>
    ((\<exists>ns. scope_namespaces tid tableName seen acc msgs = [ns] \<and> Namespace.Scope ns = []) \<or>
     (set acc \<subseteq> set (scope_namespaces tid tableName seen acc msgs) \<and>
      (\<forall>m\<in>set msgs. \<exists>ns\<in>set (scope_namespaces tid tableName seen acc msgs). Namespace.Scope ns = pm_scope m)))"
  using assms
proof (induction tid tableName seen acc msgs rule: scope_namespaces.induct)
  case (2 tid tableName seen acc pm pms)
  consider "pm_scope pm = []" | "pm_scope pm \<noteq> []" "pm_scope pm \<in> set seen" | "pm_scope pm \<noteq> []" "pm_scope pm \<notin> set seen" by blast
  then show ?case
  proof cases
    case 2
    with 2 "2.IH"(1) "2.prems" show ?thesis by (auto; blast)
  next
    case 3
    with 3 "2.IH"(2) "2.prems" show ?thesis by (auto intro: rev_bexI)
  qed simp
qed simp

lemma scope_namespaces_cover:
  assumes "m \<in> set msgs"
  shows "\<exists>ns\<in>set (scope_namespaces tid tableName [] [] msgs). Namespace.Tenant ns = tid \<and> Namespace.Table ns = tableName \<and>
    (Namespace.Scope ns = [] \<or> Namespace.Scope ns = pm_scope m)"
  using scope_namespaces_cover_aux [of "[]" "[]" tid tableName msgs] assms by fastforce

end
