(* ===== verification/Batcher.thy ===== *)
theory Batcher
  imports Worker_flush
begin

text \<open>
  The loop of one tenant table (\<^verbatim>\<open>tableBatcher\<close> and \<^verbatim>\<open>tableLoop\<close> of \<^verbatim>\<open>internal/ingest/worker.go\<close>): rows gather into a batch
  that its size, its timer or the shutdown flushes, one flush at a time, in a goroutine of its own. The loop is a step
  function on the events its select receives; the flush goroutine's run and whatever other tables do to the shared
  state between two of them are events too. Then the dispatch of deliveries to the loops.
\<close>

section \<open>The batcher\<close>

record flush_job =
  fj_rows :: "parsedMsg list"
  fj_limits :: Limits
  fj_ok :: bool
  fj_trigger :: string
  fj_waited :: bool

text \<open>\<open>bt_flushing\<close> is the flush in flight and whether its goroutine has closed the channel; \<open>bt_timer\<close> the deadline
  armed.\<close>

record tableBatcher =
  bt_batch :: "parsedMsg list"
  bt_bytes :: int
  bt_limits :: Limits
  bt_ok :: bool
  bt_timer :: "int option"
  bt_flushing :: "(flush_job \<times> bool) option"
  bt_queued :: string

definition zero_limits :: Limits where
  "zero_limits = \<lparr>MaxBatchBytes = 0, MaxBatchWait = 0, InsertTimeout = 0, RetryBackoffMax = 0\<rparr>"

definition newTableBatcher :: tableBatcher where
  "newTableBatcher = \<lparr>bt_batch = [], bt_bytes = 0, bt_limits = zero_limits, bt_ok = False, bt_timer = None, bt_flushing = None, bt_queued = []\<rparr>"

definition requestFlush :: "string \<Rightarrow> bool \<Rightarrow> tableBatcher \<Rightarrow> tableBatcher" where
  "requestFlush trigger waited b =
     (if bt_batch b = [] then b
      else if bt_flushing b \<noteq> None then (if bt_queued b = [] then b\<lparr>bt_queued := trigger\<rparr> else b)
      else b\<lparr>bt_batch := [], bt_bytes := 0, bt_queued := [], bt_timer := None,
             bt_flushing := Some (\<lparr>fj_rows = bt_batch b, fj_limits = bt_limits b, fj_ok = bt_ok b, fj_trigger = trigger, fj_waited = waited\<rparr>, False)\<rparr>)"

definition batcher_append :: "parsedMsg \<Rightarrow> tableBatcher \<Rightarrow> tableBatcher" where
  "batcher_append pm b =
     (let b = b\<lparr>bt_batch := bt_batch b @ [pm], bt_bytes := bt_bytes b + int (length (pm_row pm))\<rparr> in
      if bt_bytes b \<ge> MaxBatchBytes (bt_limits b) then requestFlush (if bt_ok b then ''size'' else ''none'') False b else b)"

definition batcher_add ::
  "'w worker_env \<Rightarrow> int \<Rightarrow> string \<Rightarrow> parsedMsg \<Rightarrow> tableBatcher \<times> backoffs \<times> 'w \<Rightarrow> tableBatcher \<times> backoffs \<times> 'w" where
  "batcher_add env ackWait table pm s =
     (case s of (b, bs, w) \<Rightarrow>
       (let t = target_of env (pm_tenant pm) w;
            lim = limits_of env (pm_tenant pm) w;
            cap = RetryBackoffMax (if bt_batch b \<noteq> [] then bt_limits b else case lim of Some l \<Rightarrow> l | None \<Rightarrow> zero_limits) in
        case set_waiting (jitter env w) (target.truncate t) table (clock env w) cap bs of
          ((wait, True), bs) \<Rightarrow> (b, bs, retryLater env [pm] wait ''backoff'' w)
        | ((wait, False), bs) \<Rightarrow>
            (if bt_batch b \<noteq> [] then (batcher_append pm b, bs, w)
             else case lim of
               None \<Rightarrow>
                 (if URL t \<noteq> [] then (b, bs, retryLater env [pm] ackWait ''unconfigured'' w)
                  else (batcher_append pm (b\<lparr>bt_limits := zero_limits, bt_ok := False\<rparr>), bs, w))
             | Some l \<Rightarrow>
                 (batcher_append pm (b\<lparr>bt_limits := l, bt_ok := True, bt_timer := Some (clock env w + MaxBatchWait l)\<rparr>), bs, w))))"

definition onFlushDone :: "tableBatcher \<Rightarrow> tableBatcher" where
  "onFlushDone b =
     (let b = b\<lparr>bt_flushing := None\<rparr> in if bt_queued b \<noteq> [] then requestFlush (bt_queued b) True b else b)"

definition run_job :: "'w worker_env \<Rightarrow> int \<Rightarrow> string \<Rightarrow> flush_job \<Rightarrow> backoffs \<times> 'w \<Rightarrow> backoffs \<times> 'w" where
  "run_job env ackWait table j s = flushTable env ackWait table (fj_rows j) (if fj_ok j then Some (fj_limits j) else None) s"

text \<open>The shutdown: the flush in flight is waited for, then the remainder is flushed.\<close>

definition drain_job :: "tableBatcher \<Rightarrow> flush_job" where
  "drain_job b = \<lparr>fj_rows = bt_batch b, fj_limits = bt_limits b, fj_ok = bt_ok b,
     fj_trigger = (if bt_queued b \<noteq> [] then bt_queued b else ''shutdown''), fj_waited = (bt_flushing b \<noteq> None)\<rparr>"

definition drainAndExit :: "'w worker_env \<Rightarrow> int \<Rightarrow> string \<Rightarrow> tableBatcher \<Rightarrow> backoffs \<times> 'w \<Rightarrow> backoffs \<times> 'w" where
  "drainAndExit env ackWait table b s =
     (let s = (case bt_flushing b of Some (j, False) \<Rightarrow> run_job env ackWait table j s | _ \<Rightarrow> s) in
      if bt_batch b \<noteq> [] then run_job env ackWait table (drain_job b) s else s)"

section \<open>The loop\<close>

text \<open>\<open>BFlush\<close> is the flush goroutine running to its end, \<open>BElsewhere\<close> another table's work on the backoffs and the world.\<close>

datatype 'w loop_event =
    BRow parsedMsg
  | BTimer
  | BFlush
  | BDone
  | BClose
  | BElsewhere backoffs "'w \<Rightarrow> 'w"

text \<open>\<open>lp_jobs\<close> records the flushes started, for the statements only.\<close>

record 'w loop_state =
  lp_b :: tableBatcher
  lp_s :: "backoffs \<times> 'w"
  lp_jobs :: "flush_job list"
  lp_exited :: bool

definition started :: "tableBatcher \<Rightarrow> tableBatcher \<Rightarrow> flush_job list" where
  "started b b' = (case (bt_flushing b, bt_flushing b') of (None, Some (j, _)) \<Rightarrow> [j] | _ \<Rightarrow> [])"

definition lp_put :: "tableBatcher \<Rightarrow> 'w loop_state \<Rightarrow> 'w loop_state" where
  "lp_put b s = s\<lparr>lp_b := b, lp_jobs := lp_jobs s @ started (lp_b s) b\<rparr>"

fun tableLoop :: "'w worker_env \<Rightarrow> int \<Rightarrow> string \<Rightarrow> 'w loop_event \<Rightarrow> 'w loop_state \<Rightarrow> 'w loop_state option" where
  "tableLoop env ackWait table (BRow pm) s =
     (if lp_exited s then None
      else case batcher_add env ackWait table pm (lp_b s, lp_s s) of (b, sh) \<Rightarrow> Some ((lp_put b s)\<lparr>lp_s := sh\<rparr>))"
| "tableLoop env ackWait table BTimer s =
     (if lp_exited s \<or> bt_timer (lp_b s) = None then None
      else Some (lp_put (requestFlush ''timer'' False ((lp_b s)\<lparr>bt_timer := None\<rparr>)) s))"
| "tableLoop env ackWait table BFlush s =
     (if lp_exited s then None
      else case bt_flushing (lp_b s) of
        Some (j, False) \<Rightarrow>
          Some (s\<lparr>lp_b := (lp_b s)\<lparr>bt_flushing := Some (j, True)\<rparr>, lp_s := run_job env ackWait table j (lp_s s)\<rparr>)
      | _ \<Rightarrow> None)"
| "tableLoop env ackWait table BDone s =
     (if lp_exited s then None
      else case bt_flushing (lp_b s) of
        Some (j, True) \<Rightarrow> Some (lp_put (onFlushDone (lp_b s)) (s\<lparr>lp_b := (lp_b s)\<lparr>bt_flushing := None\<rparr>\<rparr>))
      | _ \<Rightarrow> None)"
| "tableLoop env ackWait table BClose s =
     (if lp_exited s then None
      else Some (s\<lparr>lp_s := drainAndExit env ackWait table (lp_b s) (lp_s s),
                   lp_jobs := lp_jobs s @ (if bt_batch (lp_b s) \<noteq> [] then [drain_job (lp_b s)] else []), lp_exited := True\<rparr>))"
| "tableLoop env ackWait table (BElsewhere bs f) s = Some (s\<lparr>lp_s := (bs, f (snd (lp_s s)))\<rparr>)"

fun loop_run :: "'w worker_env \<Rightarrow> int \<Rightarrow> string \<Rightarrow> 'w loop_event list \<Rightarrow> 'w loop_state \<Rightarrow> 'w loop_state option" where
  "loop_run env ackWait table [] s = Some s"
| "loop_run env ackWait table (e # es) s =
     (case tableLoop env ackWait table e s of None \<Rightarrow> None | Some s \<Rightarrow> loop_run env ackWait table es s)"

definition loop_start :: "backoffs \<times> 'w \<Rightarrow> 'w loop_state" where
  "loop_start s = \<lparr>lp_b = newTableBatcher, lp_s = s, lp_jobs = [], lp_exited = False\<rparr>"

fun arrivals :: "'w loop_event list \<Rightarrow> parsedMsg list" where
  "arrivals [] = []"
| "arrivals (e # es) = (case e of BRow pm \<Rightarrow> pm # arrivals es | _ \<Rightarrow> arrivals es)"

lemma arrivals_append [simp]: "arrivals (a @ b) = arrivals a @ arrivals b"
  by (induction a) (auto split: loop_event.splits)

section \<open>A waiting row always has a flush coming\<close>

definition batcher_due :: "tableBatcher \<Rightarrow> bool" where
  "batcher_due b \<longleftrightarrow>
     (bt_batch b \<noteq> [] \<longrightarrow> bt_timer b \<noteq> None \<or> bt_queued b \<noteq> []) \<and>
     (bt_batch b \<noteq> [] \<and> MaxBatchBytes (bt_limits b) \<le> bt_bytes b \<longrightarrow> bt_queued b \<noteq> []) \<and>
     (bt_queued b \<noteq> [] \<longrightarrow> bt_flushing b \<noteq> None \<and> bt_batch b \<noteq> []) \<and>
     (bt_timer b \<noteq> None \<longrightarrow> bt_batch b \<noteq> []) \<and>
     bt_bytes b = (\<Sum>pm\<leftarrow>bt_batch b. int (length (pm_row pm)))"

lemma due_requestFlush:
  "batcher_due b \<Longrightarrow> trigger \<noteq> [] \<Longrightarrow> batcher_due (requestFlush trigger waited b)"
  by (auto simp: batcher_due_def requestFlush_def)

lemma due_requestFlush_timer:
  "batcher_due b \<Longrightarrow> trigger \<noteq> [] \<Longrightarrow> batcher_due (requestFlush trigger waited (b\<lparr>bt_timer := None\<rparr>))"
  by (auto simp: batcher_due_def requestFlush_def)

lemma due_onFlushDone: "batcher_due b \<Longrightarrow> batcher_due (onFlushDone b)"
  by (auto simp: batcher_due_def requestFlush_def onFlushDone_def Let_def)

lemma due_append:
  assumes "batcher_due b" "bt_batch b = [] \<longrightarrow> bt_timer b' \<noteq> None \<or> MaxBatchBytes (bt_limits b') = 0"
    "bt_batch b' = bt_batch b" "bt_bytes b' = bt_bytes b" "bt_queued b' = bt_queued b" "bt_flushing b' = bt_flushing b"
    "bt_batch b \<noteq> [] \<longrightarrow> b' = b"
  shows "batcher_due (batcher_append pm b')"
  using assms by (auto simp: batcher_due_def batcher_append_def requestFlush_def Let_def)

lemma due_add: "batcher_due b \<Longrightarrow> batcher_due (fst (batcher_add env ackWait table pm (b, sh)))"
  by (cases sh) (auto simp: batcher_add_def Let_def zero_limits_def split: prod.splits bool.splits option.splits intro: due_append [of b])

lemma due_ran: "batcher_due b \<Longrightarrow> bt_flushing b = Some x \<Longrightarrow> batcher_due (b\<lparr>bt_flushing := Some y\<rparr>)"
  by (auto simp: batcher_due_def)

lemma due_step: "tableLoop env ackWait table e s = Some s' \<Longrightarrow> batcher_due (lp_b s) \<Longrightarrow> batcher_due (lp_b s')"
proof (cases e)
  case (BRow pm)
  assume "tableLoop env ackWait table e s = Some s'" "batcher_due (lp_b s)"
  then show ?thesis using BRow due_add [of "lp_b s" env ackWait table pm "lp_s s"]
    by (auto simp: lp_put_def split: if_splits prod.splits)
qed (auto simp: lp_put_def due_requestFlush_timer due_onFlushDone due_ran split: if_splits option.splits bool.splits prod.splits)


section \<open>Flushes take the rows in the order they arrived\<close>

definition in_line :: "flush_job list \<Rightarrow> tableBatcher \<Rightarrow> parsedMsg list" where
  "in_line jobs b = concat (map fj_rows jobs) @ bt_batch b"

lemma in_line_requestFlush: "bt_flushing c = bt_flushing b \<Longrightarrow> bt_batch c = bt_batch b \<Longrightarrow>
    in_line (jobs @ started b (requestFlush trigger waited c)) (requestFlush trigger waited c) = in_line jobs b"
  by (auto simp: in_line_def started_def requestFlush_def split: option.splits)

lemma in_line_append: "bt_flushing c = bt_flushing b \<Longrightarrow> bt_batch c = bt_batch b \<Longrightarrow>
    in_line (jobs @ started b (batcher_append pm c)) (batcher_append pm c) = in_line jobs b @ [pm]"
  by (auto simp: in_line_def started_def batcher_append_def requestFlush_def Let_def split: option.splits)

lemma in_line_same: "in_line (jobs @ started b b) b = in_line jobs b"
  by (simp add: started_def split: option.splits)

lemma in_line_add:
  "in_line (jobs @ started b (fst (batcher_add env ackWait table pm (b, sh)))) (fst (batcher_add env ackWait table pm (b, sh)))
     \<in> {in_line jobs b, in_line jobs b @ [pm]}"
  by (cases sh) (auto simp: batcher_add_def Let_def in_line_same in_line_append split: prod.splits bool.splits option.splits)

lemma in_line_onFlushDone:
  "in_line (jobs @ started (b\<lparr>bt_flushing := None\<rparr>) (onFlushDone b)) (onFlushDone b) = in_line jobs b"
  using in_line_requestFlush [of "b\<lparr>bt_flushing := None\<rparr>" "b\<lparr>bt_flushing := None\<rparr>" jobs "bt_queued b" True]
  by (simp add: onFlushDone_def Let_def in_line_same) (simp add: in_line_def)

definition taken :: "'w loop_state \<Rightarrow> parsedMsg list" where
  "taken s = (if lp_exited s then concat (map fj_rows (lp_jobs s)) else in_line (lp_jobs s) (lp_b s))"

lemma taken_step:
  assumes "tableLoop env ackWait table e s = Some s'" "subseq (taken s) r"
  shows "subseq (taken s') (r @ arrivals [e])"
proof (cases e)
  case (BRow pm)
  then have "taken s' \<in> {taken s, taken s @ [pm]}"
    using assms(1) in_line_add [of "lp_jobs s" "lp_b s" env ackWait table pm "lp_s s"]
    by (auto simp: taken_def lp_put_def split: if_splits prod.splits)
  then show ?thesis using assms(2) BRow by (auto intro: list_emb_prefix list_emb_append_mono)
next
  case BTimer
  then show ?thesis using assms by (auto simp: taken_def lp_put_def in_line_requestFlush split: if_splits)
next
  case BDone
  then show ?thesis using assms in_line_onFlushDone [of "lp_jobs s" "lp_b s"]
    by (auto simp: taken_def lp_put_def split: if_splits option.splits bool.splits prod.splits)
qed (use assms in \<open>auto simp: taken_def in_line_def drain_job_def split: if_splits option.splits bool.splits prod.splits\<close>)

lemma loop_run_induct:
  assumes "loop_run env ackWait table evs s = Some s'" "P [] s"
    and "\<And>e es s s'. tableLoop env ackWait table e s = Some s' \<Longrightarrow> e \<in> set evs \<Longrightarrow> P es s \<Longrightarrow> P (es @ [e]) s'"
  shows "P evs s'"
proof -
  have "loop_run env ackWait table es s = Some s' \<Longrightarrow> set es \<subseteq> set evs \<Longrightarrow> P pre s \<Longrightarrow> P (pre @ es) s'" for es pre s
  proof (induction es arbitrary: pre s)
    case (Cons e es)
    obtain s1 where "tableLoop env ackWait table e s = Some s1" "loop_run env ackWait table es s1 = Some s'"
      using Cons.prems(1) by (auto split: option.splits)
    then show ?case using Cons.IH [of s1 "pre @ [e]"] Cons.prems assms(3) by auto
  qed simp
  from this [of evs s "[]"] show ?thesis using assms(1,2) by simp
qed

section \<open>Every row is settled\<close>

definition unsettled_b :: "tableBatcher \<Rightarrow> parsedMsg list" where
  "unsettled_b b = (case bt_flushing b of Some (j, False) \<Rightarrow> fj_rows j | _ \<Rightarrow> []) @ bt_batch b"

definition unsettled_of :: "'w loop_state \<Rightarrow> parsedMsg list" where
  "unsettled_of s = (if lp_exited s then [] else unsettled_b (lp_b s))"

definition settled_inv :: "'e worker_env \<Rightarrow> ('w \<times> worker_call list) loop_state \<Rightarrow> parsedMsg list \<Rightarrow> bool" where
  "settled_inv env s r \<longleftrightarrow> (\<exists>done. accounts True (always_dlq env) (snd (snd (lp_s s))) done \<and> mset done + mset (unsettled_of s) = mset r)"

lemma accounts_any_target: "accounts nt q calls r \<Longrightarrow> accounts True q calls r"
  unfolding accounts_def left_justified_def by blast

lemma run_job_noted:
  "\<exists>bs' w' calls. run_job (noted env) ackWait table j (bs, w, l) = (bs', w', l @ calls) \<and> accounts True (always_dlq env) calls (fj_rows j)"
  using flushTable_noted [of env ackWait table "fj_rows j" "if fj_ok j then Some (fj_limits j) else None" bs w l] accounts_any_target
  by (fastforce simp: run_job_def)

lemma unsettled_requestFlush: "mset (unsettled_b (requestFlush trigger waited b)) = mset (unsettled_b b)"
  by (auto simp: unsettled_b_def requestFlush_def split: option.splits prod.splits bool.splits)

lemma unsettled_append: "bt_flushing c = bt_flushing b \<Longrightarrow> bt_batch c = bt_batch b \<Longrightarrow>
    mset (unsettled_b (batcher_append pm c)) = mset (unsettled_b b) + {#pm#}"
  by (auto simp: batcher_append_def unsettled_requestFlush Let_def) (auto simp: unsettled_b_def)

lemma add_noted:
  "\<exists>b' bs' w' calls done. batcher_add (noted env) ackWait table pm (b, bs, w, l) = (b', bs', w', l @ calls) \<and>
     accounts True (always_dlq env) calls done \<and> mset done + mset (unsettled_b b') = mset (unsettled_b b) + {#pm#}"
proof -
  let ?t = "target_of env (pm_tenant pm) w" and ?lim = "limits_of env (pm_tenant pm) w"
  let ?cap = "RetryBackoffMax (if bt_batch b \<noteq> [] then bt_limits b else case ?lim of Some l \<Rightarrow> l | None \<Rightarrow> zero_limits)"
  have lim: "limits_of (noted env) (pm_tenant pm) (w, l) = ?lim" by (simp add: noted_def)
  obtain wait ok bs' where s: "set_waiting (jitter env w) (target.truncate ?t) table (clock env w) ?cap bs = ((wait, ok), bs')" by (metis surj_pair)
  have retry: "\<exists>calls. retryLater (noted env) [pm] d reason (w, l) = (retryLater env [pm] d reason w, l @ calls) \<and> accounts True (always_dlq env) calls [pm]" for d reason
    by (rule retryLater_noted)
  have kept: ?thesis if "batcher_add (noted env) ackWait table pm (b, bs, w, l) = (batcher_append pm c, bs', w, l)"
    "bt_flushing c = bt_flushing b" "bt_batch c = bt_batch b" for c
    using that unsettled_append [OF that(2,3), of pm] by (intro exI [of _ "batcher_append pm c"] exI [of _ bs'] exI [of _ w] exI [of _ "[]"]) simp
  have again: ?thesis if "batcher_add (noted env) ackWait table pm (b, bs, w, l) = (b, bs', retryLater (noted env) [pm] d reason (w, l))" for d reason
  proof -
    obtain calls where "retryLater (noted env) [pm] d reason (w, l) = (retryLater env [pm] d reason w, l @ calls)" "accounts True (always_dlq env) calls [pm]"
      using retry by metis
    then show ?thesis using that
      by (intro exI [of _ b] exI [of _ bs'] exI [of _ "retryLater env [pm] d reason w"] exI [of _ calls] exI [of _ "[pm]"]) simp
  qed
  consider "ok" | "\<not> ok" "bt_batch b \<noteq> []" | "\<not> ok" "bt_batch b = []" by blast
  then show ?thesis
  proof cases
    case 1
    then show ?thesis using s lim by (intro again [of wait "''backoff''"]) (cases "bt_batch b = []"; simp add: batcher_add_def Let_def)
  next
    case 2
    then show ?thesis using s lim by (intro kept [of b]) (simp_all add: batcher_add_def Let_def)
  next
    case 3
    show ?thesis
    proof (cases ?lim)
      case None
      show ?thesis
      proof (cases "URL ?t = []")
        case True
        then show ?thesis using s lim 3 None by (intro kept [of "b\<lparr>bt_limits := zero_limits, bt_ok := False\<rparr>"]) (simp_all add: batcher_add_def Let_def)
      next
        case False
        then show ?thesis using s lim 3 None by (intro again [of ackWait "''unconfigured''"]) (simp add: batcher_add_def Let_def)
      qed
    next
      case (Some x)
      then show ?thesis using s lim 3
        by (intro kept [of "b\<lparr>bt_limits := x, bt_ok := True, bt_timer := Some (clock env w + MaxBatchWait x)\<rparr>"]) (simp_all add: batcher_add_def Let_def)
    qed
  qed
qed


definition keeps_log :: "('w \<times> worker_call list) loop_event list \<Rightarrow> bool" where
  "keeps_log evs \<longleftrightarrow> (\<forall>bs f. BElsewhere bs f \<in> set evs \<longrightarrow> (\<forall>x. snd (f x) = snd x))"

lemma settled_more:
  assumes "settled_inv env s r" "snd (snd (lp_s s')) = snd (snd (lp_s s)) @ calls" "accounts True (always_dlq env) calls xs"
    and "mset xs + mset (unsettled_of s') = mset (unsettled_of s) + mset ys"
  shows "settled_inv env s' (r @ ys)"
proof -
  obtain d where d: "accounts True (always_dlq env) (snd (snd (lp_s s))) d" "mset d + mset (unsettled_of s) = mset r"
    using assms(1) by (auto simp: settled_inv_def)
  have "mset (d @ xs) + mset (unsettled_of s') = mset (r @ ys)"
    using assms(4) d(2) by (simp add: add.assoc)
  then show ?thesis using accounts_append [OF d(1) assms(3)] assms(2) by (auto simp: settled_inv_def)
qed

lemma drain_noted:
  "\<exists>bs' w' calls. drainAndExit (noted env) ackWait table b (bs, w, l) = (bs', w', l @ calls) \<and> accounts True (always_dlq env) calls (unsettled_b b)"
proof -
  obtain bs1 w1 c1 where c1: "(case bt_flushing b of Some (j, False) \<Rightarrow> run_job (noted env) ackWait table j (bs, w, l) | _ \<Rightarrow> (bs, w, l)) = (bs1, w1, l @ c1)"
    "accounts True (always_dlq env) c1 (case bt_flushing b of Some (j, False) \<Rightarrow> fj_rows j | _ \<Rightarrow> [])"
  proof (cases "\<exists>j. bt_flushing b = Some (j, False)")
    case True
    then show ?thesis using that run_job_noted by fastforce
  next
    case False
    then show ?thesis using that [of bs w "[]"] by (auto split: option.splits prod.splits bool.splits)
  qed
  show ?thesis
  proof (cases "bt_batch b = []")
    case True
    then show ?thesis using c1 by (simp add: drainAndExit_def unsettled_b_def)
  next
    case False
    obtain bs2 w2 c2 where "run_job (noted env) ackWait table (drain_job b) (bs1, w1, l @ c1) = (bs2, w2, (l @ c1) @ c2)" "accounts True (always_dlq env) c2 (fj_rows (drain_job b))"
      using run_job_noted by metis
    then show ?thesis using c1 False accounts_append [OF c1(2), of c2 "bt_batch b"]
      by (auto simp: drainAndExit_def unsettled_b_def drain_job_def)
  qed
qed

lemma settled_step:
  assumes st: "tableLoop (noted env) ackWait table e s = Some s'" and inv: "settled_inv env s r" and k: "keeps_log [e]"
  shows "settled_inv env s' (r @ arrivals [e])"
proof -
  obtain bs w l where lp: "lp_s s = (bs, w, l)" by (rule prod_cases3)
  show ?thesis
  proof (cases e)
    case (BRow pm)
    obtain b' bs' w' calls xs where a: "batcher_add (noted env) ackWait table pm (lp_b s, bs, w, l) = (b', bs', w', l @ calls)"
      "accounts True (always_dlq env) calls xs" "mset xs + mset (unsettled_b b') = mset (unsettled_b (lp_b s)) + {#pm#}"
      using add_noted by metis
    show ?thesis using st BRow a lp
      by (intro settled_more [OF inv _ a(2)]) (auto simp: lp_put_def unsettled_of_def split: if_splits)
  next
    case BTimer
    then show ?thesis using st lp
      by (intro settled_more [OF inv _ accounts_Nil])
        (auto simp: lp_put_def unsettled_of_def unsettled_requestFlush split: if_splits, simp add: unsettled_b_def)
  next
    case BFlush
    then obtain j where j: "bt_flushing (lp_b s) = Some (j, False)" "\<not> lp_exited s"
      using st by (auto split: if_splits option.splits prod.splits bool.splits)
    obtain bs' w' calls where r: "run_job (noted env) ackWait table j (bs, w, l) = (bs', w', l @ calls)" "accounts True (always_dlq env) calls (fj_rows j)"
      using run_job_noted by metis
    show ?thesis using st BFlush j r lp
      by (intro settled_more [OF inv _ r(2)]) (auto simp: unsettled_of_def unsettled_b_def)
  next
    case BDone
    then obtain j where j: "bt_flushing (lp_b s) = Some (j, True)" "\<not> lp_exited s"
      using st by (auto split: if_splits option.splits prod.splits bool.splits)
    have "mset (unsettled_b (onFlushDone (lp_b s))) = mset (unsettled_b (lp_b s))"
      using j(1) by (simp add: onFlushDone_def Let_def unsettled_requestFlush) (simp add: unsettled_b_def)
    then show ?thesis using st BDone j lp
      by (intro settled_more [OF inv _ accounts_Nil]) (auto simp: lp_put_def unsettled_of_def)
  next
    case BClose
    obtain bs' w' calls where r: "drainAndExit (noted env) ackWait table (lp_b s) (bs, w, l) = (bs', w', l @ calls)"
      "accounts True (always_dlq env) calls (unsettled_b (lp_b s))" using drain_noted by metis
    show ?thesis using st BClose r lp
      by (intro settled_more [OF inv _ r(2)]) (auto simp: unsettled_of_def split: if_splits)
  next
    case (BElsewhere bs2 f)
    then show ?thesis using st k lp
      by (intro settled_more [OF inv _ accounts_Nil]) (auto simp: keeps_log_def unsettled_of_def)
  qed
qed


section \<open>The loop's guarantees\<close>

text \<open>C39. In every state a table's loop reaches, whatever the order of arrivals, timers, flushes and other tables' work: a waiting
  batch has its timer armed or a flush already asked for behind the one in flight, a batch at its byte target has that flush
  asked for, a flush is latched only behind a running one, and the flushes started take the rows in the order they
  arrived, the waiting ones last.\<close>

theorem tableLoop_never_strands:
  assumes "loop_run env ackWait table evs (loop_start sh) = Some s"
  shows "batcher_due (lp_b s) \<and> subseq (concat (map fj_rows (lp_jobs s)) @ (if lp_exited s then [] else bt_batch (lp_b s))) (arrivals evs)"
proof -
  have "batcher_due (lp_b s) \<and> subseq (taken s) (arrivals evs)"
    using assms
  proof (rule loop_run_induct [where P = "\<lambda>es s. batcher_due (lp_b s) \<and> subseq (taken s) (arrivals es)"])
    show "batcher_due (lp_b (loop_start sh)) \<and> subseq (taken (loop_start sh)) (arrivals [])"
      by (simp add: loop_start_def newTableBatcher_def batcher_due_def taken_def in_line_def)
  next
    fix e and es :: "'a loop_event list" and s s' :: "'a loop_state"
    assume "tableLoop env ackWait table e s = Some s'" "batcher_due (lp_b s) \<and> subseq (taken s) (arrivals es)"
    then show "batcher_due (lp_b s') \<and> subseq (taken s') (arrivals (es @ [e]))"
      using due_step taken_step by (metis arrivals_append)
  qed
  then show ?thesis by (simp add: taken_def in_line_def split: if_splits)
qed

definition third_row :: "nat loop_event list" where
  "third_row = [BRow (some_row 1 [''a'']), BRow (some_row 3 [''a'']), BTimer, BRow (some_row 4 [''b'']), BTimer, BFlush, BDone]"

definition served_env :: "nat worker_env" where
  "served_env = refusing_env\<lparr>limits_of := (\<lambda>_ _. Some some_limits)\<rparr>"

definition third_run :: "nat loop_state option" where
  "third_run = loop_run served_env 30 ''logs'' third_row (loop_start (\<lparr>by_key = Map.empty, open_count = 0\<rparr>, 0))"

lemma third_run_jobs: "map_option (\<lambda>s. map (map pm_msg \<circ> fj_rows) (lp_jobs s)) third_run = Some [[1, 3], [4]]"
  by code_simp

theorem tableLoop_never_strands_witness:
  "\<exists>s. third_run = Some s \<and> batcher_due (lp_b s) \<and> map (map pm_msg \<circ> fj_rows) (lp_jobs s) = [[1, 3], [4]]"
proof -
  obtain s where s: "third_run = Some s" "map (map pm_msg \<circ> fj_rows) (lp_jobs s) = [[1, 3], [4]]"
    using third_run_jobs unfolding map_option_eq_Some by (elim exE conjE) (rule that)
  show ?thesis
    using s conjunct1 [OF tableLoop_never_strands [OF s(1) [unfolded third_run_def]]] by (intro exI conjI)
qed

text \<open>C40. Once a table's loop has drained and ended, every row it was given is settled, exactly once: counted under one outcome,
  and acknowledged only after it was inserted or dead-lettered, else handed back to the queue, or left to it when, with the
  dead-letter queue always on, its dead-lettering or the acknowledgement that follows failed.\<close>

theorem tableLoop_settles_all:
  assumes "loop_run (noted env) ackWait table evs (loop_start (bs, w, [])) = Some s" "lp_exited s" "keeps_log evs"
  shows "accounts True (always_dlq env) (snd (snd (lp_s s))) (arrivals evs)"
proof -
  have "settled_inv env s (arrivals evs)"
    using assms(1)
  proof (rule loop_run_induct [where P = "\<lambda>es s. settled_inv env s (arrivals es)"])
    show "settled_inv env (loop_start (bs, w, [])) (arrivals [])"
      by (auto simp: settled_inv_def loop_start_def newTableBatcher_def unsettled_of_def unsettled_b_def)
  next
    fix e :: "('a \<times> worker_call list) loop_event" and es :: "('a \<times> worker_call list) loop_event list" and s s'
    assume "tableLoop (noted env) ackWait table e s = Some s'" "e \<in> set evs" "settled_inv env s (arrivals es)"
    moreover from this have "keeps_log [e]" using assms(3) by (auto simp: keeps_log_def)
    ultimately show "settled_inv env s' (arrivals (es @ [e]))" using settled_step by (metis arrivals_append)
  qed
  then show ?thesis using assms(2) accounts_perm by (auto simp: settled_inv_def unsettled_of_def)
qed

definition closing_events :: "(nat \<times> worker_call list) loop_event list" where
  "closing_events = [BRow (some_row 1 [''a'']), BTimer, BRow (some_row 2 [''a'']), BElsewhere \<lparr>by_key = Map.empty, open_count = 0\<rparr> (\<lambda>(w, l). (w, l)),
     BRow (some_row 3 [''a'']), BFlush, BClose]"

definition closing_run :: "(nat \<times> worker_call list) loop_state option" where
  "closing_run = loop_run (noted served_env) 30 ''logs'' closing_events (loop_start (\<lparr>by_key = Map.empty, open_count = 0\<rparr>, 0, []))"

lemma closing_run_acks:
  "map_option (\<lambda>s. (lp_exited s, acks (snd (snd (lp_s s))), dead_ok (snd (snd (lp_s s))), naks (snd (snd (lp_s s))))) closing_run =
     Some (True, [1, 2, 3], [2], [])"
  by code_simp

theorem tableLoop_settles_all_witness:
  "\<exists>s. closing_run = Some s \<and> accounts True True (snd (snd (lp_s s))) (arrivals closing_events) \<and> acks (snd (snd (lp_s s))) = [1, 2, 3]"
proof -
  obtain s where s: "closing_run = Some s" "lp_exited s" "acks (snd (snd (lp_s s))) = [1, 2, 3]"
    using closing_run_acks unfolding map_option_eq_Some prod.inject by blast
  have "keeps_log closing_events" by (auto simp: keeps_log_def closing_events_def)
  moreover have "always_dlq served_env" by (simp add: always_dlq_def dlq_enabled_def served_env_def refusing_env_def)
  ultimately show ?thesis using s tableLoop_settles_all [OF s(1) [unfolded closing_run_def] s(2)] by (intro exI conjI) simp_all
qed

section \<open>Dispatch\<close>

text \<open>\<^verbatim>\<open>route\<close> of \<^verbatim>\<open>dispatchLoop\<close>: a readable envelope goes to the loop of its tenant and table, which is created on first
  sight; \<open>sent\<close> is what each loop's channel was given. An unreadable one is settled on the spot.\<close>

definition route ::
  "'w worker_env \<Rightarrow> (string \<times> poison \<Rightarrow> string) \<Rightarrow> message \<Rightarrow> (string \<times> string \<rightharpoonup> parsedMsg list) \<times> 'w \<Rightarrow> (string \<times> string \<rightharpoonup> parsedMsg list) \<times> 'w" where
  "route env detail m s =
     (case s of (sent, w) \<Rightarrow>
        (case parseMsg m of
           Inl (table, p) \<Rightarrow> (sent, rejectPoison env m table p (detail (table, p)) w)
         | Inr pm \<Rightarrow>
             (let k = (pm_tenant pm, pm_table pm) in
              (sent(k \<mapsto> (case sent k of None \<Rightarrow> [] | Some ch \<Rightarrow> ch) @ [pm]), w))))"

text \<open>What is still in the channel when delivery ends, and what the halted consumer still delivers, is routed too; a delivery after
  that is handed back. \<open>nak\<close> is \<^verbatim>\<open>Message.Nak\<close>.\<close>

definition dispatchLoop ::
  "'w worker_env \<Rightarrow> (string \<times> poison \<Rightarrow> string) \<Rightarrow> (nat \<Rightarrow> 'w \<Rightarrow> 'w) \<Rightarrow> message list \<Rightarrow> message list \<Rightarrow> message list \<Rightarrow> 'w \<Rightarrow>
     (string \<times> string \<rightharpoonup> parsedMsg list) \<times> 'w" where
  "dispatchLoop env detail nak before halting late w =
     (case fold (route env detail) (before @ halting) (Map.empty, w) of
        (sent, w) \<Rightarrow> (sent, fold (\<lambda>m. nak (msg_id m)) late w))"

definition readable :: "message list \<Rightarrow> parsedMsg list" where
  "readable ms = concat (map (\<lambda>m. case parseMsg m of Inr pm \<Rightarrow> [pm] | Inl _ \<Rightarrow> []) ms)"

definition for_loop :: "string \<times> string \<Rightarrow> parsedMsg list \<Rightarrow> parsedMsg list" where
  "for_loop k pms = filter (\<lambda>pm. (pm_tenant pm, pm_table pm) = k) pms"

lemma route_sent: "fst (route env detail m (sent, w)) = 
    (case parseMsg m of Inl _ \<Rightarrow> sent
     | Inr pm \<Rightarrow> sent((pm_tenant pm, pm_table pm) \<mapsto> (case sent (pm_tenant pm, pm_table pm) of None \<Rightarrow> [] | Some ch \<Rightarrow> ch) @ [pm]))"
  by (auto simp: route_def Let_def split: sum.splits)

lemma routed:
  "fst (fold (route env detail) ms (sent, w)) k =
     (case (sent k, for_loop k (readable ms)) of
        (None, []) \<Rightarrow> None | (None, xs) \<Rightarrow> Some xs | (Some ch, xs) \<Rightarrow> Some (ch @ xs))"
proof (induction ms arbitrary: sent w)
  case Nil
  then show ?case by (simp add: readable_def for_loop_def split: option.splits)
next
  case (Cons m ms)
  obtain sent' w' where r: "route env detail m (sent, w) = (sent', w')" by (rule prod.exhaust)
  have s: "sent' = (case parseMsg m of Inl _ \<Rightarrow> sent
     | Inr pm \<Rightarrow> sent((pm_tenant pm, pm_table pm) \<mapsto> (case sent (pm_tenant pm, pm_table pm) of None \<Rightarrow> [] | Some ch \<Rightarrow> ch) @ [pm]))"
    using route_sent [of env detail m sent w] r by simp
  show ?case using Cons.IH [of sent' w'] s r
    by (auto simp: readable_def for_loop_def split: sum.splits option.splits list.splits)
qed

text \<open>Each loop is given exactly the readable rows of its tenant and table, in delivery order.\<close>

theorem dispatchLoop_routes:
  "fst (dispatchLoop env detail nak before halting late w) k =
     (case for_loop k (readable (before @ halting)) of [] \<Rightarrow> None | xs \<Rightarrow> Some xs)"
  using routed [of env detail "before @ halting" Map.empty w k] by (auto simp: dispatchLoop_def split: prod.splits list.splits)

text \<open>The tenant of a row is its subject's, whatever its envelope says.\<close>

lemma parseMsg_tenant: "parseMsg m = Inr pm \<Longrightarrow> pm_tenant pm = Topic.Tenant (msg_topic m) \<and> pm_msg pm = msg_id m"
  by (auto simp: parseMsg_def split: option.splits if_splits)


text \<open>An unreadable envelope is acknowledged only once the dead-letter queue has it, unless that queue is off for its
  table.\<close>

lemma rejectPoison_noted:
  "\<exists>calls. rejectPoison (noted env) m tableName p d (w, l) = (rejectPoison env m tableName p d w, l @ calls) \<and>
     (dlq_enabled env (Topic.Tenant (msg_topic m)) tableName w \<longrightarrow> ack_safe calls) \<and> set (acks calls) \<subseteq> {msg_id m} \<and>
     inserted calls = [] \<and> naks calls = []"
proof (cases "dlq_enabled env (Topic.Tenant (msg_topic m)) tableName w")
  case True
  obtain ok w1 where d: "dead_letter env (msg_id m) tableName d w = (ok, w1)" by (rule prod.exhaust)
  obtain ok2 w2 where a: "double_ack env (msg_id m) w1 = (ok2, w2)" by (rule prod.exhaust)
  show ?thesis
  proof (cases ok)
    case False
    then show ?thesis using True d
      by (intro exI [of _ "[KDead (msg_id m) False]"]) (auto simp: rejectPoison_def parkOnDLQ_def, auto simp: noted_def)
  next
    case ok: True
    then show ?thesis using True d a
      by (intro exI [of _ "[KDead (msg_id m) True, KAck (msg_id m) ok2] @ (if ok2 then [KPoison tableName (poison_reason p) ''parked''] else [])"])
        (auto simp: rejectPoison_def parkOnDLQ_def ack_safe_def append_eq_Cons_conv Cons_eq_append_conv, auto simp: noted_def)
  qed
next
  case False
  obtain ok w1 where a: "double_ack env (msg_id m) w = (ok, w1)" by (rule prod.exhaust)
  show ?thesis using False a
    by (intro exI [of _ "KAck (msg_id m) ok # (if ok then [KPoison tableName (poison_reason p) ''dropped''] else [])"])
      (auto simp: rejectPoison_def, auto simp: noted_def)
qed

end
