(* ===== verification/Spec2Isabelle.thy ===== *)
theory Spec2Isabelle
  imports Chsql Keyenc Rowfilter Query Pipes Mq Redis_cache Dedupe Assign Backoff Coord Lease_protocol Hub_history Ingest_batch Ingest_store Batcher
begin

text \<open>
  \<^bold>\<open>WaveHouse: a verification development.\<close>

  WaveHouse is a multi-tenant gateway in front of ClickHouse. Requests arrive over HTTP, carry a token with
  claims, and read or write tables of their tenant. A write is checked against the access policy and the
  schema, deduplicated, published to a broker and inserted by ingest workers; a read is a structured query
  or a named pipe, narrowed by the policy's columns and row filters, answered through a query cache that
  writes invalidate; live rows are streamed to subscribers under the same row filters.

  \<^bold>\<open>Layout.\<close> One theory per part, in the order the parts depend on each other. Every Go function is a
  definition of the same name where Isabelle allows it; a struct is a record, an enum or an error family a
  datatype, an error return a sum or an option, a loop a recursion, a machine integer a word or an integer
  with its wrap-around written out; instants and durations are integers of nanoseconds; a mutex makes the
  method one step, and concurrent callers are sequences of such steps. Random draws, clocks, hashes of the
  standard library and the answers of services are arguments.

  \<^item> \<open>Prelude\<close>: byte strings, splitting and joining, big-endian words, shared automation.
  \<^item> \<open>Keyenc\<close> (\<^verbatim>\<open>internal/keyenc\<close>, \<^verbatim>\<open>pkg/tenant\<close>): the composite-key encoding and tenant ids. C1 is its round trip.
  \<^item> \<open>Chsql\<close> (\<^verbatim>\<open>pkg/chsql\<close>): quoting and the scanners of ClickHouse SQL text. C2: a quoted identifier is one
    token, the opaque spans are ordered and disjoint, the write classifier sees through comments.
  \<^item> \<open>Gojson\<close>, \<open>Gotime\<close>: what the sources use of Go's JSON numbers, durations and RFC 3339.
  \<^item> \<open>Canonical\<close>, \<open>Numeric\<close> (\<^verbatim>\<open>pkg/policy/canonical.go\<close>, \<^verbatim>\<open>numeric.go\<close>): operands rendered exactly (C3), compared as
    rationals, and compared as the column stores them (C4).
  \<^item> \<open>Claims\<close>, \<open>Policy\<close>, \<open>Rowfilter\<close> (\<^verbatim>\<open>pkg/policy\<close>): claim templates, the policy document, \<^verbatim>\<open>Evaluate\<close>, \<^verbatim>\<open>Validate\<close> and the
    in-memory row filter. C5 to C8: default deny, a filter on a claim the token does not carry
    (\<open>carries\<close>) hides everything, map order does not matter, an admitted row satisfies the predicate.
  \<^item> \<open>Query\<close> (\<^verbatim>\<open>internal/query\<close>): the structured query builder. C9 to C11: the authorised text in full, one placeholder per
    parameter, a bounded \<^verbatim>\<open>LIMIT\<close>.
  \<^item> \<open>Pipes\<close> (\<^verbatim>\<open>pkg/pipes\<close>): named queries. C12: claims bound from the token alone; literals are inert.
  \<^item> \<open>Shard\<close> (\<^verbatim>\<open>pkg/shard\<close>): the jump hash, with every float operation rounded (C13). Its loop has fuel \<open>n\<close>, the
    number of buckets, which is enough because each round raises the bucket.
  \<^item> \<open>Mq\<close> (\<^verbatim>\<open>internal/mq\<close>): topics and subjects of both brokers (C14).
  \<^item> \<open>Cache\<close>, \<open>Redis_cache\<close> (\<^verbatim>\<open>internal/cache\<close>): the version index and the local cache (C15, C16); the shared cache with
    its tokens, codec, breaker and owed invalidations (C17 to C20), including that it invalidates exactly what
    the local one does.
  \<^item> \<open>Dedupe\<close> (\<^verbatim>\<open>internal/dedupe\<close>): key layouts, the embedded store, its sweep, the \<^verbatim>\<open>Managed\<close> switch (C21 to C23). The
    locale \<open>deduplicator\<close> is the contract the switch relies on, interpreted on the embedded store.
  \<^item> \<open>Assign\<close>, \<open>Backoff\<close> (\<^verbatim>\<open>internal/ingest\<close>): which process owns which unit (C24) and how long a failing ClickHouse is
    left alone (C25).
  \<^item> \<open>Coord\<close> (\<^verbatim>\<open>internal/coord\<close>): the in-process leases as a step relation (C26) and the election loop over the
    locale \<open>coordinator\<close>, interpreted on them (C27).
  \<^item> \<open>Lease\<close>, \<open>Lease_protocol\<close> (\<^verbatim>\<open>internal/mq/lease.go\<close>): the segments of the coordinator over a key-value bucket, and
    the protocol they make: any number of processes, requests that arrive late or never, lost answers. C28:
    no two terms of a lease are in force at one instant, and tokens fence. The bucket is a parameter under
    the named hypothesis \<open>kv_laws\<close>, which a plain map satisfies.
  \<^item> \<open>Discovery\<close> (\<^verbatim>\<open>internal/discovery\<close>): table schemas, row validation and the storage model of a column type, with
    C29: what a validated row may hold.
  \<^item> \<open>Timestamp\<close> (\<^verbatim>\<open>internal/discovery/timestamp.go\<close>): timestamps read in any accepted spelling and rewritten to one,
    with the instant kept (C30).
  \<^item> \<open>Stream\<close> (\<^verbatim>\<open>internal/stream\<close>): one connection's queue and the keepalive wheel; connections and buckets are
    indices into heaps, so that sharing is visible. C31: one keepalive per connection and turn, through reloads.
  \<^item> \<open>Jsondec\<close>: \<^verbatim>\<open>encoding/json\<close> decoding, raw messages and string encoding. The recursions take the length of the text
    as fuel, which is enough because each call reads a byte.
  \<^item> \<open>Hub\<close> (\<^verbatim>\<open>internal/stream/hub.go\<close>): the fan-out of rows. C32: who gets which cells, under the same row
    filter as \<open>Rowfilter\<close>, evaluated per connection. \<open>Hub_history\<close> (and \<^verbatim>\<open>internal/api/stream.go\<close>): what a connection is
    sent, from its opening over its gap-fill to its queue. C33: a column list goes before the rows it names, but for
    the documented gap between the gap-fill's column list and the live one, which \<open>gap_fill_across_a_change\<close> exhibits.
  \<^item> \<open>Ingest\<close>, \<open>Ingest_window\<close> (\<^verbatim>\<open>internal/api/ingest.go\<close>, \<^verbatim>\<open>internal/ingest/compact.go\<close>): a record from validation to its
    envelope (C34), and the window that reserves, publishes and settles, over a record of the
    functions the handler calls (C35, on a log of the calls). \<open>Ingest_batch\<close>: the summary a batch answers
    (C36). \<open>Ingest_store\<close>: windows over \<open>Dedupe\<close>'s embedded store; a record is published once
    (C37).
  \<^item> \<open>Errclass\<close> (\<^verbatim>\<open>internal/chconn/errclass.go\<close>): what a failed insert says about the rows. \<open>Worker\<close>, \<open>Worker_rows\<close>,
    \<open>Worker_flush\<close>, \<open>Batcher\<close> (\<^verbatim>\<open>internal/ingest/worker.go\<close>): a delivery from its envelope to its end, over a record of
    what the worker calls and \<open>Backoff\<close>'s windows. C38: a batch's rows are accounted for (\<open>accounts\<close>), on a log of
    the calls; C39 and C40: the loop of a table, under every order of its
    events, leaves no batch without a flush to come and, drained, has settled every row once.

  \<^bold>\<open>Not modelled.\<close> HTTP handlers, request decoding and wiring; connections to ClickHouse, NATS, Redis and DynamoDB
  (their answers are arguments where a part reacts to them); start-up, configuration files and flags; logs,
  metrics and traces. \<^verbatim>\<open>PROJECT.json\<close> lists each part with what is left out of it.
\<close>

end
